(* ===== verification/Kz_Prelude.thy ===== *)
theory Kz_Prelude
  imports Main "HOL-Library.Word" "HOL-Library.Monad_Syntax"
begin

text \<open>
  Shared vocabulary of the development: the machine integers of the C code, memory as
  lists of cells, and the result type of code that may have no defined result.

  A C function is a HOL function into \<open>'r option\<close> when it can read or write outside
  an object, call through a table past its end, or loop for ever: \<open>None\<close> is "the C
  code has no defined result here", \<open>Some r\<close> is "it returns, with \<open>r\<close>".
  Failure that the C code reports itself (a \<open>PR_FALSE\<close>, a null pointer) is part of \<open>r\<close>.

  A pointer into an object is the list of the cells from that address to the end of the
  object: \<open>p + n\<close> is \<open>drop n p\<close>, \<open>*p\<close> is \<open>rd p 0\<close>.
\<close>

unbundle bit_operations_syntax

type_synonym u8 = "8 word"
type_synonym u16 = "16 word"
type_synonym u32 = "32 word"
type_synonym u64 = "64 word"

named_theorems mem_simps \<open>reads and writes of memory cells\<close>

definition rd :: "'a list \<Rightarrow> nat \<Rightarrow> 'a option" where
  "rd xs i = (if i < length xs then Some (xs ! i) else None)"

definition wr :: "'a list \<Rightarrow> nat \<Rightarrow> 'a \<Rightarrow> 'a list option" where
  "wr xs i x = (if i < length xs then Some (xs[i := x]) else None)"

text \<open>\<open>store p bs\<close> is the sequence of assignments \<open>p[0] = b0; p[1] = b1; ...\<close>.\<close>

definition store :: "'a list \<Rightarrow> 'a list \<Rightarrow> 'a list option" where
  "store buf bs = (if length bs \<le> length buf then Some (bs @ drop (length bs) buf) else None)"

lemma rd_Nil [simp, mem_simps]: "rd [] i = None"
  by (simp add: rd_def)

lemma rd_Cons_0 [simp, mem_simps]: "rd (x # xs) 0 = Some x"
  by (simp add: rd_def)

lemma rd_Cons_Suc [simp, mem_simps]: "rd (x # xs) (Suc i) = rd xs i"
  by (simp add: rd_def)

lemma rd_Cons_numeral [simp, mem_simps]:
  "rd (x # xs) (numeral n) = rd xs (numeral n - 1)"
  by (metis rd_Cons_Suc diff_Suc_1 numeral_eq_Suc)

lemma rd_Cons_1 [simp, mem_simps]: "rd (x # xs) 1 = rd xs 0"
  by (simp add: rd_def)

lemma rd_in [mem_simps]: "i < length xs \<Longrightarrow> rd xs i = Some (xs ! i)"
  by (simp add: rd_def)

lemma rd_None_iff: "rd xs i = None \<longleftrightarrow> length xs \<le> i"
  by (auto simp: rd_def)

lemma rd_Some_iff: "rd xs i = Some x \<longleftrightarrow> i < length xs \<and> xs ! i = x"
  by (auto simp: rd_def)

lemma rd_append1: "i < length xs \<Longrightarrow> rd (xs @ ys) i = rd xs i"
  by (simp add: rd_def nth_append)

lemma rd_drop: "rd (drop n xs) i = rd xs (n + i)"
  by (auto simp: rd_def less_diff_conv add.commute)

lemma wr_Some_iff: "wr xs i x = Some ys \<longleftrightarrow> i < length xs \<and> ys = xs[i := x]"
  by (auto simp: wr_def)

lemma store_Some_iff:
  "store buf bs = Some out \<longleftrightarrow> length bs \<le> length buf \<and> out = bs @ drop (length bs) buf"
  by (auto simp: store_def)

text \<open>\<open>store\<close> is the writes one after the other.\<close>

lemma store_snoc:
  "store buf (bs @ [b]) = Option.bind (store buf bs) (\<lambda>out. wr out (length bs) b)"
proof (cases "Suc (length bs) \<le> length buf")
  case True
  then have "drop (length bs) buf = buf ! length bs # drop (Suc (length bs)) buf"
    by (simp add: Cons_nth_drop_Suc)
  with True show ?thesis by (simp add: store_def wr_def list_update_append)
next
  case False
  then show ?thesis by (auto simp: store_def wr_def)
qed

text \<open>The same from an offset on.\<close>

definition store_at :: "'a list \<Rightarrow> nat \<Rightarrow> 'a list \<Rightarrow> 'a list option" where
  "store_at buf off bs =
     (if off \<le> length buf then do { rest \<leftarrow> store (drop off buf) bs; Some (take off buf @ rest) } else None)"

lemma store_at_Some:
  "off + length bs \<le> length buf \<Longrightarrow> store_at buf off bs = Some (take off buf @ bs @ drop (off + length bs) buf)"
  by (auto simp: store_at_def store_def add.commute)

lemma store_length: "store buf bs = Some out \<Longrightarrow> length out = length buf"
  by (auto simp: store_Some_iff)

subsection \<open>Words\<close>

text \<open>Two bytes put together as the C expression \<open>(h << 8) | l\<close> truncated to 16 bits.\<close>

definition be16 :: "u8 \<Rightarrow> u8 \<Rightarrow> u16" where
  "be16 h l = push_bit 8 (ucast h) OR ucast l"

abbreviation hi8 :: "u16 \<Rightarrow> u8" where
  "hi8 w \<equiv> ucast (drop_bit 8 w AND 0xff)"

abbreviation lo8 :: "u16 \<Rightarrow> u8" where
  "lo8 w \<equiv> ucast (w AND 0xff)"

lemma and_ff [simp]: "(w :: 'a::len word) AND 0xff = take_bit 8 w"
proof -
  have *: "(0xff :: 'a word) = mask 8" by (simp add: mask_eq_exp_minus_1)
  show ?thesis by (simp add: * take_bit_eq_mask)
qed

lemma be16_hi8_lo8 [simp]: "be16 (hi8 w) (lo8 w) = w"
  by (rule bit_word_eqI) (auto simp: be16_def bit_simps)

lemma unat_be16: "unat (be16 h l) = 256 * unat h + unat l"
proof -
  have d: "push_bit 8 (ucast h :: u16) AND ucast l = 0"
    by (rule bit_word_eqI) (auto simp: bit_simps dest: bit_imp_le_length)
  have "be16 h l = push_bit 8 (ucast h) + ucast l"
    unfolding be16_def by (rule disjunctive_add [symmetric])
      (metis d bit_0_eq bit_and_iff bot_apply bot_bool_def)
  moreover have "unat h < 256" "unat l < 256"
    using unsigned_less [of h] unsigned_less [of l] by simp_all
  ultimately show ?thesis
    by (simp add: push_bit_eq_mult unat_word_ariths unsigned_ucast_eq take_bit_eq_mod)
qed

lemma unat_of_nat_u32: "k < 2 ^ 32 \<Longrightarrow> unat (of_nat k :: u32) = k"
  by (simp add: unat_of_nat)

text \<open>Equality of words bit by bit, for goals with masks written as numerals.\<close>

lemma u8_bits_eq:
  "(a :: u8) = b \<longleftrightarrow>
   bit a 0 = bit b 0 \<and>
   bit a 1 = bit b 1 \<and>
   bit a 2 = bit b 2 \<and>
   bit a 3 = bit b 3 \<and>
   bit a 4 = bit b 4 \<and>
   bit a 5 = bit b 5 \<and>
   bit a 6 = bit b 6 \<and>
   bit a 7 = bit b 7"
proof
  assume *: "bit a 0 = bit b 0 \<and> bit a 1 = bit b 1 \<and> bit a 2 = bit b 2 \<and> bit a 3 = bit b 3 \<and> bit a 4 = bit b 4 \<and> bit a 5 = bit b 5 \<and> bit a 6 = bit b 6 \<and> bit a 7 = bit b 7"
  show "a = b"
  proof (rule bit_word_eqI)
    fix n
    assume "n < LENGTH(8)"
    then have "n < 8" by simp
    then show "bit a n = bit b n" using * by (auto simp: eval_nat_numeral less_Suc_eq)
  qed
qed simp

lemma u16_bits_eq:
  "(a :: u16) = b \<longleftrightarrow>
   bit a 0 = bit b 0 \<and>
   bit a 1 = bit b 1 \<and>
   bit a 2 = bit b 2 \<and>
   bit a 3 = bit b 3 \<and>
   bit a 4 = bit b 4 \<and>
   bit a 5 = bit b 5 \<and>
   bit a 6 = bit b 6 \<and>
   bit a 7 = bit b 7 \<and>
   bit a 8 = bit b 8 \<and>
   bit a 9 = bit b 9 \<and>
   bit a 10 = bit b 10 \<and>
   bit a 11 = bit b 11 \<and>
   bit a 12 = bit b 12 \<and>
   bit a 13 = bit b 13 \<and>
   bit a 14 = bit b 14 \<and>
   bit a 15 = bit b 15"
proof
  assume *: "bit a 0 = bit b 0 \<and> bit a 1 = bit b 1 \<and> bit a 2 = bit b 2 \<and> bit a 3 = bit b 3 \<and> bit a 4 = bit b 4 \<and> bit a 5 = bit b 5 \<and> bit a 6 = bit b 6 \<and> bit a 7 = bit b 7 \<and> bit a 8 = bit b 8 \<and> bit a 9 = bit b 9 \<and> bit a 10 = bit b 10 \<and> bit a 11 = bit b 11 \<and> bit a 12 = bit b 12 \<and> bit a 13 = bit b 13 \<and> bit a 14 = bit b 14 \<and> bit a 15 = bit b 15"
  show "a = b"
  proof (rule bit_word_eqI)
    fix n
    assume "n < LENGTH(16)"
    then have "n < 16" by simp
    then show "bit a n = bit b n" using * by (auto simp: eval_nat_numeral less_Suc_eq)
  qed
qed simp

lemma be16_norm [simp]:
  "be16 (ucast (take_bit 8 (drop_bit 8 w))) (ucast (take_bit 8 w)) = w"
  "be16 (ucast (drop_bit 8 w)) (ucast w) = w"
  by (simp_all add: u16_bits_eq be16_def bit_simps)

text \<open>The values of a byte in a range, as a list a quantifier over it can be evaluated on.\<close>

lemma word_range_list:
  assumes "a \<le> unat x" and "unat x < b"
  shows "x \<in> set (map word_of_nat [a..<b])"
proof -
  have "x = word_of_nat (unat x)" by simp
  moreover have "unat x \<in> set [a..<b]" using assms by simp
  ultimately show ?thesis by (metis image_eqI set_map)
qed

lemma unat_u32_less: "unat (x :: u32) < 2 ^ 32"
proof -
  have "unat x < 2 ^ LENGTH(32)" by (rule unsigned_less)
  then show ?thesis by simp
qed

lemma unat_u8_less: "unat (x :: u8) < 256"
proof -
  have "unat x < 2 ^ LENGTH(8)" by (rule unsigned_less)
  then show ?thesis by simp
qed

lemma unat_shift_or:
  assumes "unat x * 2 ^ k < 2 ^ 32" and "unat y < 2 ^ k"
  shows "unat (push_bit k x OR y :: u32) = unat x * 2 ^ k + unat y"
proof -
  have y: "take_bit k y = y"
    using assms(2) by (simp add: word_unat_eq_iff unsigned_take_bit_eq take_bit_nat_eq_self)
  have "\<not> bit (push_bit k x) n \<or> \<not> bit y n" for n
    by (subst y [symmetric]) (simp add: bit_simps)
  then have "push_bit k x OR y = push_bit k x + y" by (simp add: disjunctive_add)
  moreover have p: "unat (push_bit k x) = unat x * 2 ^ k"
    using assms(1)
    by (simp only: unsigned_push_bit_eq) (simp add: push_bit_eq_mult take_bit_nat_eq_self)
  moreover have "unat x * 2 ^ k + unat y < 2 ^ 32"
  proof (cases "k < 32")
    case True
    obtain q where q: "(2 :: nat) ^ 32 = q * 2 ^ k"
      using True by (metis le_add_diff_inverse2 less_imp_le power_add)
    then have "unat x < q" using assms(1) by (simp only: mult_less_cancel2)
    then have "(unat x + 1) * 2 ^ k \<le> q * 2 ^ k" by (intro mult_le_mono1) simp
    with assms(2) q show ?thesis by simp
  next
    case False
    then have "unat x = 0"
      using assms(1) power_increasing [of 32 k "2 :: nat"]
      by (cases "unat x") (auto simp: not_less)
    then show ?thesis using unat_u32_less [of y] by simp
  qed
  ultimately show ?thesis by (simp add: unat_word_ariths)
qed

lemma unat_shift: "unat x * 2 ^ k < 2 ^ 32 \<Longrightarrow> unat (push_bit k x :: u32) = unat x * 2 ^ k"
  using unat_shift_or [of x k 0] by simp

lemma unat_pow2: "k < 32 \<Longrightarrow> unat (push_bit k 1 :: u32) = 2 ^ k"
  using unat_shift [of 1 k] power_strict_increasing [of k 32 "2 :: nat"] by simp

lemma unat_drop_bit_div: "unat (drop_bit k (n :: u32)) = unat n div 2 ^ k"
  by (simp only: unat_drop_bit_eq) (simp add: drop_bit_eq_div)

lemma unat_ucast_8_32 [simp]: "unat (ucast (x :: u8) :: u32) = unat x"
  by (simp add: unsigned_ucast_eq take_bit_nat_eq_self order_less_trans [OF unat_u8_less])

text \<open>A test of the bits from \<open>k\<close> on.\<close>

lemma high_bits:
  fixes b m :: "'a::len word"
  assumes k: "k < LENGTH('a)" and m: "unat m < 2 ^ (LENGTH('a) - k)"
  shows "b AND push_bit k (- 1) = push_bit k m \<longleftrightarrow> unat b div 2 ^ k = unat m"
proof -
  have 1: "b AND push_bit k (- 1) = push_bit k (drop_bit k b)"
    by (rule bit_word_eqI) (auto simp: bit_simps)
  have m': "take_bit (LENGTH('a) - k) m = m"
    using m by (simp add: word_unat_eq_iff unsigned_take_bit_eq take_bit_nat_eq_self)
  have 2: "drop_bit k (push_bit k x) = take_bit (LENGTH('a) - k) x" for x :: "'a word"
    by (rule bit_word_eqI) (auto simp: bit_simps)
  have 3: "take_bit (LENGTH('a) - k) (drop_bit k b) = drop_bit k b"
    by (rule bit_word_eqI) (auto simp: bit_simps dest: bit_imp_le_length)
  have "push_bit k (drop_bit k b) = push_bit k m \<longleftrightarrow> drop_bit k b = m"
    using 2 [of "drop_bit k b"] 2 [of m] 3 m' by metis
  then show ?thesis unfolding 1 by (simp only: word_unat_eq_iff [of "drop_bit k b"] unat_drop_bit_eq) (simp add: drop_bit_eq_div)
qed

lemma div_interval: "0 < n \<Longrightarrow> a div n = m \<longleftrightarrow> m * n \<le> a \<and> a < m * n + (n :: nat)"
  using less_eq_div_iff_mult_less_eq [of n m a] div_less_iff_less_mult [of n a "Suc m"] by auto

lemma unat_and_mask: "unat (b AND mask k) = unat (b :: 'a::len word) mod 2 ^ k"
  by (simp only: unsigned_take_bit_eq take_bit_eq_mask [symmetric]) (simp add: take_bit_eq_mod)

lemma of_nat_u32: "(of_nat (unat b) :: u32) = b"
  by simp

lemma unat_of_nat_u8: "k < 256 \<Longrightarrow> unat (of_nat k :: u8) = k"
  by (simp add: unat_of_nat)

subsection \<open>Integers\<close>

text \<open>The value of a \<open>PRInt32\<close> or \<open>int\<close>, if it is one.\<close>

definition i32 :: "int \<Rightarrow> int option" where
  "i32 x = (if - 2147483648 \<le> x \<and> x < 2147483648 then Some x else None)"

lemma i32_in: "- 2147483648 \<le> x \<Longrightarrow> x < 2147483648 \<Longrightarrow> i32 x = Some x"
  by (simp add: i32_def)

lemma int_div_bounds:
  assumes "0 < (n :: int)"
  shows "a * n \<le> t \<Longrightarrow> a \<le> t div n" "t < a * n \<Longrightarrow> t div n < a"
proof -
  show "a \<le> t div n" if "a * n \<le> t" using zdiv_mono1 [OF that assms] assms by simp
  have "t div n * n \<le> t" using assms pos_mod_sign [OF assms, of t] div_mult_mod_eq [of t n] by linarith
  then show "t div n < a" if "t < a * n" using that assms mult_less_cancel_right_pos [of n "t div n" a] by linarith
qed

end
