(* ===== verification/Uconv_Types.thy ===== *)
theory Uconv_Types
  imports Kz_Prelude
begin

text \<open>
  The data of the table-driven charset converters, \<open>intl/uconv/public/uconvutil.h\<close>: the
  charset classes, the shift cells and the shift table handed to every scanner and generator.
\<close>

subsection \<open>Charset classes\<close>

datatype uScanClassID =
    u1ByteCharset | u2BytesCharset | uMultibytesCharset | u2BytesGRCharset
  | u2BytesGRPrefix8FCharset | u2BytesGRPrefix8EA2Charset | u2BytesSwapCharset
  | u4BytesCharset | u4BytesSwapCharset
  | u2BytesGRPrefix8EA3Charset | u2BytesGRPrefix8EA4Charset | u2BytesGRPrefix8EA5Charset
  | u2BytesGRPrefix8EA6Charset | u2BytesGRPrefix8EA7Charset
  | u1ByteGLCharset | uDecomposedHangulCharset | uJohabHangulCharset
  | uJohabSymbolCharset | u4BytesGB18030Charset | u2BytesGR128Charset

datatype uScanSubClassID =
    u1ByteChar | u2BytesChar | u2BytesGRChar | u1BytePrefix8EChar | u2BytesUTF8 | u3BytesUTF8

text \<open>
  The numbers the C enumerations give their members: the structures below store the number,
  in a \<open>PRInt16\<close> or an \<open>unsigned char\<close>, so a table can also hold a number that is no
  member's.
\<close>

fun class_no :: "uScanClassID \<Rightarrow> nat" where
  "class_no u1ByteCharset = 0"
| "class_no u2BytesCharset = 1"
| "class_no uMultibytesCharset = 2"
| "class_no u2BytesGRCharset = 3"
| "class_no u2BytesGRPrefix8FCharset = 4"
| "class_no u2BytesGRPrefix8EA2Charset = 5"
| "class_no u2BytesSwapCharset = 6"
| "class_no u4BytesCharset = 7"
| "class_no u4BytesSwapCharset = 8"
| "class_no u2BytesGRPrefix8EA3Charset = 9"
| "class_no u2BytesGRPrefix8EA4Charset = 10"
| "class_no u2BytesGRPrefix8EA5Charset = 11"
| "class_no u2BytesGRPrefix8EA6Charset = 12"
| "class_no u2BytesGRPrefix8EA7Charset = 13"
| "class_no u1ByteGLCharset = 14"
| "class_no uDecomposedHangulCharset = 15"
| "class_no uJohabHangulCharset = 16"
| "class_no uJohabSymbolCharset = 17"
| "class_no u4BytesGB18030Charset = 18"
| "class_no u2BytesGR128Charset = 19"

fun subclass_no :: "uScanSubClassID \<Rightarrow> nat" where
  "subclass_no u1ByteChar = 0"
| "subclass_no u2BytesChar = 1"
| "subclass_no u2BytesGRChar = 2"
| "subclass_no u1BytePrefix8EChar = 3"
| "subclass_no u2BytesUTF8 = 4"
| "subclass_no u3BytesUTF8 = 5"

text \<open>The C order on the enumerations is the order of the numbers.\<close>

lemma class_no_inj: "class_no a = class_no b \<Longrightarrow> a = b"
  by (cases a; cases b; simp)

instantiation uScanClassID :: linorder
begin

definition less_eq_uScanClassID :: "uScanClassID \<Rightarrow> uScanClassID \<Rightarrow> bool" where
  "a \<le> b \<longleftrightarrow> class_no a \<le> class_no b"

definition less_uScanClassID :: "uScanClassID \<Rightarrow> uScanClassID \<Rightarrow> bool" where
  "a < b \<longleftrightarrow> class_no a < class_no b"

instance
  by standard (auto simp: less_eq_uScanClassID_def less_uScanClassID_def intro: class_no_inj)

end

lemma class_no_bound: "class_no c < 20"
  by (cases c) simp_all

subsection \<open>Shift cells and shift tables\<close>

record uShiftCell =
  sc_classID :: u8
  sc_reserveLen :: u8
  shiftin_Min :: u8
  shiftin_Max :: u8
  shiftout_MinHB :: u8
  shiftout_MinLB :: u8
  shiftout_MaxHB :: u8
  shiftout_MaxLB :: u8

record uShiftTable =
  numOfItem :: u16   \<comment> \<open>\<open>PRInt16\<close>, read with \<open>sint\<close>\<close>
  st_classID :: u16  \<comment> \<open>\<open>PRInt16\<close>, read with \<open>sint\<close>\<close>
  shiftcell :: "uShiftCell list"

text \<open>\<open>table[k]\<close> for a table of functions and a signed index.\<close>

definition rd_signed :: "'a list \<Rightarrow> int \<Rightarrow> 'a option" where
  "rd_signed xs k = (if k < 0 then None else rd xs (nat k))"

lemma rd_signed_int [simp]: "rd_signed xs (int n) = rd xs n"
  by (simp add: rd_signed_def)

text \<open>The shift tables of a class: what a table holds besides its class is free.\<close>

definition class_table :: "uScanClassID \<Rightarrow> u16 \<Rightarrow> uShiftCell list \<Rightarrow> uShiftTable" where
  "class_table c items cells = \<lparr>numOfItem = items, st_classID = of_nat (class_no c), shiftcell = cells\<rparr>"

lemma class_table_cases:
  assumes "st_classID shift = of_nat (class_no c)"
  obtains items cells where "shift = class_table c items cells"
  using assms by (cases shift) (simp add: class_table_def)

lemma st_classID_class_table [simp]: "st_classID (class_table c items cells) = of_nat (class_no c)"
  by (simp add: class_table_def)

lemma sint_class_no: "sint (of_nat (class_no c) :: u16) = int (class_no c)"
  by (cases c) simp_all

end
