(* ===== verification/Uconv_Gen.thy ===== *)
theory Uconv_Gen
  imports Uconv_Types
begin

text \<open>
  The generators of \<open>intl/uconv/src/ugen.c\<close>: from one 16-bit code of a charset to the
  bytes of that charset. A generator gets the output buffer, its size \<open>outbuflen\<close> and a
  place for the number of bytes written; the registers below are what it can write. The C
  parameter \<open>state\<close> is not read or written by any generator and has no counterpart.
\<close>

record gen_regs =
  g_outlen :: u32         \<comment> \<open>\<open>*outlen\<close>\<close>
  g_out :: "u8 list"      \<comment> \<open>the object \<open>out\<close> points to\<close>

type_synonym gen_res = "(bool \<times> gen_regs) option"
type_synonym gen_fun = "uShiftTable \<Rightarrow> u16 \<Rightarrow> u32 \<Rightarrow> gen_regs \<Rightarrow> gen_res"

text \<open>\<open>*outlen = n; out[0] = b0; ...; return PR_TRUE;\<close>\<close>

definition emit :: "u32 \<Rightarrow> u8 list \<Rightarrow> gen_regs \<Rightarrow> gen_res" where
  "emit n bs g =
     map_option (\<lambda>out. (True, g\<lparr>g_outlen := n, g_out := out\<rparr>)) (store (g_out g) bs)"

subsection \<open>Sub-generators, called through a shift table\<close>

type_synonym subgen_fun = "u16 \<Rightarrow> u8 list \<Rightarrow> (bool \<times> u8 list) option"

definition sub_emit :: "u8 list \<Rightarrow> u8 list \<Rightarrow> (bool \<times> u8 list) option" where
  "sub_emit bs out = map_option (Pair True) (store out bs)"

definition uGenAlways1Byte :: subgen_fun where
  "uGenAlways1Byte w out = sub_emit [ucast w] out"

definition uGenAlways2Byte :: subgen_fun where
  "uGenAlways2Byte w out = sub_emit [ucast (drop_bit 8 w AND 0xff), ucast (w AND 0xff)] out"

definition uGenAlways2ByteShiftGR :: subgen_fun where
  "uGenAlways2ByteShiftGR w out =
     sub_emit [ucast ((drop_bit 8 w AND 0xff) OR 0x80), ucast ((w AND 0xff) OR 0x80)] out"

definition uGenAlways1BytePrefix8E :: subgen_fun where
  "uGenAlways1BytePrefix8E w out = sub_emit [0x8E, ucast (w AND 0xff)] out"

definition uGenAlways2ByteUTF8 :: subgen_fun where
  "uGenAlways2ByteUTF8 w out =
     sub_emit [ucast (0xC0 OR (drop_bit 6 w AND 0x1F)), ucast (0x80 OR (w AND 0x3F))] out"

definition uGenAlways3ByteUTF8 :: subgen_fun where
  "uGenAlways3ByteUTF8 w out =
     sub_emit [ucast (0xE0 OR (drop_bit 12 w AND 0x0F)), ucast (0x80 OR (drop_bit 6 w AND 0x3F)),
               ucast (0x80 OR (w AND 0x3F))] out"

definition m_subgenerator :: "subgen_fun list" where
  "m_subgenerator =
     [uGenAlways1Byte, uGenAlways2Byte, uGenAlways2ByteShiftGR, uGenAlways1BytePrefix8E,
      uGenAlways2ByteUTF8, uGenAlways3ByteUTF8]"

subsection \<open>Generators\<close>

definition uCheckAndGenAlways1Byte :: gen_fun where
  "uCheckAndGenAlways1Byte shift w outbuflen g =
     (if outbuflen < 1 then Some (False, g) else emit 1 [ucast (w AND 0xff)] g)"

definition uCheckAndGenAlways2Byte :: gen_fun where
  "uCheckAndGenAlways2Byte shift w outbuflen g =
     (if outbuflen < 2 then Some (False, g)
      else emit 2 [ucast (drop_bit 8 w AND 0xff), ucast (w AND 0xff)] g)"

definition uCheckAndGenAlways2ByteShiftGR :: gen_fun where
  "uCheckAndGenAlways2ByteShiftGR shift w outbuflen g =
     (if outbuflen < 2 then Some (False, g)
      else emit 2 [ucast ((drop_bit 8 w AND 0xff) OR 0x80), ucast ((w AND 0xff) OR 0x80)] g)"

text \<open>
  The loop over the shift cells: the first argument counts the cells left, \<open>itemnum - i\<close>,
  the second is the pointer \<open>cell + i\<close>.
\<close>

fun uGenByTable_loop :: "nat \<Rightarrow> uShiftCell list \<Rightarrow> u16 \<Rightarrow> u32 \<Rightarrow> gen_regs \<Rightarrow> gen_res" where
  "uGenByTable_loop 0 cell w outbuflen g = Some (False, g)"
| "uGenByTable_loop (Suc k) [] w outbuflen g = None"
| "uGenByTable_loop (Suc k) (c # cell) w outbuflen g =
     (let inH = ucast (drop_bit 8 w AND 0xff); inL = ucast (w AND 0xff) in
      if inL \<ge> shiftout_MinLB c \<and> inL \<le> shiftout_MaxLB c \<and>
         inH \<ge> shiftout_MinHB c \<and> inH \<le> shiftout_MaxHB c
      then if outbuflen < ucast (sc_reserveLen c) then Some (False, g)
           else do {
             subgen \<leftarrow> rd m_subgenerator (unat (sc_classID c));
             (r, out) \<leftarrow> subgen w (g_out g);
             Some (r, g\<lparr>g_outlen := ucast (sc_reserveLen c), g_out := out\<rparr>)
           }
      else uGenByTable_loop k cell w outbuflen g)"

definition uCheckAndGenByTable :: gen_fun where
  "uCheckAndGenByTable shift w outbuflen g =
     uGenByTable_loop (nat (sint (numOfItem shift))) (shiftcell shift) w outbuflen g"

definition uCheckAndGen2ByteGRPrefix8F :: gen_fun where
  "uCheckAndGen2ByteGRPrefix8F shift w outbuflen g =
     (if outbuflen < 3 then Some (False, g)
      else emit 3 [0x8F, ucast ((drop_bit 8 w AND 0xff) OR 0x80), ucast ((w AND 0xff) OR 0x80)] g)"

text \<open>The six CNS 11643 generators differ in the second byte only.\<close>

definition gen_8EAX :: "u8 \<Rightarrow> gen_fun" where
  "gen_8EAX plane shift w outbuflen g =
     (if outbuflen < 4 then Some (False, g)
      else emit 4 [0x8E, plane, ucast ((drop_bit 8 w AND 0xff) OR 0x80),
                   ucast ((w AND 0xff) OR 0x80)] g)"

definition uCheckAndGen2ByteGRPrefix8EA2 :: gen_fun where
  "uCheckAndGen2ByteGRPrefix8EA2 = gen_8EAX 0xA2"

definition uCheckAndGen2ByteGRPrefix8EA3 :: gen_fun where
  "uCheckAndGen2ByteGRPrefix8EA3 = gen_8EAX 0xA3"

definition uCheckAndGen2ByteGRPrefix8EA4 :: gen_fun where
  "uCheckAndGen2ByteGRPrefix8EA4 = gen_8EAX 0xA4"

definition uCheckAndGen2ByteGRPrefix8EA5 :: gen_fun where
  "uCheckAndGen2ByteGRPrefix8EA5 = gen_8EAX 0xA5"

definition uCheckAndGen2ByteGRPrefix8EA6 :: gen_fun where
  "uCheckAndGen2ByteGRPrefix8EA6 = gen_8EAX 0xA6"

definition uCheckAndGen2ByteGRPrefix8EA7 :: gen_fun where
  "uCheckAndGen2ByteGRPrefix8EA7 = gen_8EAX 0xA7"

definition uCheckAndGenAlways2ByteSwap :: gen_fun where
  "uCheckAndGenAlways2ByteSwap shift w outbuflen g =
     (if outbuflen < 2 then Some (False, g)
      else emit 2 [ucast (w AND 0xff), ucast (drop_bit 8 w AND 0xff)] g)"

definition uCheckAndGenAlways4Byte :: gen_fun where
  "uCheckAndGenAlways4Byte shift w outbuflen g =
     (if outbuflen < 4 then Some (False, g)
      else emit 4 [0, 0, ucast (drop_bit 8 w AND 0xff), ucast (w AND 0xff)] g)"

definition uCheckAndGenAlways4ByteSwap :: gen_fun where
  "uCheckAndGenAlways4ByteSwap shift w outbuflen g =
     (if outbuflen < 4 then Some (False, g)
      else emit 4 [ucast (drop_bit 8 w AND 0xff), ucast (w AND 0xff), 0, 0] g)"

definition uCheckAndGenAlways1ByteShiftGL :: gen_fun where
  "uCheckAndGenAlways1ByteShiftGL shift w outbuflen g =
     (if outbuflen < 1 then Some (False, g) else emit 1 [ucast (w AND 0x7f)] g)"

subsection \<open>Hangul\<close>

abbreviation SBase :: u16 where "SBase \<equiv> 0xAC00"
abbreviation VCount :: u16 where "VCount \<equiv> 21"
abbreviation TCount :: u16 where "TCount \<equiv> 28"
abbreviation NCount :: u16 where "NCount \<equiv> 588"

definition ksx_lMap :: "u8 list" where
  "ksx_lMap =
     [0xa1, 0xa2, 0xa4, 0xa7, 0xa8, 0xa9, 0xb1, 0xb2, 0xb3, 0xb5,
      0xb6, 0xb7, 0xb8, 0xb9, 0xba, 0xbb, 0xbc, 0xbd, 0xbe]"

definition ksx_tMap :: "u8 list" where
  "ksx_tMap =
     [0xd4, 0xa1, 0xa2, 0xa3, 0xa4, 0xa5, 0xa6, 0xa7, 0xa9, 0xaa,
      0xab, 0xac, 0xad, 0xae, 0xaf, 0xb0, 0xb1, 0xb2, 0xb4, 0xb5,
      0xb6, 0xb7, 0xb8, 0xba, 0xbb, 0xbc, 0xbd, 0xbe]"

definition uCnGAlways8BytesDecomposedHangul :: gen_fun where
  "uCnGAlways8BytesDecomposedHangul shift w outbuflen g =
     (if outbuflen < 8 then Some (False, g)
      else let SIndex = w - SBase;
               LIndex = SIndex div NCount;
               VIndex = (SIndex mod NCount) div TCount;
               TIndex = SIndex mod TCount
           in do {
             l \<leftarrow> rd ksx_lMap (unat LIndex);
             t \<leftarrow> rd ksx_tMap (unat TIndex);
             emit 8 [0xa4, 0xd4, 0xa4, l, 0xa4, ucast (VIndex + 0xbf), 0xa4, t] g
           })"

definition johab_vMap :: "u8 list" where
  "johab_vMap = [3,4,5,6,7, 10,11,12,13,14,15, 18,19,20,21,22,23, 26,27,28,29]"

definition johab_tMap :: "u8 list" where
  "johab_tMap = [1,2,3,4,5,6,7,8,9,10,11,12,13,14,15,16,17,
                 19,20,21,22,23,24,25,26,27,28,29]"

definition uCheckAndGenJohabHangul :: gen_fun where
  "uCheckAndGenJohabHangul shift w outbuflen g =
     (if outbuflen < 2 then Some (False, g)
      else let SIndex = w - SBase;
               LIndex = SIndex div NCount;
               VIndex = (SIndex mod NCount) div TCount;
               TIndex = SIndex mod TCount
           in do {
             v \<leftarrow> rd johab_vMap (unat VIndex);
             t \<leftarrow> rd johab_tMap (unat TIndex);
             let ch = 0x8000 OR push_bit 10 (LIndex + 2) OR push_bit 5 (ucast v) OR ucast t in
             emit 2 [ucast (drop_bit 8 ch), ucast (ch AND 0xff)] g
           })"

definition uCheckAndGenJohabSymbol :: gen_fun where
  "uCheckAndGenJohabSymbol shift w outbuflen g =
     (if outbuflen < 2 then Some (False, g)
      else let hi = ucast (drop_bit 8 w AND 0x7f) :: u8;
               lo = ucast (w AND 0x7f) :: u8;
               fe_off = (if hi = 126 then 34 else if hi = 73 then 21 else 0);
               hi_off = (if hi < 74 \<or> hi > 125 then 1 else 0);
               lo_off = (if hi < 74 \<or> hi > 125 then 0 else 1)
           in emit 2 [drop_bit 1 (hi + hi_off) + (if hi < 74 then 200 else 187) - fe_off,
                      lo + (if (hi + lo_off) AND 1 \<noteq> 0 then (if lo > 110 then 34 else 16)
                            else 128)] g)"

definition uCheckAndGen4BytesGB18030 :: gen_fun where
  "uCheckAndGen4BytesGB18030 shift w outbuflen g =
     (if outbuflen < 4 then Some (False, g)
      else let b0 = ucast (w div 12600) + 0x81;
               w1 = w mod 12600;
               b1 = ucast (w1 div 1260) + 0x30;
               w2 = w1 mod 1260;
               b2 = ucast (w2 div 10) + 0x81;
               b3 = ucast (w2 mod 10) + 0x30
           in emit 4 [b0, b1, b2, b3] g)"

subsection \<open>Dispatch on the charset class\<close>

definition m_generator :: "gen_fun list" where
  "m_generator =
     [uCheckAndGenAlways1Byte,
      uCheckAndGenAlways2Byte,
      uCheckAndGenByTable,
      uCheckAndGenAlways2ByteShiftGR,
      uCheckAndGen2ByteGRPrefix8F,
      uCheckAndGen2ByteGRPrefix8EA2,
      uCheckAndGenAlways2ByteSwap,
      uCheckAndGenAlways4Byte,
      uCheckAndGenAlways4ByteSwap,
      uCheckAndGen2ByteGRPrefix8EA3,
      uCheckAndGen2ByteGRPrefix8EA4,
      uCheckAndGen2ByteGRPrefix8EA5,
      uCheckAndGen2ByteGRPrefix8EA6,
      uCheckAndGen2ByteGRPrefix8EA7,
      uCheckAndGenAlways1ByteShiftGL,
      uCnGAlways8BytesDecomposedHangul,
      uCheckAndGenJohabHangul,
      uCheckAndGenJohabSymbol,
      uCheckAndGen4BytesGB18030,
      uCheckAndGenAlways2Byte]"

definition uGenerate :: gen_fun where
  "uGenerate shift w outbuflen g = do {
     gen \<leftarrow> rd_signed m_generator (sint (st_classID shift));
     gen shift w outbuflen g
   }"

end
