(* ===== verification/Uconv_Scan.thy ===== *)
theory Uconv_Scan
  imports Uconv_Types
begin

text \<open>
  The scanners of \<open>intl/uconv/src/uscan.c\<close>: from the bytes at \<open>in\<close> to one 16-bit code.
  A scanner gets \<open>inbuflen\<close>, the number of bytes it may read, and writes the code and the
  number of bytes it consumed. The C parameter \<open>state\<close> is not used by any scanner.
  The byte \<open>in[k]\<close> is \<open>rd inp k\<close>; a read past the object has no defined result.
\<close>

record scan_regs =
  s_inscanlen :: u32   \<comment> \<open>\<open>*inscanlen\<close>\<close>
  s_out :: u16         \<comment> \<open>\<open>*out\<close>\<close>

type_synonym scan_res = "(bool \<times> scan_regs) option"
type_synonym scan_fun = "uShiftTable \<Rightarrow> u8 list \<Rightarrow> u32 \<Rightarrow> scan_regs \<Rightarrow> scan_res"

text \<open>\<open>*inscanlen = n; *out = v; return PR_TRUE;\<close>\<close>

definition found :: "u32 \<Rightarrow> u16 \<Rightarrow> scan_regs \<Rightarrow> scan_res" where
  "found n v s = Some (True, s\<lparr>s_inscanlen := n, s_out := v\<rparr>)"

definition CHK_GR94 :: "u8 \<Rightarrow> bool" where
  "CHK_GR94 b \<longleftrightarrow> 0xa0 < b \<and> b < 0xff"

subsection \<open>Sub-scanners, called through a shift table\<close>

type_synonym subscan_fun = "u8 list \<Rightarrow> (bool \<times> u16) option"

definition uScanAlways1Byte :: subscan_fun where
  "uScanAlways1Byte inp = do { b0 \<leftarrow> rd inp 0; Some (True, ucast b0) }"

definition uScanAlways2Byte :: subscan_fun where
  "uScanAlways2Byte inp = do { b0 \<leftarrow> rd inp 0; b1 \<leftarrow> rd inp 1; Some (True, be16 b0 b1) }"

definition uScanAlways2ByteShiftGR :: subscan_fun where
  "uScanAlways2ByteShiftGR inp =
     do { b0 \<leftarrow> rd inp 0; b1 \<leftarrow> rd inp 1; Some (True, be16 b0 b1 AND 0x7F7F) }"

definition uScanAlways1BytePrefix8E :: subscan_fun where
  "uScanAlways1BytePrefix8E inp = do { b1 \<leftarrow> rd inp 1; Some (True, ucast b1) }"

definition uScanAlways2ByteUTF8 :: subscan_fun where
  "uScanAlways2ByteUTF8 inp = do {
     b0 \<leftarrow> rd inp 0; b1 \<leftarrow> rd inp 1;
     Some (True, push_bit 6 (ucast b0 AND 0x001F) OR (ucast b1 AND 0x003F))
   }"

definition uScanAlways3ByteUTF8 :: subscan_fun where
  "uScanAlways3ByteUTF8 inp = do {
     b0 \<leftarrow> rd inp 0; b1 \<leftarrow> rd inp 1; b2 \<leftarrow> rd inp 2;
     Some (True, push_bit 12 (ucast b0 AND 0x000F) OR push_bit 6 (ucast b1 AND 0x003F)
                 OR (ucast b2 AND 0x003F))
   }"

definition m_subscanner :: "subscan_fun list" where
  "m_subscanner =
     [uScanAlways1Byte, uScanAlways2Byte, uScanAlways2ByteShiftGR, uScanAlways1BytePrefix8E,
      uScanAlways2ByteUTF8, uScanAlways3ByteUTF8]"

subsection \<open>Scanners\<close>

definition uCheckAndScanAlways1Byte :: scan_fun where
  "uCheckAndScanAlways1Byte shift inp inbuflen s =
     do { b0 \<leftarrow> rd inp 0; found 1 (ucast b0) s }"

definition uCheckAndScanAlways2Byte :: scan_fun where
  "uCheckAndScanAlways2Byte shift inp inbuflen s =
     (if inbuflen < 2 then Some (False, s)
      else do { b0 \<leftarrow> rd inp 0; b1 \<leftarrow> rd inp 1; found 2 (be16 b0 b1) s })"

definition uCheckAndScanAlways2ByteShiftGR :: scan_fun where
  "uCheckAndScanAlways2ByteShiftGR shift inp inbuflen s =
     (if inbuflen < 2 then Some (False, s)
      else do {
        b1 \<leftarrow> rd inp 1;
        if \<not> CHK_GR94 b1 then found 2 0xFF s
        else do { b0 \<leftarrow> rd inp 0; found 2 (be16 b0 b1 AND 0x7F7F) s }
      })"

text \<open>
  The guard below is the code's \<open>! in[1] & 0x80\<close>: in C, \<open>!\<close> binds tighter than
  \<open>&\<close>, so it is \<open>(!in[1]) & 0x80\<close>, with \<open>!in[1]\<close> the integer 0 or 1.
\<close>

definition c_not :: "u8 \<Rightarrow> u32" where
  "c_not b = (if b = 0 then 1 else 0)"

definition uCheckAndScanAlways2ByteGR128 :: scan_fun where
  "uCheckAndScanAlways2ByteGR128 shift inp inbuflen s =
     (if inbuflen < 2 then Some (False, s)
      else do {
        b1 \<leftarrow> rd inp 1;
        if c_not b1 AND 0x80 \<noteq> 0 then found 2 0xFF s
        else do { b0 \<leftarrow> rd inp 0; found 2 (be16 b0 b1) s }
      })"

text \<open>The loop over the shift cells, as in the generators.\<close>

fun uScanByTable_loop :: "nat \<Rightarrow> uShiftCell list \<Rightarrow> u8 list \<Rightarrow> u32 \<Rightarrow> scan_regs \<Rightarrow> scan_res" where
  "uScanByTable_loop 0 cell inp inbuflen s = Some (False, s)"
| "uScanByTable_loop (Suc k) [] inp inbuflen s = None"
| "uScanByTable_loop (Suc k) (c # cell) inp inbuflen s = do {
     b0 \<leftarrow> rd inp 0;
     if b0 \<ge> shiftin_Min c \<and> b0 \<le> shiftin_Max c
     then if inbuflen < ucast (sc_reserveLen c) then Some (False, s)
          else do {
            subscan \<leftarrow> rd m_subscanner (unat (sc_classID c));
            (r, v) \<leftarrow> subscan inp;
            Some (r, s\<lparr>s_inscanlen := ucast (sc_reserveLen c), s_out := v\<rparr>)
          }
     else uScanByTable_loop k cell inp inbuflen s
   }"

definition uCheckAndScanByTable :: scan_fun where
  "uCheckAndScanByTable shift inp inbuflen s =
     uScanByTable_loop (nat (sint (numOfItem shift))) (shiftcell shift) inp inbuflen s"

definition uCheckAndScan2ByteGRPrefix8F :: scan_fun where
  "uCheckAndScan2ByteGRPrefix8F shift inp inbuflen s =
     (if inbuflen < 3 then Some (False, s)
      else do {
        b0 \<leftarrow> rd inp 0;
        if b0 \<noteq> 0x8F then Some (False, s)
        else do {
          b1 \<leftarrow> rd inp 1;
          if \<not> CHK_GR94 b1 then found 2 0xFF s
          else do {
            b2 \<leftarrow> rd inp 2;
            if \<not> CHK_GR94 b2 then found 3 0xFF s
            else found 3 (be16 b1 b2 AND 0x7F7F) s
          }
        }
      })"

text \<open>The macro the six CNS 11643 scanners expand.\<close>

definition CNS_8EAX_4BYTE :: "u8 \<Rightarrow> scan_fun" where
  "CNS_8EAX_4BYTE PREFIX shift inp inbuflen s =
     (if inbuflen < 4 then Some (False, s)
      else do {
        b0 \<leftarrow> rd inp 0;
        if b0 \<noteq> 0x8E then Some (False, s)
        else do {
          b1 \<leftarrow> rd inp 1;
          if b1 \<noteq> PREFIX then found 2 0xFF s
          else do {
            b2 \<leftarrow> rd inp 2;
            if \<not> CHK_GR94 b2 then found 3 0xFF s
            else do {
              b3 \<leftarrow> rd inp 3;
              if \<not> CHK_GR94 b3 then found 4 0xFF s
              else found 4 (be16 b2 b3 AND 0x7F7F) s
            }
          }
        }
      })"

definition uCheckAndScan2ByteGRPrefix8EA2 :: scan_fun where
  "uCheckAndScan2ByteGRPrefix8EA2 = CNS_8EAX_4BYTE 0xA2"

definition uCheckAndScan2ByteGRPrefix8EA3 :: scan_fun where
  "uCheckAndScan2ByteGRPrefix8EA3 = CNS_8EAX_4BYTE 0xA3"

definition uCheckAndScan2ByteGRPrefix8EA4 :: scan_fun where
  "uCheckAndScan2ByteGRPrefix8EA4 = CNS_8EAX_4BYTE 0xA4"

definition uCheckAndScan2ByteGRPrefix8EA5 :: scan_fun where
  "uCheckAndScan2ByteGRPrefix8EA5 = CNS_8EAX_4BYTE 0xA5"

definition uCheckAndScan2ByteGRPrefix8EA6 :: scan_fun where
  "uCheckAndScan2ByteGRPrefix8EA6 = CNS_8EAX_4BYTE 0xA6"

definition uCheckAndScan2ByteGRPrefix8EA7 :: scan_fun where
  "uCheckAndScan2ByteGRPrefix8EA7 = CNS_8EAX_4BYTE 0xA7"

definition uCheckAndScanAlways2ByteSwap :: scan_fun where
  "uCheckAndScanAlways2ByteSwap shift inp inbuflen s =
     (if inbuflen < 2 then Some (False, s)
      else do { b1 \<leftarrow> rd inp 1; b0 \<leftarrow> rd inp 0; found 2 (be16 b1 b0) s })"

definition uCheckAndScanAlways4Byte :: scan_fun where
  "uCheckAndScanAlways4Byte shift inp inbuflen s =
     (if inbuflen < 4 then Some (False, s)
      else do {
        b0 \<leftarrow> rd inp 0; b1 \<leftarrow> rd inp 1; b2 \<leftarrow> rd inp 2; b3 \<leftarrow> rd inp 3;
        if 0 = b0 \<and> 0 = b1 then found 4 (be16 b2 b3) s else found 4 0xFFFD s
      })"

definition uCheckAndScanAlways4ByteSwap :: scan_fun where
  "uCheckAndScanAlways4ByteSwap shift inp inbuflen s =
     (if inbuflen < 4 then Some (False, s)
      else do {
        b0 \<leftarrow> rd inp 0; b1 \<leftarrow> rd inp 1; b2 \<leftarrow> rd inp 2; b3 \<leftarrow> rd inp 3;
        if 0 = b2 \<and> 0 = b3 then found 4 (be16 b1 b0) s else found 4 0xFFFD s
      })"

definition uCheckAndScanAlways1ByteShiftGL :: scan_fun where
  "uCheckAndScanAlways1ByteShiftGL shift inp inbuflen s =
     do { b0 \<leftarrow> rd inp 0; found 1 (ucast b0 OR 0x80) s }"

subsection \<open>Hangul\<close>

text \<open>
  The tables of the scanner of decomposed Hangul, indexed by \<open>in[3] - 0xa1\<close> and
  \<open>in[7] - 0xa1\<close>. The index is a C \<open>int\<close>, which is negative for a byte under
  \<open>0xa1\<close>.
\<close>

definition ksx_lUnmap :: "u8 list" where
  "ksx_lUnmap =
     [0, 1, 0xff, 2, 0xff, 0xff, 3,
      4, 5, 0xff, 0xff, 0xff, 0xff, 0xff, 0xff,
      0xff, 6, 7, 8, 0xff, 9, 10, 11,
      12, 13, 14, 15, 16, 17, 18]"

definition ksx_tUnmap :: "u8 list" where
  "ksx_tUnmap =
     [1, 2, 3, 4, 5, 6, 7,
      0xff, 8, 9, 10, 11, 12, 13, 14,
      15, 16, 17, 0xff, 18, 19, 20, 21,
      22, 0xff, 23, 24, 25, 26, 27]"

definition hangul_compose :: "u16 \<Rightarrow> u16 \<Rightarrow> u16 \<Rightarrow> u16" where
  "hangul_compose LIndex VIndex TIndex = (LIndex * 21 + VIndex) * 28 + TIndex + 0xAC00"

definition uCnSAlways8BytesDecomposedHangul :: scan_fun where
  "uCnSAlways8BytesDecomposedHangul shift inp inbuflen s =
     (if inbuflen < 8 then Some (False, s)
      else do {
        b0 \<leftarrow> rd inp 0; b1 \<leftarrow> rd inp 1; b2 \<leftarrow> rd inp 2; b4 \<leftarrow> rd inp 4; b6 \<leftarrow> rd inp 6;
        if 0xa4 \<noteq> b0 \<or> 0xd4 \<noteq> b1 \<or> 0xa4 \<noteq> b2 \<or> 0xa4 \<noteq> b4 \<or> 0xa4 \<noteq> b6 then Some (False, s)
        else do {
          b3 \<leftarrow> rd inp 3;
          if b3 < 0xa1 \<and> b3 > 0xbe then Some (False, s)
          else do {
            LIndex \<leftarrow> rd_signed ksx_lUnmap (uint b3 - 0xa1);
            if 0xff = (0xff AND LIndex) then Some (False, s)
            else do {
              b5 \<leftarrow> rd inp 5;
              if b5 < 0xbf \<and> b5 > 0xd3 then Some (False, s)
              else let VIndex = ucast b5 - 0xbf :: u16 in do {
                b7 \<leftarrow> rd inp 7;
                if 0xd4 = b7 then found 8 (hangul_compose (ucast LIndex) VIndex 0) s
                else if b7 < 0xa1 \<and> b7 > 0xbe then Some (False, s)
                else do {
                  TIndex \<leftarrow> rd_signed ksx_tUnmap (uint b7 - 0xa1);
                  if 0xff = (0xff AND TIndex) then Some (False, s)
                  else found 8 (hangul_compose (ucast LIndex) VIndex (ucast TIndex)) s
                }
              }
            }
          }
        }
      })"

definition johab_lUnmap :: "u8 list" where
  "johab_lUnmap =
     [0xff, 0xff, 0, 1, 2, 3, 4, 5,
      6, 7, 8, 9, 10, 11, 12, 13,
      14, 15, 16, 17, 18, 0xff, 0xff, 0xff,
      0xff, 0xff, 0xff, 0xff, 0xff, 0xff, 0xff, 0xff]"

definition johab_vUnmap :: "u8 list" where
  "johab_vUnmap =
     [0xff, 0xff, 0xff, 0, 1, 2, 3, 4,
      0xff, 0xff, 5, 6, 7, 8, 9, 10,
      0xff, 0xff, 11, 12, 13, 14, 15, 16,
      0xff, 0xff, 17, 18, 19, 20, 0xff, 0xff]"

definition johab_tUnmap :: "u8 list" where
  "johab_tUnmap =
     [0xff, 0, 1, 2, 3, 4, 5, 6,
      7, 8, 9, 10, 11, 12, 13, 14,
      15, 16, 0xff, 17, 18, 19, 20, 21,
      22, 23, 24, 25, 26, 27, 0xff, 0xff]"

definition uCheckAndScanJohabHangul :: scan_fun where
  "uCheckAndScanJohabHangul shift inp inbuflen s =
     (if inbuflen < 2 then Some (False, s)
      else do {
        b0 \<leftarrow> rd inp 0; b1 \<leftarrow> rd inp 1;
        let ch = be16 b0 b1 in
        if 0 = (0x8000 AND ch) then Some (False, s)
        else do {
          LIndex \<leftarrow> rd johab_lUnmap (unat (drop_bit 10 ch AND 0x1F));
          VIndex \<leftarrow> rd johab_vUnmap (unat (drop_bit 5 ch AND 0x1F));
          TIndex \<leftarrow> rd johab_tUnmap (unat (ch AND 0x1F));
          if 0xff = LIndex \<or> 0xff = VIndex \<or> 0xff = TIndex then Some (False, s)
          else found 2 (hangul_compose (ucast LIndex) (ucast VIndex) (ucast TIndex)) s
        }
      })"

text \<open>
  The arithmetic below is on the C \<open>int\<close>, here 32 bits wide; only the low 16 bits reach
  \<open>*out\<close>.
\<close>

definition johab_sym_h :: "u8 \<Rightarrow> u8 \<Rightarrow> u32" where
  "johab_sym_h hi lo =
     (let offset = (if hi > 223 \<and> hi < 250 then 1 else 0);
          d8_off = (if 216 = hi then if lo > 160 then 94 else 42 else 0)
      in push_bit 1 (ucast hi - (if hi < 223 then 200 else 187))
           - (if lo < 161 then 1 else 0) + offset + d8_off)"

definition johab_sym_l :: "u8 \<Rightarrow> u32" where
  "johab_sym_l lo = ucast lo - (if lo < 161 then if lo > 126 then 34 else 16 else 128)"

definition uCheckAndScanJohabSymbol :: scan_fun where
  "uCheckAndScanJohabSymbol shift inp inbuflen s =
     (if inbuflen < 2 then Some (False, s)
      else do {
        hi \<leftarrow> rd inp 0; lo \<leftarrow> rd inp 1;
        found 2 (ucast (push_bit 8 (johab_sym_h hi lo) OR johab_sym_l lo)) s
      })"

definition uCheckAndScan4BytesGB18030 :: scan_fun where
  "uCheckAndScan4BytesGB18030 shift inp inbuflen s =
     (if inbuflen < 4 then Some (False, s)
      else do {
        b0 \<leftarrow> rd inp 0;
        if b0 < 0x81 \<or> 0xfe < b0 then Some (False, s) else do {
        b1 \<leftarrow> rd inp 1;
        if b1 < 0x30 \<or> 0x39 < b1 then Some (False, s) else do {
        b2 \<leftarrow> rd inp 2;
        if b2 < 0x81 \<or> 0xfe < b2 then Some (False, s) else do {
        b3 \<leftarrow> rd inp 3;
        if b3 < 0x30 \<or> 0x39 < b3 then Some (False, s)
        else let data = (((ucast b0 - 0x81) * 10 + (ucast b1 - 0x30)) * 126
                          + (ucast b2 - 0x81)) * 10 + (ucast b3 - 0x30) :: u32
             in found 4 (if data < 0x00010000 then ucast data else 0xFFFD) s
        }}}
      })"

subsection \<open>Dispatch on the charset class\<close>

definition m_scanner :: "scan_fun list" where
  "m_scanner =
     [uCheckAndScanAlways1Byte,
      uCheckAndScanAlways2Byte,
      uCheckAndScanByTable,
      uCheckAndScanAlways2ByteShiftGR,
      uCheckAndScan2ByteGRPrefix8F,
      uCheckAndScan2ByteGRPrefix8EA2,
      uCheckAndScanAlways2ByteSwap,
      uCheckAndScanAlways4Byte,
      uCheckAndScanAlways4ByteSwap,
      uCheckAndScan2ByteGRPrefix8EA3,
      uCheckAndScan2ByteGRPrefix8EA4,
      uCheckAndScan2ByteGRPrefix8EA5,
      uCheckAndScan2ByteGRPrefix8EA6,
      uCheckAndScan2ByteGRPrefix8EA7,
      uCheckAndScanAlways1ByteShiftGL,
      uCnSAlways8BytesDecomposedHangul,
      uCheckAndScanJohabHangul,
      uCheckAndScanJohabSymbol,
      uCheckAndScan4BytesGB18030,
      uCheckAndScanAlways2ByteGR128]"

definition uScan :: scan_fun where
  "uScan shift inp inbuflen s = do {
     scan \<leftarrow> rd_signed m_scanner (sint (st_classID shift));
     scan shift inp inbuflen s
   }"

end
