(* ===== verification/Uconv_Codec.thy ===== *)
theory Uconv_Codec
  imports Uconv_Gen Uconv_Scan
begin

text \<open>
  What \<open>ugen.c\<close> and \<open>uscan.c\<close> promise together: on the codes a charset class can
  represent, a generator writes a fixed number of bytes and the scanner of the same class
  reads them back. The contract is the locale \<open>codec\<close>; it is interpreted on \<open>uGenerate\<close>
  and \<open>uScan\<close> for the charset classes at the end of the theory.
\<close>

subsection \<open>The contract of a generator and its scanner\<close>

text \<open>The codes of a whole buffer, one scanner call after the other.\<close>

fun scan_stream :: "nat \<Rightarrow> (u8 list \<Rightarrow> u32 \<Rightarrow> scan_regs \<Rightarrow> scan_res) \<Rightarrow> u8 list \<Rightarrow> u16 list option" where
  "scan_stream 0 scan inp = (if inp = [] then Some [] else None)"
| "scan_stream (Suc k) scan inp =
     (if inp = [] then Some []
      else case scan inp (of_nat (length inp)) \<lparr>s_inscanlen = 0, s_out = 0\<rparr> of
             Some (True, s) \<Rightarrow>
               map_option (Cons (s_out s)) (scan_stream k scan (drop (unat (s_inscanlen s)) inp))
           | _ \<Rightarrow> None)"

locale codec =
  fixes gen :: "u16 \<Rightarrow> u32 \<Rightarrow> gen_regs \<Rightarrow> gen_res"
    and scan :: "u8 list \<Rightarrow> u32 \<Rightarrow> scan_regs \<Rightarrow> scan_res"
    and dom :: "u16 \<Rightarrow> bool"
    and enc :: "u16 \<Rightarrow> u8 list"
    and len :: nat
  assumes enc_length: "dom w \<Longrightarrow> length (enc w) = len"
    and len_bounds: "dom w \<Longrightarrow> 0 < len \<and> len \<le> 8"
    and gen_no_room: "dom w \<Longrightarrow> unat n < len \<Longrightarrow> gen w n g = Some (False, g)"
    and gen_writes: "dom w \<Longrightarrow> len \<le> unat n \<Longrightarrow> len \<le> length (g_out g) \<Longrightarrow>
      gen w n g = Some (True, g\<lparr>g_outlen := of_nat len, g_out := enc w @ drop len (g_out g)\<rparr>)"
    and scan_enc: "dom w \<Longrightarrow> len \<le> unat n \<Longrightarrow>
      scan (enc w @ rest) n s = Some (True, s\<lparr>s_inscanlen := of_nat len, s_out := w\<rparr>)"
begin

lemma len_of_nat: "dom w \<Longrightarrow> unat (of_nat len :: u32) = len"
proof -
  assume "dom w"
  then have "len \<le> 8" using len_bounds by blast
  then show ?thesis by (simp add: unat_of_nat)
qed

lemma roundtrip:
  assumes "dom w" and "len \<le> unat n" and "len \<le> length (g_out g)"
  shows "\<exists>g'. gen w n g = Some (True, g') \<and> unat (g_outlen g') = len
    \<and> length (g_out g') = length (g_out g) \<and> drop len (g_out g') = drop len (g_out g)
    \<and> (\<forall>m s. len \<le> unat m \<longrightarrow>
          scan (g_out g') m s = Some (True, s\<lparr>s_inscanlen := g_outlen g', s_out := w\<rparr>))"
  using assms by (simp add: gen_writes len_of_nat enc_length scan_enc)

lemma stream_roundtrip:
  assumes "\<forall>w \<in> set ws. dom w" and "len * length ws < 2 ^ 32"
  shows "scan_stream (length ws) scan (concat (map enc ws)) = Some ws"
  using assms
proof (induction ws)
  case Nil
  then show ?case by simp
next
  case (Cons w ws)
  then have w: "dom w" by simp
  have l: "length (concat (map enc xs)) = len * length xs" if "\<forall>w \<in> set xs. dom w" for xs
    using that by (induction xs) (simp_all add: enc_length)
  let ?inp = "enc w @ concat (map enc ws)"
  have len: "length ?inp = len + len * length ws"
    using Cons.prems(1) w l [of ws] by (simp add: enc_length)
  have pos: "0 < len" using w len_bounds by blast
  have "length ?inp < 2 ^ 32" using Cons.prems(2) len by simp
  then have n: "len \<le> unat (of_nat (length ?inp) :: u32)"
    by (metis le_add1 len unat_of_nat_u32)
  have "scan ?inp (of_nat (length ?inp)) \<lparr>s_inscanlen = 0, s_out = 0\<rparr>
      = Some (True, \<lparr>s_inscanlen = of_nat len, s_out = w\<rparr>)"
    using scan_enc [OF w n] by simp
  moreover have "scan_stream (length ws) scan (concat (map enc ws)) = Some ws"
    using Cons by simp
  moreover have "enc w \<noteq> []" using pos w enc_length by force
  ultimately show ?case using w by (simp add: len_of_nat enc_length)
qed

end

subsection \<open>What the charset classes represent\<close>

text \<open>
  The codes each class is for, and the bytes it stands for on them. A multi-byte class has
  no codes of its own: its shift table gives them. The class \<open>u4BytesSwapCharset\<close> is
  treated apart, below: its generator and scanner do not agree.
\<close>

definition gr94 :: "u16 \<Rightarrow> bool" where
  "gr94 w \<longleftrightarrow> 0x21 \<le> hi8 w \<and> hi8 w \<le> 0x7e \<and> 0x21 \<le> lo8 w \<and> lo8 w \<le> 0x7e"

definition hangul :: "u16 \<Rightarrow> bool" where
  "hangul w \<longleftrightarrow> 0xAC00 \<le> w \<and> w \<le> 0xD7A3"

definition johab_symbol :: "u16 \<Rightarrow> bool" where
  "johab_symbol w \<longleftrightarrow> gr94 w \<and> (hi8 w < 0x2d \<or> 0x49 \<le> hi8 w)"

fun representable :: "uScanClassID \<Rightarrow> u16 \<Rightarrow> bool" where
  "representable u1ByteCharset w = (w < 0x100)"
| "representable u2BytesCharset w = True"
| "representable uMultibytesCharset w = False"
| "representable u2BytesGRCharset w = gr94 w"
| "representable u2BytesSwapCharset w = True"
| "representable u4BytesCharset w = True"
| "representable u4BytesSwapCharset w = False"
| "representable u1ByteGLCharset w = (0x80 \<le> w \<and> w < 0x100)"
| "representable uDecomposedHangulCharset w = hangul w"
| "representable uJohabHangulCharset w = hangul w"
| "representable uJohabSymbolCharset w = johab_symbol w"
| "representable u4BytesGB18030Charset w = True"
| "representable u2BytesGR128Charset w = True"
| "representable _ w = gr94 w"

fun class_len :: "uScanClassID \<Rightarrow> nat" where
  "class_len u1ByteCharset = 1"
| "class_len u1ByteGLCharset = 1"
| "class_len u2BytesCharset = 2"
| "class_len u2BytesGRCharset = 2"
| "class_len u2BytesSwapCharset = 2"
| "class_len u2BytesGR128Charset = 2"
| "class_len uJohabHangulCharset = 2"
| "class_len uJohabSymbolCharset = 2"
| "class_len u2BytesGRPrefix8FCharset = 3"
| "class_len uDecomposedHangulCharset = 8"
| "class_len uMultibytesCharset = 0"
| "class_len _ = 4"

definition gr_bytes :: "u16 \<Rightarrow> u8 list" where
  "gr_bytes w = [hi8 w OR 0x80, lo8 w OR 0x80]"

definition L_of :: "u16 \<Rightarrow> nat" where "L_of w = (unat w - 0xAC00) div 588"
definition V_of :: "u16 \<Rightarrow> nat" where "V_of w = (unat w - 0xAC00) mod 588 div 28"
definition T_of :: "u16 \<Rightarrow> nat" where "T_of w = (unat w - 0xAC00) mod 28"

definition johab_code :: "u16 \<Rightarrow> u16" where
  "johab_code w = 0x8000 OR push_bit 10 (of_nat (L_of w) + 2)
     OR push_bit 5 (ucast (johab_vMap ! V_of w)) OR ucast (johab_tMap ! T_of w)"

definition sym_hi :: "u8 \<Rightarrow> u8" where
  "sym_hi hi =
     drop_bit 1 (hi + of_bool (hi < 74 \<or> hi > 125)) + (if hi < 74 then 200 else 187)
       - (if hi = 126 then 34 else if hi = 73 then 21 else 0)"

definition sym_odd :: "u8 \<Rightarrow> bool" where
  "sym_odd hi \<longleftrightarrow> (hi + of_bool (\<not> (hi < 74 \<or> hi > 125))) AND 1 \<noteq> 0"

definition sym_lo :: "bool \<Rightarrow> u8 \<Rightarrow> u8" where
  "sym_lo p lo = lo + (if p then (if lo > 110 then 34 else 16) else 128)"

definition johab_sym_bytes :: "u16 \<Rightarrow> u8 list" where
  "johab_sym_bytes w = [sym_hi (hi8 w), sym_lo (sym_odd (hi8 w)) (lo8 w)]"

fun class_enc :: "uScanClassID \<Rightarrow> u16 \<Rightarrow> u8 list" where
  "class_enc u1ByteCharset w = [lo8 w]"
| "class_enc u2BytesCharset w = [hi8 w, lo8 w]"
| "class_enc u2BytesGR128Charset w = [hi8 w, lo8 w]"
| "class_enc u2BytesSwapCharset w = [lo8 w, hi8 w]"
| "class_enc u4BytesCharset w = [0, 0, hi8 w, lo8 w]"
| "class_enc u2BytesGRCharset w = gr_bytes w"
| "class_enc u2BytesGRPrefix8FCharset w = 0x8F # gr_bytes w"
| "class_enc u2BytesGRPrefix8EA2Charset w = 0x8E # 0xA2 # gr_bytes w"
| "class_enc u2BytesGRPrefix8EA3Charset w = 0x8E # 0xA3 # gr_bytes w"
| "class_enc u2BytesGRPrefix8EA4Charset w = 0x8E # 0xA4 # gr_bytes w"
| "class_enc u2BytesGRPrefix8EA5Charset w = 0x8E # 0xA5 # gr_bytes w"
| "class_enc u2BytesGRPrefix8EA6Charset w = 0x8E # 0xA6 # gr_bytes w"
| "class_enc u2BytesGRPrefix8EA7Charset w = 0x8E # 0xA7 # gr_bytes w"
| "class_enc u1ByteGLCharset w = [ucast (w AND 0x7f)]"
| "class_enc uDecomposedHangulCharset w =
     [0xa4, 0xd4, 0xa4, ksx_lMap ! L_of w, 0xa4, of_nat (V_of w + 0xbf), 0xa4, ksx_tMap ! T_of w]"
| "class_enc uJohabHangulCharset w = [hi8 (johab_code w), lo8 (johab_code w)]"
| "class_enc uJohabSymbolCharset w = johab_sym_bytes w"
| "class_enc u4BytesGB18030Charset w =
     [of_nat (unat w div 12600 + 0x81), of_nat (unat w mod 12600 div 1260 + 0x30),
      of_nat (unat w mod 1260 div 10 + 0x81), of_nat (unat w mod 10 + 0x30)]"
| "class_enc _ w = []"

lemma class_enc_length: "representable c w \<Longrightarrow> length (class_enc c w) = class_len c"
  by (cases c) (simp_all add: gr_bytes_def johab_sym_bytes_def Let_def)

lemma class_len_bounds: "representable c w \<Longrightarrow> 0 < class_len c \<and> class_len c \<le> 8"
  by (cases c) simp_all

subsection \<open>Dispatch and byte lemmas\<close>


lemma emit_ok:
  "length bs \<le> length (g_out g) \<Longrightarrow>
   emit n bs g = Some (True, g\<lparr>g_outlen := n, g_out := bs @ drop (length bs) (g_out g)\<rparr>)"
  by (simp add: emit_def store_def)

lemma uGenerate_class:
  assumes "st_classID shift = of_nat (class_no c)"
  shows "uGenerate shift w n g = (m_generator ! class_no c) shift w n g"
  using assms class_no_bound [of c]
  by (simp add: uGenerate_def rd_signed_def sint_class_no rd_def m_generator_def del: class_no.simps)

lemma uScan_class:
  assumes "st_classID shift = of_nat (class_no c)"
  shows "uScan shift inp n s = (m_scanner ! class_no c) shift inp n s"
  using assms class_no_bound [of c]
  by (simp add: uScan_def rd_signed_def sint_class_no rd_def m_scanner_def del: class_no.simps)

lemmas gen_defs = m_generator_def
  uCheckAndGenAlways1Byte_def uCheckAndGenAlways2Byte_def uCheckAndGenAlways2ByteShiftGR_def
  uCheckAndGen2ByteGRPrefix8F_def gen_8EAX_def
  uCheckAndGen2ByteGRPrefix8EA2_def uCheckAndGen2ByteGRPrefix8EA3_def
  uCheckAndGen2ByteGRPrefix8EA4_def uCheckAndGen2ByteGRPrefix8EA5_def
  uCheckAndGen2ByteGRPrefix8EA6_def uCheckAndGen2ByteGRPrefix8EA7_def
  uCheckAndGenAlways2ByteSwap_def uCheckAndGenAlways4Byte_def uCheckAndGenAlways4ByteSwap_def
  uCheckAndGenAlways1ByteShiftGL_def

lemmas scan_defs = m_scanner_def found_def
  uCheckAndScanAlways1Byte_def uCheckAndScanAlways2Byte_def uCheckAndScanAlways2ByteShiftGR_def
  uCheckAndScanAlways2ByteGR128_def
  uCheckAndScan2ByteGRPrefix8F_def CNS_8EAX_4BYTE_def
  uCheckAndScan2ByteGRPrefix8EA2_def uCheckAndScan2ByteGRPrefix8EA3_def
  uCheckAndScan2ByteGRPrefix8EA4_def uCheckAndScan2ByteGRPrefix8EA5_def
  uCheckAndScan2ByteGRPrefix8EA6_def uCheckAndScan2ByteGRPrefix8EA7_def
  uCheckAndScanAlways2ByteSwap_def uCheckAndScanAlways4Byte_def uCheckAndScanAlways4ByteSwap_def
  uCheckAndScanAlways1ByteShiftGL_def

lemma gr_or: "ucast ((drop_bit 8 w AND 0xff) OR 0x80) = hi8 w OR 0x80"
  "ucast ((w AND 0xff) OR 0x80) = lo8 w OR 0x80"
  by (simp_all add: u8_bits_eq bit_simps)

lemma scan_gr: "w AND 0x8080 = 0 \<Longrightarrow> be16 (hi8 w OR 0x80) (lo8 w OR 0x80) AND 0x7F7F = w"
  by (simp add: u16_bits_eq be16_def bit_simps)

lemma no_room:
  assumes c: "st_classID shift = of_nat (class_no c)" and "unat n < class_len c"
  shows "uGenerate shift w n g = Some (False, g)"
  using assms(2) unfolding uGenerate_class [OF c]
  by (cases c) (simp_all add: gen_defs word_less_nat_alt uCnGAlways8BytesDecomposedHangul_def
     uCheckAndGenJohabHangul_def uCheckAndGenJohabSymbol_def uCheckAndGen4BytesGB18030_def)

lemma c_not_80 [simp]: "c_not b AND 0x80 = 0"
  by (simp add: c_not_def)


lemma gl_bytes: "\<forall>b \<in> set (map word_of_nat [0x21..<0x7f]). \<not> bit (b :: u8) 7 \<and> CHK_GR94 (b OR 0x80)"
  by code_simp

lemma gl_byte:
  assumes "(0x21 :: u8) \<le> b" and "b \<le> 0x7e"
  shows "\<not> bit b 7" and "CHK_GR94 (b OR 0x80)"
proof -
  have "b \<in> set (map word_of_nat [0x21..<0x7f])"
    using assms by (intro word_range_list) (simp_all add: word_le_nat_alt)
  with gl_bytes show "\<not> bit b 7" "CHK_GR94 (b OR 0x80)" by blast+
qed

lemma gr94_scan:
  assumes "gr94 w"
  shows "CHK_GR94 (hi8 w OR 0x80)" and "CHK_GR94 (lo8 w OR 0x80)"
    and "be16 (hi8 w OR 0x80) (lo8 w OR 0x80) AND 0x7F7F = w"
proof -
  show "CHK_GR94 (hi8 w OR 0x80)" "CHK_GR94 (lo8 w OR 0x80)"
    using assms by (auto simp: gr94_def intro: gl_byte)
  have "\<not> bit (hi8 w) 7" "\<not> bit (lo8 w) 7"
    using assms unfolding gr94_def by (blast dest: gl_byte(1))+
  then have "w AND 0x8080 = 0" by (simp add: u16_bits_eq bit_simps)
  then show "be16 (hi8 w OR 0x80) (lo8 w OR 0x80) AND 0x7F7F = w" by (rule scan_gr)
qed

lemma hangul_parts:
  assumes "hangul w"
  shows "unat ((w - 0xAC00) div 588) = L_of w" and "unat ((w - 0xAC00) mod 588 div 28) = V_of w"
    and "unat ((w - 0xAC00) mod 28) = T_of w"
    and "L_of w < 19" and "V_of w < 21" and "T_of w < 28"
    and "(L_of w * 21 + V_of w) * 28 + T_of w + 0xAC00 = unat w"
proof -
  have r: "0xAC00 \<le> unat w" "unat w \<le> 0xD7A3"
    using assms by (simp_all add: hangul_def word_le_nat_alt)
  have s: "unat (w - 0xAC00) = unat w - 0xAC00"
    using r by (subst unat_sub) (simp_all add: word_le_nat_alt)
  show "unat ((w - 0xAC00) div 588) = L_of w" "unat ((w - 0xAC00) mod 588 div 28) = V_of w"
    "unat ((w - 0xAC00) mod 28) = T_of w"
    by (simp_all add: unat_div unat_mod s L_of_def V_of_def T_of_def)
  show "L_of w < 19" "V_of w < 21" "T_of w < 28"
    using r by (simp_all add: L_of_def V_of_def T_of_def)
  show "(L_of w * 21 + V_of w) * 28 + T_of w + 0xAC00 = unat w"
  proof -
    let ?x = "unat w - 0xAC00"
    have "?x mod 28 = ?x mod 588 mod 28" by (simp add: mod_mod_cancel)
    then show ?thesis using r by (simp add: L_of_def V_of_def T_of_def)
  qed
qed

lemma hangul_compose_parts:
  assumes "hangul w"
  shows "hangul_compose (of_nat (L_of w)) (of_nat (V_of w)) (of_nat (T_of w)) = w"
proof -
  have "hangul_compose (of_nat (L_of w)) (of_nat (V_of w)) (of_nat (T_of w))
      = of_nat ((L_of w * 21 + V_of w) * 28 + T_of w + 0xAC00)"
    by (simp add: hangul_compose_def)
  then show ?thesis unfolding hangul_parts(7) [OF assms] by simp
qed

lemma ksx_tables:
  "\<forall>l \<in> set [0..<19]. rd_signed ksx_lUnmap (uint (ksx_lMap ! l) - 0xa1) = Some (of_nat l)"
  "\<forall>t \<in> set [1..<28]. rd_signed ksx_tUnmap (uint (ksx_tMap ! t) - 0xa1) = Some (of_nat t)
      \<and> ksx_tMap ! t \<noteq> 0xd4"
  by code_simp+

lemma johab_tables:
  "\<forall>l \<in> set [0..<19]. rd johab_lUnmap (l + 2) = Some (of_nat l)"
  "\<forall>v \<in> set [0..<21]. johab_vMap ! v < 32 \<and> rd johab_vUnmap (unat (johab_vMap ! v)) = Some (of_nat v)"
  "\<forall>t \<in> set [0..<28]. johab_tMap ! t < 32 \<and> rd johab_tUnmap (unat (johab_tMap ! t)) = Some (of_nat t)"
  by code_simp+

lemma johab_fields:
  fixes l v t :: u16
  assumes "l < 32" "v < 32" "t < 32"
  defines "ch \<equiv> 0x8000 OR push_bit 10 l OR push_bit 5 v OR t"
  shows "drop_bit 10 ch AND 0x1F = l" and "drop_bit 5 ch AND 0x1F = v" and "ch AND 0x1F = t"
    and "0x8000 AND ch \<noteq> 0"
proof -
  have *: "take_bit 5 l = l" "take_bit 5 v = v" "take_bit 5 t = t"
    using assms(1-3) by (simp_all add: take_bit_eq_mask less_mask_eq)
  have ch: "ch = 0x8000 OR push_bit 10 (take_bit 5 l) OR push_bit 5 (take_bit 5 v) OR take_bit 5 t"
    unfolding ch_def * by (rule refl)
  show "0x8000 AND ch \<noteq> 0" unfolding ch by (simp add: u16_bits_eq bit_simps)
  have "drop_bit 10 ch AND 0x1F = take_bit 5 l" "drop_bit 5 ch AND 0x1F = take_bit 5 v"
    "ch AND 0x1F = take_bit 5 t"
    unfolding ch by (simp_all add: u16_bits_eq bit_simps)
  then show "drop_bit 10 ch AND 0x1F = l" "drop_bit 5 ch AND 0x1F = v" "ch AND 0x1F = t"
    unfolding * by simp_all
qed

lemma sym_lo_back:
  "\<forall>lo \<in> set (map word_of_nat [0x21..<0x7f]). \<forall>p \<in> {True, False}.
     (sym_lo p lo < 161 \<longleftrightarrow> p) \<and> (160 < sym_lo p lo \<longleftrightarrow> \<not> p) \<and> johab_sym_l (sym_lo p lo) = ucast lo"
  by code_simp

lemma sym_hi_back:
  "\<forall>hi \<in> set (map word_of_nat ([0x21..<0x2d] @ [0x49..<0x7f])).
     johab_sym_h (sym_hi hi) (if sym_odd hi then 160 else 161) = ucast hi"
  by code_simp

subsection \<open>The generators write the bytes of the class\<close>

lemma gr94_hi_lo: assumes "gr94 w" shows "ucast (drop_bit 8 w AND 0x7f) = hi8 w" "ucast (w AND 0x7f) = lo8 w"
proof -
  have "\<not> bit (hi8 w) 7" "\<not> bit (lo8 w) 7"
    using assms unfolding gr94_def by (blast dest: gl_byte(1))+
  then show "ucast (drop_bit 8 w AND 0x7f) = hi8 w" "ucast (w AND 0x7f) = lo8 w"
   by (simp_all add: u8_bits_eq bit_simps)
qed
lemma gr_or': "ucast (take_bit 8 (x :: u16) OR 0x80) = (ucast x :: u8) OR 0x80"
   "ucast (take_bit 8 (x :: u16)) = (ucast x :: u8)"
  by (simp_all add: u8_bits_eq bit_simps)
lemma ucast_via_nat: "unat x = k \<Longrightarrow> ucast (x :: u16) = (of_nat k :: u8)"
  by auto

lemma table_lengths [simp]: "length ksx_lMap = 19" "length ksx_tMap = 28"
  "length johab_vMap = 21" "length johab_tMap = 28"
  by (simp_all add: ksx_lMap_def ksx_tMap_def johab_vMap_def johab_tMap_def)

lemma hangul_gen:
  assumes "hangul w" and "8 \<le> unat n"
  shows "uCnGAlways8BytesDecomposedHangul shift w n g = emit 8 (class_enc uDecomposedHangulCharset w) g"
proof -
  have v: "(w - 0xAC00) mod 588 div 28 + 0xbf = of_nat (V_of w + 0xbf)"
    unfolding hangul_parts(2) [OF assms(1), symmetric] by simp
  have v': "unat (of_nat (V_of w + 0xbf) :: u16) = V_of w + 0xbf"
    using hangul_parts(5) [OF assms(1)] by (simp add: unat_of_nat del: of_nat_add)
  note hp = hangul_parts(1,3-6) [OF assms(1)]
  show ?thesis
    using assms(2)
    by (simp add: uCnGAlways8BytesDecomposedHangul_def word_less_nat_alt Let_def rd_in hp
          v ucast_via_nat [OF v'] del: of_nat_add)
qed
lemma johab_hangul_gen:
  assumes "hangul w" and "2 \<le> unat n"
  shows "uCheckAndGenJohabHangul shift w n g = emit 2 (class_enc uJohabHangulCharset w) g"
proof -
  have l: "(w - 0xAC00) div 588 = of_nat (L_of w)"
    unfolding hangul_parts(1) [OF assms(1), symmetric] by simp
  note hp = hangul_parts(2-6) [OF assms(1)]
  have "uCheckAndGenJohabHangul shift w n g
      = emit 2 [ucast (drop_bit 8 (johab_code w)), ucast (johab_code w AND 0xff)] g"
    using assms(2) unfolding uCheckAndGenJohabHangul_def Let_def johab_code_def
    by (simp add: word_less_nat_alt rd_in hp l)
  then show ?thesis by (simp add: gr_or')
qed
lemma johab_symbol_gen:
  assumes "gr94 w" and "2 \<le> unat n"
  shows "uCheckAndGenJohabSymbol shift w n g = emit 2 (class_enc uJohabSymbolCharset w) g"
  using assms
  by (simp add: uCheckAndGenJohabSymbol_def word_less_nat_alt Let_def gr94_hi_lo johab_sym_bytes_def
   sym_hi_def sym_lo_def sym_odd_def)
lemma gb_gen:
  assumes "4 \<le> unat n"
  shows "uCheckAndGen4BytesGB18030 shift w n g = emit 4 (class_enc u4BytesGB18030Charset w) g"
proof -
  have u: "unat (w div 12600) = unat w div 12600"
    "unat (w mod 12600 div 1260) = unat w mod 12600 div 1260"
    "unat (w mod 12600 mod 1260 div 10) = unat w mod 1260 div 10"
    "unat (w mod 12600 mod 1260 mod 10) = unat w mod 10"
    by (simp_all add: unat_div unat_mod mod_mod_cancel)
  show ?thesis using assms
    by (simp add: uCheckAndGen4BytesGB18030_def word_less_nat_alt Let_def u [THEN ucast_via_nat])
qed
lemma gen_emits:
  assumes c: "st_classID shift = of_nat (class_no c)"
    and r: "representable c w" and n: "class_len c \<le> unat n"
  shows "uGenerate shift w n g = emit (of_nat (class_len c)) (class_enc c w) g"
  using r n unfolding uGenerate_class [OF c]
  by (cases c) (simp_all add: gen_defs word_less_nat_alt gr_or' gr_bytes_def
       hangul_gen johab_hangul_gen johab_symbol_gen gb_gen johab_symbol_def
       del: class_enc.simps(15-18))

subsection \<open>The scanners read them back\<close>


lemma ucast_and: "take_bit 8 (ucast (b :: u8)) = (ucast b :: 'a::len word)"
  by (rule bit_word_eqI) (auto simp: bit_simps dest: bit_imp_le_length)

lemma small_u1: "w < 0x100 \<Longrightarrow> ucast (lo8 w) = w" for w :: u16
proof -
  assume "w < 0x100"
  then have "w AND mask 8 = w" by (intro less_mask_eq) simp
  then have "take_bit 8 w = w" by (simp add: take_bit_eq_mask)
  then show ?thesis by (simp add: u16_bits_eq bit_simps)
qed

lemma gl_scan: 
  assumes "0x80 \<le> w" "w < 0x100"
  shows "ucast (ucast (w AND 0x7f) :: u8) OR 0x80 = (w :: u16)"
proof -
  have "\<forall>w \<in> set (map word_of_nat [0x80..<0x100]). ucast (ucast (w AND 0x7f) :: u8) OR 0x80 = (w :: u16)"
    by code_simp
  moreover have "w \<in> set (map word_of_nat [0x80..<0x100])"
    using assms by (intro word_range_list) (simp_all add: word_le_nat_alt word_less_nat_alt)
  ultimately show ?thesis by blast
qed

lemma small_bytes:
  "\<forall>k \<in> set [0..<28]. 0xff AND of_nat k \<noteq> (0xff :: u8) \<and> (of_nat k :: u8) \<noteq> 0xff
     \<and> ucast (of_nat k :: u8) = (of_nat k :: u16)
     \<and> ucast (of_nat (k + 0xbf) :: u8) - 0xbf = (of_nat k :: u16)"
  by code_simp

lemma small_byte:
  assumes "k < 28"
  shows "0xff AND of_nat k \<noteq> (0xff :: u8)" and "(of_nat k :: u8) \<noteq> 0xff"
    and "ucast (of_nat k :: u8) = (of_nat k :: u16)"
    and "ucast (of_nat (k + 0xbf) :: u8) - 0xbf = (of_nat k :: u16)"
proof -
  have "k \<in> set [0..<28]" using assms by simp
  with small_bytes show "0xff AND of_nat k \<noteq> (0xff :: u8)" "(of_nat k :: u8) \<noteq> 0xff"
    "ucast (of_nat k :: u8) = (of_nat k :: u16)"
    "ucast (of_nat (k + 0xbf) :: u8) - 0xbf = (of_nat k :: u16)" by blast+
qed

lemma hangul_scan:
  assumes "hangul w" and "8 \<le> unat n"
  shows "uCnSAlways8BytesDecomposedHangul shift (class_enc uDecomposedHangulCharset w @ rest) n s
    = found 8 w s"
proof -
  note hp = hangul_parts(4-6) [OF assms(1)]
  have l: "rd_signed ksx_lUnmap (uint (ksx_lMap ! L_of w) - 0xa1) = Some (of_nat (L_of w))"
    using ksx_tables(1) hp by simp
  have t: "T_of w = 0 \<and> ksx_tMap ! T_of w = 0xd4 \<or> ksx_tMap ! T_of w \<noteq> 0xd4 \<and>
     rd_signed ksx_tUnmap (uint (ksx_tMap ! T_of w) - 0xa1) = Some (of_nat (T_of w))"
  proof (cases "T_of w = 0")
    case True
    then show ?thesis by (simp add: ksx_tMap_def)
  next
    case False
    then have "T_of w \<in> set [1..<28]" using hp by simp
    with ksx_tables(2) show ?thesis by blast
  qed
  have small: "L_of w < 28" "V_of w < 28" using hp by simp_all
  show ?thesis
    using assms(2) t hangul_compose_parts [OF assms(1)] small_byte [OF small(1)]
      small_byte(4) [OF small(2)] small_byte [OF hp(3)]
    by (auto simp add: uCnSAlways8BytesDecomposedHangul_def word_less_nat_alt l Let_def
        simp del: of_nat_add and_ff)
qed

lemma unat_ucast_u8_u16: "unat (ucast (b :: u8) :: u16) = unat b"
proof -
  have "unat b < 2 ^ LENGTH(8)" by (rule unsigned_less)
  then show ?thesis by (simp add: unsigned_ucast_eq take_bit_eq_mod)
qed

lemma johab_hangul_fields:
  assumes "hangul w"
  shows "drop_bit 10 (johab_code w) AND 0x1F = of_nat (L_of w) + 2"
    and "drop_bit 5 (johab_code w) AND 0x1F = ucast (johab_vMap ! V_of w)"
    and "johab_code w AND 0x1F = ucast (johab_tMap ! T_of w)"
    and "0x8000 AND johab_code w \<noteq> 0"
    and "unat (of_nat (L_of w) + 2 :: u16) = L_of w + 2"
proof -
  note hp = hangul_parts(4-6) [OF assms(1)]
  let ?l = "of_nat (L_of w) + 2 :: u16"
  let ?v = "ucast (johab_vMap ! V_of w) :: u16" and ?t = "ucast (johab_tMap ! T_of w) :: u16"
  show ul: "unat ?l = L_of w + 2"
  proof -
    have "?l = of_nat (L_of w + 2)" by simp
    then show ?thesis using hp(1) by (simp only: unat_of_nat) simp
  qed
  have "johab_vMap ! V_of w < 32" "johab_tMap ! T_of w < 32"
    using johab_tables(2,3) hp by simp_all
  then have b: "?l < 32" "?v < 32" "?t < 32"
    using hp(1) unfolding word_less_nat_alt unat_ucast_u8_u16 ul by simp_all
  note f = johab_fields [OF b, folded johab_code_def]
  show "drop_bit 10 (johab_code w) AND 0x1F = ?l" by (fact f(1))
  show "drop_bit 5 (johab_code w) AND 0x1F = ?v" by (fact f(2))
  show "johab_code w AND 0x1F = ?t" by (fact f(3))
  show "0x8000 AND johab_code w \<noteq> 0" by (fact f(4))
qed

lemma johab_hangul_scan:
  assumes "hangul w" and "2 \<le> unat n"
  shows "uCheckAndScanJohabHangul shift (class_enc uJohabHangulCharset w @ rest) n s = found 2 w s"
proof -
  note hp = hangul_parts(4-6) [OF assms(1)]
  have small: "L_of w < 28" "V_of w < 28" using hp by simp_all
  have tab: "rd johab_vUnmap (unat (johab_vMap ! V_of w)) = Some (of_nat (V_of w))"
    "rd johab_tUnmap (unat (johab_tMap ! T_of w)) = Some (of_nat (T_of w))"
    "rd johab_lUnmap (L_of w + 2) = Some (of_nat (L_of w))"
    using johab_tables hp by simp_all
  obtain ch where ch: "ch = johab_code w" by blast
  note f = johab_hangul_fields [OF assms(1), folded ch]
  have "uCheckAndScanJohabHangul shift ([hi8 ch, lo8 ch] @ rest) n s = found 2 w s"
    using assms(2) f(4) tab small_byte(2,3) [OF small(1)] small_byte(2,3) [OF small(2)]
      small_byte(2,3) [OF hp(3)] hangul_compose_parts [OF assms(1)]
    by (simp add: uCheckAndScanJohabHangul_def word_less_nat_alt [of n] Let_def f(1-3) f(5)
          unat_ucast_u8_u16)
  then show ?thesis unfolding ch by simp
qed

lemma johab_symbol_back:
  assumes "hi \<in> set (map word_of_nat ([0x21..<0x2d] @ [0x49..<0x7f]))"
    and "lo \<in> set (map word_of_nat [0x21..<0x7f])" and "2 \<le> unat n"
  shows "uCheckAndScanJohabSymbol shift ([sym_hi hi, sym_lo (sym_odd hi) lo] @ rest) n s
    = found 2 (ucast (push_bit 8 (ucast hi) OR ucast lo :: u32)) s"
proof -
  have lo: "sym_lo p lo < 161 \<longleftrightarrow> p" "160 < sym_lo p lo \<longleftrightarrow> \<not> p" "johab_sym_l (sym_lo p lo) = ucast lo"
    for p using sym_lo_back [THEN bspec, OF assms(2), THEN bspec, of p] by simp_all
  have "johab_sym_h (sym_hi hi) (sym_lo (sym_odd hi) lo)
      = johab_sym_h (sym_hi hi) (if sym_odd hi then 160 else 161)"
    unfolding johab_sym_h_def lo by simp
  also have "\<dots> = ucast hi" using sym_hi_back assms(1) by blast
  finally show ?thesis
    using assms(3) by (simp add: uCheckAndScanJohabSymbol_def word_less_nat_alt [of n] lo(3))
qed

lemma johab_symbol_scan:
  assumes "johab_symbol w" and "2 \<le> unat n"
  shows "uCheckAndScanJohabSymbol shift (class_enc uJohabSymbolCharset w @ rest) n s = found 2 w s"
proof -
  have lo: "lo8 w \<in> set (map word_of_nat [0x21..<0x7f])"
    using assms by (intro word_range_list) (simp_all add: johab_symbol_def gr94_def word_le_nat_alt)
  have "hi8 w \<in> set (map word_of_nat [0x21..<0x2d]) \<or> hi8 w \<in> set (map word_of_nat [0x49..<0x7f])"
    using assms word_range_list [of "0x21" "hi8 w" "0x2d"] word_range_list [of "0x49" "hi8 w" "0x7f"]
    by (auto simp add: johab_symbol_def gr94_def word_le_nat_alt word_less_nat_alt)
  then have hi: "hi8 w \<in> set (map word_of_nat ([0x21..<0x2d] @ [0x49..<0x7f]))" by auto
  have "ucast (push_bit 8 (ucast (hi8 w)) OR ucast (lo8 w) :: u32) = w"
    by (simp add: u16_bits_eq bit_simps)
  with johab_symbol_back [OF hi lo assms(2), of shift rest s] show ?thesis
    by (simp add: johab_sym_bytes_def)
qed

lemma gb_bytes:
  "\<forall>k \<in> set [0..<126]. let b = of_nat (k + 0x81) :: u8 in
     \<not> b < 0x81 \<and> \<not> 0xfe < b \<and> ucast b - 0x81 = (of_nat k :: u32)"
  "\<forall>k \<in> set [0..<10]. let b = of_nat (k + 0x30) :: u8 in
     \<not> b < 0x30 \<and> \<not> 0x39 < b \<and> ucast b - 0x30 = (of_nat k :: u32)"
  by code_simp+

lemma gb_sum:
  "d * 12600 + m = x \<Longrightarrow> e * 1260 + z = m \<Longrightarrow> f * 10 + r = z \<Longrightarrow>
   ((d * 10 + e) * 126 + f) * 10 + r = (x :: nat)"
  by simp

lemma gb_digits:
  "((x div 12600 * 10 + x mod 12600 div 1260) * 126 + x mod 1260 div 10) * 10 + x mod 10 = (x :: nat)"
proof -
  let ?y = "x mod 12600" and ?z = "x mod 1260"
  have "?y mod 1260 = ?z" "?z mod 10 = x mod 10" by (simp_all add: mod_mod_cancel)
  then show ?thesis
    using div_mult_mod_eq [of x 12600] div_mult_mod_eq [of ?y 1260] div_mult_mod_eq [of ?z 10]
      gb_sum [of "x div 12600" ?y x "?y div 1260" ?z "?z div 10" "x mod 10"] by simp
qed

lemma gb_byte:
  shows "\<lbrakk>b = of_nat (k + 0x81); k < 126\<rbrakk> \<Longrightarrow>
      \<not> b < (0x81 :: u8) \<and> \<not> 0xfe < b \<and> ucast b - 0x81 = (of_nat k :: u32)"
    and "\<lbrakk>c = of_nat (k + 0x30); k < 10\<rbrakk> \<Longrightarrow>
      \<not> c < (0x30 :: u8) \<and> \<not> 0x39 < c \<and> ucast c - 0x30 = (of_nat k :: u32)"
  using gb_bytes(1) [THEN bspec, of k] gb_bytes(2) [THEN bspec, of k] by (simp_all add: Let_def)

lemma gb_scan_bytes:
  assumes "b0 = of_nat (i + 0x81)" "i < 126" and "b1 = of_nat (j + 0x30)" "j < 10"
    and "b2 = of_nat (k + 0x81)" "k < 126" and "b3 = of_nat (l + 0x30)" "l < 10"
    and v: "((i * 10 + j) * 126 + k) * 10 + l = v" "v < 0x10000"
    and n: "4 \<le> unat n"
  shows "uCheckAndScan4BytesGB18030 shift ([b0, b1, b2, b3] @ rest) n s = found 4 (of_nat v) s"
proof -
  note b = gb_byte(1) [OF assms(1,2)] gb_byte(2) [OF assms(3,4)]
    gb_byte(1) [OF assms(5,6)] gb_byte(2) [OF assms(7,8)]
  let ?data = "((of_nat i * 10 + of_nat j) * 126 + of_nat k) * 10 + of_nat l :: u32"
  have d: "?data = of_nat v" unfolding v(1) [symmetric] by simp
  have u: "unat (of_nat v :: u32) = v" using v(2) by (intro unat_of_nat_u32) simp
  have small: "?data < 0x10000" unfolding d word_less_nat_alt u using v(2) by simp
  have c: "(ucast ?data :: u16) = of_nat v" 
  proof -
    have "(ucast (of_nat v :: u32) :: u16) = of_nat (unat (of_nat v :: u32))" by simp
    then show ?thesis unfolding d u .
  qed
  have "\<not> n < 4" using n by (simp add: word_less_nat_alt)
  then show ?thesis
    unfolding uCheckAndScan4BytesGB18030_def Let_def using b small c by simp
qed

lemma gb_scan:
  assumes "4 \<le> unat n"
  shows "uCheckAndScan4BytesGB18030 shift (class_enc u4BytesGB18030Charset w @ rest) n s = found 4 w s"
proof -
  let ?x = "unat w"
  have x: "?x < 65536" using unsigned_less [of w] by simp
  have "?x mod 12600 < 1260 * 10" "?x mod 1260 < 10 * 126" by simp_all
  then have r: "?x div 12600 < 126" "?x mod 12600 div 1260 < 10" "?x mod 1260 div 10 < 126" "?x mod 10 < 10"
    using x by (simp_all add: less_mult_imp_div_less)
  have "uCheckAndScan4BytesGB18030 shift (class_enc u4BytesGB18030Charset w @ rest) n s
      = found 4 (of_nat ?x) s"
    unfolding class_enc.simps
    by (rule gb_scan_bytes [OF refl r(1) refl r(2) refl r(3) refl r(4) gb_digits _ assms]) (use x in simp)
  then show ?thesis by simp
qed

lemma scans:
  assumes c: "st_classID shift = of_nat (class_no c)"
    and r: "representable c w" and n: "class_len c \<le> unat n"
  shows "uScan shift (class_enc c w @ rest) n s = found (of_nat (class_len c)) w s"
proof (cases "c \<in> {uDecomposedHangulCharset, uJohabHangulCharset, uJohabSymbolCharset, u4BytesGB18030Charset}")
  case True
  with r n show ?thesis
    unfolding uScan_class [OF c]
    by (auto simp: m_scanner_def hangul_scan johab_hangul_scan johab_symbol_scan gb_scan
          simp del: class_enc.simps)
next
  case False
  with r n show ?thesis
    unfolding uScan_class [OF c]
    by (cases c) (auto simp: scan_defs word_less_nat_alt [of n] gr_bytes_def gr94_scan small_u1 gl_scan
       simp del: and_ff)
qed

subsection \<open>The contract holds for the code\<close>

interpretation uconv: codec "uGenerate (class_table c items cells)" "uScan (class_table c items cells)"
    "representable c" "class_enc c" "class_len c" for c items cells
  by unfold_locales
    (simp_all add: class_enc_length class_len_bounds no_room scans found_def
      gen_emits emit_ok)

text \<open>C3: For every charset class of the converters but the two named in \<open>representable\<close>, a
  code the class represents survives \<open>uGenerate\<close> followed by \<open>uScan\<close>: when the buffer has
  room, the generator succeeds, reports the class's length, leaves the bytes after it alone,
  and the scanner of the same shift table reads back the code and the length, whatever follows.\<close>

theorem uconv_roundtrip:
  assumes "st_classID shift = of_nat (class_no c)" and "representable c w"
    and "class_len c \<le> unat n" and "class_len c \<le> length (g_out g)"
  shows "\<exists>g'. uGenerate shift w n g = Some (True, g') \<and> unat (g_outlen g') = class_len c
    \<and> length (g_out g') = length (g_out g)
    \<and> drop (class_len c) (g_out g') = drop (class_len c) (g_out g)
    \<and> (\<forall>m s. class_len c \<le> unat m \<longrightarrow>
          uScan shift (g_out g') m s = Some (True, s\<lparr>s_inscanlen := g_outlen g', s_out := w\<rparr>))"
proof -
  obtain items cells where "shift = class_table c items cells"
    using assms(1) by (rule class_table_cases)
  then show ?thesis by (simp only:) (rule uconv.roundtrip [OF assms(2-4)])
qed

theorem uconv_roundtrip_witness:
  "\<exists>g'. uGenerate (class_table uDecomposedHangulCharset 0 []) 0xAC01 8 \<lparr>g_outlen = 0, g_out = replicate 9 0\<rparr>
      = Some (True, g') \<and> unat (g_outlen g') = 8 \<and> hangul 0xAC01"
  using uconv_roundtrip [of "class_table uDecomposedHangulCharset 0 []" uDecomposedHangulCharset
      "0xAC01" 8 "\<lparr>g_outlen = 0, g_out = replicate 9 0\<rparr>"]
  by (auto simp: hangul_def)

text \<open>Generators called one after the other and scanners called one after the other are
  inverse too: the bytes of a list of representable codes, put one after the other, scan back
  to the list.\<close>

lemma uconv_stream_roundtrip:
  assumes "\<forall>w \<in> set ws. representable c w" and "class_len c * length ws < 2 ^ 32"
  shows "scan_stream (length ws) (uScan (class_table c items cells)) (concat (map (class_enc c) ws)) = Some ws"
  using assms by (rule uconv.stream_roundtrip)

lemma uconv_stream_roundtrip_witness:
  "scan_stream (length [0x20AC, 0xFFFF :: u16]) (uScan (class_table u4BytesGB18030Charset 0 []))
     (concat (map (class_enc u4BytesGB18030Charset) [0x20AC, 0xFFFF])) = Some [0x20AC, 0xFFFF]"
  by (rule uconv_stream_roundtrip) simp_all

text \<open>A generator of a fixed-length class that is given too little room fails with
  \<open>PR_FALSE\<close> and writes nothing, neither to the buffer nor to \<open>*outlen\<close>.\<close>

lemma uconv_no_room:
  assumes "st_classID shift = of_nat (class_no c)" and "unat n < class_len c"
  shows "uGenerate shift w n g = Some (False, g)"
  using assms by (rule no_room)

lemma uconv_no_room_witness:
  "uGenerate (class_table u4BytesCharset 0 []) 0x41 3 \<lparr>g_outlen = 7, g_out = [1, 2, 3]\<rparr>
     = Some (False, \<lparr>g_outlen = 7, g_out = [1, 2, 3]\<rparr>)"
  using uconv_no_room [of "class_table u4BytesCharset 0 []" u4BytesCharset 3] by simp

subsection \<open>Where generator and scanner, or scanner and comment, disagree\<close>

text \<open>\<open>u4BytesSwapCharset\<close>: the generator writes the code big-endian into the first two
  bytes and the scanner reads them little-endian, so the pair swaps the bytes of every code.\<close>

lemma four_byte_swap_not_inverse:
  assumes "4 \<le> unat n" and "4 \<le> length (g_out g)" and "4 \<le> unat m"
  shows "\<exists>g'. uCheckAndGenAlways4ByteSwap shift w n g = Some (True, g')
    \<and> uCheckAndScanAlways4ByteSwap shift (g_out g') m s
        = Some (True, s\<lparr>s_inscanlen := 4, s_out := be16 (lo8 w) (hi8 w)\<rparr>)"
  using assms
  by (simp add: uCheckAndGenAlways4ByteSwap_def uCheckAndScanAlways4ByteSwap_def
      word_less_nat_alt [of n] word_less_nat_alt [of m] emit_ok found_def)

lemma four_byte_swap_not_inverse_witness:
  "\<exists>g'. uCheckAndGenAlways4ByteSwap (class_table u4BytesSwapCharset 0 []) 0x0041 4
           \<lparr>g_outlen = 0, g_out = [0, 0, 0, 0]\<rparr> = Some (True, g')
    \<and> uCheckAndScanAlways4ByteSwap (class_table u4BytesSwapCharset 0 []) (g_out g') 4
           \<lparr>s_inscanlen = 0, s_out = 0\<rparr> = Some (True, \<lparr>s_inscanlen = 4, s_out = 0x4100\<rparr>)"
  using four_byte_swap_not_inverse [of 4 "\<lparr>g_outlen = 0, g_out = [0, 0, 0, 0]\<rparr>" 4
      "class_table u4BytesSwapCharset 0 []" "0x0041" "\<lparr>s_inscanlen = 0, s_out = 0\<rparr>"]
  by (simp add: be16_def)

text \<open>The range check of the scanner for CP949 never rejects: on every input of two bytes
  it gives what the unchecked two-byte scanner gives, also for a second byte whose top bit is
  clear.\<close>

lemma gr128_check_is_dead:
  "uCheckAndScanAlways2ByteGR128 shift (b0 # b1 # rest) n s
     = uCheckAndScanAlways2Byte shift (b0 # b1 # rest) n s"
  by (simp add: uCheckAndScanAlways2ByteGR128_def uCheckAndScanAlways2Byte_def)

text \<open>The range checks of the scanner of decomposed Hangul never reject: a leading
  consonant byte outside \<open>0xa1..0xbe\<close> makes it read outside its table.\<close>

lemma decomposed_hangul_reads_outside_table:
  assumes "8 \<le> unat n" and "b3 < 0xa1 \<or> b3 > 0xbe"
  shows "uCnSAlways8BytesDecomposedHangul shift
           (0xa4 # 0xd4 # 0xa4 # b3 # 0xa4 # b5 # 0xa4 # b7 # rest) n s = None"
proof -
  have "rd_signed ksx_lUnmap (uint b3 - 0xa1) = None"
    using assms(2) by (auto simp: rd_signed_def rd_None_iff ksx_lUnmap_def word_less_def)
  moreover have "\<not> (b3 < 0xa1 \<and> b3 > 0xbe)" by (auto simp: word_less_nat_alt)
  ultimately show ?thesis
    using assms(1) by (simp add: uCnSAlways8BytesDecomposedHangul_def word_less_nat_alt [of n])
qed

theorem decomposed_hangul_reads_outside_table_witness:
  "uCnSAlways8BytesDecomposedHangul (class_table uDecomposedHangulCharset 0 [])
     [0xa4, 0xd4, 0xa4, 0x41, 0xa4, 0xbf, 0xa4, 0xd4] 8 \<lparr>s_inscanlen = 0, s_out = 0\<rparr> = None"
  using decomposed_hangul_reads_outside_table [of 8 "0x41" _ "0xbf" "0xd4" "[]"] by simp

end
