(* ===== verification/Uconv_Map.thy ===== *)
theory Uconv_Map
  imports Uconv_Types
begin

text \<open>
  The mapping tables of \<open>intl/uconv/src/umap.c\<close>, between the codes of a charset and
  Unicode. A table is one array of 16-bit words: a header of four words (the number of cells
  and three offsets, counted from the start of the table), an array of 4-bit formats, an array
  of three-word cells, and the mapping words of the cells of format 1. The array is the model:
  every access is a read at the offset the code computes.
\<close>

type_synonym utable = "u16 list"

abbreviation NOMAPPING :: u16 where "NOMAPPING \<equiv> 0xfffd"

definition itemOfList :: "utable \<Rightarrow> u16 option" where "itemOfList uT = rd uT 0"
definition offsetToFormatArray :: "utable \<Rightarrow> u16 option" where "offsetToFormatArray uT = rd uT 1"
definition offsetToMapCellArray :: "utable \<Rightarrow> u16 option" where "offsetToMapCellArray uT = rd uT 2"
definition offsetToMappingTable :: "utable \<Rightarrow> u16 option" where "offsetToMappingTable uT = rd uT 3"

text \<open>The position of a cell in the array stands for the C pointer to it.\<close>

definition uGetMapCell :: "utable \<Rightarrow> nat \<Rightarrow> nat option" where
  "uGetMapCell uT item = do { off \<leftarrow> offsetToMapCellArray uT; Some (unat off + item * 3) }"

definition uGetFormat :: "utable \<Rightarrow> nat \<Rightarrow> nat option" where
  "uGetFormat uT item = do {
     off \<leftarrow> offsetToFormatArray uT;
     x \<leftarrow> rd uT (unat off + item div 4);
     Some (unat (drop_bit (item mod 4 * 4) x AND 0x0f))
   }"

subsection \<open>Hit and map, per format\<close>

definition uHitFormate0 :: "u16 \<Rightarrow> utable \<Rightarrow> nat \<Rightarrow> bool option" where
  "uHitFormate0 w uT cell = do {
     srcBegin \<leftarrow> rd uT cell;
     srcEnd \<leftarrow> rd uT (cell + 1);
     Some (w \<ge> srcBegin \<and> w \<le> srcEnd)
   }"

definition uHitFormate2 :: "u16 \<Rightarrow> utable \<Rightarrow> nat \<Rightarrow> bool option" where
  "uHitFormate2 w uT cell = do { srcBegin \<leftarrow> rd uT cell; Some (w = srcBegin) }"

definition uMapFormate0 :: "u16 \<Rightarrow> utable \<Rightarrow> nat \<Rightarrow> u16 option" where
  "uMapFormate0 w uT cell = do {
     srcBegin \<leftarrow> rd uT cell;
     destBegin \<leftarrow> rd uT (cell + 2);
     Some ((w - srcBegin) + destBegin)
   }"

definition uMapFormate1 :: "u16 \<Rightarrow> utable \<Rightarrow> nat \<Rightarrow> u16 option" where
  "uMapFormate1 w uT cell = do {
     off \<leftarrow> offsetToMappingTable uT;
     srcBegin \<leftarrow> rd uT cell;
     mappingOffset \<leftarrow> rd uT (cell + 2);
     rd_signed uT (uint off + uint mappingOffset + uint w - uint srcBegin)
   }"

definition uMapFormate2 :: "u16 \<Rightarrow> utable \<Rightarrow> nat \<Rightarrow> u16 option" where
  "uMapFormate2 w uT cell = rd uT (cell + 2)"

definition m_hit :: "(u16 \<Rightarrow> utable \<Rightarrow> nat \<Rightarrow> bool option) list" where
  "m_hit = [uHitFormate0, uHitFormate0, uHitFormate2]"

definition m_map :: "(u16 \<Rightarrow> utable \<Rightarrow> nat \<Rightarrow> u16 option) list" where
  "m_map = [uMapFormate0, uMapFormate1, uMapFormate2]"

subsection \<open>Mapping one code\<close>

text \<open>
  The loop over the cells: \<open>k\<close> cells are left, from number \<open>i\<close> on. The result is \<open>done\<close>
  with \<open>*out\<close>.
\<close>

fun uMapCode_loop :: "nat \<Rightarrow> nat \<Rightarrow> utable \<Rightarrow> u16 \<Rightarrow> (bool \<times> u16) option" where
  "uMapCode_loop 0 i uT w = Some (False, NOMAPPING)"
| "uMapCode_loop (Suc k) i uT w = do {
     format \<leftarrow> uGetFormat uT i;
     cell \<leftarrow> uGetMapCell uT i;
     hit \<leftarrow> rd m_hit format;
     h \<leftarrow> hit w uT cell;
     if h then do {
       map \<leftarrow> rd m_map format;
       out \<leftarrow> map w uT cell;
       Some (True, out)
     }
     else uMapCode_loop k (Suc i) uT w
   }"

definition uMapCode :: "utable \<Rightarrow> u16 \<Rightarrow> (bool \<times> u16) option" where
  "uMapCode uT w = do {
     n \<leftarrow> itemOfList uT;
     (done, out) \<leftarrow> uMapCode_loop (unat n) 0 uT w;
     Some (done \<and> out \<noteq> NOMAPPING, out)
   }"

subsection \<open>The bitmap of the codes a table maps\<close>

type_synonym info = "u32 list"

definition or_word :: "info \<Rightarrow> nat \<Rightarrow> u32 \<Rightarrow> info option" where
  "or_word info k m = do { x \<leftarrow> rd info k; wr info k (x OR m) }"

definition SET_REPRESENTABLE :: "u16 \<Rightarrow> info \<Rightarrow> info option" where
  "SET_REPRESENTABLE c info = or_word info (unat (drop_bit 5 c)) (push_bit (unat (c AND 0x1f)) 1)"

text \<open>
  \<open>for (i = begin; i <= end; i++)\<close> with a 16-bit \<open>i\<close>. The increment wraps around, so for
  \<open>end = 0xFFFF\<close> the loop does not end, and its value is \<open>None\<close>.
\<close>

partial_function (option) for_u16 ::
  "(u16 \<Rightarrow> info \<Rightarrow> info option) \<Rightarrow> u16 \<Rightarrow> u16 \<Rightarrow> info \<Rightarrow> info option" where
  "for_u16 body i e info =
     (if i \<le> e then Option.bind (body i info) (\<lambda>info'. for_u16 body (i + 1) e info')
      else Some info)"

fun fill_words :: "nat \<Rightarrow> nat \<Rightarrow> info \<Rightarrow> info option" where
  "fill_words 0 b info = Some info"
| "fill_words (Suc k) b info = do { info' \<leftarrow> or_word info b 0xFFFFFFFF; fill_words k (Suc b) info' }"

definition uFillInfoFormate0 :: "utable \<Rightarrow> nat \<Rightarrow> info \<Rightarrow> info option" where
  "uFillInfoFormate0 uT cell info = do {
     begin \<leftarrow> rd uT cell;
     end \<leftarrow> rd uT (cell + 1);
     if drop_bit 5 begin = drop_bit 5 end
     then for_u16 SET_REPRESENTABLE begin end info
     else let b = unat (drop_bit 5 begin); e = unat (drop_bit 5 end) in do {
       info1 \<leftarrow> or_word info b (push_bit (unat (begin AND 0x1f)) 0xFFFFFFFF);
       info2 \<leftarrow> or_word info1 e (drop_bit (31 - unat (end AND 0x1f)) 0xFFFFFFFF);
       fill_words (e - (b + 1)) (b + 1) info2
     }
   }"

definition uFillInfoFormate1 :: "utable \<Rightarrow> nat \<Rightarrow> info \<Rightarrow> info option" where
  "uFillInfoFormate1 uT cell info = do {
     begin \<leftarrow> rd uT cell;
     end \<leftarrow> rd uT (cell + 1);
     off \<leftarrow> offsetToMappingTable uT;
     mappingOffset \<leftarrow> rd uT (cell + 2);
     for_u16 (\<lambda>i info. do {
       x \<leftarrow> rd uT (unat off + unat mappingOffset + (unat i - unat begin));
       if 0xFFFD \<noteq> x then SET_REPRESENTABLE i info else Some info
     }) begin end info
   }"

definition uFillInfoFormate2 :: "utable \<Rightarrow> nat \<Rightarrow> info \<Rightarrow> info option" where
  "uFillInfoFormate2 uT cell info = do { srcBegin \<leftarrow> rd uT cell; SET_REPRESENTABLE srcBegin info }"

definition m_fillinfo :: "(utable \<Rightarrow> nat \<Rightarrow> info \<Rightarrow> info option) list" where
  "m_fillinfo = [uFillInfoFormate0, uFillInfoFormate1, uFillInfoFormate2]"

fun uFillInfo_loop :: "nat \<Rightarrow> nat \<Rightarrow> utable \<Rightarrow> info \<Rightarrow> info option" where
  "uFillInfo_loop 0 i uT info = Some info"
| "uFillInfo_loop (Suc k) i uT info = do {
     format \<leftarrow> uGetFormat uT i;
     cell \<leftarrow> uGetMapCell uT i;
     fill \<leftarrow> rd m_fillinfo format;
     info' \<leftarrow> fill uT cell info;
     uFillInfo_loop k (Suc i) uT info'
   }"

definition uFillInfo :: "utable \<Rightarrow> info \<Rightarrow> info option" where
  "uFillInfo uT info = do { n \<leftarrow> itemOfList uT; uFillInfo_loop (unat n) 0 uT info }"

subsection \<open>What a table means\<close>

text \<open>The cells of a table, decoded: what the converters rely on.\<close>

datatype ucell = Range u16 u16 u16 | Table u16 u16 "u16 list" | Single u16 u16

fun cell_map :: "ucell \<Rightarrow> u16 \<Rightarrow> u16 option" where
  "cell_map (Range b e d) w = (if b \<le> w \<and> w \<le> e then Some (w - b + d) else None)"
| "cell_map (Table b e t) w = (if b \<le> w \<and> w \<le> e then Some (t ! (unat w - unat b)) else None)"
| "cell_map (Single b d) w = (if w = b then Some d else None)"

fun table_map :: "ucell list \<Rightarrow> u16 \<Rightarrow> u16 option" where
  "table_map [] w = None"
| "table_map (c # cs) w = (case cell_map c w of None \<Rightarrow> table_map cs w | Some v \<Rightarrow> Some v)"

fun cell_covers :: "ucell \<Rightarrow> u16 \<Rightarrow> bool" where
  "cell_covers (Range b e d) w \<longleftrightarrow> b \<le> w \<and> w \<le> e"
| "cell_covers (Table b e t) w \<longleftrightarrow> b \<le> w \<and> w \<le> e \<and> t ! (unat w - unat b) \<noteq> NOMAPPING"
| "cell_covers (Single b d) w \<longleftrightarrow> w = b"

text \<open>Cell number \<open>i\<close> of the array holds the decoded cell.\<close>

fun cell_rep :: "utable \<Rightarrow> nat \<Rightarrow> ucell \<Rightarrow> bool" where
  "cell_rep uT i (Range b e d) \<longleftrightarrow>
     uGetFormat uT i = Some 0 \<and>
     (\<exists>p. uGetMapCell uT i = Some p \<and> rd uT p = Some b \<and> rd uT (p + 1) = Some e
        \<and> rd uT (p + 2) = Some d)"
| "cell_rep uT i (Table b e t) \<longleftrightarrow>
     uGetFormat uT i = Some 1 \<and>
     (\<exists>p off mo. uGetMapCell uT i = Some p \<and> offsetToMappingTable uT = Some off
        \<and> rd uT p = Some b \<and> rd uT (p + 1) = Some e \<and> rd uT (p + 2) = Some mo
        \<and> unat e - unat b < length t
        \<and> unat off + unat mo + length t \<le> length uT
        \<and> t = take (length t) (drop (unat off + unat mo) uT))"
| "cell_rep uT i (Single b d) \<longleftrightarrow>
     uGetFormat uT i = Some 2 \<and>
     (\<exists>p. uGetMapCell uT i = Some p \<and> rd uT p = Some b \<and> rd uT (p + 2) = Some d)"

definition utable_rep :: "utable \<Rightarrow> ucell list \<Rightarrow> bool" where
  "utable_rep uT cells \<longleftrightarrow>
     (\<exists>n. itemOfList uT = Some n \<and> unat n = length cells) \<and>
     (\<forall>i < length cells. cell_rep uT i (cells ! i))"

lemma Table_entry:
  assumes "cell_rep uT i (Table b e t)" and "b \<le> w" and "w \<le> e"
  obtains p off mo where "uGetMapCell uT i = Some p" "offsetToMappingTable uT = Some off"
    "rd uT p = Some b" "rd uT (p + 1) = Some e" "rd uT (p + 2) = Some mo"
    "rd uT (unat off + unat mo + (unat w - unat b)) = Some (t ! (unat w - unat b))"
proof -
  let ?k = "unat w - unat b"
  from assms(1) obtain p off mo where p: "uGetMapCell uT i = Some p" "offsetToMappingTable uT = Some off"
    "rd uT p = Some b" "rd uT (p + 1) = Some e" "rd uT (p + 2) = Some mo"
    and l: "unat e - unat b < length t" "unat off + unat mo + length t \<le> length uT"
    and t: "t = take (length t) (drop (unat off + unat mo) uT)"
    by auto
  have k: "?k < length t" using assms(2,3) l(1) by (auto simp: word_le_nat_alt)
  have "t ! ?k = uT ! (unat off + unat mo + ?k)"
    using k l(2) by (subst t) simp
  then have "rd uT (unat off + unat mo + ?k) = Some (t ! ?k)"
    using k l(2) by (simp add: rd_def)
  with p that show thesis by blast
qed

lemma map_cell:
  assumes "cell_rep uT i c"
  shows "\<exists>format cell hit h. uGetFormat uT i = Some format \<and> uGetMapCell uT i = Some cell
    \<and> rd m_hit format = Some hit \<and> hit w uT cell = Some h
    \<and> (h \<longleftrightarrow> cell_map c w \<noteq> None)
    \<and> (h \<longrightarrow> (\<exists>m. rd m_map format = Some m \<and> m w uT cell = cell_map c w))"
proof (cases c)
  case (Range b e d)
  with assms show ?thesis
    by (auto simp: m_hit_def m_map_def uHitFormate0_def uMapFormate0_def)
next
  case (Single b d)
  with assms show ?thesis
    by (auto simp: m_hit_def m_map_def uHitFormate2_def uMapFormate2_def)
next
  case (Table b e t)
  show ?thesis
  proof (cases "b \<le> w \<and> w \<le> e")
    case False
    with assms Table show ?thesis
      by (auto simp: m_hit_def uHitFormate0_def)
  next
    case True
    then obtain p off mo where p: "uGetMapCell uT i = Some p" "offsetToMappingTable uT = Some off"
      "rd uT p = Some b" "rd uT (p + 1) = Some e" "rd uT (p + 2) = Some mo"
      "rd uT (unat off + unat mo + (unat w - unat b)) = Some (t ! (unat w - unat b))"
      using assms Table by (blast elim: Table_entry)
    have eq: "uint off + uint mo + uint w - uint b = int (unat off + unat mo + (unat w - unat b))"
      using True by (simp add: word_le_nat_alt of_nat_diff)
    have "rd_signed uT (uint off + uint mo + uint w - uint b) = Some (t ! (unat w - unat b))"
      unfolding eq rd_signed_int by (rule p(6))
    with True p Table assms show ?thesis
      by (auto simp: m_hit_def m_map_def uHitFormate0_def uMapFormate1_def)
  qed
qed

lemma map_loop:
  assumes "\<forall>i < length cells. cell_rep uT (k + i) (cells ! i)"
  shows "uMapCode_loop (length cells) k uT w
    = Some (case table_map cells w of None \<Rightarrow> (False, NOMAPPING) | Some v \<Rightarrow> (True, v))"
  using assms
proof (induction cells arbitrary: k)
  case Nil
  then show ?case by simp
next
  case (Cons c cells)
  have c: "cell_rep uT k c" using Cons.prems by force
  have "\<forall>i < length cells. cell_rep uT (Suc k + i) (cells ! i)" using Cons.prems by force
  note IH = Cons.IH [OF this]
  from map_cell [OF c, of w] obtain format cell hit h where
    "uGetFormat uT k = Some format" "uGetMapCell uT k = Some cell"
    "rd m_hit format = Some hit" "hit w uT cell = Some h"
    "h \<longleftrightarrow> cell_map c w \<noteq> None"
    "h \<longrightarrow> (\<exists>m. rd m_map format = Some m \<and> m w uT cell = cell_map c w)" by blast
  with IH show ?case by (auto split: option.splits)
qed

subsection \<open>The bitmap as a set of codes\<close>

definition ibit :: "info \<Rightarrow> nat \<Rightarrow> bool" where
  "ibit info n \<longleftrightarrow> bit (info ! (n div 32)) (n mod 32)"

text \<open>\<open>f\<close> returns on every full bitmap and sets exactly the bits of \<open>S\<close>.\<close>

definition adds :: "(info \<Rightarrow> info option) \<Rightarrow> nat set \<Rightarrow> bool" where
  "adds f S \<longleftrightarrow> (\<forall>info. length info = 2048 \<longrightarrow>
     (\<exists>info'. f info = Some info' \<and> length info' = 2048 \<and>
        (\<forall>n < 65536. ibit info' n \<longleftrightarrow> ibit info n \<or> n \<in> S)))"

lemma addsI:
  assumes "\<And>info. length info = 2048 \<Longrightarrow> \<exists>info'. f info = Some info' \<and> length info' = 2048 \<and>
      (\<forall>n < 65536. ibit info' n \<longleftrightarrow> ibit info n \<or> n \<in> S)"
  shows "adds f S"
  using assms by (simp add: adds_def)

lemma addsE:
  assumes "adds f S" and "length info = 2048"
  obtains info' where "f info = Some info'" and "length info' = 2048"
    and "\<And>n. n < 65536 \<Longrightarrow> ibit info' n \<longleftrightarrow> ibit info n \<or> n \<in> S"
  using assms by (auto simp: adds_def)

lemma adds_Some: "adds Some {}"
  by (simp add: adds_def)

lemma adds_bind:
  assumes "adds f S" and "adds g T"
  shows "adds (\<lambda>info. Option.bind (f info) g) (S \<union> T)"
proof (rule addsI)
  fix info :: info
  assume l: "length info = 2048"
  obtain i1 where 1: "f info = Some i1" "length i1 = 2048"
    "\<And>n. n < 65536 \<Longrightarrow> ibit i1 n \<longleftrightarrow> ibit info n \<or> n \<in> S"
    using addsE [OF assms(1) l] by blast
  obtain i2 where 2: "g i1 = Some i2" "length i2 = 2048"
    "\<And>n. n < 65536 \<Longrightarrow> ibit i2 n \<longleftrightarrow> ibit i1 n \<or> n \<in> T"
    using addsE [OF assms(2) 1(2)] by blast
  show "\<exists>info'. Option.bind (f info) g = Some info' \<and> length info' = 2048 \<and>
      (\<forall>n < 65536. ibit info' n \<longleftrightarrow> ibit info n \<or> n \<in> S \<union> T)"
    using 1 2 by auto
qed

lemma adds_cong: "adds f S \<Longrightarrow> S = T \<Longrightarrow> adds f T"
  by simp

lemma adds_or_word:
  assumes "k < 2048"
  shows "adds (\<lambda>info. or_word info k m) {n. n div 32 = k \<and> bit m (n mod 32)}"
proof (rule addsI)
  fix info :: info
  assume l: "length info = 2048"
  have "ibit (info[k := info ! k OR m]) n \<longleftrightarrow> ibit info n \<or> n div 32 = k \<and> bit m (n mod 32)" for n
    using assms l by (auto simp: ibit_def nth_list_update bit_or_iff)
  then show "\<exists>info'. or_word info k m = Some info' \<and> length info' = 2048 \<and>
      (\<forall>n < 65536. ibit info' n \<longleftrightarrow> ibit info n \<or> n \<in> {n. n div 32 = k \<and> bit m (n mod 32)})"
    using assms l by (simp add: or_word_def rd_def wr_def)
qed

lemma unat_u16_less: "unat (c :: u16) < 65536"
proof -
  have "unat c < 2 ^ LENGTH(16)" by (rule unsigned_less)
  then show ?thesis by simp
qed

lemma word_and_mod:
  "unat (drop_bit 5 c) = unat c div 32" "unat (c AND 0x1f) = unat c mod 32" for c :: u16
proof -
  show "unat (drop_bit 5 c) = unat c div 32"
    by (simp only: unat_drop_bit_eq) (simp add: drop_bit_eq_div)
  have "(0x1f :: u16) = mask 5" by (simp add: mask_eq_exp_minus_1)
  then have "c AND 0x1f = take_bit 5 c" by (simp add: take_bit_eq_mask)
  then show "unat (c AND 0x1f) = unat c mod 32" by (simp add: take_bit_eq_mod unat_mod)
qed

lemma adds_SET: "adds (SET_REPRESENTABLE c) {unat c}"
proof -
  have "unat c div 32 < 2048" using unat_u16_less [of c] by simp
  note * = adds_or_word [OF this, of "push_bit (unat c mod 32) 1"]
  have "{n. n div 32 = unat c div 32 \<and> bit (push_bit (unat c mod 32) (1 :: u32)) (n mod 32)} = {unat c}"
    by (auto simp: bit_simps) (metis div_mult_mod_eq)
  with * show ?thesis by (simp add: SET_REPRESENTABLE_def [abs_def] word_and_mod)
qed

lemma adds_for_u16:
  assumes "e \<noteq> 0xFFFF" and "\<And>i. b \<le> i \<Longrightarrow> i \<le> e \<Longrightarrow> adds (body i) (S i)"
  shows "adds (for_u16 body b e) (\<Union>i \<in> {b..e}. S i)"
  using assms
proof (induction "unat e + 1 - unat b" arbitrary: b)
  case 0
  then have "\<not> b \<le> e" by (simp add: word_le_nat_alt)
  then show ?case using adds_Some by (simp add: for_u16.simps)
next
  case (Suc k)
  then have b: "b \<le> e" by (simp add: word_le_nat_alt)
  have "unat e < 65535"
    using unat_u16_less [of e] Suc.prems(1) by (simp add: word_unat_eq_iff)
  then have u: "unat (b + 1) = unat b + 1"
    using b by (simp add: word_le_nat_alt unat_word_ariths)
  have "adds (for_u16 body (b + 1) e) (\<Union>i \<in> {b + 1..e}. S i)"
    using Suc u by (intro Suc.hyps(1)) (auto simp: word_le_nat_alt)
  moreover have "for_u16 body b e = (\<lambda>info. Option.bind (body b info) (for_u16 body (b + 1) e))"
    using b by (simp add: fun_eq_iff for_u16.simps [of body b])
  ultimately have "adds (for_u16 body b e) (S b \<union> (\<Union>i \<in> {b + 1..e}. S i))"
    using adds_bind [OF Suc.prems(2) [OF order_refl b]] by simp
  moreover have "{b..e} = insert b {b + 1..e}"
    using b u by (auto simp: word_le_nat_alt) (metis Suc_leI le_neq_implies_less word_unat_eq_iff)
  ultimately show ?case by simp
qed

lemma adds_fill_words:
  "b + k \<le> 2048 \<Longrightarrow> adds (fill_words k b) {32 * b ..< 32 * (b + k)}"
proof (induction k arbitrary: b)
  case 0
  then show ?case using adds_Some by simp
next
  case (Suc k)
  then have "adds (fill_words k (Suc b)) {32 * Suc b ..< 32 * (Suc b + k)}"
    by (intro Suc.IH) simp
  moreover have "fill_words (Suc k) b
      = (\<lambda>info. Option.bind (or_word info b 0xFFFFFFFF) (fill_words k (Suc b)))"
    by (simp add: fun_eq_iff)
  moreover have "b < 2048" using Suc.prems by simp
  ultimately have "adds (fill_words (Suc k) b)
      ({n. n div 32 = b \<and> bit (0xFFFFFFFF :: u32) (n mod 32)} \<union> {32 * Suc b ..< 32 * (Suc b + k)})"
    by (simp only:) (intro adds_bind adds_or_word)
  moreover have "bit (0xFFFFFFFF :: u32) (n mod 32)" for n
  proof -
    have "(0xFFFFFFFF :: u32) = mask 32" by (simp add: mask_eq_exp_minus_1)
    then show ?thesis by (simp only: bit_mask_iff) simp
  qed
  then have "{n. n div 32 = b \<and> bit (0xFFFFFFFF :: u32) (n mod 32)} = {32 * b ..< 32 * b + 32}"
    by auto
  moreover have "{32 * b ..< 32 * b + 32} \<union> {32 * Suc b ..< 32 * (Suc b + k)} = {32 * b ..< 32 * (b + Suc k)}"
    by auto
  ultimately show ?case by (simp only:)
qed

lemma lex32: "r < 32 \<Longrightarrow> r' < 32 \<Longrightarrow> q * 32 + r \<le> q' * 32 + r' \<longleftrightarrow> q < q' \<or> q = q' \<and> r \<le> (r' :: nat)"
  by auto

lemma word_span:
  fixes n :: nat
  assumes "n = q * 32 + r" "r < 32" "b = qb * 32 + rb" "rb < 32" "e = qe * 32 + re" "re < 32" "qb < qe"
  shows "(q = qb \<and> rb \<le> r \<or> q = qe \<and> r \<le> re
      \<or> 32 * (qb + 1) \<le> n \<and> n < 32 * (qb + 1 + (qe - (qb + 1)))) \<longleftrightarrow> b \<le> n \<and> n \<le> e"
proof -
  have "b \<le> n \<longleftrightarrow> qb < q \<or> qb = q \<and> rb \<le> r" "n \<le> e \<longleftrightarrow> q < qe \<or> q = qe \<and> r \<le> re"
    using assms by (simp_all add: lex32)
  moreover have "32 * (qb + 1) \<le> n \<longleftrightarrow> qb < q" using assms(1,2) by auto
  moreover have "n < 32 * (qb + 1 + (qe - (qb + 1))) \<longleftrightarrow> q < qe" using assms(1,2,7) by auto
  ultimately show ?thesis using assms(7) by auto
qed

lemma adds_format0:
  assumes p: "rd uT p = Some b" "rd uT (p + 1) = Some e" and b_le: "b \<le> e"
    and last: "drop_bit 5 b = drop_bit 5 e \<longrightarrow> e \<noteq> 0xFFFF"
  shows "adds (uFillInfoFormate0 uT p) {unat b..unat e}"
proof (cases "drop_bit 5 b = drop_bit 5 e")
  case True
  have "adds (for_u16 SET_REPRESENTABLE b e) (\<Union>i \<in> {b..e}. {unat i})"
    using True last adds_SET by (intro adds_for_u16) auto
  moreover have "(\<Union>i \<in> {b..e}. {unat i}) = {unat b..unat e}"
  proof -
    have "n \<in> unat ` {b..e}" if "unat b \<le> n" "n \<le> unat e" for n
    proof
      have "n < 65536" using that(2) unat_u16_less [of e] by simp
      then show "n = unat (of_nat n :: u16)" by (simp add: unat_of_nat)
      with that show "of_nat n \<in> {b..e}" by (simp add: word_le_nat_alt)
    qed
    moreover have "(\<Union>i \<in> {b..e}. {unat i}) = unat ` {b..e}" by auto
    ultimately show ?thesis by (auto simp: word_le_nat_alt)
  qed
  ultimately show ?thesis
    using p True by (simp add: uFillInfoFormate0_def [abs_def])
next
  case False
  let ?b = "unat b div 32" and ?e = "unat e div 32"
  have "?b \<noteq> ?e" using False by (metis word_and_mod(1) word_unat_eq_iff)
  moreover have "?b \<le> ?e" using b_le by (simp add: word_le_nat_alt div_le_mono)
  ultimately have lt: "?b < ?e" by simp
  have e: "?e < 2048" using unat_u16_less [of e] by simp
  have F: "(0xFFFFFFFF :: u32) = mask 32" by (simp add: mask_eq_exp_minus_1)
  have B: "bit (push_bit j 0xFFFFFFFF :: u32) i \<longleftrightarrow> j \<le> i" if "i < 32" for i j
    using that unfolding F by (auto simp: bit_simps)
  have E: "bit (drop_bit (31 - j) 0xFFFFFFFF :: u32) i \<longleftrightarrow> i \<le> j" if "i < 32" "j < 32" for i j
    using that unfolding F by (auto simp: bit_simps)
  have m: "n mod 32 < 32" for n :: nat by simp
  have "adds (uFillInfoFormate0 uT p)
     ({n. n div 32 = ?b \<and> bit (push_bit (unat b mod 32) 0xFFFFFFFF :: u32) (n mod 32)} \<union>
      ({n. n div 32 = ?e \<and> bit (drop_bit (31 - unat e mod 32) 0xFFFFFFFF :: u32) (n mod 32)} \<union>
       {32 * (?b + 1) ..< 32 * (?b + 1 + (?e - (?b + 1)))}))"
  proof -
    have "uFillInfoFormate0 uT p = (\<lambda>info.
        Option.bind (or_word info ?b (push_bit (unat b mod 32) 0xFFFFFFFF)) (\<lambda>info1.
        Option.bind (or_word info1 ?e (drop_bit (31 - unat e mod 32) 0xFFFFFFFF))
          (fill_words (?e - (?b + 1)) (?b + 1))))"
      using p False by (simp add: uFillInfoFormate0_def [abs_def] word_and_mod Let_def)
    then show ?thesis
      using lt e by (simp only:) (intro adds_bind adds_or_word adds_fill_words; simp)
  qed
  moreover have "{n. n div 32 = ?b \<and> bit (push_bit (unat b mod 32) 0xFFFFFFFF :: u32) (n mod 32)} \<union>
      ({n. n div 32 = ?e \<and> bit (drop_bit (31 - unat e mod 32) 0xFFFFFFFF :: u32) (n mod 32)} \<union>
       {32 * (?b + 1) ..< 32 * (?b + 1 + (?e - (?b + 1)))}) = {unat b..unat e}"
    unfolding set_eq_iff Un_iff mem_Collect_eq atLeastLessThan_iff atLeastAtMost_iff B [OF m] E [OF m m]
    by (intro allI word_span [OF div_mult_mod_eq [symmetric] m div_mult_mod_eq [symmetric] m
          div_mult_mod_eq [symmetric] m lt])
  ultimately show ?thesis by (rule adds_cong)
qed

lemma adds_format1:
  assumes p: "rd uT p = Some b" "rd uT (p + 1) = Some e" "offsetToMappingTable uT = Some off"
      "rd uT (p + 2) = Some mo" and e: "e \<noteq> 0xFFFF"
    and t: "\<And>i. b \<le> i \<Longrightarrow> i \<le> e \<Longrightarrow>
      rd uT (unat off + unat mo + (unat i - unat b)) = Some (t ! (unat i - unat b))"
  shows "adds (uFillInfoFormate1 uT p)
    {unat i | i. b \<le> i \<and> i \<le> e \<and> t ! (unat i - unat b) \<noteq> NOMAPPING}"
proof -
  let ?S = "\<lambda>i. if t ! (unat i - unat b) \<noteq> NOMAPPING then {unat i} else {}"
  have "adds (for_u16 (\<lambda>i info. do {
       x \<leftarrow> rd uT (unat off + unat mo + (unat i - unat b));
       if 0xFFFD \<noteq> x then SET_REPRESENTABLE i info else Some info
     }) b e) (\<Union>i \<in> {b..e}. ?S i)"
    using e by (rule adds_for_u16) (auto simp: t adds_SET adds_Some)
  moreover have "(\<Union>i \<in> {b..e}. ?S i)
      = {unat i | i. b \<le> i \<and> i \<le> e \<and> t ! (unat i - unat b) \<noteq> NOMAPPING}"
    by (auto split: if_splits)
  ultimately show ?thesis
    using p by (simp add: uFillInfoFormate1_def [abs_def])
qed

lemma unat_atLeastAtMost: "{unat b..unat e} = {unat i | i. b \<le> i \<and> i \<le> (e :: u16)}"
proof (intro set_eqI iffI)
  fix n assume n: "n \<in> {unat b..unat e}"
  then have "n < 65536" using unat_u16_less [of e] by simp
  then have "n = unat (of_nat n :: u16)" by (simp add: unat_of_nat)
  with n show "n \<in> {unat i | i. b \<le> i \<and> i \<le> e}" by (auto simp: word_le_nat_alt)
qed (auto simp: word_le_nat_alt)

text \<open>
  The cells on which a 16-bit counter runs on, because it has to go past \<open>0xFFFF\<close>, and the cells on which the counters stop.
  The two ends of a range are in order.
\<close>

fun runs_on :: "ucell \<Rightarrow> bool" where
  "runs_on (Range b e d) \<longleftrightarrow> drop_bit 5 b = drop_bit 5 e \<and> e = 0xFFFF"
| "runs_on (Table b e t) \<longleftrightarrow> e = 0xFFFF"
| "runs_on (Single b d) \<longleftrightarrow> False"

fun in_order :: "ucell \<Rightarrow> bool" where
  "in_order (Range b e d) \<longleftrightarrow> b \<le> e"
| "in_order (Table b e t) \<longleftrightarrow> True"
| "in_order (Single b d) \<longleftrightarrow> True"

definition fill_ok :: "ucell \<Rightarrow> bool" where
  "fill_ok c \<longleftrightarrow> in_order c \<and> \<not> runs_on c"

lemma adds_cell:
  assumes "cell_rep uT i c" and "fill_ok c"
  shows "\<exists>format cell fill. uGetFormat uT i = Some format \<and> uGetMapCell uT i = Some cell
    \<and> rd m_fillinfo format = Some fill \<and> adds (fill uT cell) {unat w | w. cell_covers c w}"
proof (cases c)
  case (Range b e d)
  with assms show ?thesis
    using adds_format0 [of uT _ b e] by (auto simp: fill_ok_def m_fillinfo_def unat_atLeastAtMost)
next
  case (Single b d)
  with assms obtain p where "uGetFormat uT i = Some 2" "uGetMapCell uT i = Some p" "rd uT p = Some b"
    by auto
  with Single show ?thesis
    using adds_SET [of b] by (simp add: m_fillinfo_def uFillInfoFormate2_def [abs_def])
next
  case (Table b e t)
  with assms obtain p off mo where p: "uGetFormat uT i = Some 1" "uGetMapCell uT i = Some p"
    "rd uT p = Some b" "rd uT (p + 1) = Some e" "offsetToMappingTable uT = Some off"
    "rd uT (p + 2) = Some mo" by auto
  have "rd uT (unat off + unat mo + (unat w - unat b)) = Some (t ! (unat w - unat b))"
    if "b \<le> w" "w \<le> e" for w
    using Table_entry [OF assms(1) [unfolded Table] that] p by (metis option.inject)
  then have "adds (uFillInfoFormate1 uT p)
      {unat i | i. b \<le> i \<and> i \<le> e \<and> t ! (unat i - unat b) \<noteq> NOMAPPING}"
    using p assms(2) unfolding Table fill_ok_def by (intro adds_format1) auto
  then show ?thesis using p Table by (simp add: m_fillinfo_def)
qed

lemma uFillInfo_loop_Suc:
  assumes "uGetFormat uT i = Some format" "uGetMapCell uT i = Some cell" "rd m_fillinfo format = Some fill"
  shows "uFillInfo_loop (Suc k) i uT = (\<lambda>info. Option.bind (fill uT cell info) (uFillInfo_loop k (Suc i) uT))"
  using assms by (simp add: fun_eq_iff)

lemma adds_loop:
  assumes "\<forall>i < length cells. cell_rep uT (k + i) (cells ! i)" and "\<forall>c \<in> set cells. fill_ok c"
  shows "adds (uFillInfo_loop (length cells) k uT) {unat w | w. \<exists>c \<in> set cells. cell_covers c w}"
  using assms
proof (induction cells arbitrary: k)
  case Nil
  then show ?case using adds_Some by simp
next
  case (Cons c cells)
  have c: "cell_rep uT k c" using Cons.prems by force
  have IH: "adds (uFillInfo_loop (length cells) (Suc k) uT) {unat w | w. \<exists>c \<in> set cells. cell_covers c w}"
    using Cons.prems by (intro Cons.IH) force+
  obtain format cell fill where "uGetFormat uT k = Some format" "uGetMapCell uT k = Some cell"
    "rd m_fillinfo format = Some fill" "adds (fill uT cell) {unat w | w. cell_covers c w}"
    using adds_cell [OF c] Cons.prems(2) by auto
  then have "adds (uFillInfo_loop (length (c # cells)) k uT)
      ({unat w | w. cell_covers c w} \<union> {unat w | w. \<exists>c \<in> set cells. cell_covers c w})"
    using adds_bind [OF _ IH] by (simp add: uFillInfo_loop_Suc)
  then show ?case by (rule adds_cong) auto
qed

lemma adds_uFillInfo:
  assumes "utable_rep uT cells" and "\<forall>c \<in> set cells. fill_ok c"
  shows "adds (uFillInfo uT) {unat w | w. \<exists>c \<in> set cells. cell_covers c w}"
proof -
  have "adds (uFillInfo_loop (length cells) 0 uT) {unat w | w. \<exists>c \<in> set cells. cell_covers c w}"
    using assms by (intro adds_loop) (simp_all add: utable_rep_def)
  moreover have "uFillInfo uT = uFillInfo_loop (length cells) 0 uT"
    using assms(1) by (auto simp: uFillInfo_def utable_rep_def fun_eq_iff)
  ultimately show ?thesis by (simp only:)
qed

lemma addsD_unat:
  assumes "adds f {unat w | w. P w}" and "length info = 2048"
  shows "\<exists>info'. f info = Some info' \<and> length info' = 2048
    \<and> (\<forall>w :: u16. ibit info' (unat w) \<longleftrightarrow> ibit info (unat w) \<or> P w)"
proof -
  from assms obtain info' where i: "f info = Some info'" "length info' = 2048"
    "\<forall>n < 65536. ibit info' n \<longleftrightarrow> ibit info n \<or> n \<in> {unat w | w. P w}"
    unfolding adds_def by blast
  have "unat w \<in> {unat w | w. P w} \<longleftrightarrow> P w" for w :: u16
    by (auto simp: word_unat_eq_iff [symmetric])
  then have "ibit info' (unat w) \<longleftrightarrow> ibit info (unat w) \<or> P w" for w :: u16
    using i(3) unat_u16_less [of w] by auto
  then show ?thesis using i(1,2) by blast
qed

text \<open>The last code: the 16-bit counter passes the end of the range and starts again.\<close>

lemma for_u16_ends:
  assumes "for_u16 body b e info = Some info'"
  shows "e \<noteq> 0xFFFF"
proof (rule for_u16.raw_induct [OF _ assms])
  fix f :: "(u16 \<Rightarrow> info \<Rightarrow> info option) \<Rightarrow> u16 \<Rightarrow> u16 \<Rightarrow> info \<Rightarrow> info option"
    and body :: "u16 \<Rightarrow> info \<Rightarrow> info option" and i e :: u16 and info y
  assume IH: "\<And>body i e info y. f body i e info = Some y \<Longrightarrow> e \<noteq> 0xFFFF"
    and "(if i \<le> e then Option.bind (body i info) (\<lambda>info'. f body (i + 1) e info') else Some info) = Some y"
  then show "e \<noteq> 0xFFFF"
    using unat_u16_less [of i] by (auto simp: bind_eq_Some_conv word_le_nat_alt split: if_splits dest: IH)
qed

lemma runs_on_fill:
  assumes "cell_rep uT i c" and "runs_on c"
  shows "\<exists>format cell fill. uGetFormat uT i = Some format \<and> uGetMapCell uT i = Some cell
    \<and> rd m_fillinfo format = Some fill \<and> fill uT cell info = None"
proof -
  have n: "for_u16 f b 0xFFFF info = None" for f b
    using for_u16_ends [of f b "0xFFFF" info] by (cases "for_u16 f b 0xFFFF info") auto
  show ?thesis
    using assms n by (cases c) (auto simp: m_fillinfo_def uFillInfoFormate0_def uFillInfoFormate1_def)
qed

lemma loop_runs_on:
  assumes "\<forall>i < length cells. cell_rep uT (k + i) (cells ! i)" and "\<exists>c \<in> set cells. runs_on c"
  shows "uFillInfo_loop (length cells) k uT info = None"
  using assms
proof (induction cells arbitrary: k info)
  case Nil
  then show ?case by simp
next
  case (Cons c cells)
  have c: "cell_rep uT k c" using Cons.prems by force
  show ?case
  proof (cases "runs_on c")
    case True
    then show ?thesis using runs_on_fill [OF c, of info] by auto
  next
    case False
    then have "uFillInfo_loop (length cells) (Suc k) uT info' = None" for info'
      using Cons.prems by (intro Cons.IH) force+
    then show ?thesis by (simp add: bind_eq_None_conv)
  qed
qed

lemma uFillInfo_runs_on:
  assumes "utable_rep uT cells" and "\<exists>c \<in> set cells. runs_on c"
  shows "uFillInfo uT info = None"
proof -
  have "uFillInfo_loop (length cells) 0 uT info = None"
    using assms by (intro loop_runs_on) (simp_all add: utable_rep_def)
  then show ?thesis using assms(1) by (auto simp: uFillInfo_def utable_rep_def)
qed

lemma uMapCode_spec:
  assumes "utable_rep uT cells"
  shows "uMapCode uT w
    = Some (case table_map cells w of None \<Rightarrow> (False, NOMAPPING) | Some v \<Rightarrow> (v \<noteq> NOMAPPING, v))"
proof -
  have "uMapCode_loop (length cells) 0 uT w
    = Some (case table_map cells w of None \<Rightarrow> (False, NOMAPPING) | Some v \<Rightarrow> (True, v))"
    using assms by (intro map_loop) (simp add: utable_rep_def)
  with assms show ?thesis
    by (auto simp: uMapCode_def utable_rep_def split: option.split)
qed

text \<open>Tables in which no code is covered twice and no code is sent to the \<open>NOMAPPING\<close> mark by a
  range or a single cell.\<close>

definition tidy :: "ucell list \<Rightarrow> bool" where
  "tidy cells \<longleftrightarrow> (\<forall>w. \<forall>c \<in> set cells. cell_covers c w \<longrightarrow>
     cell_map c w \<noteq> Some NOMAPPING \<and> (\<forall>c' \<in> set cells. cell_map c' w \<noteq> None \<longrightarrow> c' = c))"

lemma covers_map: "cell_covers c w \<Longrightarrow> cell_map c w \<noteq> None"
  by (cases c) auto

lemma map_covers: "cell_map c w = Some v \<Longrightarrow> v \<noteq> NOMAPPING \<Longrightarrow> cell_covers c w"
  by (cases c) (auto split: if_splits)

lemma table_map_in: "table_map cells w = Some v \<Longrightarrow> \<exists>c \<in> set cells. cell_map c w = Some v"
  by (induction cells) (auto split: option.splits)

lemma table_map_None: "table_map cells w = None \<longleftrightarrow> (\<forall>c \<in> set cells. cell_map c w = None)"
  by (induction cells) (auto split: option.splits)

lemma tidy_covers:
  assumes "tidy cells"
  shows "(\<exists>c \<in> set cells. cell_covers c w) \<longleftrightarrow> (\<exists>v. table_map cells w = Some v \<and> v \<noteq> NOMAPPING)"
proof
  assume "\<exists>c \<in> set cells. cell_covers c w"
  then obtain c where c: "c \<in> set cells" "cell_covers c w" by blast
  then obtain v where v: "table_map cells w = Some v"
    using covers_map [OF c(2)] table_map_None [of cells w] by fastforce
  then obtain c' where "c' \<in> set cells" "cell_map c' w = Some v" using table_map_in by blast
  with assms c have "v \<noteq> NOMAPPING" by (force simp: tidy_def)
  with v show "\<exists>v. table_map cells w = Some v \<and> v \<noteq> NOMAPPING" by blast
qed (blast dest: table_map_in map_covers)

text \<open>A small table with a cell of each format.\<close>

definition sample_table :: utable where
  "sample_table = [3, 4, 5, 14, 0x0210, 0x20, 0x7e, 0x20, 0xa1, 0xa2, 0, 0xff, 0xff, 0x2018, 0xFFFD, 0x3001]"

definition sample_cells :: "ucell list" where
  "sample_cells = [Range 0x20 0x7e 0x20, Table 0xa1 0xa2 [0xFFFD, 0x3001], Single 0xff 0x2018]"

lemma sample_rep: "utable_rep sample_table sample_cells"
proof -
  note defs = sample_table_def itemOfList_def uGetFormat_def offsetToFormatArray_def uGetMapCell_def
    offsetToMapCellArray_def offsetToMappingTable_def
  have "cell_rep sample_table 0 (Range 0x20 0x7e 0x20)" by (simp add: defs)
  moreover have "cell_rep sample_table 1 (Table 0xa1 0xa2 [0xFFFD, 0x3001])" by (simp add: defs)
  moreover have "cell_rep sample_table 2 (Single 0xff 0x2018)" by (simp add: defs)
  ultimately have "cell_rep sample_table i (sample_cells ! i)" if "i < 3" for i
    using that by (auto simp: sample_cells_def less_Suc_eq numeral_3_eq_3 numeral_2_eq_2)
  then show ?thesis
    by (simp add: utable_rep_def) (simp add: itemOfList_def sample_table_def sample_cells_def)
qed

lemma sample_fill_ok: "\<forall>c \<in> set sample_cells. fill_ok c"
  by (simp add: sample_cells_def fill_ok_def)

lemma sample_tidy: "tidy sample_cells"
  by (auto simp: tidy_def sample_cells_def word_le_nat_alt split: if_splits)


subsection \<open>The properties\<close>

text \<open>C16: \<open>uMapCode\<close> computes the mapping the cells of its table stand for: the image of the
  code under the first cell that covers it, with \<open>PR_FALSE\<close> and the replacement character
  when no cell does, and \<open>PR_FALSE\<close> also when the image is the \<open>NOMAPPING\<close> mark. It never
  reads outside a table of this form.\<close>

theorem uMapCode_refines:
  assumes "utable_rep uT cells"
  shows "uMapCode uT w
    = Some (case table_map cells w of None \<Rightarrow> (False, NOMAPPING) | Some v \<Rightarrow> (v \<noteq> NOMAPPING, v))"
  using assms by (rule uMapCode_spec)

lemma uMapCode_refines_witness:
  "uMapCode sample_table 0x41 = Some (True, 0x41) \<and> uMapCode sample_table 0xa1 = Some (False, 0xfffd)
    \<and> uMapCode sample_table 0xa2 = Some (True, 0x3001)"
  by (simp add: uMapCode_refines [OF sample_rep] sample_cells_def)

text \<open>C28: \<open>uFillInfo\<close>, on a table whose ranges have their two ends in order, stays inside the bitmap of 2048 words and
  sets exactly the bits of the codes that some cell of the table covers, by whichever of its three fills (bit by
  bit, or by whole words between two masked ends); every other bit keeps its value. It returns unless some cell makes it run for
  ever: a cell of format 1 that ends at \<open>0xFFFF\<close>, or a range that ends there and has both its ends in one word of the bitmap.\<close>

theorem uFillInfo_exact:
  assumes "utable_rep uT cells" and "\<forall>c \<in> set cells. in_order c" and "length info = 2048"
  shows "if \<exists>c \<in> set cells. runs_on c then uFillInfo uT info = None
    else \<exists>info'. uFillInfo uT info = Some info' \<and> length info' = 2048
      \<and> (\<forall>w. ibit info' (unat w) \<longleftrightarrow> ibit info (unat w) \<or> (\<exists>c \<in> set cells. cell_covers c w))"
proof (cases "\<exists>c \<in> set cells. runs_on c")
  case True
  then show ?thesis using uFillInfo_runs_on [OF assms(1)] by simp
next
  case False
  then have "\<forall>c \<in> set cells. fill_ok c" using assms(2) by (auto simp: fill_ok_def)
  from addsD_unat [OF adds_uFillInfo [OF assms(1) this] assms(3)] show ?thesis using False by simp
qed

lemma uFillInfo_exact_witness:
  "\<exists>info'. uFillInfo sample_table (replicate 2048 0) = Some info' \<and> length info' = 2048
    \<and> (\<forall>w. ibit info' (unat w) \<longleftrightarrow> 
      ibit (replicate 2048 0) (unat w) \<or> (\<exists>c \<in> set sample_cells. cell_covers c w))"
  using uFillInfo_exact [OF sample_rep, of "replicate 2048 0"] sample_fill_ok by (auto simp: fill_ok_def split: if_splits)

text \<open>C29: the two readings of a table agree. Starting from an empty bitmap, the bit of a code is
  set if and only if \<open>uMapCode\<close> maps the code, for tables on which \<open>uFillInfo\<close> ends (the ends of a range are in order, and
  no cell runs on past \<open>0xFFFF\<close>), whose cells do not overlap, and in which no range and no single cell sends a
  code to \<open>NOMAPPING\<close>: for such a code the bit is set though \<open>uMapCode\<close> refuses it.\<close>

theorem bitmap_iff_mapped:
  assumes "utable_rep uT cells" and "\<forall>c \<in> set cells. fill_ok c" and "tidy cells"
  shows "\<exists>info. uFillInfo uT (replicate 2048 0) = Some info
    \<and> (\<forall>w. ibit info (unat w) \<longleftrightarrow> (\<exists>v. uMapCode uT w = Some (True, v)))"
proof -
  obtain info where i: "uFillInfo uT (replicate 2048 0) = Some info"
    "\<forall>w. ibit info (unat w) \<longleftrightarrow> ibit (replicate 2048 0) (unat w) \<or> (\<exists>c \<in> set cells. cell_covers c w)"
    using addsD_unat [OF adds_uFillInfo [OF assms(1,2)], of "replicate 2048 0"] by auto
  have "\<not> ibit (replicate 2048 0) (unat w)" for w :: u16
    using unat_u16_less [of w] by (simp add: ibit_def)
  then show ?thesis
    using i tidy_covers [OF assms(3)] uMapCode_spec [OF assms(1)] by (auto split: option.splits)
qed

lemma bitmap_iff_mapped_witness:
  "\<exists>info. uFillInfo sample_table (replicate 2048 0) = Some info
    \<and> (\<forall>w. ibit info (unat w) \<longleftrightarrow> (\<exists>v. uMapCode sample_table w = Some (True, v)))"
  by (rule bitmap_iff_mapped [OF sample_rep sample_fill_ok sample_tidy])

text \<open>a cell of format 1 whose last code is \<open>0xFFFF\<close> makes \<open>uFillInfo\<close> run for ever: the
  counter is 16 bits wide, passes the end of the range and starts again at zero. (A cell of
  format 0 has the same loop when both ends lie in one word of the bitmap.)\<close>

lemma uFillInfo_last_code:
  assumes "utable_rep uT cells" and "Table b 0xFFFF t \<in> set cells"
  shows "uFillInfo uT info = None"
  using assms by (intro uFillInfo_runs_on) force+

lemma uFillInfo_last_code_witness:
  "uFillInfo [1, 4, 5, 8, 1, 0xfffe, 0xffff, 0, 0x4e00, 0x4e01] (replicate 2048 0) = None"
proof (rule uFillInfo_last_code)
  show "utable_rep [1, 4, 5, 8, 1, 0xfffe, 0xffff, 0, 0x4e00, 0x4e01] [Table 0xfffe 0xffff [0x4e00, 0x4e01]]"
    by (simp add: utable_rep_def itemOfList_def uGetFormat_def offsetToFormatArray_def
        uGetMapCell_def offsetToMapCellArray_def offsetToMappingTable_def)
qed simp

end
