(* ===== verification/Pl_String.thy ===== *)
theory Pl_String
  imports Kz_Prelude
begin

text \<open>
  The C string functions of \<open>nsprpub/lib/libc/src\<close> (\<open>strlen.c\<close>, \<open>strcpy.c\<close>, \<open>strcat.c\<close>,
  \<open>strcmp.c\<close>, \<open>strccmp.c\<close>, \<open>strchr.c\<close>, \<open>strpbrk.c\<close>, \<open>strstr.c\<close>, \<open>strcstr.c\<close>, \<open>strdup.c\<close>,
  \<open>strtok.c\<close>), on 64-bit pointers.

  A \<open>char *\<close> argument is \<open>None\<close> for the null pointer and otherwise the cells from the
  pointer to the end of its object; a \<open>char *\<close> result that points into an argument is the
  offset from it (\<open>Some None\<close> is the null pointer returned, \<open>None\<close> an access outside the
  object). The destination and the source of a copy are different objects. The functions of
  the C library the code calls (\<open>strlen\<close>, \<open>strcmp\<close>, ...) are defined first.
\<close>

type_synonym cells = "u8 list"
type_synonym cptr = "u8 list option"

subsection \<open>The C library\<close>

fun c_strlen :: "cells \<Rightarrow> nat option" where
  "c_strlen [] = None"
| "c_strlen (c # s) = (if c = 0 then Some 0 else map_option Suc (c_strlen s))"

text \<open>The comparison loop, on the images of the bytes under \<open>f\<close>.\<close>

fun cmp_loop :: "(u8 \<Rightarrow> u8) \<Rightarrow> cells \<Rightarrow> cells \<Rightarrow> int option" where
  "cmp_loop f (x # a) (y # b) =
     (if f x = f y \<and> x \<noteq> 0 then cmp_loop f a b else Some (uint (f x) - uint (f y)))"
| "cmp_loop f _ _ = None"

fun ncmp_loop :: "(u8 \<Rightarrow> u8) \<Rightarrow> nat \<Rightarrow> cells \<Rightarrow> cells \<Rightarrow> int option" where
  "ncmp_loop f 0 a b = Some 0"
| "ncmp_loop f (Suc n) (x # a) (y # b) =
     (if f x = f y \<and> x \<noteq> 0 then ncmp_loop f n a b else Some (uint (f x) - uint (f y)))"
| "ncmp_loop f (Suc n) _ _ = None"

definition c_strcmp :: "cells \<Rightarrow> cells \<Rightarrow> int option" where
  "c_strcmp = cmp_loop (\<lambda>x. x)"

definition c_strncmp :: "cells \<Rightarrow> cells \<Rightarrow> nat \<Rightarrow> int option" where
  "c_strncmp a b n = ncmp_loop (\<lambda>x. x) n a b"

text \<open>\<open>strcpy\<close>: the source with its terminator, over the first cells of the destination.\<close>

definition c_strcpy :: "cells \<Rightarrow> cells \<Rightarrow> cells option" where
  "c_strcpy dest src = do { l \<leftarrow> c_strlen src; store dest (take (l + 1) src) }"

definition c_strcat :: "cells \<Rightarrow> cells \<Rightarrow> cells option" where
  "c_strcat dest src = do {
     dl \<leftarrow> c_strlen dest;
     d \<leftarrow> c_strcpy (drop dl dest) src;
     Some (take dl dest @ d)
   }"

text \<open>\<open>for (p = list; *p; p++) if (c == *p) ...\<close>: is the character in the list?\<close>

fun in_list :: "cells \<Rightarrow> u8 \<Rightarrow> bool option" where
  "in_list [] c = None"
| "in_list (p # ps) c = (if p = 0 then Some False else if c = p then Some True else in_list ps c)"

text \<open>
  The two shapes of the search loops. \<open>search_str hit s i\<close> goes forward from offset \<open>i\<close>, with
  \<open>s\<close> the cells from there, until a hit or the terminator; \<open>search_n\<close> also stops when its
  counter is zero; \<open>search_back hit k\<close> goes down from offset \<open>k - 1\<close> to \<open>0\<close>.
\<close>

fun search_str :: "(nat \<Rightarrow> bool option) \<Rightarrow> cells \<Rightarrow> nat \<Rightarrow> nat option option" where
  "search_str hit [] i = None"
| "search_str hit (x # s) i =
     (if x = 0 then Some None
      else do { b \<leftarrow> hit i; if b then Some (Some i) else search_str hit s (Suc i) })"

fun search_n :: "(nat \<Rightarrow> bool option) \<Rightarrow> nat \<Rightarrow> cells \<Rightarrow> nat \<Rightarrow> nat option option" where
  "search_n hit 0 s i = Some None"
| "search_n hit (Suc n) [] i = None"
| "search_n hit (Suc n) (x # s) i =
     (if x = 0 then Some None
      else do { b \<leftarrow> hit i; if b then Some (Some i) else search_n hit n s (Suc i) })"

fun search_back :: "(nat \<Rightarrow> bool option) \<Rightarrow> nat \<Rightarrow> nat option option" where
  "search_back hit 0 = Some None"
| "search_back hit (Suc k) = do { b \<leftarrow> hit k; if b then Some (Some k) else search_back hit k }"

definition char_at :: "cells \<Rightarrow> u8 \<Rightarrow> nat \<Rightarrow> bool option" where
  "char_at s c i = do { x \<leftarrow> rd s i; Some (x = c) }"

definition list_at :: "cells \<Rightarrow> cells \<Rightarrow> nat \<Rightarrow> bool option" where
  "list_at s list i = do { x \<leftarrow> rd s i; in_list list x }"

text \<open>\<open>strchr\<close> and \<open>strrchr\<close> also find the terminator.\<close>

definition c_strchr :: "cells \<Rightarrow> u8 \<Rightarrow> nat option option" where
  "c_strchr s c = do {
     l \<leftarrow> c_strlen s;
     if c = 0 then Some (Some l) else search_str (char_at s c) s 0
   }"

definition c_strrchr :: "cells \<Rightarrow> u8 \<Rightarrow> nat option option" where
  "c_strrchr s c = do { l \<leftarrow> c_strlen s; search_back (char_at s c) (l + 1) }"

definition c_strpbrk :: "cells \<Rightarrow> cells \<Rightarrow> nat option option" where
  "c_strpbrk s list = search_str (list_at s list) s 0"

text \<open>\<open>strstr\<close>, for a \<open>little\<close> that is not empty (the callers below check it).\<close>

definition little_at :: "cells \<Rightarrow> cells \<Rightarrow> nat \<Rightarrow> nat \<Rightarrow> bool option" where
  "little_at big little ll i = do {
     l0 \<leftarrow> rd little 0;
     x \<leftarrow> rd big i;
     if l0 = x then do { r \<leftarrow> c_strncmp (drop i big) little ll; Some (0 = r) } else Some False
   }"

definition c_strstr :: "cells \<Rightarrow> cells \<Rightarrow> nat option option" where
  "c_strstr big little = do { ll \<leftarrow> c_strlen little; search_str (little_at big little ll) big 0 }"

subsection \<open>\<open>strlen.c\<close>\<close>

definition PL_strlen :: "cptr \<Rightarrow> u32 option" where
  "PL_strlen str = (case str of None \<Rightarrow> Some 0 | Some s \<Rightarrow> do { l \<leftarrow> c_strlen s; Some (of_nat l) })"

fun strnlen_loop :: "cells \<Rightarrow> nat \<Rightarrow> nat option" where
  "strnlen_loop s 0 = Some 0"
| "strnlen_loop [] (Suc mx) = None"
| "strnlen_loop (c # s) (Suc mx) = (if c = 0 then Some 0 else map_option Suc (strnlen_loop s mx))"

definition PL_strnlen :: "cptr \<Rightarrow> u32 \<Rightarrow> u32 option" where
  "PL_strnlen str mx = (case str of None \<Rightarrow> Some 0
     | Some s \<Rightarrow> do { l \<leftarrow> strnlen_loop s (unat mx); Some (of_nat l) })"

subsection \<open>\<open>strcpy.c\<close>\<close>

text \<open>
  The result is the destination after the call; \<open>Some None\<close> is the null pointer returned,
  with nothing written.
\<close>

definition PL_strcpy :: "cptr \<Rightarrow> cptr \<Rightarrow> cptr option" where
  "PL_strcpy dest src = (case (dest, src) of
     (Some d, Some s) \<Rightarrow> do { d' \<leftarrow> c_strcpy d s; Some (Some d') }
   | _ \<Rightarrow> Some None)"

fun strncpy_loop :: "cells \<Rightarrow> cells \<Rightarrow> nat \<Rightarrow> cells option" where
  "strncpy_loop dest src 0 = Some dest"
| "strncpy_loop (d # dest) (c # src) (Suc mx) =
     (if c = 0 then Some (c # dest) else map_option ((#) c) (strncpy_loop dest src mx))"
| "strncpy_loop _ _ (Suc mx) = None"

definition PL_strncpy :: "cptr \<Rightarrow> cptr \<Rightarrow> u32 \<Rightarrow> cptr option" where
  "PL_strncpy dest src mx = (case (dest, src) of
     (Some d, Some s) \<Rightarrow> do { d' \<leftarrow> strncpy_loop d s (unat mx); Some (Some d') }
   | _ \<Rightarrow> Some None)"

text \<open>The loop of \<open>PL_strncpyz\<close> and the write of the terminator where it stops.\<close>

fun strncpyz_loop :: "cells \<Rightarrow> cells \<Rightarrow> nat \<Rightarrow> cells option" where
  "strncpyz_loop dest src 0 = wr dest 0 0"
| "strncpyz_loop (d # dest) (c # src) (Suc mx) =
     (if c = 0 then wr (c # dest) 0 0 else map_option ((#) c) (strncpyz_loop dest src mx))"
| "strncpyz_loop _ _ (Suc mx) = None"

definition PL_strncpyz :: "cptr \<Rightarrow> cptr \<Rightarrow> u32 \<Rightarrow> cptr option" where
  "PL_strncpyz dest src mx = (case (dest, src) of
     (Some d, Some s) \<Rightarrow>
       if mx = 0 then Some None
       else do { d' \<leftarrow> strncpyz_loop d s (unat (mx - 1)); Some (Some d') }
   | _ \<Rightarrow> Some None)"

subsection \<open>\<open>strcat.c\<close>\<close>

definition PL_strcat :: "cptr \<Rightarrow> cptr \<Rightarrow> cptr option" where
  "PL_strcat dest src = (case (dest, src) of
     (Some d, Some s) \<Rightarrow> do { d' \<leftarrow> c_strcat d s; Some (Some d') }
   | _ \<Rightarrow> Some dest)"

definition PL_strncat :: "cptr \<Rightarrow> cptr \<Rightarrow> u32 \<Rightarrow> cptr option" where
  "PL_strncat dest src mx = (case (dest, src) of
     (Some d, Some s) \<Rightarrow>
       if mx = 0 then Some dest
       else do {
         dl \<leftarrow> c_strlen d;
         r \<leftarrow> PL_strncpy (Some (drop dl d)) src mx;
         Some (map_option (\<lambda>d'. take dl d @ d') r)
       }
   | _ \<Rightarrow> Some dest)"

definition PL_strcatn :: "cptr \<Rightarrow> u32 \<Rightarrow> cptr \<Rightarrow> cptr option" where
  "PL_strcatn dest mx src = (case (dest, src) of
     (Some d, Some s) \<Rightarrow> do {
       dl \<leftarrow> c_strlen d;
       if mx \<le> of_nat dl then Some dest
       else do {
         r \<leftarrow> PL_strncpyz (Some (drop dl d)) src (mx - of_nat dl);
         Some (map_option (\<lambda>d'. take dl d @ d') r)
       }
     }
   | _ \<Rightarrow> Some dest)"

subsection \<open>\<open>strcmp.c\<close> and \<open>strccmp.c\<close>\<close>

text \<open>
  When a pointer is null the result is the difference of the two pointers, \<open>diff\<close>: an
  argument, since addresses are not part of the model.
\<close>

definition PL_strcmp :: "int \<Rightarrow> cptr \<Rightarrow> cptr \<Rightarrow> int option" where
  "PL_strcmp diff a b = (case (a, b) of (Some x, Some y) \<Rightarrow> c_strcmp x y | _ \<Rightarrow> Some diff)"

definition PL_strncmp :: "int \<Rightarrow> cptr \<Rightarrow> cptr \<Rightarrow> u32 \<Rightarrow> int option" where
  "PL_strncmp diff a b mx =
     (case (a, b) of (Some x, Some y) \<Rightarrow> c_strncmp x y (unat mx) | _ \<Rightarrow> Some diff)"

text \<open>The table that sends every byte to its upper case.\<close>

definition uc_table :: "u8 list" where
  "uc_table = map of_nat ([0..<97] @ [65..<91] @ [123..<256])"

definition uc :: "u8 \<Rightarrow> u8" where
  "uc c = uc_table ! unat c"

definition PL_strcasecmp :: "int \<Rightarrow> cptr \<Rightarrow> cptr \<Rightarrow> int option" where
  "PL_strcasecmp diff a b = (case (a, b) of (Some x, Some y) \<Rightarrow> cmp_loop uc x y | _ \<Rightarrow> Some diff)"

definition PL_strncasecmp :: "int \<Rightarrow> cptr \<Rightarrow> cptr \<Rightarrow> u32 \<Rightarrow> int option" where
  "PL_strncasecmp diff a b mx =
     (case (a, b) of (Some x, Some y) \<Rightarrow> ncmp_loop uc (unat mx) x y | _ \<Rightarrow> Some diff)"

subsection \<open>\<open>strchr.c\<close>\<close>

definition PL_strchr :: "cptr \<Rightarrow> u8 \<Rightarrow> nat option option" where
  "PL_strchr s c = (case s of None \<Rightarrow> Some None | Some x \<Rightarrow> c_strchr x c)"

definition PL_strrchr :: "cptr \<Rightarrow> u8 \<Rightarrow> nat option option" where
  "PL_strrchr s c = (case s of None \<Rightarrow> Some None | Some x \<Rightarrow> c_strrchr x c)"

text \<open>
  After the loop \<open>s\<close> is \<open>k\<close> cells further and \<open>n\<close> is \<open>k\<close> less; the loop found the character or
  stopped at the terminator or at zero.
\<close>

definition PL_strnchr :: "cptr \<Rightarrow> u8 \<Rightarrow> u32 \<Rightarrow> nat option option" where
  "PL_strnchr s c n = (case s of None \<Rightarrow> Some None | Some x \<Rightarrow> do {
     r \<leftarrow> search_n (char_at x c) (unat n) x 0;
     case r of
       Some i \<Rightarrow> Some (Some i)
     | None \<Rightarrow> do {
         k \<leftarrow> strnlen_loop x (unat n);
         if c = 0 \<and> unat n - k > 0
         then do { z \<leftarrow> rd x k; Some (if z = 0 then Some k else None) }
         else Some None
       }
   })"

definition PL_strnrchr :: "cptr \<Rightarrow> u8 \<Rightarrow> u32 \<Rightarrow> nat option option" where
  "PL_strnrchr s c n = (case s of None \<Rightarrow> Some None | Some x \<Rightarrow> do {
     k \<leftarrow> strnlen_loop x (unat n);
     z \<leftarrow> (if c = 0 \<and> unat n - k > 0 then do { z \<leftarrow> rd x k; Some (z = 0) } else Some False);
     if z then Some (Some k) else search_back (char_at x c) k
   })"

subsection \<open>\<open>strpbrk.c\<close>\<close>

definition PL_strpbrk :: "cptr \<Rightarrow> cptr \<Rightarrow> nat option option" where
  "PL_strpbrk s list = (case (s, list) of
     (Some x, Some l) \<Rightarrow> c_strpbrk x l | _ \<Rightarrow> Some None)"

definition PL_strprbrk :: "cptr \<Rightarrow> cptr \<Rightarrow> nat option option" where
  "PL_strprbrk s list = (case (s, list) of
     (Some x, Some l) \<Rightarrow> do { r \<leftarrow> c_strlen x; search_back (list_at x l) r }
   | _ \<Rightarrow> Some None)"

definition PL_strnpbrk :: "cptr \<Rightarrow> cptr \<Rightarrow> u32 \<Rightarrow> nat option option" where
  "PL_strnpbrk s list mx = (case (s, list) of
     (Some x, Some l) \<Rightarrow> search_n (list_at x l) (unat mx) x 0 | _ \<Rightarrow> Some None)"

definition PL_strnprbrk :: "cptr \<Rightarrow> cptr \<Rightarrow> u32 \<Rightarrow> nat option option" where
  "PL_strnprbrk s list mx = (case (s, list) of
     (Some x, Some l) \<Rightarrow> do { r \<leftarrow> strnlen_loop x (unat mx); search_back (list_at x l) r }
   | _ \<Rightarrow> Some None)"

subsection \<open>\<open>strstr.c\<close>\<close>

text \<open>The checks that open every substring search: both pointers, both first characters.\<close>

definition with_strings :: "cptr \<Rightarrow> cptr \<Rightarrow> (cells \<Rightarrow> cells \<Rightarrow> nat option option) \<Rightarrow> nat option option" where
  "with_strings big little f = (case (big, little) of
     (Some x, Some l) \<Rightarrow> do {
       x0 \<leftarrow> rd x 0;
       if x0 = 0 then Some None
       else do { l0 \<leftarrow> rd l 0; if l0 = 0 then Some None else f x l }
     }
   | _ \<Rightarrow> Some None)"

definition PL_strstr :: "cptr \<Rightarrow> cptr \<Rightarrow> nat option option" where
  "PL_strstr big little = with_strings big little c_strstr"

definition PL_strrstr :: "cptr \<Rightarrow> cptr \<Rightarrow> nat option option" where
  "PL_strrstr big little = with_strings big little (\<lambda>x l. do {
     ll \<leftarrow> c_strlen l;
     bl \<leftarrow> c_strlen x;
     if bl < ll then Some None else search_back (little_at x l ll) (Suc (bl - ll))
   })"

definition PL_strnstr :: "cptr \<Rightarrow> cptr \<Rightarrow> u32 \<Rightarrow> nat option option" where
  "PL_strnstr big little mx = with_strings big little (\<lambda>x l. do {
     ll \<leftarrow> c_strlen l;
     if ll > unat mx then Some None
     else search_n (little_at x l ll) (unat (mx - of_nat ll + 1)) x 0
   })"

definition PL_strnrstr :: "cptr \<Rightarrow> cptr \<Rightarrow> u32 \<Rightarrow> nat option option" where
  "PL_strnrstr big little mx = with_strings big little (\<lambda>x l. do {
     ll \<leftarrow> c_strlen l;
     p \<leftarrow> strnlen_loop x (unat mx);
     if p < ll then Some None else search_back (little_at x l ll) (Suc (p - ll))
   })"

subsection \<open>\<open>strcstr.c\<close>\<close>

definition caselittle_at :: "cells \<Rightarrow> cells \<Rightarrow> u32 \<Rightarrow> nat \<Rightarrow> bool option" where
  "caselittle_at big little ll i = do {
     r \<leftarrow> PL_strncasecmp 0 (Some (drop i big)) (Some little) ll;
     Some (0 = r)
   }"

definition PL_strcasestr :: "cptr \<Rightarrow> cptr \<Rightarrow> nat option option" where
  "PL_strcasestr big little = with_strings big little (\<lambda>x l. do {
     ll \<leftarrow> PL_strlen (Some l);
     search_str (caselittle_at x l ll) x 0
   })"

text \<open>
  \<open>p = &big[PL_strlen(big) - ll]\<close>: the difference is a \<open>PRUint32\<close>, so with 64-bit pointers \<open>p\<close>
  is never below \<open>big\<close> and the test \<open>p < big\<close> never holds.
\<close>

definition PL_strcaserstr :: "cptr \<Rightarrow> cptr \<Rightarrow> nat option option" where
  "PL_strcaserstr big little = with_strings big little (\<lambda>x l. do {
     ll \<leftarrow> PL_strlen (Some l);
     bl \<leftarrow> PL_strlen (Some x);
     search_back (caselittle_at x l ll) (Suc (unat (bl - ll)))
   })"

definition PL_strncasestr :: "cptr \<Rightarrow> cptr \<Rightarrow> u32 \<Rightarrow> nat option option" where
  "PL_strncasestr big little mx = with_strings big little (\<lambda>x l. do {
     ll \<leftarrow> PL_strlen (Some l);
     if ll > mx then Some None
     else search_n (caselittle_at x l ll) (unat (mx - ll + 1)) x 0
   })"

definition PL_strncaserstr :: "cptr \<Rightarrow> cptr \<Rightarrow> u32 \<Rightarrow> nat option option" where
  "PL_strncaserstr big little mx = with_strings big little (\<lambda>x l. do {
     ll \<leftarrow> PL_strlen (Some l);
     p \<leftarrow> strnlen_loop x (unat mx);
     if p < unat ll then Some None else search_back (caselittle_at x l ll) (Suc (p - unat ll))
   })"

subsection \<open>\<open>strdup.c\<close>\<close>

text \<open>
  \<open>malloc n\<close> is \<open>None\<close> when the allocation fails, else the new block. The result is the block
  with the copy, or the null pointer.
\<close>

definition PL_strdup :: "(nat \<Rightarrow> cptr) \<Rightarrow> cptr \<Rightarrow> cptr option" where
  "PL_strdup malloc s = do {
     let s' = (case s of None \<Rightarrow> [0] | Some x \<Rightarrow> x);
     l \<leftarrow> c_strlen s';
     let n = l + 1;
     case malloc n of
       None \<Rightarrow> Some None
     | Some rv \<Rightarrow> do { rv' \<leftarrow> store rv (take n s'); Some (Some rv') }
   }"

definition PL_strndup :: "(nat \<Rightarrow> cptr) \<Rightarrow> cptr \<Rightarrow> u32 \<Rightarrow> cptr option" where
  "PL_strndup malloc s mx = do {
     let s' = (case s of None \<Rightarrow> [0] | Some x \<Rightarrow> x);
     l0 \<leftarrow> PL_strnlen (Some s') mx;
     let l = unat l0;
     case malloc (l + 1) of
       None \<Rightarrow> Some None
     | Some rv \<Rightarrow> do { rv1 \<leftarrow> store rv (take l s'); rv2 \<leftarrow> wr rv1 l 0; Some (Some rv2) }
   }"

subsection \<open>\<open>strtok.c\<close>\<close>

text \<open>
  The string lives in an object \<open>m\<close>, in which the function writes; \<open>s1\<close>, \<open>*lasts\<close> and the
  result are positions in it or the null pointer. \<open>skip_seps\<close> is the first loop: it stops at
  the terminator or at the first character that is no separator.
\<close>

fun skip_seps :: "cells \<Rightarrow> cells \<Rightarrow> nat \<Rightarrow> nat option" where
  "skip_seps s2 [] i = None"
| "skip_seps s2 (c # s) i =
     (if c = 0 then Some i
      else do { b \<leftarrow> in_list s2 c; if b then skip_seps s2 s (Suc i) else Some i })"

record strtok_result =
  tok_mem :: cells
  tok_result :: "nat option"
  tok_lasts :: "nat option"

definition PL_strtok_r :: "cells \<Rightarrow> nat option \<Rightarrow> cells \<Rightarrow> nat option \<Rightarrow> strtok_result option" where
  "PL_strtok_r m s1 s2 lasts =
     (case (case s1 of Some p \<Rightarrow> Some p | None \<Rightarrow> lasts) of
       None \<Rightarrow> Some \<lparr>tok_mem = m, tok_result = None, tok_lasts = lasts\<rparr>
     | Some p \<Rightarrow> do {
         i \<leftarrow> skip_seps s2 (drop p m) p;
         c \<leftarrow> rd m i;
         if c = 0 then Some \<lparr>tok_mem = m, tok_result = None, tok_lasts = None\<rparr>
         else do {
           sep \<leftarrow> search_str (list_at m s2) (drop (i + 1) m) (i + 1);
           case sep of
             None \<Rightarrow> Some \<lparr>tok_mem = m, tok_result = Some i, tok_lasts = None\<rparr>
           | Some j \<Rightarrow> do {
               m' \<leftarrow> wr m j 0;
               Some \<lparr>tok_mem = m', tok_result = Some i, tok_lasts = Some (j + 1)\<rparr>
             }
         }
       })"

end
