(* ===== verification/Pl_String_Spec.thy ===== *)
theory Pl_String_Spec
  imports Pl_String
begin

text \<open>
  What the string functions of \<open>Pl_String\<close> compute: each search is the first or the last
  offset of a list, each comparison the lexicographic order, each copy a list of cells.
\<close>


subsection \<open>C strings\<close>

text \<open>The cells start with the string \<open>t\<close> and its terminator.\<close>

definition cstr :: "cells \<Rightarrow> u8 list \<Rightarrow> bool" where
  "cstr s t \<longleftrightarrow> 0 \<notin> set t \<and> (\<exists>r. s = t @ 0 # r)"

named_theorems cstr_simps \<open>the loops on C strings\<close>

lemma cstr_Nil [simp]: "\<not> cstr [] t"
  by (simp add: cstr_def)

lemma cstr_Cons: "cstr (c # s) t \<longleftrightarrow> (if c = 0 then t = [] else \<exists>t'. t = c # t' \<and> cstr s t')"
  by (cases t) (auto simp: cstr_def)

lemma cstrI [intro]: "0 \<notin> set t \<Longrightarrow> cstr (t @ 0 # r) t"
  by (auto simp: cstr_def)

lemma cstr_induct [consumes 1, case_names nul char]:
  assumes "cstr s t" and "\<And>r. P (0 # r) []"
    and "\<And>c s t. c \<noteq> 0 \<Longrightarrow> cstr s t \<Longrightarrow> P s t \<Longrightarrow> P (c # s) (c # t)"
  shows "P s t"
  using assms(1)
proof (induction s arbitrary: t)
  case Nil
  then show ?case by simp
next
  case (Cons c s)
  then show ?case using assms(2,3) by (cases "c = 0") (auto simp: cstr_Cons)
qed

lemma cstr_rd: "cstr s t \<Longrightarrow> i < length t \<Longrightarrow> rd s i = Some (t ! i)"
  by (auto simp: cstr_def rd_def nth_append)

lemma cstr_rd_end: "cstr s t \<Longrightarrow> rd s (length t) = Some 0"
  by (auto simp: cstr_def rd_def nth_append)

lemma cstr_nonzero: "cstr s t \<Longrightarrow> i < length t \<Longrightarrow> t ! i \<noteq> 0"
  by (auto simp: cstr_def) (metis nth_mem)

lemma cstr_drop: "cstr s t \<Longrightarrow> i \<le> length t \<Longrightarrow> cstr (drop i s) (drop i t)"
  by (auto simp: cstr_def dest: in_set_dropD)

lemma cstr_length: "cstr s t \<Longrightarrow> length t < length s"
  by (auto simp: cstr_def)

lemma cstr_take: "cstr s t \<Longrightarrow> n \<le> length t \<Longrightarrow> take n s = take n t"
  by (auto simp: cstr_def)

lemma strlen_cstr [cstr_simps]: "cstr s t \<Longrightarrow> c_strlen s = Some (length t)"
  by (induction rule: cstr_induct) simp_all

lemma strlen_iff: "c_strlen s = Some n \<longleftrightarrow> (\<exists>t. cstr s t \<and> n = length t)"
proof (induction s arbitrary: n)
  case Nil
  then show ?case by simp
next
  case (Cons c s)
  then show ?case by (cases "c = 0") (auto simp: cstr_Cons)
qed

lemma strnlen_cstr [cstr_simps]: "cstr s t \<Longrightarrow> strnlen_loop s n = Some (min n (length t))"
proof (induction arbitrary: n rule: cstr_induct)
  case (nul r)
  then show ?case by (cases n) simp_all
next
  case (char c s t)
  then show ?case by (cases n) simp_all
qed

lemma in_list_cstr [cstr_simps]: "cstr s t \<Longrightarrow> in_list s c = Some (c \<in> set t)"
  by (induction rule: cstr_induct) auto

subsection \<open>Searches\<close>

lemma find_upt_Suc: "List.find P [i..<n] = (if i < n then if P i then Some i else List.find P [Suc i..<n] else None)"
  by (simp add: upt_conv_Cons)

lemma search_str_find:
  assumes "cstr s t" and "\<And>j. j < length t \<Longrightarrow> hit (i + j) = Some (P (i + j))"
  shows "search_str hit s i = Some (List.find P [i..<i + length t])"
  using assms
proof (induction arbitrary: i rule: cstr_induct)
  case (nul r)
  then show ?case by simp
next
  case (char c s t)
  have "search_str hit s (Suc i) = Some (List.find P [Suc i..<Suc i + length t])"
    using char.prems [of "Suc j" for j] by (intro char.IH) simp
  moreover have "hit i = Some (P i)" using char.prems [of 0] by simp
  ultimately show ?case
    using char.hyps(1) by (simp add: find_upt_Suc [of _ i] del: upt_Suc)
qed

lemma search_n_find:
  assumes "cstr s t" and "\<And>j. j < length t \<Longrightarrow> hit (i + j) = Some (P (i + j))"
  shows "search_n hit n s i = Some (List.find P [i..<i + min n (length t)])"
  using assms
proof (induction arbitrary: i n rule: cstr_induct)
  case (nul r)
  then show ?case by (cases n) simp_all
next
  case (char c s t)
  show ?case
  proof (cases n)
    case (Suc m)
    have "search_n hit m s (Suc i) = Some (List.find P [Suc i..<Suc i + min m (length t)])"
      using char.prems [of "Suc j" for j] by (intro char.IH) simp
    moreover have "hit i = Some (P i)" using char.prems [of 0] by simp
    ultimately show ?thesis
      using char.hyps(1) Suc by (simp add: find_upt_Suc [of _ i] del: upt_Suc)
  qed simp
qed

lemma search_back_find:
  "(\<And>j. j < k \<Longrightarrow> hit j = Some (P j)) \<Longrightarrow> search_back hit k = Some (List.find P (rev [0..<k]))"
  by (induction k) simp_all

lemma find_cong_upt: "(\<And>j. j < n \<Longrightarrow> P j \<longleftrightarrow> Q j) \<Longrightarrow> List.find P [0..<n] = List.find Q [0..<n]"
  by (rule find_cong) auto

lemma find_last_Some_iff:
  "List.find P (rev [0..<n]) = Some i \<longleftrightarrow> i < n \<and> P i \<and> (\<forall>j < n. i < j \<longrightarrow> \<not> P j)"
  by (induction n) (auto simp: less_Suc_eq)

lemma find_first_Some_iff:
  "List.find P [0..<n] = Some i \<longleftrightarrow> i < n \<and> P i \<and> (\<forall>j < i. \<not> P j)"
  by (auto simp: find_Some_iff)

subsection \<open>Comparisons\<close>

lemma cstr_cases:
  assumes "cstr s t"
  obtains (nul) r where "s = 0 # r" "t = []"
  | (char) c s' t' where "s = c # s'" "t = c # t'" "c \<noteq> 0" "cstr s' t'"
  using assms by (cases s) (auto simp: cstr_Cons split: if_splits)

definition cmp_sign :: "int \<Rightarrow> u8 list \<Rightarrow> u8 list \<Rightarrow> bool" where
  "cmp_sign r x y \<longleftrightarrow> (r = 0 \<longleftrightarrow> x = y) \<and> (r < 0 \<longleftrightarrow> ord_class.lexordp x y)"

lemma cmp_sign_simps [simp]:
  "cmp_sign 0 [] []"
  "cmp_sign r [] (y # ys) \<longleftrightarrow> r < 0"
  "cmp_sign r (x # xs) [] \<longleftrightarrow> r > 0"
  "cmp_sign r (x # xs) (x # ys) \<longleftrightarrow> cmp_sign r xs ys"
  by (auto simp: cmp_sign_def)

lemma cmp_sign_diff [simp]: "x \<noteq> y \<Longrightarrow> cmp_sign (uint x - uint y) (x # xs) (y # ys)"
  unfolding cmp_sign_def by (cases x y rule: linorder_cases) (auto simp: word_less_def word_uint_eq_iff)

lemma uint_pos: "c \<noteq> 0 \<Longrightarrow> 0 < uint (c :: u8)"
  by (metis uint_0_iff uint_ge_0 order_le_less)

lemma ncmp_loop_sign:
  assumes "cstr a x" and "cstr b y" and f: "\<And>c. f c = 0 \<longleftrightarrow> c = 0"
  shows "\<exists>r. ncmp_loop f n a b = Some r \<and> cmp_sign r (map f (take n x)) (map f (take n y))"
  using assms(1,2)
proof (induction n arbitrary: a b x y)
  case (Suc n)
  have f0: "f 0 = 0" using f by simp
  from Suc.prems show ?case
  proof (cases rule: cstr_cases [case_product cstr_cases])
    case nul_nul
    with f0 show ?thesis by simp
  next
    case (nul_char r c s t)
    with f0 f [of c] uint_pos [of "f c"] show ?thesis by simp
  next
    case (char_nul c s t r)
    with f0 f [of c] uint_pos [of "f c"] show ?thesis by simp
  next
    case (char_char c s t d s' t')
    obtain r where "ncmp_loop f n s s' = Some r" "cmp_sign r (map f (take n t)) (map f (take n t'))"
      using Suc.IH [OF char_char(4) char_char(8)] by blast
    with char_char show ?thesis by (cases "f c = f d") simp_all
  qed
qed simp

lemma cmp_loop_sign:
  assumes "cstr a x" and "cstr b y" and f: "\<And>c. f c = 0 \<longleftrightarrow> c = 0"
  shows "\<exists>r. cmp_loop f a b = Some r \<and> cmp_sign r (map f x) (map f y)"
proof -
  have f0: "f 0 = 0" using f by simp
  have fne: "f c \<noteq> f 0" if "c \<noteq> 0" for c using that f [of c] f0 by simp
  have "cmp_loop f a b = ncmp_loop f n a b" if "length x < n" for n
    using assms(1,2) that
  proof (induction n arbitrary: a b x y)
    case (Suc n)
    from Suc.prems(1,2) show ?case
      using Suc.IH Suc.prems(3) fne by (cases rule: cstr_cases [case_product cstr_cases]) simp_all
  qed simp
  from this [of "Suc (max (length x) (length y))"] show ?thesis
    using ncmp_loop_sign [OF assms, of "Suc (max (length x) (length y))"] by simp
qed

lemma uc_table_length: "length uc_table = 256"
  by (simp add: uc_table_def del: upt_Suc upt_rec_numeral)

lemma uc_eq: "uc c = (if 97 \<le> unat c \<and> unat c \<le> 122 then of_nat (unat c - 32) else c)"
proof -
  have "unat c < 256" using unsigned_less [of c] by simp
  then consider "unat c < 97" | "97 \<le> unat c" "unat c < 123" | "123 \<le> unat c" "unat c < 256" by linarith
  then show ?thesis
    by cases (auto simp: uc_def uc_table_def nth_append simp del: upt_Suc upt_rec_numeral)
qed

lemma uc_0: "uc c = 0 \<longleftrightarrow> c = 0"
proof -
  have "c - 32 \<noteq> 0" if "97 \<le> unat c" using that by auto
  then show ?thesis by (auto simp: uc_eq of_nat_diff)
qed

subsection \<open>Substrings\<close>

definition occurs :: "(u8 \<Rightarrow> u8) \<Rightarrow> u8 list \<Rightarrow> u8 list \<Rightarrow> nat \<Rightarrow> bool" where
  "occurs f b l i \<longleftrightarrow> map f (take (length l) (drop i b)) = map f l"

definition first_match :: "(u8 \<Rightarrow> u8) \<Rightarrow> u8 list \<Rightarrow> u8 list \<Rightarrow> nat option" where
  "first_match f b l = List.find (occurs f b l) [0..<length b]"

definition last_match :: "(u8 \<Rightarrow> u8) \<Rightarrow> u8 list \<Rightarrow> u8 list \<Rightarrow> nat option" where
  "last_match f b l = List.find (occurs f b l) (rev [0..<length b])"

lemma occurs_bound: "occurs f b l i \<Longrightarrow> l \<noteq> [] \<Longrightarrow> i + length l \<le> length b"
  unfolding occurs_def by (drule arg_cong [of _ _ length]) (cases l; auto simp: min_def split: if_splits)

lemma occurs_less: "occurs f b l i \<Longrightarrow> l \<noteq> [] \<Longrightarrow> i < length b"
  using occurs_bound [of f b l i] by (cases l) auto

lemma occurs_take:
  assumes "l \<noteq> []"
  shows "occurs f (take n b) l i \<longleftrightarrow> occurs f b l i \<and> i + length l \<le> n"
proof (cases "i + length l \<le> n")
  case True
  then show ?thesis by (simp add: occurs_def drop_take min_def)
next
  case False
  then have "\<not> occurs f (take n b) l i"
    using occurs_bound [of f "take n b" l i] assms by auto
  with False show ?thesis by simp
qed

lemma first_match_Some:
  "l \<noteq> [] \<Longrightarrow> first_match f b l = Some i \<longleftrightarrow> occurs f b l i \<and> (\<forall>j < i. \<not> occurs f b l j)"
  using occurs_less [of f b l i] by (auto simp: first_match_def find_first_Some_iff)

lemma last_match_Some:
  "l \<noteq> [] \<Longrightarrow> last_match f b l = Some i \<longleftrightarrow> occurs f b l i \<and> (\<forall>j > i. \<not> occurs f b l j)"
  unfolding last_match_def find_last_Some_iff by (metis occurs_less)

lemma option_eqI: "(\<And>i. x = Some i \<longleftrightarrow> y = Some i) \<Longrightarrow> x = y"
  by (cases x; cases y; auto)

lemma find_first_match:
  assumes "l \<noteq> []" and "\<And>i. occurs f b l i \<Longrightarrow> i < m"
  shows "List.find (occurs f b l) [0..<m] = first_match f b l"
  by (rule option_eqI) (use assms in \<open>auto simp: first_match_Some find_first_Some_iff\<close>)

lemma find_last_match:
  assumes "l \<noteq> []" and "\<And>i. occurs f b l i \<Longrightarrow> i < m"
  shows "List.find (occurs f b l) (rev [0..<m]) = last_match f b l"
  by (rule option_eqI) (use assms in \<open>auto simp: last_match_Some find_last_Some_iff\<close>)

lemma find_first_match_take:
  assumes "l \<noteq> []" "m = min (Suc (n - length l)) (length b)" "length l \<le> n"
  shows "List.find (occurs f b l) [0..<m] = first_match f (take n b) l"
proof (rule option_eqI)
  fix i
  have "occurs f b l j \<and> j < m \<longleftrightarrow> occurs f (take n b) l j" for j
    using assms occurs_bound [of f b l j] occurs_less [of f b l j] by (auto simp: occurs_take)
  then show "List.find (occurs f b l) [0..<m] = Some i \<longleftrightarrow> first_match f (take n b) l = Some i"
    unfolding first_match_Some [OF assms(1)] find_first_Some_iff by (metis order_less_trans)
qed

lemma find_last_match_take:
  assumes "l \<noteq> []" "m = Suc (min n (length b) - length l)" "length l \<le> min n (length b)"
  shows "List.find (occurs f b l) (rev [0..<m]) = last_match f (take n b) l"
proof (rule option_eqI)
  fix i
  have "occurs f b l j \<and> j < m \<longleftrightarrow> occurs f (take n b) l j" for j
    using assms occurs_bound [of f b l j] occurs_less [of f b l j] by (auto simp: occurs_take)
  then show "List.find (occurs f b l) (rev [0..<m]) = Some i \<longleftrightarrow> last_match f (take n b) l = Some i"
    using assms(1) by (auto simp: last_match_Some find_last_Some_iff)
qed

lemma match_too_long:
  assumes "l \<noteq> []" and "length b < length l"
  shows "first_match f b l = None" and "last_match f b l = None"
  using assms occurs_bound [of f b l]
  by (fastforce simp: first_match_def last_match_def find_None_iff)+

lemma little_at_cstr:
  assumes "cstr big b" "cstr little l" "l \<noteq> []" "i < length b"
  shows "little_at big little (length l) i = Some (occurs (\<lambda>x. x) b l i)"
proof -
  obtain r where r: "ncmp_loop (\<lambda>x. x) (length l) (drop i big) little = Some r"
      "cmp_sign r (take (length l) (drop i b)) l"
    using ncmp_loop_sign [OF cstr_drop [OF assms(1), of i] assms(2), of "\<lambda>x. x" "length l"] assms(4)
    by auto
  have "rd little 0 = Some (l ! 0)" "rd big i = Some (b ! i)"
    using assms by (auto intro: cstr_rd)
  moreover have "take (length l) (drop i b) = l \<Longrightarrow> l ! 0 = b ! i"
    using assms(3,4) by (cases l) (auto simp: Cons_nth_drop_Suc [symmetric])
  ultimately show ?thesis
    using r by (auto simp: little_at_def c_strncmp_def occurs_def cmp_sign_def)
qed

lemma caselittle_at_cstr:
  assumes "cstr big b" "cstr little l" "i \<le> length b" "length l < 2 ^ 32"
  shows "caselittle_at big little (of_nat (length l)) i = Some (occurs uc b l i)"
proof -
  obtain r where "ncmp_loop uc (length l) (drop i big) little = Some r"
      "cmp_sign r (map uc (take (length l) (drop i b))) (map uc l)"
    using ncmp_loop_sign [OF cstr_drop [OF assms(1,3)] assms(2) uc_0, of "length l"] by auto
  then show ?thesis
    using assms(4) by (auto simp: caselittle_at_def PL_strncasecmp_def unat_of_nat occurs_def cmp_sign_def)
qed

lemma with_strings_cstr:
  assumes "cstr big b" "cstr little l" "l \<noteq> []"
  shows "with_strings (Some big) (Some little) f = (if b = [] then Some None else f big little)"
proof -
  have "rd little 0 = Some (l ! 0)" "l ! 0 \<noteq> 0"
    using assms cstr_nonzero [OF assms(2), of 0] by (auto intro: cstr_rd)
  moreover have "b \<noteq> [] \<Longrightarrow> rd big 0 = Some (b ! 0) \<and> b ! 0 \<noteq> 0"
    using assms cstr_nonzero [OF assms(1), of 0] by (auto intro: cstr_rd)
  moreover have "b = [] \<Longrightarrow> rd big 0 = Some 0"
    using cstr_rd_end [OF assms(1)] by simp
  ultimately show ?thesis by (auto simp: with_strings_def)
qed

lemma with_strings_empty:
  assumes "cstr big b" "cstr little []"
  shows "with_strings (Some big) (Some little) f = Some None"
proof -
  have "rd little 0 = Some 0" using cstr_rd_end [OF assms(2)] by simp
  moreover have "\<exists>x. rd big 0 = Some x" using assms(1) by (auto simp: cstr_def rd_def nth_append)
  ultimately show ?thesis by (auto simp: with_strings_def)
qed

lemma match_Nil [simp]: "first_match f [] l = None" "last_match f [] l = None"
  by (simp_all add: first_match_def last_match_def)

lemma unat_count:
  "ll \<le> unat (mx :: u32) \<Longrightarrow> 0 < ll \<Longrightarrow> unat (mx - of_nat ll + 1) = unat mx - ll + 1"
proof -
  assume *: "ll \<le> unat mx" "0 < ll"
  have "ll < 2 ^ 32" using * unat_u32_less [of mx] by simp
  then have l: "unat (of_nat ll :: u32) = ll" by (simp add: unat_of_nat)
  then have d: "unat (mx - of_nat ll) = unat mx - ll"
    using * by (simp add: unat_sub word_le_nat_alt)
  have "unat mx < 2 ^ 32" using unat_u32_less [of mx] by simp
  then show ?thesis using * by (simp add: unat_word_ariths d)
qed

subsection \<open>Characters\<close>

lemma nul_rd: "cstr s t \<Longrightarrow> i \<le> length t \<Longrightarrow> rd s i = Some ((t @ [0]) ! i)"
  by (auto simp: cstr_def rd_def nth_append)

definition first_char :: "u8 list \<Rightarrow> (u8 \<Rightarrow> bool) \<Rightarrow> nat option" where
  "first_char u P = List.find (\<lambda>i. P (u ! i)) [0..<length u]"

definition last_char :: "u8 list \<Rightarrow> (u8 \<Rightarrow> bool) \<Rightarrow> nat option" where
  "last_char u P = List.find (\<lambda>i. P (u ! i)) (rev [0..<length u])"

lemma char_at_cstr: "cstr s t \<Longrightarrow> i \<le> length t \<Longrightarrow> char_at s c i = Some ((t @ [0]) ! i = c)"
  by (simp add: char_at_def nul_rd)

lemma list_at_cstr: "cstr s t \<Longrightarrow> cstr list ls \<Longrightarrow> i < length t \<Longrightarrow> list_at s list i = Some (t ! i \<in> set ls)"
  by (simp add: list_at_def cstr_rd in_list_cstr)

lemma first_char_end:
  assumes "0 \<notin> set t"
  shows "first_char (t @ [0]) (\<lambda>x. x = c)
    = (if c = 0 then Some (length t) else List.find (\<lambda>i. (t @ [0]) ! i = c) [0..<length t])"
proof (rule option_eqI)
  fix i
  have "t ! j \<noteq> 0" if "j < length t" for j using assms that by (metis nth_mem)
  then show "first_char (t @ [0]) (\<lambda>x. x = c) = Some i \<longleftrightarrow>
     (if c = 0 then Some (length t) else List.find (\<lambda>i. (t @ [0]) ! i = c) [0..<length t]) = Some i"
    unfolding first_char_def find_first_Some_iff
    by (auto simp: find_first_Some_iff nth_append less_Suc_eq)
qed

lemma first_char_take:
  assumes "0 \<notin> set t"
  shows "first_char (take n (t @ [0])) (\<lambda>x. x = c)
    = (if c = 0 \<and> length t < n then Some (length t)
       else List.find (\<lambda>i. (t @ [0]) ! i = c) [0..<min n (length t)])"
proof (rule option_eqI)
  fix i
  have "t ! j \<noteq> 0" if "j < length t" for j using assms that by (metis nth_mem)
  then show "first_char (take n (t @ [0])) (\<lambda>x. x = c) = Some i \<longleftrightarrow>
     (if c = 0 \<and> length t < n then Some (length t)
      else List.find (\<lambda>i. (t @ [0]) ! i = c) [0..<min n (length t)]) = Some i"
    unfolding first_char_def find_first_Some_iff
    by (auto simp: find_first_Some_iff nth_append less_Suc_eq min_def)
qed

lemma last_char_take:
  assumes "0 \<notin> set t"
  shows "last_char (take n (t @ [0])) (\<lambda>x. x = c)
    = (if c = 0 \<and> length t < n then Some (length t)
       else List.find (\<lambda>i. (t @ [0]) ! i = c) (rev [0..<min n (length t)]))"
proof (rule option_eqI)
  fix i
  have "t ! j \<noteq> 0" if "j < length t" for j using assms that by (metis nth_mem)
  then show "last_char (take n (t @ [0])) (\<lambda>x. x = c) = Some i \<longleftrightarrow>
     (if c = 0 \<and> length t < n then Some (length t)
      else List.find (\<lambda>i. (t @ [0]) ! i = c) (rev [0..<min n (length t)])) = Some i"
    unfolding last_char_def find_last_Some_iff
    by (auto simp: find_last_Some_iff nth_append less_Suc_eq min_def)
qed

lemma cstr_nonul: "cstr s t \<Longrightarrow> 0 \<notin> set t"
  by (simp add: cstr_def)

subsection \<open>Copies\<close>

lemma store_Cons: "store (d # ds) (b # bs) = map_option ((#) b) (store ds bs)"
  by (simp add: store_def)

lemma store_Nil [simp]: "store d [] = Some d" "store [] (b # bs) = None"
  by (simp_all add: store_def)

lemma strncpy_store: "cstr s t \<Longrightarrow> strncpy_loop d s m = store d (take m (t @ [0]))"
proof (induction m arbitrary: d s t)
  case (Suc m)
  from Suc.prems show ?case
  proof (cases rule: cstr_cases)
    case nul
    then show ?thesis by (cases d) (simp_all add: store_Cons)
  next
    case char
    then show ?thesis using Suc.IH by (cases d) (simp_all add: store_Cons)
  qed
qed simp

lemma strncpyz_store: "cstr s t \<Longrightarrow> strncpyz_loop d s m = store d (take m t @ [0])"
proof (induction m arbitrary: d s t)
  case 0
  then show ?case by (cases d) (simp_all add: store_Cons wr_def)
next
  case (Suc m)
  from Suc.prems show ?case
  proof (cases rule: cstr_cases)
    case nul
    then show ?thesis by (cases d) (simp_all add: store_Cons wr_def)
  next
    case char
    then show ?thesis using Suc.IH by (cases d) (simp_all add: store_Cons)
  qed
qed

lemma strcpy_store: "cstr s t \<Longrightarrow> c_strcpy d s = store d (t @ [0])"
  by (auto simp: c_strcpy_def strlen_cstr cstr_def)

lemma drop_over: "length w \<le> n \<Longrightarrow> drop n (w @ drop (length w) d) = drop n d"
  by simp

lemma store_cstr: "0 \<notin> set t \<Longrightarrow> store d (t @ [0]) = Some d' \<Longrightarrow> cstr d' t"
  by (auto simp: store_def split: if_splits)

lemma plain_copies:
  assumes "cstr src t"
  shows "PL_strcpy (Some d) (Some src) = map_option Some (store d (t @ [0]))
    \<and> PL_strncpy (Some d) (Some src) mx = map_option Some (store d (take (unat mx) (t @ [0])))
    \<and> (cstr d u \<longrightarrow> PL_strcat (Some d) (Some src)
        = map_option (\<lambda>d'. Some (u @ d')) (store (drop (length u) d) (t @ [0])))"
proof -
  have "take (length u) d = u" if "cstr d u" using that by (auto simp: cstr_def)
  then show ?thesis
    by (auto simp: PL_strcpy_def PL_strncpy_def PL_strcat_def c_strcat_def strcpy_store [OF assms]
        strncpy_store [OF assms] strlen_cstr bind_eq_Some_conv split: option.splits bind_splits)
qed

lemma duplicate_cells:
  assumes "cstr x t" and "\<And>n b. malloc n = Some b \<Longrightarrow> length b = n"
  shows "PL_strdup malloc (Some x) = Some (map_option (\<lambda>b. t @ [0]) (malloc (length t + 1)))
    \<and> PL_strndup malloc (Some x) mx
      = Some (map_option (\<lambda>b. take (unat mx) t @ [0]) (malloc (min (unat mx) (length t) + 1)))"
proof -
  obtain r where r: "x = t @ 0 # r" using assms(1) by (auto simp: cstr_def)
  let ?l = "min (unat mx) (length t)"
  have "?l < 2 ^ 32" using unat_u32_less [of mx] by simp
  then have "PL_strnlen (Some x) mx = Some (of_nat ?l)" "unat (of_nat ?l :: u32) = ?l"
    by (simp_all add: PL_strnlen_def strnlen_cstr [OF assms(1)] unat_of_nat)
  note l = this
  have "PL_strndup malloc (Some x) mx
      = Some (map_option (\<lambda>b. take (unat mx) t @ [0]) (malloc (?l + 1)))"
  proof (cases "malloc (?l + 1)")
    case None
    with l show ?thesis by (simp add: PL_strndup_def Let_def)
  next
    case (Some b)
    have "store b (take ?l x) = Some (take ?l t @ drop ?l b)"
      using assms(2) [OF Some] r by (simp add: store_def min_def)
    moreover have "wr (take ?l t @ drop ?l b) ?l 0 = Some (take ?l t @ [0])"
      using assms(2) [OF Some] by (simp add: wr_def list_update_append Cons_nth_drop_Suc [symmetric])
    moreover have "take ?l t = take (unat mx) t" by (simp add: min_def)
    ultimately show ?thesis using l Some by (simp add: PL_strndup_def Let_def)
  qed
  moreover have "PL_strdup malloc (Some x) = Some (map_option (\<lambda>b. t @ [0]) (malloc (length t + 1)))"
  proof (cases "malloc (length t + 1)")
    case (Some b)
    have "store b (take (length t + 1) x) = Some (t @ [0])"
      using assms(2) [OF Some] r by (simp add: store_def)
    with Some show ?thesis by (simp add: PL_strdup_def strlen_cstr [OF assms(1)])
  qed (simp add: PL_strdup_def strlen_cstr [OF assms(1)])
  ultimately show ?thesis by blast
qed

lemma duplicates:
  assumes "cstr (case s of None \<Rightarrow> [0] | Some x \<Rightarrow> x) t" and "\<And>n b. malloc n = Some b \<Longrightarrow> length b = n"
  shows "PL_strdup malloc s = Some (map_option (\<lambda>b. t @ [0]) (malloc (length t + 1)))
    \<and> PL_strndup malloc s mx
      = Some (map_option (\<lambda>b. take (unat mx) t @ [0]) (malloc (min (unat mx) (length t) + 1)))"
proof (cases s)
  case None
  have "PL_strdup malloc s = PL_strdup malloc (Some [0])" "PL_strndup malloc s mx = PL_strndup malloc (Some [0]) mx"
    using None by (simp_all add: PL_strdup_def PL_strndup_def)
  with None assms show ?thesis using duplicate_cells [of "[0]" t malloc mx] by simp
next
  case (Some x)
  with assms show ?thesis using duplicate_cells [of x t malloc mx] by simp
qed

subsection \<open>Tokens\<close>

lemma skip_seps_cstr:
  assumes "cstr s t" and "cstr s2 ls"
  shows "skip_seps s2 s i = Some (i + length (takeWhile (\<lambda>c. c \<in> set ls) t))"
  using assms(1)
  by (induction arbitrary: i rule: cstr_induct) (simp_all add: in_list_cstr [OF assms(2)])

lemma search_sep_cstr:
  assumes "cstr s t" and "cstr s2 ls" and "\<And>j. rd m (i + j) = rd s j"
  shows "search_str (list_at m s2) s i
    = Some (if \<forall>c \<in> set t. c \<notin> set ls then None else Some (i + length (takeWhile (\<lambda>c. c \<notin> set ls) t)))"
  using assms(1,3)
proof (induction arbitrary: i rule: cstr_induct)
  case (nul r)
  then show ?case by simp
next
  case (char c s t)
  have "rd m (Suc i + j) = rd s j" for j using char.prems [of "Suc j"] by simp
  then have "search_str (list_at m s2) s (Suc i)
    = Some (if \<forall>c \<in> set t. c \<notin> set ls then None else Some (Suc i + length (takeWhile (\<lambda>c. c \<notin> set ls) t)))"
    by (rule char.IH)
  moreover have "list_at m s2 i = Some (c \<in> set ls)"
    using char.prems [of 0] by (simp add: list_at_def in_list_cstr [OF assms(2)])
  ultimately show ?case using char.hyps(1) by simp
qed

function tokens :: "u8 set \<Rightarrow> u8 list \<Rightarrow> u8 list list" where
  "tokens S t = (case dropWhile (\<lambda>c. c \<in> S) t of
     [] \<Rightarrow> []
   | c # r \<Rightarrow> (c # takeWhile (\<lambda>c. c \<notin> S) r) # tokens S (dropWhile (\<lambda>c. c \<notin> S) r))"
  by auto
termination
proof (relation "measure (\<lambda>(S, t). length t)")
  fix S :: "u8 set" and t c r
  assume "dropWhile (\<lambda>c. c \<in> S) t = c # r"
  then have "length r < length t" using length_dropWhile_le [of "\<lambda>c. c \<in> S" t] by simp
  moreover have "length (dropWhile (\<lambda>c. c \<notin> S) r) \<le> length r" by (rule length_dropWhile_le)
  ultimately show "((S, dropWhile (\<lambda>c. c \<notin> S) r), S, t) \<in> measure (\<lambda>(S, t). length t)" by simp
qed simp

declare tokens.simps [simp del]

lemma tokens_Nil [simp]: "tokens S [] = []"
  by (simp add: tokens.simps)

lemma tokens_skip: "c \<in> S \<Longrightarrow> tokens S (c # t) = tokens S t"
  by (subst (1 2) tokens.simps) simp

text \<open>One call on the string \<open>t\<close> at \<open>p\<close>, from either of the two places it can be given.\<close>

lemma strtok_step:
  assumes "cstr (drop p m) t" and "cstr s2 ls" and "s1 = Some p \<or> s1 = None \<and> lasts = Some p"
    and "dropWhile (\<lambda>c. c \<in> set ls) t = u"
    and "i = p + (length t - length u)" and "tok = takeWhile (\<lambda>c. c \<notin> set ls) u" and "j = i + length tok"
  shows "PL_strtok_r m s1 s2 lasts = Some
    (if u = [] then \<lparr>tok_mem = m, tok_result = None, tok_lasts = None\<rparr>
     else if length tok = length u then \<lparr>tok_mem = m, tok_result = Some i, tok_lasts = None\<rparr>
     else \<lparr>tok_mem = m[j := 0], tok_result = Some i, tok_lasts = Some (j + 1)\<rparr>)"
proof -
  let ?S = "\<lambda>c. c \<in> set ls" and ?N = "\<lambda>c. c \<notin> set ls"
  have tu: "takeWhile ?S t @ u = t" using assms(4) by (metis takeWhile_dropWhile_id)
  then have k: "length (takeWhile ?S t) = length t - length u" "length u \<le> length t"
    by (metis add_diff_cancel_right' length_append, metis le_add2 length_append)
  then have i: "skip_seps s2 (drop p m) p = Some i"
    using skip_seps_cstr [OF assms(1,2)] assms(5) by simp
  have iu: "cstr (drop i m) u"
    using cstr_drop [OF assms(1), of "length t - length u"] tu k assms(5)
    by (metis append_eq_conv_conj diff_le_self drop_drop add.commute)
  have start: "(case s1 of Some p \<Rightarrow> Some p | None \<Rightarrow> lasts) = Some p" using assms(3) by auto
  show ?thesis
  proof (cases u)
    case Nil
    have "rd m i = Some 0" using cstr_rd_end [OF iu] Nil by (simp add: rd_drop)
    with Nil i start show ?thesis by (simp add: PL_strtok_r_def)
  next
    case (Cons c r)
    have c: "rd m i = Some c" "c \<noteq> 0"
      using cstr_rd [OF iu, of 0] cstr_nonzero [OF iu, of 0] Cons by (simp_all add: rd_drop)
    have "cstr (drop (i + 1) m) r" using cstr_drop [OF iu, of 1] Cons by simp
    moreover have "rd m (i + 1 + j) = rd (drop (i + 1) m) j" for j by (simp add: rd_drop)
    ultimately have sep: "search_str (list_at m s2) (drop (i + 1) m) (i + 1)
      = Some (if \<forall>c \<in> set r. ?N c then None else Some (i + 1 + length (takeWhile ?N r)))"
      using assms(2) by (intro search_sep_cstr)
    have "?N c" using assms(4) Cons by (metis hd_dropWhile list.sel(1) list.distinct(1))
    then have tok: "length tok = Suc (length (takeWhile ?N r))" using assms(6) Cons by simp
    have full: "(\<forall>c \<in> set r. ?N c) \<longleftrightarrow> length (takeWhile ?N r) = length r"
    proof
      assume "length (takeWhile ?N r) = length r"
      then have "takeWhile ?N r = r" by (subst takeWhile_eq_take) simp
      then show "\<forall>c \<in> set r. ?N c" by (simp only: takeWhile_eq_all_conv)
    next
      assume "\<forall>c \<in> set r. ?N c"
      then have "takeWhile ?N r = r" by (simp only: takeWhile_eq_all_conv)
      then show "length (takeWhile ?N r) = length r" by (simp only:)
    qed
    show ?thesis
    proof (cases "length tok = length u")
      case True
      then have "search_str (list_at m s2) (drop (i + 1) m) (i + 1) = Some None"
        unfolding sep using full tok Cons by simp
      then show ?thesis using i start c True Cons by (simp add: PL_strtok_r_def)
    next
      case False
      then have "search_str (list_at m s2) (drop (i + 1) m) (i + 1) = Some (Some j)"
        unfolding sep using full tok Cons assms(7) by simp
      moreover have "j < length m"
        using cstr_length [OF iu] length_takeWhile_le [of ?N u] assms(6,7) by simp
      ultimately show ?thesis using i start c False Cons by (simp add: PL_strtok_r_def wr_def)
    qed
  qed
qed

text \<open>The calls that go through a string: the first with the string, the others with null.\<close>

fun strtok_calls :: "nat \<Rightarrow> cells \<Rightarrow> nat option \<Rightarrow> cells \<Rightarrow> nat option \<Rightarrow> (cells \<times> nat list) option" where
  "strtok_calls 0 m s1 s2 lasts = None"
| "strtok_calls (Suc k) m s1 s2 lasts = do {
     r \<leftarrow> PL_strtok_r m s1 s2 lasts;
     case tok_result r of
       None \<Rightarrow> Some (tok_mem r, [])
     | Some i \<Rightarrow> do {
         (m', is) \<leftarrow> strtok_calls k (tok_mem r) None s2 (tok_lasts r);
         Some (m', i # is)
       }
   }"

lemma strtok_calls_end: "strtok_calls (Suc k) m None s2 None = Some (m, [])"
  by (simp add: PL_strtok_r_def)

lemma cut_token:
  assumes "cstr (drop i m) u" "n < length u" "take (i + n + 1) m' = take (i + n + 1) (m[i + n := 0])"
  shows "cstr (drop i m') (take n u)"
proof -
  obtain r where r: "drop i m = u @ 0 # r" using assms(1) by (auto simp: cstr_def)
  then have l: "i + n < length m" using assms(2) by (metis length_drop length_append less_diff_conv add.commute trans_less_add1)
  have "take (i + n + 1) (m[i + n := 0]) = take (i + n) m @ [0]"
    using l by (simp add: take_Suc_conv_app_nth take_update_cancel)
  then have "m' = (take (i + n) m @ [0]) @ drop (i + n + 1) m'"
    using assms(3) by (metis append_take_drop_id)
  then have "drop i m' = drop i (take (i + n) m) @ 0 # drop (i + n + 1) m'"
    using l by (metis append.assoc append_Cons append_Nil drop_append diff_is_0_eq drop_0 le_add1 length_take min.absorb2 less_imp_le)
  moreover have "drop i (take (i + n) m) = take n u"
    using assms(2) r by (simp add: drop_take)
  ultimately show ?thesis using cstr_nonul [OF assms(1)] by (auto simp: cstr_def dest: in_set_takeD)
qed

text \<open>The forward searches for a string that is not empty.\<close>

lemma first_matches:
  assumes "cstr big b" "cstr little l" "l \<noteq> []" "length l < 2 ^ 32"
  shows "PL_strstr (Some big) (Some little) = Some (first_match (\<lambda>x. x) b l)
    \<and> PL_strcasestr (Some big) (Some little) = Some (first_match uc b l)
    \<and> PL_strnstr (Some big) (Some little) n = Some (first_match (\<lambda>x. x) (take (unat n) b) l)
    \<and> PL_strncasestr (Some big) (Some little) n = Some (first_match uc (take (unat n) b) l)"
proof -
  let ?id = "\<lambda>x :: u8. x"
  have l: "c_strlen little = Some (length l)" "PL_strlen (Some little) = Some (of_nat (length l))"
    using assms(2) by (simp_all add: cstr_simps PL_strlen_def)
  note ws = with_strings_cstr [OF assms(1-3)]
  have 1: "search_str (little_at big little (length l)) big 0 = Some (first_match ?id b l)"
    using search_str_find [OF assms(1), of "little_at big little (length l)" 0 "occurs ?id b l"]
      little_at_cstr [OF assms(1-3)] by (simp add: first_match_def)
  have 2: "search_str (caselittle_at big little (of_nat (length l))) big 0 = Some (first_match uc b l)"
    using search_str_find [OF assms(1), of "caselittle_at big little (of_nat (length l))" 0 "occurs uc b l"]
      caselittle_at_cstr [OF assms(1,2) _ assms(4)] by (simp add: first_match_def)
  have 3: "search_n (little_at big little (length l)) m big 0
      = Some (List.find (occurs ?id b l) [0..<min m (length b)])" for m
    using search_n_find [OF assms(1), of "little_at big little (length l)" 0 "occurs ?id b l"]
      little_at_cstr [OF assms(1-3)] by simp
  have 4: "search_n (caselittle_at big little (of_nat (length l))) m big 0
      = Some (List.find (occurs uc b l) [0..<min m (length b)])" for m
    using search_n_find [OF assms(1), of "caselittle_at big little (of_nat (length l))" 0 "occurs uc b l"]
      caselittle_at_cstr [OF assms(1,2) _ assms(4)] by simp
  have c: "unat (n - of_nat (length l) + 1) = unat n - length l + 1" if "length l \<le> unat n"
    using unat_count [OF that] assms(3) by simp
  have le: "of_nat (length l) > n \<longleftrightarrow> length l > unat n"
    using assms(4) by (simp add: word_less_nat_alt unat_of_nat)
  have long: "first_match f (take (unat n) b) l = None" if "unat n < length l" for f
    using that assms(3) by (intro match_too_long) auto
  show ?thesis
    by (auto simp: PL_strstr_def PL_strcasestr_def PL_strnstr_def PL_strncasestr_def c_strstr_def ws l 1 2 3 4
        c le long intro!: find_first_match_take [OF assms(3) refl])
qed

subsection \<open>The properties\<close>

text \<open>C36: the four forward searches return the first occurrence of \<open>little\<close> in \<open>big\<close> (in its
  first \<open>n\<close> characters for the two with a limit), exactly or up to case, and the null pointer
  when there is none, without an access outside the two strings (a \<open>little\<close> of less than four gigabytes). They also return the null pointer for an empty \<open>little\<close>, which
  occurs everywhere: \<open>plstr.h\<close> promises the first instance there too.\<close>

theorem substring_first:
  assumes "cstr big b" "cstr little l" "length l < 2 ^ 32"
  shows "PL_strstr (Some big) (Some little) = Some (if l = [] then None else first_match (\<lambda>x. x) b l)
    \<and> PL_strcasestr (Some big) (Some little) = Some (if l = [] then None else first_match uc b l)
    \<and> PL_strnstr (Some big) (Some little) n = Some (if l = [] then None else first_match (\<lambda>x. x) (take (unat n) b) l)
    \<and> PL_strncasestr (Some big) (Some little) n = Some (if l = [] then None else first_match uc (take (unat n) b) l)"
proof (cases "l = []")
  case True
  then have "with_strings (Some big) (Some little) f = Some None" for f
    using assms(1,2) by (intro with_strings_empty) simp_all
  then show ?thesis using True by (simp add: PL_strstr_def PL_strcasestr_def PL_strnstr_def PL_strncasestr_def)
next
  case False
  then show ?thesis using first_matches [OF assms(1,2) False assms(3)] by simp
qed

lemma substring_first_witness:
  "PL_strstr (Some [0x61, 0x42, 0x61, 0x62, 0]) (Some [0x62, 0]) = Some (Some 3)
    \<and> PL_strcasestr (Some [0x61, 0x42, 0x61, 0x62, 0]) (Some [0x62, 0]) = Some (Some 1)
    \<and> PL_strnstr (Some [0x61, 0x42, 0x61, 0x62, 0]) (Some [0x62, 0]) 3 = Some None
    \<and> PL_strstr (Some [0x61, 0x42, 0x61, 0x62, 0]) (Some [0]) = Some None"
proof -
  have b: "cstr [0x61, 0x42, 0x61, 0x62, 0] [0x61, 0x42, 0x61, 0x62]" and l: "cstr [0x62, 0] [0x62]" "cstr [0] []"
    by (simp_all add: cstr_Cons)
  from substring_first [OF b l(1), of 3] substring_first [OF b l(2), of 3] show ?thesis
    by (simp add: first_match_def occurs_def uc_eq)
qed

text \<open>the backward searches return the last occurrence; \<open>PL_strcaserstr\<close> for a \<open>little\<close>
  not longer than \<open>big\<close>.\<close>

lemma substring_last:
  assumes "cstr big b" "cstr little l" "l \<noteq> []" "length l < 2 ^ 32"
  shows "PL_strrstr (Some big) (Some little) = Some (last_match (\<lambda>x. x) b l)
    \<and> PL_strnrstr (Some big) (Some little) n = Some (last_match (\<lambda>x. x) (take (unat n) b) l)
    \<and> PL_strncaserstr (Some big) (Some little) n = Some (last_match uc (take (unat n) b) l)
    \<and> (length l \<le> length b \<and> length b < 2 ^ 32 \<longrightarrow>
        PL_strcaserstr (Some big) (Some little) = Some (last_match uc b l))"
proof -
  let ?id = "\<lambda>x :: u8. x"
  have l: "c_strlen little = Some (length l)" "PL_strlen (Some little) = Some (of_nat (length l))"
      "c_strlen big = Some (length b)" "PL_strlen (Some big) = Some (of_nat (length b))"
      "strnlen_loop big k = Some (min k (length b))" for k
    using assms(1,2) by (simp_all add: cstr_simps PL_strlen_def)
  note ws = with_strings_cstr [OF assms(1-3)]
  have 1: "search_back (little_at big little (length l)) (Suc (m - length l))
      = Some (List.find (occurs ?id b l) (rev [0..<Suc (m - length l)]))" if "length l \<le> m" "m \<le> length b" for m
    using that assms(3) by (intro search_back_find little_at_cstr [OF assms(1-3)]) (cases l; auto)
  have 2: "search_back (caselittle_at big little (of_nat (length l))) (Suc (m - length l))
      = Some (List.find (occurs uc b l) (rev [0..<Suc (m - length l)]))" if "length l \<le> m" "m \<le> length b" for m
    using that by (intro search_back_find caselittle_at_cstr [OF assms(1,2) _ assms(4)]) auto
  have u: "unat (of_nat (length l) :: u32) = length l" using assms(4) by (simp add: unat_of_nat)
  have d: "unat (of_nat (length b) - of_nat (length l) :: u32) = length b - length l"
    if "length l \<le> length b" "length b < 2 ^ 32"
    using that by (simp add: unat_sub word_le_nat_alt unat_of_nat)
  have m: "List.find (occurs f b l) (rev [0..<Suc (min k (length b) - length l)]) = last_match f (take k b) l"
    if "length l \<le> min k (length b)" for f k
    using find_last_match_take [OF assms(3) refl that] .
  have long: "last_match f (take k b) l = None" if "min k (length b) < length l" for f k
    using that assms(3) by (intro match_too_long) (auto simp: min_def split: if_splits)
  have "PL_strrstr (Some big) (Some little) = Some (last_match ?id b l)"
    using 1 [of "length b"] m [of "length b" ?id] long [of "length b" ?id]
    by (cases "length b < length l") (auto simp: PL_strrstr_def ws l simp del: upt_Suc)
  moreover have "PL_strnrstr (Some big) (Some little) n = Some (last_match ?id (take (unat n) b) l)"
    using 1 [of "min (unat n) (length b)"] m [of "unat n" ?id] long [of "unat n" ?id]
    by (cases "min (unat n) (length b) < length l") (auto simp: PL_strnrstr_def ws l simp del: upt_Suc)
  moreover have "PL_strncaserstr (Some big) (Some little) n = Some (last_match uc (take (unat n) b) l)"
    using 2 [of "min (unat n) (length b)"] m [of "unat n" uc] long [of "unat n" uc]
    by (cases "min (unat n) (length b) < length l") (auto simp: PL_strncaserstr_def ws l u simp del: upt_Suc)
  moreover have "PL_strcaserstr (Some big) (Some little) = Some (last_match uc b l)"
    if "length l \<le> length b" "length b < 2 ^ 32"
    using 2 [of "length b"] m [of "length b" uc] that
    by (auto simp: PL_strcaserstr_def ws l d simp del: upt_Suc search_back.simps)
  ultimately show ?thesis by blast
qed

lemma substring_last_witness:
  "PL_strrstr (Some [0x62, 0x42, 0x61, 0]) (Some [0x62, 0]) = Some (Some 0)
    \<and> PL_strcaserstr (Some [0x62, 0x42, 0x61, 0]) (Some [0x62, 0]) = Some (Some 1)"
proof -
  have "cstr [0x62, 0x42, 0x61, 0] [0x62, 0x42, 0x61]" "cstr [0x62, 0] [0x62]"
    by (simp_all add: cstr_Cons)
  from substring_last [OF this] show ?thesis
    by (simp add: last_match_def occurs_def uc_eq)
qed

text \<open>\<open>PL_strcaserstr\<close> reads outside \<open>big\<close> when \<open>little\<close> is the longer string. The length
  difference is taken in 32 bits and wraps around, so \<open>p\<close> points almost 4 GB past \<open>big\<close> and the
  test \<open>p < big\<close> that should catch the case does not hold.\<close>

lemma strcaserstr_short_big:
  assumes "cstr big b" "cstr little l" "b \<noteq> []" "length b < length l"
    and "length l \<le> 2 ^ 31" "length big \<le> 2 ^ 31"
  shows "PL_strcaserstr (Some big) (Some little) = None"
proof -
  have ln: "l \<noteq> []" using assms(4) by auto
  have ub: "unat (of_nat (length b) :: u32) = length b" "unat (of_nat (length l) :: u32) = length l"
    using assms(4,5) by (simp_all add: unat_of_nat)
  have "unat (of_nat (length b) - of_nat (length l) :: u32) = 2 ^ 32 + length b - length l"
    using assms(4,5) ub by (simp add: unat_sub_if_size word_size)
  then have far: "drop (unat (of_nat (length b) - of_nat (length l) :: u32)) big = []"
    using assms(4-6) by simp
  obtain k where k: "unat (of_nat (length l) :: u32) = Suc k" using ub(2) assms(4) by (cases "length l") auto
  have "caselittle_at big little (of_nat (length l)) (unat (of_nat (length b) - of_nat (length l) :: u32)) = None"
    using far k by (simp add: caselittle_at_def PL_strncasecmp_def)
  then show ?thesis
    using assms(1-3) ln by (simp add: PL_strcaserstr_def with_strings_cstr cstr_simps PL_strlen_def)
qed

lemma strcaserstr_short_big_witness:
  "PL_strcaserstr (Some [0x61, 0]) (Some [0x61, 0x62, 0]) = None"
  by (rule strcaserstr_short_big [of _ "[0x61]" _ "[0x61, 0x62]"]) (simp_all add: cstr_Cons)

text \<open>the character searches return the first or the last position of the character among
  the cells of the string with its terminator, or among the first \<open>n\<close> of these.\<close>

lemma character_searches:
  assumes "cstr s t"
  shows "PL_strchr (Some s) c = Some (first_char (t @ [0]) (\<lambda>x. x = c))
    \<and> PL_strrchr (Some s) c = Some (last_char (t @ [0]) (\<lambda>x. x = c))
    \<and> PL_strnchr (Some s) c n = Some (first_char (take (unat n) (t @ [0])) (\<lambda>x. x = c))
    \<and> PL_strnrchr (Some s) c n = Some (last_char (take (unat n) (t @ [0])) (\<lambda>x. x = c))"
proof -
  note t0 = cstr_nonul [OF assms]
  let ?P = "\<lambda>i. (t @ [0]) ! i = c"
  have hit: "char_at s c j = Some (?P j)" if "j \<le> length t" for j
    using that char_at_cstr [OF assms] by blast
  have 1: "search_str (char_at s c) s 0 = Some (List.find ?P [0..<length t])"
    using search_str_find [OF assms, of "char_at s c" 0 ?P] hit by simp
  have 2: "search_n (char_at s c) m s 0 = Some (List.find ?P [0..<min m (length t)])" for m
    using search_n_find [OF assms, of "char_at s c" 0 ?P] hit by simp
  have 3: "search_back (char_at s c) k = Some (List.find ?P (rev [0..<k]))" if "k \<le> Suc (length t)" for k
    using that hit by (intro search_back_find) simp
  have 4: "List.find ?P [0..<min m (length t)] = None" if "c = 0" for m
    using that t0 by (auto simp: find_None_iff nth_append dest: nth_mem)
  note first = first_char_take [OF t0, of "Suc (length t)"] first_char_take [OF t0, of "unat n"]
  have "PL_strchr (Some s) c = Some (first_char (t @ [0]) (\<lambda>x. x = c))"
    using first(1) 1 by (auto simp: PL_strchr_def c_strchr_def strlen_cstr [OF assms])
  moreover have "PL_strrchr (Some s) c = Some (last_char (t @ [0]) (\<lambda>x. x = c))"
    using 3 [of "Suc (length t)"]
    by (simp add: PL_strrchr_def c_strrchr_def strlen_cstr [OF assms] last_char_def del: search_back.simps upt_Suc)
  moreover have "PL_strnchr (Some s) c n = Some (first_char (take (unat n) (t @ [0])) (\<lambda>x. x = c))"
    using first(2) 2 [of "unat n"] 4 [of "unat n"]
    by (cases "c = 0") (auto simp: PL_strnchr_def strnlen_cstr [OF assms] nul_rd [OF assms] min_def
        split: option.splits)
  moreover have "PL_strnrchr (Some s) c n = Some (last_char (take (unat n) (t @ [0])) (\<lambda>x. x = c))"
    using 3 [of "min (unat n) (length t)"] last_char_take [OF t0, of "unat n" c]
    by (auto simp: PL_strnrchr_def strnlen_cstr [OF assms] nul_rd [OF assms] min_def)
  ultimately show ?thesis by blast
qed

lemma character_searches_witness:
  "PL_strchr (Some [0x61, 0x62, 0x61, 0]) 0x61 = Some (Some 0)
    \<and> PL_strrchr (Some [0x61, 0x62, 0x61, 0]) 0x61 = Some (Some 2)
    \<and> PL_strnchr (Some [0x61, 0x62, 0x61, 0]) 0 3 = Some None
    \<and> PL_strnrchr (Some [0x61, 0x62, 0x61, 0]) 0 4 = Some (Some 3)"
proof -
  have s: "cstr [0x61, 0x62, 0x61, 0] [0x61, 0x62, 0x61]" by (simp add: cstr_Cons)
  show ?thesis
    using character_searches [OF s, of "0x61" 0] character_searches [OF s, of 0 3]
      character_searches [OF s, of 0 4]
    by (simp add: first_char_def last_char_def)
qed

text \<open>the \<open>strpbrk\<close> family returns the first or the last position of a character of the list,
  in the string or in its first \<open>n\<close> characters.\<close>

lemma set_searches:
  assumes "cstr s t" and "cstr list ls"
  shows "PL_strpbrk (Some s) (Some list) = Some (first_char t (\<lambda>x. x \<in> set ls))
    \<and> PL_strprbrk (Some s) (Some list) = Some (last_char t (\<lambda>x. x \<in> set ls))
    \<and> PL_strnpbrk (Some s) (Some list) n = Some (first_char (take (unat n) t) (\<lambda>x. x \<in> set ls))
    \<and> PL_strnprbrk (Some s) (Some list) n = Some (last_char (take (unat n) t) (\<lambda>x. x \<in> set ls))"
proof -
  let ?P = "\<lambda>i. t ! i \<in> set ls"
  note hit = list_at_cstr [OF assms]
  have 1: "search_str (list_at s list) s 0 = Some (List.find ?P [0..<length t])"
    using search_str_find [OF assms(1), of "list_at s list" 0 ?P] hit by simp
  have 2: "search_n (list_at s list) m s 0 = Some (List.find ?P [0..<min m (length t)])" for m
    using search_n_find [OF assms(1), of "list_at s list" 0 ?P] hit by simp
  have 3: "search_back (list_at s list) k = Some (List.find ?P (rev [0..<k]))" if "k \<le> length t" for k
    using that hit by (intro search_back_find) simp
  have 4: "List.find ?P xs = List.find (\<lambda>i. take m t ! i \<in> set ls) xs" if "\<forall>i \<in> set xs. i < m" for xs m
    using that by (intro find_cong) auto
  show ?thesis
    using 3 [of "length t"] 3 [of "min (unat n) (length t)"]
    by (simp add: PL_strpbrk_def c_strpbrk_def PL_strprbrk_def PL_strnpbrk_def PL_strnprbrk_def
        first_char_def last_char_def 1 2 strlen_cstr [OF assms(1)] strnlen_cstr [OF assms(1)] min.commute
        4 [of _ "unat n"])
qed

lemma set_searches_witness:
  "PL_strpbrk (Some [0x61, 0x3a, 0x2f, 0]) (Some [0x2f, 0x3a, 0]) = Some (Some 1)
    \<and> PL_strprbrk (Some [0x61, 0x3a, 0x2f, 0]) (Some [0x2f, 0x3a, 0]) = Some (Some 2)
    \<and> PL_strnpbrk (Some [0x61, 0x3a, 0x2f, 0]) (Some [0x2f, 0x3a, 0]) 1 = Some None"
proof -
  have "cstr [0x61, 0x3a, 0x2f, 0] [0x61, 0x3a, 0x2f]" "cstr [0x2f, 0x3a, 0] [0x2f, 0x3a]"
    by (simp_all add: cstr_Cons)
  from set_searches [OF this, of 1] show ?thesis
    by (simp add: first_char_def last_char_def)
qed

text \<open>C37: the comparisons return zero exactly for equal strings and a negative number exactly
  for a smaller one in the lexicographic order of unsigned bytes: on the strings, on their
  first \<open>n\<close> characters, and on their upper-case images.\<close>

theorem string_order:
  assumes "cstr a x" and "cstr b y"
  shows "(\<exists>r. PL_strcmp diff (Some a) (Some b) = Some r \<and> cmp_sign r x y)
    \<and> (\<exists>r. PL_strncmp diff (Some a) (Some b) n = Some r \<and> cmp_sign r (take (unat n) x) (take (unat n) y))
    \<and> (\<exists>r. PL_strcasecmp diff (Some a) (Some b) = Some r \<and> cmp_sign r (map uc x) (map uc y))
    \<and> (\<exists>r. PL_strncasecmp diff (Some a) (Some b) n = Some r
         \<and> cmp_sign r (map uc (take (unat n) x)) (map uc (take (unat n) y)))"
  using cmp_loop_sign [OF assms, of "\<lambda>x. x"] ncmp_loop_sign [OF assms, of "\<lambda>x. x"]
    cmp_loop_sign [OF assms uc_0] ncmp_loop_sign [OF assms uc_0]
  by (simp add: PL_strcmp_def PL_strncmp_def PL_strcasecmp_def PL_strncasecmp_def c_strcmp_def c_strncmp_def)

lemma string_order_witness:
  "(\<exists>r. PL_strcmp 0 (Some [0x61, 0]) (Some [0x41, 0]) = Some r \<and> r > 0)
    \<and> PL_strcasecmp 0 (Some [0x61, 0]) (Some [0x41, 0]) = Some 0"
proof -
  have "cstr [0x61, 0] [0x61]" "cstr [0x41, 0] [0x41]"
    by (simp_all add: cstr_Cons)
  from string_order [OF this, of 0 0] show ?thesis
    by (auto simp: cmp_sign_def uc_eq)
qed

text \<open>C39: \<open>PL_strncpyz\<close> leaves, for a \<open>max\<close> other than 0, a terminated string in the destination, the first \<open>max - 1\<close>
  characters of the source, and writes no cell at or past \<open>max\<close>.\<close>

theorem bounded_copy:
  assumes "cstr src t" and "mx \<noteq> 0" and "unat mx \<le> length d"
  shows "\<exists>d'. PL_strncpyz (Some d) (Some src) mx = Some (Some d') \<and> length d' = length d
    \<and> cstr d' (take (unat mx - 1) t) \<and> drop (unat mx) d' = drop (unat mx) d"
proof -
  have u: "unat (mx - 1) = unat mx - 1" using assms(2) by (simp add: unat_minus_one)
  have pos: "0 < unat mx" using assms(2) by (simp add: unat_gt_0)
  let ?w = "take (unat mx - 1) t @ [0]"
  have w: "length ?w \<le> unat mx" using pos by auto
  then have s: "store d ?w = Some (?w @ drop (length ?w) d)" using assms(3) by (simp add: store_def)
  have "drop (unat mx) (?w @ drop (length ?w) d) = drop (unat mx) d"
    using w by (rule drop_over)
  moreover have "cstr (?w @ drop (length ?w) d) (take (unat mx - 1) t)"
    using cstr_nonul [OF assms(1)] by (auto simp: cstr_def dest: in_set_takeD)
  ultimately show ?thesis
    using s assms w by (intro exI [of _ "?w @ drop (length ?w) d"]) (simp add: PL_strncpyz_def strncpyz_store u)
qed

lemma bounded_copy_witness:
  "\<exists>d'. PL_strncpyz (Some [1, 2, 3, 4]) (Some [0x61, 0x62, 0x63, 0]) 3 = Some (Some d')
    \<and> cstr d' [0x61, 0x62] \<and> drop 3 d' = [4]"
  using bounded_copy [of "[0x61, 0x62, 0x63, 0]" "[0x61, 0x62, 0x63]" 3 "[1, 2, 3, 4]"]
  by (auto simp: cstr_Cons)

text \<open>\<open>PL_strcatn\<close> leaves the first \<open>max - 1\<close> characters of the two strings one after the
  other, terminated; it changes nothing when the destination is already that long, and no cell
  at or past \<open>max\<close> in any case.\<close>

lemma bounded_append:
  assumes "cstr d u" and "cstr src t" and "unat mx \<le> length d" and "length u < 2 ^ 32"
  shows "\<exists>d'. PL_strcatn (Some d) mx (Some src) = Some (Some d') \<and> length d' = length d
    \<and> drop (unat mx) d' = drop (unat mx) d
    \<and> (if length u < unat mx then cstr d' (take (unat mx - 1) (u @ t)) else d' = d)"
proof (cases "length u < unat mx")
  case False
  then have "mx \<le> of_nat (length u)" using assms(4) by (simp add: word_le_nat_alt unat_of_nat)
  with False show ?thesis by (simp add: PL_strcatn_def strlen_cstr [OF assms(1)])
next
  case True
  have ul: "unat (of_nat (length u) :: u32) = length u" using assms(4) by (simp add: unat_of_nat)
  then have gt: "\<not> mx \<le> of_nat (length u)" using True by (simp add: word_le_nat_alt)
  have sub: "unat (mx - of_nat (length u)) = unat mx - length u"
    using True ul by (simp add: unat_sub word_le_nat_alt)
  have nz: "mx - of_nat (length u) \<noteq> 0" using sub True by (metis unat_0 zero_less_diff less_numeral_extra(3))
  let ?c = "take (unat (mx - of_nat (length u) - 1)) t @ [0]"
  have m1: "unat (mx - of_nat (length u) - 1) = unat mx - length u - 1"
    using nz sub by (simp add: unat_minus_one)
  have lc: "length ?c \<le> length d - length u" "length u + length ?c \<le> unat mx" "length u \<le> length d"
    using assms(3) True m1 cstr_length [OF assms(1)] by auto
  let ?d = "u @ ?c @ drop (length u + length ?c) d"
  have "take (length u) d = u" using assms(1) by (auto simp: cstr_def)
  then have "PL_strcatn (Some d) mx (Some src) = Some (Some ?d)"
    using gt nz lc by (simp add: PL_strcatn_def PL_strncpyz_def strlen_cstr [OF assms(1)]
        strncpyz_store [OF assms(2)] store_def add.commute)
  moreover have "cstr ?d (take (unat mx - 1) (u @ t))"
    using True m1 cstr_nonul [OF assms(1)] cstr_nonul [OF assms(2)]
    by (auto simp: cstr_def dest: in_set_takeD)
  moreover have "drop (unat mx) ?d = drop (unat mx) d"
    using lc drop_over [of "u @ ?c" "unat mx" d] by simp
  ultimately show ?thesis using True lc by (intro exI [of _ ?d]) auto
qed

lemma bounded_append_witness:
  "\<exists>d'. PL_strcatn (Some [0x61, 0, 7, 8, 9]) 4 (Some [0x62, 0x63, 0x64, 0]) = Some (Some d')
    \<and> cstr d' [0x61, 0x62, 0x63] \<and> drop 4 d' = [9]"
  using bounded_append [of "[0x61, 0, 7, 8, 9]" "[0x61]" "[0x62, 0x63, 0x64, 0]" "[0x62, 0x63, 0x64]" 4]
  by (auto simp: cstr_Cons)

text \<open>C30: the calls of \<open>PL_strtok_r\<close> that go through a string end, and the pointers they return
  are, in order, to the tokens of the string: its longest parts without a separator. The
  tokens are all terminated in the memory left at the end, and nothing before the string is
  written.\<close>

theorem strtok_calls_tokens:
  assumes "cstr (drop p m) t" and "cstr s2 ls" and "s1 = Some p \<or> s1 = None \<and> lasts = Some p"
    and "length t + 1 < k"
  shows "\<exists>m' is. strtok_calls k m s1 s2 lasts = Some (m', is) \<and> length m' = length m
    \<and> take p m' = take p m \<and> list_all2 (\<lambda>i tok. cstr (drop i m') tok) is (tokens (set ls) t)"
  using assms(1,3,4)
proof (induction "length t" arbitrary: p m t s1 lasts k rule: less_induct)
  case less
  let ?S = "\<lambda>c. c \<in> set ls" and ?N = "\<lambda>c. c \<notin> set ls"
  define u where "u = dropWhile ?S t"
  define tok where "tok = takeWhile ?N u"
  define i where "i = p + (length t - length u)"
  obtain k' where k: "k = Suc (Suc k')" using less.prems(3) by (cases k; cases "k - 1") auto
  note step = strtok_step [OF less.prems(1) assms(2) less.prems(2) u_def [symmetric] i_def tok_def refl]
  have toks: "tokens (set ls) t = (if u = [] then [] else tok # tokens (set ls) (drop (length tok) u))"
  proof (cases u)
    case (Cons c r)
    then have "?N c" by (metis u_def hd_dropWhile list.sel(1) list.distinct(1))
    with Cons show ?thesis
      by (subst tokens.simps) (simp add: u_def [symmetric] tok_def dropWhile_eq_drop [of ?N r, symmetric])
  next
    case Nil
    then show ?thesis by (subst tokens.simps) (simp add: u_def [symmetric])
  qed
  have lu: "length u \<le> length t" unfolding u_def by (rule length_dropWhile_le)
  have "drop (length t - length u) t = u"
    unfolding u_def by (metis dropWhile_eq_drop length_drop diff_diff_cancel length_takeWhile_le)
  then have iu: "cstr (drop i m) u"
    using cstr_drop [OF less.prems(1), of "length t - length u"] i_def by (simp add: add.commute)
  have lt: "length tok \<le> length u" unfolding tok_def by (rule length_takeWhile_le)
  have tk: "tok = take (length tok) u" unfolding tok_def by (rule takeWhile_eq_take)
  consider "u = []" | "u \<noteq> []" "length tok = length u" | "u \<noteq> []" "length tok < length u"
    using lt by linarith
  then show ?case
  proof cases
    case 1
    then show ?thesis using step k toks by simp
  next
    case 2
    then have "strtok_calls k m s1 s2 lasts = Some (m, [i])"
      using step k strtok_calls_end by simp
    moreover have "tok = u" using 2 tk by simp
    ultimately show ?thesis using 2 iu toks by simp
  next
    case 3
    let ?j = "i + length tok"
    let ?t = "drop (length tok + 1) u"
    have jm: "?j < length m" using cstr_length [OF iu] 3(2) by simp
    have "cstr (drop (?j + 1) (m[?j := 0])) ?t"
      using cstr_drop [OF iu, of "length tok + 1"] 3(2) by (simp add: add.commute add.left_commute)
    moreover have "length ?t < length t" "length ?t + 1 < Suc k'"
      using 3 lu less.prems(3) k by auto
    ultimately obtain m' "is" where IH: "strtok_calls (Suc k') (m[?j := 0]) None s2 (Some (?j + 1)) = Some (m', is)"
        "length m' = length m" "take (?j + 1) m' = take (?j + 1) (m[?j := 0])"
        "list_all2 (\<lambda>i tok. cstr (drop i m') tok) is (tokens (set ls) ?t)"
      using less.hyps [of ?t "?j + 1" "m[?j := 0]" None "Some (?j + 1)" "Suc k'"] by auto
    have "u ! length tok \<in> set ls"
      using nth_length_takeWhile [of ?N u] 3(2) tok_def by simp
    then have "tokens (set ls) (drop (length tok) u) = tokens (set ls) ?t"
      using 3(2) by (simp add: Cons_nth_drop_Suc [symmetric] tokens_skip)
    moreover have "cstr (drop i m') tok"
      using cut_token [OF iu 3(2) IH(3)] tk by simp
    moreover have "take p m' = take p m"
      using arg_cong [OF IH(3), of "take p"] jm by (simp add: i_def min_def)
    ultimately show ?thesis
      using 3 IH step k toks by simp
  qed
qed

lemma strtok_calls_tokens_witness:
  "\<exists>m' is. strtok_calls 8 [0x61, 0x20, 0x20, 0x62, 0] (Some 0) [0x20, 0] None = Some (m', is)
    \<and> list_all2 (\<lambda>i tok. cstr (drop i m') tok) is [[0x61], [0x62]]"
proof -
  have "cstr (drop 0 [0x61, 0x20, 0x20, 0x62, 0]) [0x61, 0x20, 0x20, 0x62]" "cstr [0x20, 0] [0x20]"
    by (simp_all add: cstr_Cons)
  moreover have "tokens (set [0x20]) [0x61, 0x20, 0x20, 0x62] = [[0x61], [0x62]]"
    by (simp add: tokens.simps)
  ultimately show ?thesis
    using strtok_calls_tokens [of 0 "[0x61, 0x20, 0x20, 0x62, 0]" "[0x61, 0x20, 0x20, 0x62]" "[0x20, 0]"
        "[0x20]" "Some 0" None 8] by auto
qed

end
