(* ===== verification/Pl_Base64.thy ===== *)
theory Pl_Base64
  imports Pl_String_Spec
begin

text \<open>
  The base64 coder of \<open>nsprpub/lib/libc/src/base64.c\<close>. The source is the list of cells from
  \<open>src\<close>, the destination the list of cells from \<open>dest\<close>; both pointers move together through
  the loops, so the recursive calls take the rest of either list. Lengths are 32 bits wide in
  the two entry points, with the wrap-around of the size computations.
\<close>

definition base64_tab :: "u8 list" where
  "base64_tab = map of_nat ([65..<91] @ [97..<123] @ [48..<58] @ [43, 47])"

abbreviation EQUALS :: u8 where "EQUALS \<equiv> 0x3d"

definition encode3to4 :: "cells \<Rightarrow> cells \<Rightarrow> cells option" where
  "encode3to4 src dest = do {
     s0 \<leftarrow> rd src 0;
     s1 \<leftarrow> rd src 1;
     s2 \<leftarrow> rd src 2;
     let b32 = fold (\<lambda>s b32. push_bit 8 b32 OR ucast s) [s0, s1, s2] (0 :: u32);
     store dest (map (\<lambda>j. base64_tab ! unat (drop_bit j b32 AND 0x3F)) [18, 12, 6, 0])
   }"

definition encode2to4 :: "cells \<Rightarrow> cells \<Rightarrow> cells option" where
  "encode2to4 src dest = do {
     s0 \<leftarrow> rd src 0;
     s1 \<leftarrow> rd src 1;
     store dest
       [base64_tab ! unat (drop_bit 2 (ucast s0 :: u32) AND 0x3F),
        base64_tab ! unat (push_bit 4 (ucast s0 AND 0x03 :: u32) OR (drop_bit 4 (ucast s1) AND 0x0F)),
        base64_tab ! unat (push_bit 2 (ucast s1 AND 0x0F :: u32)),
        EQUALS]
   }"

definition encode1to4 :: "cells \<Rightarrow> cells \<Rightarrow> cells option" where
  "encode1to4 src dest = do {
     s0 \<leftarrow> rd src 0;
     store dest
       [base64_tab ! unat (drop_bit 2 (ucast s0 :: u32) AND 0x3F),
        base64_tab ! unat (push_bit 4 (ucast s0 AND 0x03 :: u32)),
        EQUALS,
        EQUALS]
   }"

fun encode :: "cells \<Rightarrow> nat \<Rightarrow> cells \<Rightarrow> cells option" where
  "encode src srclen dest =
     (if srclen \<ge> 3 then do {
        d \<leftarrow> encode3to4 src dest;
        rest \<leftarrow> encode (drop 3 src) (srclen - 3) (drop 4 d);
        Some (take 4 d @ rest)
      }
      else if srclen = 2 then encode2to4 src dest
      else if srclen = 1 then encode1to4 src dest
      else Some dest)"

declare encode.simps [simp del]

text \<open>
  The result is the destination after the call, the caller's or the allocated one, or the
  null pointer. \<open>malloc n\<close> is the allocated block.
\<close>

definition PL_Base64Encode :: "(nat \<Rightarrow> cptr) \<Rightarrow> cptr \<Rightarrow> u32 \<Rightarrow> cptr \<Rightarrow> cptr option" where
  "PL_Base64Encode malloc src srclen0 dest = do {
     srclen \<leftarrow> (if 0 = srclen0 then PL_strlen src else Some srclen0);
     dest' \<leftarrow> (case dest of
         Some d \<Rightarrow> Some (Some d)
       | None \<Rightarrow> let destlen = ((srclen + 2) div 3) * 4 in
           (case malloc (unat (destlen + 1)) of
              None \<Rightarrow> Some None
            | Some d \<Rightarrow> do { d' \<leftarrow> wr d (unat destlen) 0; Some (Some d') }));
     case dest' of
       None \<Rightarrow> Some None
     | Some d \<Rightarrow> do {
         d' \<leftarrow> encode (case src of None \<Rightarrow> [] | Some s \<Rightarrow> s) (unat srclen) d;
         Some (Some d')
       }
   }"

definition codetovalue :: "u8 \<Rightarrow> int" where
  "codetovalue c =
     (if c \<ge> 65 \<and> c \<le> 90 then uint c - 65
      else if c \<ge> 97 \<and> c \<le> 122 then (uint c - 97) + 26
      else if c \<ge> 48 \<and> c \<le> 57 then (uint c - 48) + 52
      else if 43 = c then 62
      else if 47 = c then 63
      else -1)"

text \<open>
  A decoding step returns \<open>PR_SUCCESS\<close> as \<open>True\<close>, with the destination after it. The loop of
  \<open>decode4to3\<close> gathers \<open>k\<close> more characters from number \<open>i\<close> on; \<open>Some None\<close> is its return
  with \<open>PR_FAILURE\<close>.
\<close>

fun gather :: "cells \<Rightarrow> nat \<Rightarrow> nat \<Rightarrow> u32 \<Rightarrow> u32 option option" where
  "gather src i 0 b32 = Some (Some b32)"
| "gather src i (Suc k) b32 = do {
     c \<leftarrow> rd src i;
     let bits = codetovalue c;
     if bits < 0 then Some None
     else gather src (Suc i) k (push_bit 6 b32 OR of_int bits)
   }"

definition decode4to3 :: "cells \<Rightarrow> cells \<Rightarrow> (bool \<times> cells) option" where
  "decode4to3 src dest = do {
     r \<leftarrow> gather src 0 4 0;
     case r of
       None \<Rightarrow> Some (False, dest)
     | Some b32 \<Rightarrow> do {
         d \<leftarrow> store dest [ucast (drop_bit 16 b32 AND 0xFF), ucast (drop_bit 8 b32 AND 0xFF),
               ucast (b32 AND 0xFF)];
         Some (True, d)
       }
   }"

definition decode3to2 :: "cells \<Rightarrow> cells \<Rightarrow> (bool \<times> cells) option" where
  "decode3to2 src dest = do {
     c0 \<leftarrow> rd src 0;
     let bits0 = codetovalue c0;
     if bits0 < 0 then Some (False, dest) else do {
     let b0 = push_bit 6 (of_int bits0 :: u32);
     c1 \<leftarrow> rd src 1;
     let bits1 = codetovalue c1;
     if bits1 < 0 then Some (False, dest) else do {
     let b1 = push_bit 4 (b0 OR of_int bits1);
     c2 \<leftarrow> rd src 2;
     let bits2 = codetovalue c2;
     if bits2 < 0 then Some (False, dest) else do {
     let b32 = b1 OR drop_bit 2 (of_int bits2);
     d \<leftarrow> store dest [ucast (drop_bit 8 b32 AND 0xFF), ucast (b32 AND 0xFF)];
     Some (True, d)
   }}}}"

definition decode2to1 :: "cells \<Rightarrow> cells \<Rightarrow> (bool \<times> cells) option" where
  "decode2to1 src dest = do {
     c0 \<leftarrow> rd src 0;
     let bits0 = codetovalue c0;
     if bits0 < 0 then Some (False, dest) else do {
     let b0 = push_bit 2 (of_int bits0 :: u32);
     c1 \<leftarrow> rd src 1;
     let bits1 = codetovalue c1;
     if bits1 < 0 then Some (False, dest) else do {
     let b32 = b0 OR drop_bit 4 (of_int bits1);
     d \<leftarrow> store dest [ucast b32];
     Some (True, d)
   }}}"

fun decode :: "cells \<Rightarrow> nat \<Rightarrow> cells \<Rightarrow> (bool \<times> cells) option" where
  "decode src srclen dest =
     (if srclen \<ge> 4 then do {
        (ok, d) \<leftarrow> decode4to3 src dest;
        if \<not> ok then Some (False, d)
        else do {
          (rv, rest) \<leftarrow> decode (drop 4 src) (srclen - 4) (drop 3 d);
          Some (rv, take 3 d @ rest)
        }
      }
      else if srclen = 3 then decode3to2 src dest
      else if srclen = 2 then decode2to1 src dest
      else if srclen = 1 then Some (False, dest)
      else Some (True, dest))"

declare decode.simps [simp del]

text \<open>
  The length after the cut of the trailing \<open>=\<close> characters.
\<close>

definition cut_equals :: "cells \<Rightarrow> u32 \<Rightarrow> u32 option" where
  "cut_equals src srclen =
     (if srclen \<noteq> 0 \<and> 0 = srclen AND 3 then do {
        c1 \<leftarrow> rd src (unat (srclen - 1));
        if EQUALS = c1 then do {
          c2 \<leftarrow> rd src (unat (srclen - 2));
          Some (if EQUALS = c2 then srclen - 2 else srclen - 1)
        }
        else Some srclen
      }
      else Some srclen)"

text \<open>
  The first component of the result is whether a pointer is returned and not null, the second the
  destination after the call, the caller's or the allocated one (\<open>None\<close> when there is none:
  nothing allocated, or freed again).
\<close>

definition PL_Base64Decode :: "(nat \<Rightarrow> cptr) \<Rightarrow> cptr \<Rightarrow> u32 \<Rightarrow> cptr \<Rightarrow> (bool \<times> cptr) option" where
  "PL_Base64Decode malloc src srclen0 dest = (case src of
     None \<Rightarrow> Some (False, dest)
   | Some s \<Rightarrow> do {
       srclen1 \<leftarrow> (if 0 = srclen0 then PL_strlen src else Some srclen0);
       srclen \<leftarrow> cut_equals s srclen1;
       dest' \<leftarrow> (case dest of
           Some d \<Rightarrow> Some (Some (d, False))
         | None \<Rightarrow> let destlen = (srclen * 3) div 4 in
             (case malloc (unat (destlen + 1)) of
                None \<Rightarrow> Some None
              | Some d \<Rightarrow> do { d' \<leftarrow> wr d (unat destlen) 0; Some (Some (d', True)) }));
       case dest' of
         None \<Rightarrow> Some (False, None)
       | Some (d, allocated) \<Rightarrow> do {
           (status, d') \<leftarrow> decode s (unat srclen) d;
           Some (if status then (True, Some d') else (False, if allocated then None else Some d'))
         }
     })"

subsection \<open>Words\<close>

lemma unat_digit: "unat (drop_bit j b AND 0x3F :: u32) = unat b div 2 ^ j mod 64"
proof -
  have "(0x3F :: u32) = mask 6" by (simp add: mask_eq_exp_minus_1)
  then have "drop_bit j b AND 0x3F = take_bit 6 (drop_bit j b)" by (simp add: take_bit_eq_mask)
  then show ?thesis
    by (simp only: unsigned_take_bit_eq unat_drop_bit_eq) (simp add: take_bit_eq_mod drop_bit_eq_div)
qed

lemma byte_of: "(ucast (drop_bit j b AND 0xFF :: u32) :: u8) = of_nat (unat b div 2 ^ j mod 256)"
proof -
  have "unat (ucast (take_bit 8 (drop_bit j b)) :: u8) = unat b div 2 ^ j mod 256"
    by (simp only: unsigned_ucast_eq unsigned_take_bit_eq unat_drop_bit_eq)
      (simp add: take_bit_eq_mod drop_bit_eq_div)
  then show ?thesis by (simp add: word_unat_eq_iff unat_of_nat)
qed

subsection \<open>The standard\<close>

definition digit :: "nat \<Rightarrow> nat \<Rightarrow> u8" where
  "digit n k = base64_tab ! (n div 64 ^ k mod 64)"

fun b64 :: "u8 list \<Rightarrow> u8 list" where
  "b64 [] = []"
| "b64 [a] = (let n = unat a * 65536 in [digit n 3, digit n 2, EQUALS, EQUALS])"
| "b64 [a, b] = (let n = unat a * 65536 + unat b * 256 in [digit n 3, digit n 2, digit n 1, EQUALS])"
| "b64 (a # b # c # r) = (let n = unat a * 65536 + unat b * 256 + unat c
     in [digit n 3, digit n 2, digit n 1, digit n 0] @ b64 r)"

lemma encode3to4_eq:
  "encode3to4 (a # b # c # r) dest = store dest (b64 [a, b, c])"
proof -
  have 1: "unat (push_bit 8 0 OR ucast a :: u32) = unat a"
    using unat_shift_or [of 0 8 "ucast a"] unat_u8_less [of a] by simp
  have 2: "unat (push_bit 8 (ucast a) OR ucast b :: u32) = unat a * 256 + unat b"
    using unat_shift_or [of "ucast a" 8 "ucast b"] unat_u8_less [of a] unat_u8_less [of b] by simp
  have 3: "unat (push_bit 8 (push_bit 8 (ucast a) OR ucast b) OR ucast c :: u32)
      = (unat a * 256 + unat b) * 256 + unat c"
    using unat_shift_or [of "push_bit 8 (ucast a) OR ucast b" 8 "ucast c"] 2
      unat_u8_less [of a] unat_u8_less [of b] unat_u8_less [of c] by simp
  then show ?thesis
    by (simp add: encode3to4_def digit_def unat_digit Let_def algebra_simps)
qed

lemma unat_masked:
  "unat (ucast x AND 0x03 :: u32) = unat (x :: u8) mod 4"
  "unat (ucast x AND 0x0F :: u32) = unat x mod 16"
  "unat (drop_bit k (ucast x) AND 0x0F :: u32) = unat x div 2 ^ k mod 16"
proof -
  have m: "(0x03 :: u32) = mask 2" "(0x0F :: u32) = mask 4" by (simp_all add: mask_eq_exp_minus_1)
  have "(w :: u32) AND 0x03 = take_bit 2 w" "w AND 0x0F = take_bit 4 w" for w
    by (simp_all only: m take_bit_eq_mask)
  then have m: "unat (w AND 0x03 :: u32) = unat w mod 4" "unat (w AND 0x0F) = unat w mod 16" for w
    by (simp_all only: unsigned_take_bit_eq) (simp_all add: take_bit_eq_mod)
  show "unat (ucast x AND 0x03 :: u32) = unat x mod 4" "unat (ucast x AND 0x0F :: u32) = unat x mod 16"
    by (simp_all only: m unat_ucast_8_32)
  show "unat (drop_bit k (ucast x) AND 0x0F :: u32) = unat x div 2 ^ k mod 16"
    by (simp only: m unat_drop_bit_eq unat_ucast_8_32) (simp add: drop_bit_eq_div)
qed

lemma digits2:
  fixes a b :: nat
  assumes "a < 256" "b < 256"
  shows "(a * 65536 + b * 256) div 64 ^ 3 mod 64 = a div 4 mod 64"
    and "(a * 65536 + b * 256) div 64 ^ 2 mod 64 = a mod 4 * 16 + b div 16 mod 16"
    and "(a * 65536 + b * 256) div 64 ^ 1 mod 64 = b mod 16 * 4"
proof -
  have "(a * 65536 + b * 256) div 262144 = a div 4" using assms by linarith
  then show "(a * 65536 + b * 256) div 64 ^ 3 mod 64 = a div 4 mod 64" by simp
  have "(a * 65536 + b * 256) div 4096 = a * 16 + b div 16" by linarith
  moreover have "(a * 16 + q) mod 64 = a mod 4 * 16 + q" if "q < 16" for q
  proof -
    have "a * 16 + q = (a mod 4 * 16 + q) + 64 * (a div 4)"
      using div_mult_mod_eq [of a 4] by linarith
    then have "(a * 16 + q) mod 64 = (a mod 4 * 16 + q) mod 64" by (metis mod_mult_self2)
    then show ?thesis using that by simp
  qed
  moreover have "b div 16 mod 16 = b div 16" "b div 16 < 16" using assms by simp_all
  ultimately show "(a * 65536 + b * 256) div 64 ^ 2 mod 64 = a mod 4 * 16 + b div 16 mod 16" by simp
  have "(a * 65536 + b * 256) div 64 = a * 1024 + b * 4" by linarith
  also have "\<dots> = b mod 16 * 4 + 64 * (a * 16 + b div 16)"
  proof -
    have "a * 1024 + b * 4 = r * 4 + 64 * (a * 16 + q)" if "b = q * 16 + r" for q r using that by simp
    then show ?thesis by (metis div_mult_mod_eq)
  qed
  finally have "(a * 65536 + b * 256) div 64 = b mod 16 * 4 + 64 * (a * 16 + b div 16)" .
  then have "(a * 65536 + b * 256) div 64 mod 64 = (b mod 16 * 4) mod 64" by (metis mod_mult_self2)
  then show "(a * 65536 + b * 256) div 64 ^ 1 mod 64 = b mod 16 * 4" by simp
qed

lemma encode2to4_eq: "encode2to4 (a # b # r) dest = store dest (b64 [a, b])"
proof -
  have 1: "unat (push_bit 4 (ucast a AND 0x03) OR (drop_bit 4 (ucast b) AND 0x0F) :: u32)
      = unat a mod 4 * 16 + unat b div 16 mod 16"
    using unat_shift_or [of "ucast a AND 0x03" 4 "drop_bit 4 (ucast b) AND 0x0F"] by (simp add: unat_masked)
  have 2: "unat (push_bit 2 (ucast b AND 0x0F) :: u32) = unat b mod 16 * 4"
    using unat_shift [of "ucast b AND 0x0F" 2] by (simp add: unat_masked)
  show ?thesis
    using digits2 [OF unat_u8_less unat_u8_less, of a b] 1 2
    by (simp add: encode2to4_def digit_def unat_digit Let_def)
qed

lemma encode1to4_eq: "encode1to4 (a # r) dest = store dest (b64 [a])"
proof -
  have 2: "unat (push_bit 4 (ucast a AND 0x03) :: u32) = unat a mod 4 * 16"
    using unat_shift [of "ucast a AND 0x03" 4] by (simp add: unat_masked)
  show ?thesis
    using digits2 [OF unat_u8_less, of 0 a] 2
    by (simp add: encode1to4_def digit_def unat_digit Let_def)
qed

lemma b64_3: "b64 (a # b # c # r) = b64 [a, b, c] @ b64 r"
  by (simp add: Let_def)

lemma length_b64: "length (b64 xs) = (length xs + 2) div 3 * 4"
proof (induction xs rule: b64.induct)
  case (4 a b c r)
  have "(5 + length r) div 3 = Suc ((length r + 2) div 3)" by linarith
  with 4 show ?case by (simp add: Let_def)
qed (simp_all add: Let_def)

declare b64.simps(4) [simp del]

lemma bind_Some_map: "Option.bind x (\<lambda>r. Some (f r)) = map_option f x"
  by (cases x) simp_all

lemma store_app:
  "store d (x @ y) = Option.bind (store d x)
     (\<lambda>d'. map_option (\<lambda>rest. take (length x) d' @ rest) (store (drop (length x) d') y))"
  by (auto simp: store_def add.commute)

lemma encode_eq: "n \<le> length src \<Longrightarrow> encode src n dest = store dest (b64 (take n src))"
proof (induction src n dest rule: encode.induct)
  case (1 src n dest)
  consider "n = 0" | a r where "n = 1" "src = a # r" | a b r where "n = 2" "src = a # b # r"
    | k a b c r where "n = Suc (Suc (Suc k))" "src = a # b # c # r"
  proof -
    have "n = 0 \<or> n = 1 \<or> n = 2 \<or> (\<exists>k. n = Suc (Suc (Suc k)))" by presburger
    then show thesis
      using "1.prems" that by (auto simp: Suc_le_length_iff numeral_2_eq_2)
  qed
  then show ?case
  proof cases
    case 1
    then show ?thesis by (simp add: encode.simps)
  next
    case 2
    then show ?thesis using encode1to4_eq [of a r dest] by (simp add: encode.simps)
  next
    case 3
    then show ?thesis using encode2to4_eq [of a b r dest] by (simp add: encode.simps)
  next
    case 4
    have l: "length (b64 [a, b, c]) = 4" by (simp add: length_b64)
    have "encode (drop 3 src) (n - 3) (drop 4 d) = store (drop 4 d) (b64 (take k r))"
      if "encode3to4 src dest = Some d" for d
      using "1.IH" [OF _ that] "1.prems" 4 by simp
    then show ?thesis
      using 4 encode3to4_eq [of a b c r dest] l
      by (cases "encode3to4 src dest")
        (simp_all add: encode.simps [of "a # b # c # r" "Suc (Suc (Suc k))"] b64_3 [of a b c "take k r"] store_app bind_Some_map)
  qed
qed

subsection \<open>Decoding\<close>

definition val :: "u8 \<Rightarrow> nat" where
  "val c = nat (codetovalue c)"

definition b64_valid :: "u8 list \<Rightarrow> bool" where
  "b64_valid cs \<longleftrightarrow> (\<forall>c \<in> set cs. 0 \<le> codetovalue c)"

lemma b64_valid_simps [simp]:
  "b64_valid []" "b64_valid (c # cs) \<longleftrightarrow> 0 \<le> codetovalue c \<and> b64_valid cs"
  "b64_valid (cs @ ds) \<longleftrightarrow> b64_valid cs \<and> b64_valid ds"
  by (auto simp: b64_valid_def)

lemma codetovalue_less: "codetovalue c < 64"
  unfolding codetovalue_def word_le_def by simp

lemma val_less: "val c < 64"
  using codetovalue_less [of c] by (simp add: val_def)

lemma unat_val: "0 \<le> codetovalue c \<Longrightarrow> unat (of_int (codetovalue c) :: u32) = val c"
proof -
  assume "0 \<le> codetovalue c"
  then have "of_int (codetovalue c) = (of_nat (val c) :: u32)" by (simp add: val_def)
  then show ?thesis using val_less [of c] by (simp add: unat_of_nat)
qed

lemma unat_gather:
  assumes "0 \<le> codetovalue c" and "unat b * 2 ^ k < 2 ^ 32" and "6 \<le> k"
  shows "unat (push_bit k b OR of_int (codetovalue c) :: u32) = unat b * 2 ^ k + val c"
proof -
  have "(64 :: nat) \<le> 2 ^ k" using power_increasing [OF assms(3), of "2 :: nat"] by simp
  then show ?thesis
    using unat_shift_or [OF assms(2), of "of_int (codetovalue c)"] val_less [of c]
    by (simp add: unat_val [OF assms(1)])
qed

fun unb64 :: "u8 list \<Rightarrow> u8 list" where
  "unb64 (a # b # c # d # r) = (let n = val a * 262144 + val b * 4096 + val c * 64 + val d
     in [of_nat (n div 65536 mod 256), of_nat (n div 256 mod 256), of_nat (n mod 256)] @ unb64 r)"
| "unb64 [a, b, c] = (let n = val a * 262144 + val b * 4096 + val c * 64
     in [of_nat (n div 65536 mod 256), of_nat (n div 256 mod 256)])"
| "unb64 [a, b] = (let n = val a * 262144 + val b * 4096 in [of_nat (n div 65536 mod 256)])"
| "unb64 _ = []"

lemma decode4to3_eq:
  "decode4to3 (a # b # c # d # r) dest =
     (if b64_valid [a, b, c, d] then map_option (Pair True) (store dest (unb64 [a, b, c, d]))
      else Some (False, dest))"
proof (cases "b64_valid [a, b, c, d]")
  case True
  let ?v = "\<lambda>c. of_int (codetovalue c) :: u32"
  have v: "0 \<le> codetovalue a" "0 \<le> codetovalue b" "0 \<le> codetovalue c" "0 \<le> codetovalue d"
    using True by simp_all
  have l: "val a < 64" "val b < 64" "val c < 64" by (simp_all add: val_less)
  define w1 where "w1 = push_bit 6 0 OR ?v a"
  have 1: "unat w1 = val a" using unat_gather [OF v(1), of 0 6] by (simp add: w1_def)
  define w2 where "w2 = push_bit 6 w1 OR ?v b"
  have 2: "unat w2 = val a * 64 + val b" using unat_gather [OF v(2), of w1 6] l by (simp add: w2_def 1)
  define w3 where "w3 = push_bit 6 w2 OR ?v c"
  have 3: "unat w3 = (val a * 64 + val b) * 64 + val c"
    using unat_gather [OF v(3), of w2 6] l by (simp add: w3_def 2)
  define w4 where "w4 = push_bit 6 w3 OR ?v d"
  have "unat w4 = ((val a * 64 + val b) * 64 + val c) * 64 + val d"
    using unat_gather [OF v(4), of w3 6] l by (simp add: w4_def 3)
  then have 4: "unat w4 = val a * 262144 + val b * 4096 + val c * 64 + val d" by simp
  have "gather (a # b # c # d # r) 0 4 0 = Some (Some w4)"
    using v by (simp add: eval_nat_numeral Let_def not_less w1_def w2_def w3_def w4_def)
  then show ?thesis
    using True byte_of [of 16 w4] byte_of [of 8 w4] byte_of [of 0 w4]
    by (simp add: decode4to3_def Let_def 4 bind_Some_map)
next
  case False
  then have "gather (a # b # c # d # r) 0 4 0 = Some None"
    by (auto simp: eval_nat_numeral Let_def)
  with False show ?thesis by (simp add: decode4to3_def del: b64_valid_simps)
qed

lemma unat_low: "unat (drop_bit k (of_int (codetovalue c)) :: u32) = val c div 2 ^ k" if "0 \<le> codetovalue c"
  by (simp only: unat_drop_bit_eq unat_val [OF that]) (simp add: drop_bit_eq_div)

lemma decode3to2_eq:
  "decode3to2 (a # b # c # r) dest =
     (if b64_valid [a, b, c] then map_option (Pair True) (store dest (unb64 [a, b, c]))
      else Some (False, dest))"
proof (cases "b64_valid [a, b, c]")
  case True
  let ?v = "\<lambda>c. of_int (codetovalue c) :: u32"
  have v: "0 \<le> codetovalue a" "0 \<le> codetovalue b" "0 \<le> codetovalue c" using True by simp_all
  have l: "val a < 64" "val b < 64" "val c < 64" by (simp_all add: val_less)
  define w2 where "w2 = push_bit 6 (?v a) OR ?v b"
  have 2: "unat w2 = val a * 64 + val b"
    using unat_gather [OF v(2), of "?v a" 6] l by (simp add: w2_def unat_val v)
  define w3 where "w3 = push_bit 4 w2 OR drop_bit 2 (?v c)"
  have "unat w3 = (val a * 64 + val b) * 16 + val c div 4"
    using unat_shift_or [of w2 4 "drop_bit 2 (?v c)"] l by (simp add: w3_def 2 unat_low v(3))
  then have 3: "unat w3 = (val a * 262144 + val b * 4096 + val c * 64) div 256" by simp
  have "(val a * 262144 + val b * 4096 + val c * 64) div 256 div 256
      = (val a * 262144 + val b * 4096 + val c * 64) div 65536"
    by (simp only: div_mult2_eq [symmetric]) simp
  then show ?thesis
    using True byte_of [of 8 w3, unfolded 3] byte_of [of 0 w3, unfolded 3]
    by (simp add: decode3to2_def Let_def bind_Some_map v v [THEN leD] w2_def w3_def)
next
  case False
  then show ?thesis by (auto simp: decode3to2_def Let_def)
qed

lemma decode2to1_eq:
  "decode2to1 (a # b # r) dest =
     (if b64_valid [a, b] then map_option (Pair True) (store dest (unb64 [a, b]))
      else Some (False, dest))"
proof (cases "b64_valid [a, b]")
  case True
  let ?v = "\<lambda>c. of_int (codetovalue c) :: u32"
  have v: "0 \<le> codetovalue a" "0 \<le> codetovalue b" using True by simp_all
  have l: "val a < 64" "val b < 64" by (simp_all add: val_less)
  define w where "w = push_bit 2 (?v a) OR drop_bit 4 (?v b)"
  have "unat w = val a * 4 + val b div 16"
    using unat_shift_or [of "?v a" 2 "drop_bit 4 (?v b)"] l by (simp add: w_def unat_val unat_low v)
  then have 3: "unat w = (val a * 262144 + val b * 4096) div 65536" by simp
  moreover have "(ucast w :: u8) = of_nat (unat w)" by (simp add: of_nat_unat)
  moreover have "unat w mod 256 = unat w" using l 3 by simp
  ultimately show ?thesis
    using True by (simp add: decode2to1_def Let_def bind_Some_map v v [THEN leD] w_def [symmetric])
next
  case False
  then show ?thesis by (auto simp: decode2to1_def Let_def)
qed

lemma unb64_4: "unb64 (a # b # c # d # r) = unb64 [a, b, c, d] @ unb64 r"
  by (simp add: Let_def)

lemma length_unb64: "length (unb64 cs) = length cs * 3 div 4"
proof (induction cs rule: unb64.induct)
  case (1 a b c d r)
  have "(12 + length r * 3) div 4 = 3 + length r * 3 div 4" by linarith
  with 1 show ?case by (simp add: Let_def)
qed (simp_all add: Let_def)

declare unb64.simps(1) [simp del]

lemma decode_step:
  assumes "4 \<le> n" and "decode4to3 src dest = Some (True, d)"
  shows "decode src n dest = map_option (\<lambda>(rv, rest). (rv, take 3 d @ rest)) (decode (drop 4 src) (n - 4) (drop 3 d))"
  using assms by (auto simp: decode.simps [of src] case_prod_unfold bind_Some_map split: option.splits)

lemma decode_cases:
  assumes "n \<le> length (src :: u8 list)"
  obtains (zero) "n = 0" | (one) "n = 1" | (two) a b r where "n = 2" "src = a # b # r"
    | (three) a b c r where "n = 3" "src = a # b # c # r"
    | (four) k a b c d r where "n = Suc (Suc (Suc (Suc k)))" "src = a # b # c # d # r"
proof -
  have "n = 0 \<or> n = 1 \<or> n = 2 \<or> n = 3 \<or> (\<exists>k. n = Suc (Suc (Suc (Suc k))))" by presburger
  then show thesis
    using assms that by (auto simp: Suc_le_length_iff numeral_2_eq_2 numeral_3_eq_3)
qed

lemma mod_SSSS: "Suc (Suc (Suc (Suc k))) mod 4 = k mod 4"
  by presburger

lemma decode_valid:
  "n \<le> length src \<Longrightarrow> b64_valid (take n src) \<Longrightarrow> n mod 4 \<noteq> 1
    \<Longrightarrow> decode src n dest = map_option (Pair True) (store dest (unb64 (take n src)))"
proof (induction src n dest rule: decode.induct)
  case (1 src n dest)
  from "1.prems"(1) show ?case
  proof (cases rule: decode_cases)
    case zero
    then show ?thesis by (simp add: decode.simps)
  next
    case one
    with "1.prems" show ?thesis by simp
  next
    case two
    with "1.prems" show ?thesis using decode2to1_eq by (simp add: decode.simps)
  next
    case three
    with "1.prems" show ?thesis using decode3to2_eq by (simp add: decode.simps)
  next
    case (four k a b c d r)
    have l: "length (unb64 [a, b, c, d]) = 3" by (simp add: length_unb64)
    have t: "take n src = a # b # c # d # take k r" using four by simp
    then have v: "b64_valid [a, b, c, d]" "b64_valid (take k r)" using "1.prems"(2) by simp_all
    have s: "store dest (unb64 (take n src))
        = Option.bind (store dest (unb64 [a, b, c, d])) (\<lambda>d'. map_option (\<lambda>rest. take 3 d' @ rest)
            (store (drop 3 d') (unb64 (take k r))))"
      by (simp only: t unb64_4 [of a b c d "take k r"] store_app l)
    show ?thesis
    proof (cases "store dest (unb64 [a, b, c, d])")
      case None
      then have "decode4to3 src dest = None"
        using v(1) four decode4to3_eq [of a b c d r dest] by simp
      with None s four show ?thesis
        by (simp add: decode.simps [of "a # b # c # d # r" "Suc (Suc (Suc (Suc k)))"])
    next
      case (Some d')
      then have d: "decode4to3 src dest = Some (True, d')"
        using v(1) four decode4to3_eq [of a b c d r dest] by simp
      have "decode (drop 4 src) (n - 4) (drop 3 d')
          = map_option (Pair True) (store (drop 3 d') (unb64 (take (n - 4) (drop 4 src))))"
        using "1.prems" four v(2) mod_SSSS [of k] by (intro "1.IH" [OF _ d]) auto
      moreover have "decode src n dest
          = map_option (\<lambda>(rv, rest). (rv, take 3 d' @ rest)) (decode (drop 4 src) (n - 4) (drop 3 d'))"
        using four by (intro decode_step [OF _ d]) simp
      ultimately show ?thesis
        using four s Some by (simp add: option.map_comp o_def)
    qed
  qed
qed

lemma decode_invalid:
  "n \<le> length src \<Longrightarrow> \<not> b64_valid (take n src) \<or> n mod 4 = 1 \<Longrightarrow> n * 3 div 4 \<le> length dest
    \<Longrightarrow> \<exists>d. decode src n dest = Some (False, d) \<and> length d = length dest"
proof (induction src n dest rule: decode.induct)
  case (1 src n dest)
  from "1.prems"(1) show ?case
  proof (cases rule: decode_cases)
    case zero
    with "1.prems" show ?thesis by simp
  next
    case one
    then show ?thesis by (simp add: decode.simps)
  next
    case two
    with "1.prems" show ?thesis using decode2to1_eq by (simp add: decode.simps)
  next
    case three
    with "1.prems" show ?thesis using decode3to2_eq by (simp add: decode.simps)
  next
    case (four k a b c d r)
    have t: "take n src = a # b # c # d # take k r" using four by simp
    show ?thesis
    proof (cases "b64_valid [a, b, c, d]")
      case False
      then have "decode4to3 src dest = Some (False, dest)"
        using four decode4to3_eq [of a b c d r dest] by simp
      with four show ?thesis
        by (simp add: decode.simps [of "a # b # c # d # r" "Suc (Suc (Suc (Suc k)))"])
    next
      case True
      have l3: "length (unb64 [a, b, c, d]) = 3" by (simp add: length_unb64)
      have "3 \<le> length dest" using "1.prems"(3) four by simp
      then obtain d' where s: "store dest (unb64 [a, b, c, d]) = Some d'" "length d' = length dest"
        using l3 store_length by (auto simp: store_def)
      then have d: "decode4to3 src dest = Some (True, d')"
        using True four decode4to3_eq [of a b c d r dest] by simp
      have "\<exists>e. decode (drop 4 src) (n - 4) (drop 3 d') = Some (False, e) \<and> length e = length (drop 3 d')"
        using "1.prems" four True s mod_SSSS [of k] t by (intro "1.IH" [OF _ d]) auto
      moreover have "decode src n dest
          = map_option (\<lambda>(rv, rest). (rv, take 3 d' @ rest)) (decode (drop 4 src) (n - 4) (drop 3 d'))"
        using four by (intro decode_step [OF _ d]) simp
      ultimately show ?thesis
        using four s "1.prems"(3) by auto
    qed
  qed
qed

subsection \<open>There and back\<close>

fun b64_body :: "u8 list \<Rightarrow> u8 list" where
  "b64_body [] = []"
| "b64_body [a] = (let n = unat a * 65536 in [digit n 3, digit n 2])"
| "b64_body [a, b] = (let n = unat a * 65536 + unat b * 256 in [digit n 3, digit n 2, digit n 1])"
| "b64_body (a # b # c # r) = (let n = unat a * 65536 + unat b * 256 + unat c
     in [digit n 3, digit n 2, digit n 1, digit n 0] @ b64_body r)"

definition pad :: "nat \<Rightarrow> nat" where
  "pad n = (if n mod 3 = 0 then 0 else 3 - n mod 3)"

lemma pad_simps [simp]: "pad 0 = 0" "pad (Suc 0) = 2" "pad (Suc (Suc 0)) = 1" "pad (Suc (Suc (Suc n))) = pad n"
proof -
  have "Suc (Suc (Suc n)) mod 3 = n mod 3" by presburger
  then show "pad (Suc (Suc (Suc n))) = pad n" by (simp add: pad_def)
qed (simp_all add: pad_def)

lemma b64_pad: "b64 xs = b64_body xs @ replicate (pad (length xs)) EQUALS"
  by (induction xs rule: b64_body.induct) (simp_all add: b64.simps(4) Let_def numeral_2_eq_2)

lemma codetovalue_tab: "i < 64 \<Longrightarrow> codetovalue (base64_tab ! i) = int i \<and> base64_tab ! i \<noteq> 0 \<and> base64_tab ! i \<noteq> EQUALS"
proof -
  have "\<forall>i \<in> set [0..<64]. codetovalue (base64_tab ! i) = int i \<and> base64_tab ! i \<noteq> 0 \<and> base64_tab ! i \<noteq> EQUALS"
    by code_simp
  then show "i < 64 \<Longrightarrow> ?thesis" by simp
qed

lemma digit_facts:
  "codetovalue (digit n k) = int (n div 64 ^ k mod 64)" "val (digit n k) = n div 64 ^ k mod 64"
  "digit n k \<noteq> 0" "digit n k \<noteq> EQUALS"
  using codetovalue_tab [of "n div 64 ^ k mod 64"] by (simp_all add: digit_def val_def)

lemma recompose:
  fixes n :: nat
  assumes "n < 16777216"
  shows "n div 262144 mod 64 * 262144 + n div 4096 mod 64 * 4096 + n div 64 mod 64 * 64 + n mod 64 = n"
proof -
  have 1: "n div 4096 = n div 64 div 64" "n div 262144 = n div 64 div 64 div 64"
    by (simp_all only: div_mult2_eq [symmetric]) simp_all
  have "n div 64 div 64 div 64 < 64" using assms by (simp add: less_mult_imp_div_less)
  then have "n div 64 div 64 div 64 mod 64 = n div 64 div 64 div 64" by simp
  moreover have "k div 64 * 64 + k mod 64 = k" for k :: nat by simp
  ultimately show ?thesis
    unfolding 1 using div_mult_mod_eq [of n 64] div_mult_mod_eq [of "n div 64" 64]
      div_mult_mod_eq [of "n div 64 div 64" 64] by linarith
qed

lemma bytes_back:
  assumes "n = unat (a :: u8) * 65536 + unat (b :: u8) * 256 + unat (c :: u8)"
  shows "of_nat (n div 65536 mod 256) = a" "of_nat (n div 256 mod 256) = b" "of_nat (n mod 256) = c"
    and "n < 16777216"
proof -
  have l: "unat a < 256" "unat b < 256" "unat c < 256" by (rule unat_u8_less)+
  have "n = unat c + 256 * (unat a * 256 + unat b)" using assms by simp
  then have "n mod 256 = unat c mod 256" by (metis mod_mult_self2)
  moreover have "n div 65536 = unat a" "n div 256 = unat a * 256 + unat b"
    using l assms by simp_all
  ultimately show "of_nat (n div 65536 mod 256) = a" "of_nat (n div 256 mod 256) = b" "of_nat (n mod 256) = c"
    using l by simp_all
  show "n < 16777216" using l assms by linarith
qed

lemma mod_64_0: "(64 :: nat) dvd n \<Longrightarrow> n mod 64 = 0"
  by simp

lemma unb64_body: "unb64 (b64_body xs) = xs"
proof (induction xs rule: b64_body.induct)
  case (2 a)
  let ?n = "unat a * 65536"
  have "?n mod 64 = 0" by (rule mod_64_0) simp
  moreover have "?n div 64 mod 64 = 0" by (rule mod_64_0) simp
  ultimately show ?case
    using recompose [of ?n] bytes_back [of ?n a 0 0]
    by (simp add: Let_def digit_facts)
next
  case (3 a b)
  let ?n = "unat a * 65536 + unat b * 256"
  have "?n mod 64 = 0" by (rule mod_64_0) simp
  then show ?case
    using recompose [of ?n] bytes_back [of ?n a b 0]
    by (simp add: Let_def digit_facts)
next
  case (4 a b c r)
  let ?n = "unat a * 65536 + unat b * 256 + unat c"
  show ?case
    using recompose [of ?n] bytes_back [of ?n a b c] 4
    by (simp add: Let_def digit_facts unb64.simps(1))
qed simp

lemma body_valid: "b64_valid (b64_body xs)"
  by (induction xs rule: b64_body.induct) (simp_all add: Let_def digit_facts)

lemma length_body: "length (b64_body xs) + pad (length xs) = (length xs + 2) div 3 * 4"
  using arg_cong [OF b64_pad, of length xs] by (simp add: length_b64)

lemma body_mod: "length (b64_body xs) mod 4 \<noteq> 1"
  by (induction xs rule: b64_body.induct) (simp_all add: Let_def mod_SSSS)

lemma body_no_equals: "EQUALS \<notin> set (b64_body xs) \<and> 0 \<notin> set (b64_body xs)"
  by (induction xs rule: b64_body.induct) (simp_all add: Let_def digit_facts digit_facts [symmetric])

subsection \<open>The properties\<close>

text \<open>An allocator that never fails, with blocks of the size asked for.\<close>

definition allocates :: "(nat \<Rightarrow> cptr) \<Rightarrow> bool" where
  "allocates malloc \<longleftrightarrow> (\<forall>n. \<exists>b. malloc n = Some b \<and> length b = n)"

lemma allocates_replicate: "allocates (\<lambda>n. Some (replicate n 0))"
  by (simp add: allocates_def)

lemma body_length_bound: "length (b64_body xs) * 3 \<le> length xs * 4 + 2"
  by (induction xs rule: b64_body.induct) (simp_all add: Let_def)

lemma unat_pad_len:
  assumes "m < 2 ^ 30"
  shows "unat (((of_nat m + 2) div 3) * 4 :: u32) = (m + 2) div 3 * 4"
    and "unat (((of_nat m + 2) div 3) * 4 + 1 :: u32) = (m + 2) div 3 * 4 + 1"
proof -
  have 1: "unat (of_nat m + 2 :: u32) = m + 2"
    using assms by (simp add: unat_word_ariths unat_of_nat)
  then have 2: "unat ((of_nat m + 2) div 3 :: u32) = (m + 2) div 3" by (simp add: unat_div)
  then show 3: "unat (((of_nat m + 2) div 3) * 4 :: u32) = (m + 2) div 3 * 4"
    using assms by (simp add: unat_word_ariths)
  then show "unat (((of_nat m + 2) div 3) * 4 + 1 :: u32) = (m + 2) div 3 * 4 + 1"
    using assms by (simp add: unat_word_ariths)
qed

lemma encode_alloc:
  assumes "allocates malloc" and "xs \<noteq> []" and "length xs < 2 ^ 30"
  shows "PL_Base64Encode malloc (Some xs) (of_nat (length xs)) None = Some (Some (b64 xs @ [0]))"
proof -
  let ?n = "of_nat (length xs) :: u32"
  have n: "unat ?n = length xs" using assms(3) by (simp add: unat_of_nat)
  then have nz: "?n \<noteq> 0" using assms(2) by (metis unat_0 length_0_conv)
  let ?d = "(?n + 2) div 3 * 4"
  note l = unat_pad_len [OF assms(3)]
  obtain b where b: "malloc (unat (?d + 1)) = Some b" "length b = length (b64 xs) + 1"
    using assms(1) l(2) by (auto simp: allocates_def length_b64)
  have w: "wr b (unat ?d) 0 = Some (b[length (b64 xs) := 0])"
    using b(2) l(1) by (simp add: wr_def length_b64)
  have "drop (length (b64 xs)) (b[length (b64 xs) := 0]) = [0]"
    using b(2) by (simp add: Cons_nth_drop_Suc [symmetric])
  then have "encode xs (unat ?n) (b[length (b64 xs) := 0]) = Some (b64 xs @ [0])"
    using n b(2) by (simp add: encode_eq store_def)
  then show ?thesis
    using nz b(1) w by (simp add: PL_Base64Encode_def Let_def)
qed

lemma unat_dest_len:
  assumes "unat (m :: u32) * 3 < 2 ^ 32"
  shows "unat (m * 3 div 4) = unat m * 3 div 4" "unat (m * 3 div 4 + 1) = unat m * 3 div 4 + 1"
proof -
  have "unat (m * 3) = unat m * 3" using assms by (simp add: unat_word_ariths)
  then show 1: "unat (m * 3 div 4) = unat m * 3 div 4" by (simp add: unat_div)
  then show "unat (m * 3 div 4 + 1) = unat m * 3 div 4 + 1"
    using assms by (simp add: unat_word_ariths)
qed

lemma cut_equals_b64:
  assumes "length xs < 2 ^ 30" and "xs \<noteq> []"
  shows "cut_equals (b64 xs @ r) (of_nat (length (b64 xs))) = Some (of_nat (length (b64_body xs)))"
proof -
  let ?m = "length (b64 xs)"
  have pos: "4 \<le> ?m" using assms(2) by (cases xs) (auto simp: length_b64)
  have m: "?m < 2 ^ 32" using assms(1) by (simp add: length_b64)
  have u: "unat (of_nat ?m :: u32) = ?m" using m by (simp add: unat_of_nat)
  have 0: "(of_nat ?m :: u32) \<noteq> 0" using u pos by (metis unat_0 le_zero_eq zero_neq_numeral)
  have "(of_nat ?m AND 3 :: u32) = 0"
  proof -
    have "(3 :: u32) = mask 2" by (simp add: mask_eq_exp_minus_1)
    then have "unat (of_nat ?m AND 3 :: u32) = ?m mod 4"
      using u by (simp only: take_bit_eq_mask [symmetric] unsigned_take_bit_eq) (simp add: take_bit_eq_mod)
    then show ?thesis by (simp add: length_b64 word_unat_eq_iff)
  qed
  have u1: "unat (of_nat ?m - 1 :: u32) = ?m - 1" "unat (of_nat ?m - 2 :: u32) = ?m - 2"
    using u pos by (simp_all add: unat_sub word_le_nat_alt)
  define k where "k = pad (length xs)"
  have lm: "?m = length (b64_body xs) + k" and bp: "b64 xs = b64_body xs @ replicate k EQUALS"
    using b64_pad [of xs] by (simp_all add: k_def)
  have k: "k = 0 \<or> k = 1 \<or> k = 2" unfolding k_def pad_def by auto
  have last: "rd (b64 xs @ r) (?m - 1) = Some ((b64 xs) ! (?m - 1))"
      "rd (b64 xs @ r) (?m - 2) = Some ((b64 xs) ! (?m - 2))"
  proof -
    have "?m - 1 < ?m" "?m - 2 < ?m" using pos by linarith+
    then show "rd (b64 xs @ r) (?m - 1) = Some ((b64 xs) ! (?m - 1))"
        "rd (b64 xs @ r) (?m - 2) = Some ((b64 xs) ! (?m - 2))"
      by (simp_all only: rd_append1) (simp_all add: rd_in)
  qed
  have be: "b64_body xs ! i \<noteq> EQUALS" if "i < length (b64_body xs)" for i
    using body_no_equals [of xs] that by (metis nth_mem)
  have sub: "(of_nat ?m - 1 :: u32) = of_nat (?m - 1)" "(of_nat ?m - 2 :: u32) = of_nat (?m - 2)"
    using pos by (simp_all add: of_nat_diff)
  from k show ?thesis
  proof (elim disjE)
    assume "k = 0"
    then have "length (b64_body xs) = ?m" "b64 xs ! (?m - 1) \<noteq> EQUALS"
      using lm bp pos be [of "?m - 1"] by simp_all
    then show ?thesis
      using 0 last u1 \<open>of_nat ?m AND 3 = 0\<close> by (simp add: cut_equals_def)
  next
    assume "k = 1"
    then have "length (b64_body xs) = ?m - 1" "b64 xs ! (?m - 1) = EQUALS" "b64 xs ! (?m - 2) \<noteq> EQUALS"
      using lm bp pos be [of "?m - 2"] by (simp_all add: nth_append)
    then show ?thesis
      using 0 last u1 sub \<open>of_nat ?m AND 3 = 0\<close> by (simp add: cut_equals_def)
  next
    assume "k = 2"
    then have "length (b64_body xs) = ?m - 2" "b64 xs ! (?m - 1) = EQUALS" "b64 xs ! (?m - 2) = EQUALS"
      using lm bp pos by (simp_all add: nth_append numeral_2_eq_2)
    then show ?thesis
      using 0 last u1 sub \<open>of_nat ?m AND 3 = 0\<close> by (simp add: cut_equals_def)
  qed
qed

lemma decode_alloc:
  assumes "allocates malloc" and "unat m \<le> length s" and "unat m * 3 < 2 ^ 32"
    and "b64_valid (take (unat m) s)" and "unat m mod 4 \<noteq> 1"
    and "(if m0 = 0 then PL_strlen (Some s) else Some m0) = Some k" and "cut_equals s k = Some m"
  shows "PL_Base64Decode malloc (Some s) m0 None = Some (True, Some (unb64 (take (unat m) s) @ [0]))"
proof -
  let ?u = "unb64 (take (unat m) s)"
  have lu: "length ?u = unat m * 3 div 4" using assms(2) by (simp add: length_unb64)
  note l = unat_dest_len [OF assms(3)]
  obtain b where b: "malloc (unat (m * 3 div 4 + 1)) = Some b" "length b = length ?u + 1"
    using assms(1) l(2) lu by (auto simp: allocates_def)
  have w: "wr b (unat (m * 3 div 4)) 0 = Some (b[length ?u := 0])"
    using b(2) l(1) lu by (simp add: wr_def)
  have "drop (length ?u) (b[length ?u := 0]) = [0]"
    using b(2) by (simp add: Cons_nth_drop_Suc [symmetric])
  then have "decode s (unat m) (b[length ?u := 0]) = Some (True, ?u @ [0])"
    using b(2) decode_valid [OF assms(2,4,5)] by (simp add: store_def)
  then show ?thesis
    using assms(6,7) b(1) w by (simp add: PL_Base64Decode_def Let_def)
qed

text \<open>C9: what \<open>PL_Base64Encode\<close> writes is the base64 text of the standard, with its
  padding, and decoding it with \<open>PL_Base64Decode\<close> gives the data back: for data of at least one byte (a length of 0 means that of
  a string) and fewer than \<open>2^30\<close>, into blocks both functions allocate, with success, and terminate.\<close>

theorem base64_roundtrip:
  assumes "allocates malloc" and "xs \<noteq> []" and "length xs < 2 ^ 30"
  shows "\<exists>e. PL_Base64Encode malloc (Some xs) (of_nat (length xs)) None = Some (Some e)
    \<and> cstr e (b64 xs) \<and> PL_Base64Decode malloc (Some e) 0 None = Some (True, Some (xs @ [0]))"
proof (intro exI conjI)
  let ?e = "b64 xs @ [0]"
  show "PL_Base64Encode malloc (Some xs) (of_nat (length xs)) None = Some (Some ?e)"
    using assms by (rule encode_alloc)
  show c: "cstr ?e (b64 xs)"
    using body_no_equals [of xs] by (auto simp: cstr_def b64_pad [of xs])
  let ?m = "of_nat (length (b64_body xs)) :: u32"
  have lb: "length (b64_body xs) \<le> length (b64 xs)" by (simp add: b64_pad [of xs])
  have "length (b64_body xs) * 3 < 2 ^ 32"
    using body_length_bound [of xs] assms(3) by simp
  moreover from this have m: "unat ?m = length (b64_body xs)" by (simp add: unat_of_nat)
  moreover have t: "take (length (b64_body xs)) ?e = b64_body xs" by (simp add: b64_pad [of xs])
  ultimately have "PL_Base64Decode malloc (Some ?e) 0 None = Some (True, Some (unb64 (take (unat ?m) ?e) @ [0]))"
    using assms lb c by (intro decode_alloc [where k = "of_nat (length (b64 xs))"])
      (simp_all add: body_valid body_mod [simplified] cut_equals_b64 PL_strlen_def strlen_cstr)
  then show "PL_Base64Decode malloc (Some ?e) 0 None = Some (True, Some (xs @ [0]))"
    by (simp only: m t unb64_body)
qed

lemma base64_roundtrip_witness:
  "\<exists>e. PL_Base64Encode (\<lambda>n. Some (replicate n 0)) (Some [1, 2, 3, 255]) 4 None = Some (Some e)
    \<and> PL_Base64Decode (\<lambda>n. Some (replicate n 0)) (Some e) 0 None = Some (True, Some [1, 2, 3, 255, 0])"
  using base64_roundtrip [OF allocates_replicate, of "[1, 2, 3, 255]"] by auto

text \<open>into a buffer of the caller, \<open>PL_Base64Encode\<close> writes the text and no cell more; it
  overruns the buffer exactly when the text, without a terminator, does not fit.\<close>

lemma base64_encode_buffer:
  assumes "n \<noteq> 0" and "unat n \<le> length src"
  shows "PL_Base64Encode malloc (Some src) n (Some dest)
    = (if (unat n + 2) div 3 * 4 \<le> length dest
       then Some (Some (b64 (take (unat n) src) @ drop ((unat n + 2) div 3 * 4) dest)) else None)"
  using assms by (simp add: PL_Base64Encode_def encode_eq store_def length_b64 min_def)

lemma base64_encode_buffer_witness:
  "PL_Base64Encode (\<lambda>n. None) (Some [0, 0, 0]) 3 (Some [1, 1, 1, 1, 1])
    = Some (Some [0x41, 0x41, 0x41, 0x41, 1])"
  using base64_encode_buffer [of 3 "[0, 0, 0]" "\<lambda>n. None" "[1, 1, 1, 1, 1]"]
  by (simp add: digit_def base64_tab_def b64.simps(4))

text \<open>\<open>PL_Base64Decode\<close> accepts a text if and only if, up to two \<open>=\<close> characters at the end
  of a text of whole groups, every character is one of the 64 and the rest is not a single
  character; it then writes the value of the groups. In every case it stays inside a buffer of
  \<open>(srclen * 3)/4\<close> cells.\<close>

lemma base64_decode_buffer:
  assumes "n \<noteq> 0" and "cut_equals src n = Some m" and "unat m \<le> length src"
    and "unat m * 3 div 4 \<le> length dest"
  shows "if b64_valid (take (unat m) src) \<and> unat m mod 4 \<noteq> 1
    then PL_Base64Decode malloc (Some src) n (Some dest)
      = Some (True, Some (unb64 (take (unat m) src) @ drop (unat m * 3 div 4) dest))
    else \<exists>d. PL_Base64Decode malloc (Some src) n (Some dest) = Some (False, Some d) \<and> length d = length dest"
proof (cases "b64_valid (take (unat m) src) \<and> unat m mod 4 \<noteq> 1")
  case True
  then have "decode src (unat m) dest = map_option (Pair True) (store dest (unb64 (take (unat m) src)))"
    using assms(3) by (intro decode_valid) auto
  with True assms show ?thesis
    by (simp add: PL_Base64Decode_def store_def length_unb64 min_def)
next
  case False
  then obtain d where "decode src (unat m) dest = Some (False, d)" "length d = length dest"
    using decode_invalid [OF assms(3) _ assms(4)] by blast
  with False assms(1,2) show ?thesis by (auto simp: PL_Base64Decode_def)
qed

lemma base64_decode_buffer_witness:
  "PL_Base64Decode (\<lambda>n. None) (Some [0x51, 0x51, 0x3d, 0x3d]) 4 (Some [0, 7]) = Some (True, Some [0x41, 7])"
  using base64_decode_buffer [of 4 "[0x51, 0x51, 0x3d, 0x3d]" 2 "[0, 7]" "\<lambda>n. None"]
  by (simp add: cut_equals_def codetovalue_def val_def)

lemma overrun: "length b < length bs \<Longrightarrow> store b bs = None"
  by (simp add: store_def)

text \<open>The sizes of the blocks that are allocated are computed in 32 bits.\<close>

lemma encode_overrun:
  assumes "allocates malloc" and "0xBFFFFFFE \<le> n" and "unat n \<le> length src"
  shows "PL_Base64Encode malloc (Some src) n None = None"
proof -
  let ?d = "(n + 2) div 3 * 4 :: u32"
  have nz: "n \<noteq> 0" using assms(2) by auto
  obtain b where b: "malloc (unat (?d + 1)) = Some b" "length b = unat (?d + 1)"
    using assms(1) by (auto simp: allocates_def)
  have "3221225470 \<le> unat n" using assms(2) by (simp add: word_le_nat_alt)
  then have "2 ^ 32 \<le> length (b64 (take (unat n) src))"
    using assms(3) by (simp add: length_b64 min_def)
  then have "store (b[unat ?d := 0]) (b64 (take (unat n) src)) = None"
    using b(2) unat_u32_less [of "?d + 1"] by (intro overrun) simp
  then have "encode src (unat n) (b[unat ?d := 0]) = None"
    using assms(3) by (simp add: encode_eq)
  then show ?thesis
    using nz b(1) by (simp add: PL_Base64Encode_def Let_def wr_def)
qed

lemma decode_overrun:
  assumes "allocates malloc" and "n \<noteq> 0" and "cut_equals src n = Some m" and "2 ^ 32 \<le> unat m * 3"
    and "unat m \<le> length src" and "b64_valid (take (unat m) src)" and "unat m mod 4 \<noteq> 1"
  shows "PL_Base64Decode malloc (Some src) n None = None"
proof -
  let ?d = "m * 3 div 4 :: u32"
  have m3: "unat (m * 3) = unat m * 3 mod 2 ^ 32" by (simp add: unat_word_ariths)
  have d: "unat ?d = (unat m * 3 mod 2 ^ 32) div 4" by (simp add: unat_div m3)
  have "unat m * 3 mod 2 ^ 32 \<le> unat m * 3 - 2 ^ 32"
    using assms(4) by (simp add: le_mod_geq)
  then have "unat m * 3 mod 2 ^ 32 + 2 ^ 30 * 4 \<le> unat m * 3"
    using assms(4) by simp
  then have "(unat m * 3 mod 2 ^ 32 + 2 ^ 30 * 4) div 4 \<le> unat m * 3 div 4"
    by (rule div_le_mono)
  then have "(unat m * 3 mod 2 ^ 32) div 4 + 2 ^ 30 \<le> unat m * 3 div 4"
    by (simp only: div_mult_self1 zero_neq_numeral not_False_eq_True)
  moreover have "unat (?d + 1) \<le> unat ?d + 1" by (simp add: unat_word_ariths)
  moreover obtain b where b: "malloc (unat (?d + 1)) = Some b" "length b = unat (?d + 1)"
    using assms(1) by (auto simp: allocates_def)
  ultimately have "length b < length (unb64 (take (unat m) src))"
    using d assms(5) by (simp add: length_unb64 min_def)
  then have "store (b[unat ?d := 0]) (unb64 (take (unat m) src)) = None"
    by (intro overrun) simp
  then have "decode src (unat m) (b[unat ?d := 0]) = None"
    using decode_valid [OF assms(5-7)] by simp
  then show ?thesis
    using assms(2,3) b(1) by (simp add: PL_Base64Decode_def Let_def wr_def)
qed

text \<open>with no buffer, \<open>PL_Base64Encode\<close> overruns the block it allocates when the source has
  \<open>0xBFFFFFFE\<close> bytes or more, and \<open>PL_Base64Decode\<close> on a well-formed text of \<open>0x55555558\<close> characters or more:
  the size of the result is computed in 32 bits.\<close>

lemma base64_size_overflow:
  assumes "allocates malloc"
  shows "(0xBFFFFFFE \<le> n \<and> unat n \<le> length src \<longrightarrow> PL_Base64Encode malloc (Some src) n None = None) \<and>
    (n \<noteq> 0 \<and> cut_equals src n = Some m \<and> 2 ^ 32 \<le> unat m * 3 \<and> unat m \<le> length src \<and>
       b64_valid (take (unat m) src) \<and> unat m mod 4 \<noteq> 1 \<longrightarrow> PL_Base64Decode malloc (Some src) n None = None)"
  using encode_overrun [OF assms] decode_overrun [OF assms] by blast

lemma base64_size_overflow_witness:
  "PL_Base64Encode (\<lambda>n. Some (replicate n 0)) (Some (replicate 0xC0000000 0)) 0xC0000000 None = None \<and>
   PL_Base64Decode (\<lambda>n. Some (replicate n 0)) (Some (replicate 0x60000000 0x41)) 0x60000000 None = None"
proof
  show "PL_Base64Encode (\<lambda>n. Some (replicate n 0)) (Some (replicate 0xC0000000 0)) 0xC0000000 None = None"
    using base64_size_overflow [OF allocates_replicate, of "0xC0000000" "replicate 0xC0000000 0"] by simp
  have "cut_equals (replicate 0x60000000 0x41) 0x60000000 = Some 0x60000000" by (simp add: cut_equals_def rd_def)
  moreover have "b64_valid (take 0x60000000 (replicate 0x60000000 0x41))" by (simp add: b64_valid_def codetovalue_def)
  ultimately show "PL_Base64Decode (\<lambda>n. Some (replicate n 0)) (Some (replicate 0x60000000 0x41)) 0x60000000 None = None"
    using base64_size_overflow [OF allocates_replicate, of "0x60000000" "replicate 0x60000000 0x41" "0x60000000"] by simp
qed

end
