(* ===== verification/Pr_Bits.thy ===== *)
theory Pr_Bits
  imports Kz_Prelude
begin

text \<open>
  The logarithms of \<open>nsprpub/pr/src/misc/prlog2.c\<close> (the macros of \<open>prbit.h\<close> have the same
  text) and the power of two of \<open>prtypes.h\<close>.
\<close>

text \<open>One halving step: \<open>if (n >> k) log2 += k, n >>= k\<close>.\<close>

definition log2_step :: "nat \<Rightarrow> nat \<times> u32 \<Rightarrow> nat \<times> u32" where
  "log2_step k = (\<lambda>(log2, n). if drop_bit k n \<noteq> 0 then (log2 + k, drop_bit k n) else (log2, n))"

definition PR_CeilingLog2 :: "u32 \<Rightarrow> nat" where
  "PR_CeilingLog2 n =
     (let log2 = (if n AND (n - 1) \<noteq> 0 then 1 else 0);
          (log2, n) = fold log2_step [16, 8, 4, 2] (log2, n)
      in if drop_bit 1 n \<noteq> 0 then log2 + 1 else log2)"

definition PR_FloorLog2 :: "u32 \<Rightarrow> nat" where
  "PR_FloorLog2 n =
     (let (log2, n) = fold log2_step [16, 8, 4, 2] (0, n)
      in if drop_bit 1 n \<noteq> 0 then log2 + 1 else log2)"

text \<open>\<open>PR_BIT(n)\<close> is \<open>1 << n\<close>; a shift by the width or more has no defined result.\<close>

definition PR_BIT :: "nat \<Rightarrow> u32 option" where
  "PR_BIT n = (if n < 32 then Some (push_bit n 1) else None)"

subsection \<open>What they compute\<close>

text \<open>The number left over is the quotient by the power of two taken out so far.\<close>

definition log2_rel :: "nat \<Rightarrow> nat \<Rightarrow> nat \<Rightarrow> nat \<times> u32 \<Rightarrow> bool" where
  "log2_rel c N k = (\<lambda>(l, n). c \<le> l \<and> unat n = N div 2 ^ (l - c) \<and> 0 < unat n \<and> unat n < 2 ^ k)"

lemma log2_step_rel:
  assumes "log2_rel c N (k + k) s"
  shows "log2_rel c N k (log2_step k s)"
proof (cases s)
  case (Pair l n)
  note s = assms [unfolded Pair log2_rel_def, simplified]
  have d: "unat (drop_bit k n) = unat n div 2 ^ k" by (rule unat_drop_bit_div)
  show ?thesis
  proof (cases "drop_bit k n = 0")
    case True
    then have "unat n div 2 ^ k = 0" using d by simp
    then have "unat n < 2 ^ k" by (simp add: div_eq_0_iff)
    with True s Pair show ?thesis by (simp add: log2_rel_def log2_step_def)
  next
    case False
    then have "0 < unat n div 2 ^ k" using d by (metis unat_gt_0)
    moreover have "unat n div 2 ^ k < 2 ^ k"
      using s by (simp add: less_mult_imp_div_less power_add)
    moreover have "unat n div 2 ^ k = N div 2 ^ (l + k - c)"
      using s by (simp add: div_mult2_eq [symmetric] power_add [symmetric])
    ultimately show ?thesis using False s Pair d by (simp add: log2_rel_def log2_step_def)
  qed
qed

lemma log2_last:
  assumes "log2_rel c N 2 (l, n)"
  shows "N div 2 ^ ((if drop_bit 1 n \<noteq> 0 then l + 1 else l) - c) = 1" "c \<le> l"
proof -
  have "log2_rel c N 1 (log2_step 1 (l, n))" using assms log2_step_rel [of c N 1] by (simp add: numeral_2_eq_2)
  then show "N div 2 ^ ((if drop_bit 1 n \<noteq> 0 then l + 1 else l) - c) = 1"
    by (auto simp: log2_rel_def log2_step_def split: if_splits)
  show "c \<le> l" using assms by (simp add: log2_rel_def)
qed

lemma log2_fold:
  assumes "n \<noteq> 0"
  shows "log2_rel c (unat n) 2 (fold log2_step [16, 8, 4, 2] (c, n))"
proof -
  have "unat n < 2 ^ (16 + 16)" using unat_u32_less [of n] by simp
  then have "log2_rel c (unat n) (16 + 16) (c, n)" using assms by (simp add: log2_rel_def unat_gt_0)
  then have "log2_rel c (unat n) (8 + 8) (log2_step 16 (c, n))" using log2_step_rel by fastforce
  then have "log2_rel c (unat n) (4 + 4) (log2_step 8 (log2_step 16 (c, n)))" using log2_step_rel by fastforce
  then have "log2_rel c (unat n) (2 + 2) (log2_step 4 (log2_step 8 (log2_step 16 (c, n))))"
    using log2_step_rel by fastforce
  then have "log2_rel c (unat n) 2 (log2_step 2 (log2_step 4 (log2_step 8 (log2_step 16 (c, n)))))"
    using log2_step_rel by fastforce
  then show ?thesis by simp
qed

lemma FloorLog2_div:
  assumes "n \<noteq> 0"
  shows "unat n div 2 ^ PR_FloorLog2 n = 1"
proof -
  obtain l m where f: "fold log2_step [16, 8, 4, 2] (0, n) = (l, m)" by fastforce
  have "log2_rel 0 (unat n) 2 (l, m)" using log2_fold [OF assms, of 0] f by (simp only:)
  from log2_last [OF this] show ?thesis unfolding PR_FloorLog2_def f by simp
qed

lemma CeilingLog2_Floor:
  assumes "n \<noteq> 0"
  shows "PR_CeilingLog2 n = PR_FloorLog2 n + (if n AND (n - 1) \<noteq> 0 then 1 else 0)"
proof -
  let ?c = "if n AND (n - 1) \<noteq> 0 then 1 else 0 :: nat"
  obtain l m where f: "fold log2_step [16, 8, 4, 2] (?c, n) = (l, m)" by fastforce
  have r: "log2_rel ?c (unat n) 2 (l, m)" using log2_fold [OF assms, of ?c] f by (simp only:)
  note e = log2_last [OF r]
  have u: "a = b" if "unat n div 2 ^ a = 1" "unat n div 2 ^ b = 1" for a b
  proof (rule ccontr)
    have *: "\<not> a < b" if "unat n div 2 ^ a = 1" "unat n div 2 ^ b = 1" for a b
    proof
      assume "a < b"
      then have "unat n div 2 ^ b = unat n div 2 ^ a div 2 ^ (b - a)"
        by (simp add: div_mult2_eq [symmetric] power_add [symmetric])
      moreover have "(1 :: nat) div 2 ^ (b - a) = 0"
        using \<open>a < b\<close> by (intro div_less one_less_power) simp_all
      ultimately show False using that by simp
    qed
    assume "a \<noteq> b"
    then show False using * [OF that] * [OF that(2,1)] by simp
  qed
  have "PR_CeilingLog2 n - ?c = PR_FloorLog2 n"
    using u [OF e(1) FloorLog2_div [OF assms]] unfolding PR_CeilingLog2_def Let_def f by simp
  moreover have "?c \<le> PR_CeilingLog2 n"
    using e(2) unfolding PR_CeilingLog2_def Let_def f by simp
  ultimately show ?thesis by (metis le_add_diff_inverse2)
qed

lemma div_eq_1:
  assumes "N div 2 ^ k = (1 :: nat)"
  shows "2 ^ k \<le> N" "N < 2 ^ k + 2 ^ k"
proof -
  have "N = 2 ^ k + N mod 2 ^ k" using div_mult_mod_eq [of N "2 ^ k"] assms by simp
  moreover have "N mod 2 ^ k < 2 ^ k" by simp
  ultimately show "2 ^ k \<le> N" "N < 2 ^ k + 2 ^ k" by linarith+
qed

lemma bit_div_1:
  assumes "unat (n :: u32) div 2 ^ k = 1"
  shows "bit n k"
proof -
  have "odd (unat n div 2 ^ k)" using assms by simp
  then have "bit (unat n) k" by (simp add: bit_iff_odd)
  then show ?thesis by (simp add: bit_unsigned_iff)
qed

lemma pow2_test:
  assumes "n \<noteq> 0"
  shows "n AND (n - 1) = 0 \<longleftrightarrow> unat n = 2 ^ PR_FloorLog2 n"
proof
  let ?k = "PR_FloorLog2 n"
  note k = div_eq_1 [OF FloorLog2_div [OF assms]]
  have u: "unat (n - 1) = unat n - 1" using assms by (simp add: unat_minus_one)
  assume z: "n AND (n - 1) = 0"
  show "unat n = 2 ^ ?k"
  proof (rule ccontr)
    assume "unat n \<noteq> 2 ^ ?k"
    then have "2 ^ ?k \<le> unat (n - 1)" "unat (n - 1) < 2 ^ ?k + 2 ^ ?k" using k u by linarith+
    then have "unat (n - 1) div 2 ^ ?k = 1" by (intro div_nat_eqI) simp_all
    then have "bit (n AND (n - 1)) ?k"
      using bit_div_1 [OF FloorLog2_div [OF assms]] bit_div_1 by (simp add: bit_and_iff)
    with z show False by simp
  qed
next
  let ?k = "PR_FloorLog2 n"
  assume e: "unat n = 2 ^ ?k"
  then have "?k < 32" using unat_u32_less [of n] by (metis nat_power_less_imp_less zero_less_numeral)
  have n: "n = push_bit ?k 1"
    by (simp only: word_unat_eq_iff e unat_pow2 [OF \<open>?k < 32\<close>])
  show "n AND (n - 1) = 0"
  proof -
    have "take_bit k (2 ^ k :: u32) = 0" for k
      by (metis push_bit_of_1 take_bit_push_bit diff_self_eq_0 take_bit_0 push_bit_of_0)
    then have "k < 32 \<Longrightarrow> n = push_bit k 1 \<Longrightarrow> n AND (n - 1) = 0" for k
      by (simp add: push_bit_of_1 mask_eq_exp_minus_1 [symmetric] take_bit_eq_mask [symmetric])
    then show ?thesis using n \<open>?k < 32\<close> by blast
  qed
qed

lemma CeilingLog2_bounds:
  assumes "n \<noteq> 0"
  shows "unat n \<le> 2 ^ PR_CeilingLog2 n" and "\<And>j. unat n \<le> 2 ^ j \<Longrightarrow> PR_CeilingLog2 n \<le> j"
proof -
  let ?k = "PR_FloorLog2 n"
  note k = div_eq_1 [OF FloorLog2_div [OF assms]]
  show "unat n \<le> 2 ^ PR_CeilingLog2 n"
    using k by (auto simp: CeilingLog2_Floor [OF assms] pow2_test [OF assms])
  fix j
  assume j: "unat n \<le> 2 ^ j"
  show "PR_CeilingLog2 n \<le> j"
  proof (cases "unat n = 2 ^ ?k")
    case True
    then show ?thesis using j by (simp add: CeilingLog2_Floor [OF assms] pow2_test [OF assms])
  next
    case False
    then have "(2 :: nat) ^ ?k < 2 ^ j" using k j by linarith
    then have "?k < j" by simp
    with False show ?thesis by (simp add: CeilingLog2_Floor [OF assms] pow2_test [OF assms])
  qed
qed

text \<open>for a non-zero number, \<open>PR_FloorLog2\<close> is the place of its highest bit and
  \<open>PR_CeilingLog2\<close> the least exponent whose power of two reaches it.\<close>

lemma log2_exact:
  assumes "n \<noteq> 0"
  shows "2 ^ PR_FloorLog2 n \<le> unat n \<and> unat n < 2 ^ (PR_FloorLog2 n + 1)
    \<and> unat n \<le> 2 ^ PR_CeilingLog2 n \<and> (\<forall>j. unat n \<le> 2 ^ j \<longrightarrow> PR_CeilingLog2 n \<le> j)"
  using CeilingLog2_bounds [OF assms] div_eq_1 [OF FloorLog2_div [OF assms]] by simp

lemma log2_exact_witness: "unat (1000 :: u32) \<le> 2 ^ PR_CeilingLog2 1000 \<and> 2 ^ PR_FloorLog2 1000 \<le> unat (1000 :: u32)"
  using log2_exact [of 1000] by simp

end
