(* ===== verification/Pl_DHash.thy ===== *)
theory Pl_DHash
  imports Pr_Bits Pl_String
begin

text \<open>
  The double-hashed table of \<open>xpcom/glue/pldhash.c\<close>, in a build without \<open>DEBUG\<close> and
  \<open>PL_DHASHMETER\<close>.

  An entry is its header, the stored \<open>keyHash\<close>, and the rest of its bytes, of a type the
  client chooses (\<open>payload\<close>). The entry store is the list of the entries that fit in the block
  allocated for it, so an index past it is an access outside the block. Entries are named by
  their index where the code uses their address. The operations of the client are the record
  \<open>PLDHashTableOps\<close>; they do not re-enter the table. Whether an allocation succeeds is the
  argument \<open>alloc\<close>, on the number of bytes.
\<close>

subsection \<open>Data\<close>

record 'e PLDHashEntryHdr =
  keyHash :: u32
  payload :: 'e

definition ENTRY_IS_FREE :: "'e PLDHashEntryHdr \<Rightarrow> bool" where "ENTRY_IS_FREE e \<longleftrightarrow> keyHash e = 0"
definition ENTRY_IS_REMOVED :: "'e PLDHashEntryHdr \<Rightarrow> bool" where "ENTRY_IS_REMOVED e \<longleftrightarrow> keyHash e = 1"
definition ENTRY_IS_LIVE :: "'e PLDHashEntryHdr \<Rightarrow> bool" where "ENTRY_IS_LIVE e \<longleftrightarrow> keyHash e \<ge> 2"

record ('k, 'e) PLDHashTableOps =
  getKey :: "'e \<Rightarrow> 'k"
  hashKey :: "'k \<Rightarrow> u32"
  matchEntry :: "'e \<Rightarrow> 'k \<Rightarrow> bool"
  moveEntry :: "'e \<Rightarrow> 'e"
  clearEntry :: "'e \<Rightarrow> 'e"
  zeroed :: 'e                       \<comment> \<open>the bytes after the header, all zero\<close>
  initEntry :: "('e \<Rightarrow> 'k \<Rightarrow> bool \<times> 'e) option"

record 'e PLDHashTable =
  hashShift :: nat
  maxAlphaFrac :: u8
  minAlphaFrac :: u8
  entrySize :: u32
  entryCount :: u32
  removedCount :: u32
  generation :: u32
  entryStore :: "'e PLDHashEntryHdr list"

datatype PLDHashOperator = PL_DHASH_LOOKUP | PL_DHASH_ADD | PL_DHASH_REMOVE

abbreviation PL_DHASH_SIZE_LIMIT :: u32 where "PL_DHASH_SIZE_LIMIT \<equiv> 0x1000000"
abbreviation PL_DHASH_MIN_SIZE :: u32 where "PL_DHASH_MIN_SIZE \<equiv> 16"
abbreviation PL_DHASH_GOLDEN_RATIO :: u32 where "PL_DHASH_GOLDEN_RATIO \<equiv> 0x9E3779B9"
abbreviation COLLISION_FLAG :: u32 where "COLLISION_FLAG \<equiv> 1"

definition PL_DHASH_TABLE_SIZE :: "'e PLDHashTable \<Rightarrow> u32 option" where
  "PL_DHASH_TABLE_SIZE t = PR_BIT (32 - hashShift t)"

definition MAX_LOAD :: "'e PLDHashTable \<Rightarrow> u32 \<Rightarrow> u32" where
  "MAX_LOAD t sz = drop_bit 8 (ucast (maxAlphaFrac t) * sz)"

definition MIN_LOAD :: "'e PLDHashTable \<Rightarrow> u32 \<Rightarrow> u32" where
  "MIN_LOAD t sz = drop_bit 8 (ucast (minAlphaFrac t) * sz)"

definition HASH1 :: "u32 \<Rightarrow> nat \<Rightarrow> u32" where
  "HASH1 hash0 shift = drop_bit shift hash0"

definition HASH2 :: "u32 \<Rightarrow> nat \<Rightarrow> nat \<Rightarrow> u32" where
  "HASH2 hash0 log2 shift = drop_bit shift (push_bit log2 hash0) OR 1"

definition MATCH_ENTRY_KEYHASH :: "'e PLDHashEntryHdr \<Rightarrow> u32 \<Rightarrow> bool" where
  "MATCH_ENTRY_KEYHASH e hash0 \<longleftrightarrow> keyHash e AND NOT COLLISION_FLAG = hash0"

definition ENSURE_LIVE_KEYHASH :: "u32 \<Rightarrow> u32" where
  "ENSURE_LIVE_KEYHASH hash0 = (if hash0 < 2 then hash0 - 2 else hash0)"

text \<open>A freshly zeroed store in a block of \<open>nbytes\<close> bytes.\<close>

definition zero_store :: "('k, 'e) PLDHashTableOps \<Rightarrow> u32 \<Rightarrow> u32 \<Rightarrow> 'e PLDHashEntryHdr list" where
  "zero_store ops nbytes sz =
     replicate (unat nbytes div unat sz) \<lparr>keyHash = 0, payload = zeroed ops\<rparr>"

subsection \<open>Making and ending a table\<close>

definition PL_DHashTableInit ::
  "('k, 'e) PLDHashTableOps \<Rightarrow> (u32 \<Rightarrow> bool) \<Rightarrow> u32 \<Rightarrow> u32 \<Rightarrow> 'e PLDHashTable option option" where
  "PL_DHashTableInit ops alloc esize capacity0 = (
     let capacity1 = (if capacity0 < PL_DHASH_MIN_SIZE then PL_DHASH_MIN_SIZE else capacity0);
         log2 = PR_CeilingLog2 capacity1
     in do {
       capacity \<leftarrow> PR_BIT log2;
       if capacity \<ge> PL_DHASH_SIZE_LIMIT then Some None
       else let nbytes = capacity * esize in
         if \<not> alloc nbytes then Some None
         else Some (Some \<lparr>hashShift = 32 - log2, maxAlphaFrac = 0xC0, minAlphaFrac = 0x40,
           entrySize = esize, entryCount = 0, removedCount = 0, generation = 0,
           entryStore = zero_store ops nbytes esize\<rparr>)
     })"

text \<open>\<open>PL_NewDHashTable\<close> also allocates the table itself: \<open>mem\<close> says whether that succeeds.\<close>

definition PL_NewDHashTable ::
  "bool \<Rightarrow> ('k, 'e) PLDHashTableOps \<Rightarrow> (u32 \<Rightarrow> bool) \<Rightarrow> u32 \<Rightarrow> u32 \<Rightarrow> 'e PLDHashTable option option" where
  "PL_NewDHashTable mem ops alloc esize capacity =
     (if \<not> mem then Some None
      else do {
        r \<leftarrow> PL_DHashTableInit ops alloc esize capacity;
        case r of None \<Rightarrow> Some None | Some t \<Rightarrow> Some (Some t)
      })"

text \<open>The store as \<open>PL_DHashTableFinish\<close> hands it to \<open>freeTable\<close>: every live entry cleared.\<close>

definition PL_DHashTableFinish ::
  "('k, 'e) PLDHashTableOps \<Rightarrow> 'e PLDHashTable \<Rightarrow> 'e PLDHashEntryHdr list option" where
  "PL_DHashTableFinish ops t = do {
     sz \<leftarrow> PL_DHASH_TABLE_SIZE t;
     if unat sz \<le> length (entryStore t)
     then Some (map (\<lambda>e. if ENTRY_IS_LIVE e then e\<lparr>payload := clearEntry ops (payload e)\<rparr> else e)
                  (take (unat sz) (entryStore t)) @ drop (unat sz) (entryStore t))
     else None
   }"

subsection \<open>Searching\<close>

text \<open>
  The probe loop, from the state before \<open>hash1 -= hash2\<close>. It has no bound of its own: with no
  free entry and no match it never ends.
\<close>

partial_function (option) SearchTable_loop ::
  "('k, 'e) PLDHashTableOps \<Rightarrow> 'k \<Rightarrow> u32 \<Rightarrow> PLDHashOperator \<Rightarrow> u32 \<Rightarrow> u32 \<Rightarrow> u32 \<Rightarrow> nat option
    \<Rightarrow> 'e PLDHashEntryHdr list \<Rightarrow> ('e PLDHashEntryHdr list \<times> nat) option" where
  "SearchTable_loop ops key hash op hash2 sizeMask hash1 firstRemoved slots =
     (let h = (hash1 - hash2) AND sizeMask; i = unat h in
      Option.bind (rd slots i) (\<lambda>entry.
        if ENTRY_IS_FREE entry
        then Some (slots, case firstRemoved of None \<Rightarrow> i
                          | Some r \<Rightarrow> if op = PL_DHASH_ADD then r else i)
        else if MATCH_ENTRY_KEYHASH entry hash \<and> matchEntry ops (payload entry) key
        then Some (slots, i)
        else if ENTRY_IS_REMOVED entry
        then SearchTable_loop ops key hash op hash2 sizeMask h
               (case firstRemoved of None \<Rightarrow> Some i | Some r \<Rightarrow> Some r) slots
        else SearchTable_loop ops key hash op hash2 sizeMask h firstRemoved
               (if op = PL_DHASH_ADD
                then slots[i := entry\<lparr>keyHash := keyHash entry OR COLLISION_FLAG\<rparr>] else slots)))"

definition SearchTable ::
  "('k, 'e) PLDHashTableOps \<Rightarrow> 'e PLDHashTable \<Rightarrow> 'k \<Rightarrow> u32 \<Rightarrow> PLDHashOperator
    \<Rightarrow> ('e PLDHashTable \<times> nat) option" where
  "SearchTable ops t key hash op = (
     let hash1 = HASH1 hash (hashShift t); i = unat hash1; slots = entryStore t in do {
       entry \<leftarrow> rd slots i;
       if ENTRY_IS_FREE entry then Some (t, i)
       else if MATCH_ENTRY_KEYHASH entry hash \<and> matchEntry ops (payload entry) key then Some (t, i)
       else let sizeLog2 = 32 - hashShift t;
                hash2 = HASH2 hash sizeLog2 (hashShift t);
                sizeMask = mask sizeLog2;
                (firstRemoved, store1) =
                  (if ENTRY_IS_REMOVED entry then (Some i, slots)
                   else (None, if op = PL_DHASH_ADD
                               then slots[i := entry\<lparr>keyHash := keyHash entry OR COLLISION_FLAG\<rparr>]
                               else slots))
         in do {
           (store2, j) \<leftarrow> SearchTable_loop ops key hash op hash2 sizeMask hash1 firstRemoved store1;
           Some (t\<lparr>entryStore := store2\<rparr>, j)
         }
     })"

subsection \<open>Changing the capacity\<close>

text \<open>The loop that copies the live entries, in the order of the old slots.\<close>

fun ChangeTable_loop ::
  "('k, 'e) PLDHashTableOps \<Rightarrow> 'e PLDHashEntryHdr list \<Rightarrow> 'e PLDHashTable \<Rightarrow> 'e PLDHashTable option" where
  "ChangeTable_loop ops [] t = Some t"
| "ChangeTable_loop ops (oldEntry # olds) t =
     (if ENTRY_IS_LIVE oldEntry
      then let hash = keyHash oldEntry AND NOT COLLISION_FLAG in do {
        (t1, j) \<leftarrow> SearchTable ops t (getKey ops (payload oldEntry)) hash PL_DHASH_ADD;
        slots \<leftarrow> wr (entryStore t1) j \<lparr>keyHash = hash, payload = moveEntry ops (payload oldEntry)\<rparr>;
        ChangeTable_loop ops olds (t1\<lparr>entryStore := slots\<rparr>)
      }
      else ChangeTable_loop ops olds t)"

definition ChangeTable ::
  "('k, 'e) PLDHashTableOps \<Rightarrow> (u32 \<Rightarrow> bool) \<Rightarrow> 'e PLDHashTable \<Rightarrow> int \<Rightarrow> (bool \<times> 'e PLDHashTable) option" where
  "ChangeTable ops alloc t deltaLog2 = (
     let oldLog2 = 32 - hashShift t;
         newLog2 = nat (int oldLog2 + deltaLog2)
     in do {
       oldCapacity \<leftarrow> PR_BIT oldLog2;
       newCapacity \<leftarrow> PR_BIT newLog2;
       if newCapacity \<ge> PL_DHASH_SIZE_LIMIT then Some (False, t)
       else let nbytes = newCapacity * entrySize t in
         if \<not> alloc nbytes then Some (False, t)
         else let t1 = t\<lparr>hashShift := 32 - newLog2, removedCount := 0, generation := generation t + 1,
                         entryStore := zero_store ops nbytes (entrySize t)\<rparr>
         in if unat oldCapacity \<le> length (entryStore t)
            then do {
              t2 \<leftarrow> ChangeTable_loop ops (take (unat oldCapacity) (entryStore t)) t1;
              Some (True, t2)
            }
            else None
     })"

subsection \<open>Operations\<close>

definition PL_DHashTableRawRemove ::
  "('k, 'e) PLDHashTableOps \<Rightarrow> 'e PLDHashTable \<Rightarrow> nat \<Rightarrow> 'e PLDHashTable option" where
  "PL_DHashTableRawRemove ops t i = do {
     e \<leftarrow> rd (entryStore t) i;
     let cleared = clearEntry ops (payload e);
     if keyHash e AND COLLISION_FLAG \<noteq> 0
     then Some (t\<lparr>entryStore := (entryStore t)[i := \<lparr>keyHash = 1, payload = cleared\<rparr>],
                  removedCount := removedCount t + 1, entryCount := entryCount t - 1\<rparr>)
     else Some (t\<lparr>entryStore := (entryStore t)[i := \<lparr>keyHash = 0, payload = cleared\<rparr>],
                  entryCount := entryCount t - 1\<rparr>)
   }"

text \<open>The key hash \<open>PL_DHashTableOperate\<close> stores and searches for.\<close>

definition live_hash :: "('k, 'e) PLDHashTableOps \<Rightarrow> 'k \<Rightarrow> u32" where
  "live_hash ops key =
     ENSURE_LIVE_KEYHASH (hashKey ops key * PL_DHASH_GOLDEN_RATIO) AND NOT COLLISION_FLAG"

text \<open>
  \<open>PL_DHASH_ADD\<close> up to the search: grow or compress. The result \<open>False\<close> is the failure that
  would claim the last free entry.
\<close>

definition Operate_grow ::
  "('k, 'e) PLDHashTableOps \<Rightarrow> (u32 \<Rightarrow> bool) \<Rightarrow> 'e PLDHashTable \<Rightarrow> (bool \<times> 'e PLDHashTable) option" where
  "Operate_grow ops alloc t = do {
     sz \<leftarrow> PL_DHASH_TABLE_SIZE t;
     if entryCount t + removedCount t \<ge> MAX_LOAD t sz
     then let deltaLog2 = (if removedCount t \<ge> drop_bit 2 sz then 0 else 1) in do {
       (ok, t1) \<leftarrow> ChangeTable ops alloc t deltaLog2;
       Some (ok \<or> entryCount t1 + removedCount t1 \<noteq> sz - 1, t1)
     }
     else Some (True, t)
   }"

text \<open>The rest of \<open>PL_DHASH_ADD\<close>: search, and claim the entry that was found for a new key.\<close>

definition Operate_add ::
  "('k, 'e) PLDHashTableOps \<Rightarrow> 'e PLDHashTable \<Rightarrow> 'k \<Rightarrow> ('e PLDHashTable \<times> nat option) option" where
  "Operate_add ops t key = (
     let hash = live_hash ops key in do {
       (t1, i) \<leftarrow> SearchTable ops t key hash PL_DHASH_ADD;
       entry \<leftarrow> rd (entryStore t1) i;
       if ENTRY_IS_LIVE entry then Some (t1, Some i)
       else let (t2, hash2) =
                  (if ENTRY_IS_REMOVED entry
                   then (t1\<lparr>removedCount := removedCount t1 - 1\<rparr>, hash OR COLLISION_FLAG)
                   else (t1, hash));
                (ok, data) =
                  (case initEntry ops of
                     None \<Rightarrow> (True, payload entry)
                   | Some f \<Rightarrow> f (payload entry) key)
         in if ok
            then Some (t2\<lparr>entryStore := (entryStore t2)[i := \<lparr>keyHash = hash2, payload = data\<rparr>],
                          entryCount := entryCount t2 + 1\<rparr>, Some i)
            else Some (t2\<lparr>entryStore := (entryStore t2)[i := entry\<lparr>payload := zeroed ops\<rparr>]\<rparr>, None)
     })"

definition Operate_remove ::
  "('k, 'e) PLDHashTableOps \<Rightarrow> (u32 \<Rightarrow> bool) \<Rightarrow> 'e PLDHashTable \<Rightarrow> 'k
    \<Rightarrow> ('e PLDHashTable \<times> nat option) option" where
  "Operate_remove ops alloc t key = do {
     (t1, i) \<leftarrow> SearchTable ops t key (live_hash ops key) PL_DHASH_REMOVE;
     entry \<leftarrow> rd (entryStore t1) i;
     if ENTRY_IS_LIVE entry
     then do {
       t2 \<leftarrow> PL_DHashTableRawRemove ops t1 i;
       sz \<leftarrow> PL_DHASH_TABLE_SIZE t2;
       if sz > PL_DHASH_MIN_SIZE \<and> entryCount t2 \<le> MIN_LOAD t2 sz
       then do { (ok, t3) \<leftarrow> ChangeTable ops alloc t2 (-1); Some (t3, None) }
       else Some (t2, None)
     }
     else Some (t1, None)
   }"

text \<open>The index in the result stands for the entry returned, \<open>None\<close> for the null pointer.\<close>

definition PL_DHashTableOperate ::
  "('k, 'e) PLDHashTableOps \<Rightarrow> (u32 \<Rightarrow> bool) \<Rightarrow> 'e PLDHashTable \<Rightarrow> 'k \<Rightarrow> PLDHashOperator
    \<Rightarrow> ('e PLDHashTable \<times> nat option) option" where
  "PL_DHashTableOperate ops alloc t key op =
     (case op of
        PL_DHASH_LOOKUP \<Rightarrow> do {
          (t1, i) \<leftarrow> SearchTable ops t key (live_hash ops key) op;
          Some (t1, Some i)
        }
      | PL_DHASH_ADD \<Rightarrow> do {
          (ok, t1) \<leftarrow> Operate_grow ops alloc t;
          if ok then Operate_add ops t1 key else Some (t1, None)
        }
      | PL_DHASH_REMOVE \<Rightarrow> Operate_remove ops alloc t key)"

subsection \<open>Enumeration\<close>

text \<open>
  The enumerator gets the payload of an entry, the number of entries before it, and the state
  \<open>arg\<close> it keeps; it returns its verdict (bit 1: remove, bit 0: stop), the payload as it
  leaves it, and its state. \<open>k\<close> entries are left, from index \<open>j\<close> on.
\<close>

fun Enumerate_loop ::
  "('k, 'e) PLDHashTableOps \<Rightarrow> ('e \<Rightarrow> u32 \<Rightarrow> 's \<Rightarrow> u32 \<times> 'e \<times> 's) \<Rightarrow> nat \<Rightarrow> nat \<Rightarrow> u32 \<Rightarrow> bool \<Rightarrow> 's
    \<Rightarrow> 'e PLDHashTable \<Rightarrow> ('e PLDHashTable \<times> u32 \<times> bool \<times> 's) option" where
  "Enumerate_loop ops etor 0 j i didRemove arg t = Some (t, i, didRemove, arg)"
| "Enumerate_loop ops etor (Suc k) j i didRemove arg t = do {
     e \<leftarrow> rd (entryStore t) j;
     if ENTRY_IS_LIVE e
     then let (op, data, arg') = etor (payload e) i arg;
              t1 = t\<lparr>entryStore := (entryStore t)[j := e\<lparr>payload := data\<rparr>]\<rparr>
     in do {
       t2 \<leftarrow> (if op AND 2 \<noteq> 0 then PL_DHashTableRawRemove ops t1 j else Some t1);
       if op AND 1 \<noteq> 0 then Some (t2, i + 1, didRemove \<or> op AND 2 \<noteq> 0, arg')
       else Enumerate_loop ops etor k (Suc j) (i + 1) (didRemove \<or> op AND 2 \<noteq> 0) arg' t2
     }
     else Enumerate_loop ops etor k (Suc j) i didRemove arg t
   }"

definition PL_DHashTableEnumerate ::
  "('k, 'e) PLDHashTableOps \<Rightarrow> (u32 \<Rightarrow> bool) \<Rightarrow> ('e \<Rightarrow> u32 \<Rightarrow> 's \<Rightarrow> u32 \<times> 'e \<times> 's) \<Rightarrow> 's
    \<Rightarrow> 'e PLDHashTable \<Rightarrow> ('e PLDHashTable \<times> u32 \<times> 's) option" where
  "PL_DHashTableEnumerate ops alloc etor arg t = do {
     capacity \<leftarrow> PL_DHASH_TABLE_SIZE t;
     (t1, i, didRemove, arg') \<leftarrow> Enumerate_loop ops etor (unat capacity) 0 0 False arg t;
     if didRemove \<and> (removedCount t1 \<ge> drop_bit 2 capacity
          \<or> capacity > PL_DHASH_MIN_SIZE \<and> entryCount t1 \<le> MIN_LOAD t1 capacity)
     then let capacity1 = entryCount t1 + drop_bit 1 (entryCount t1);
              capacity2 = (if capacity1 < PL_DHASH_MIN_SIZE then PL_DHASH_MIN_SIZE else capacity1);
              ceiling = int (PR_CeilingLog2 capacity2) - int (32 - hashShift t1)
     in do { (ok, t2) \<leftarrow> ChangeTable ops alloc t1 ceiling; Some (t2, i, arg') }
     else Some (t1, i, arg')
   }"

subsection \<open>The stub operations\<close>

text \<open>The entries of \<open>PLDHashEntryStub\<close>: the payload is a key pointer, 64 bits wide.\<close>

definition PL_DHashVoidPtrKeyStub :: "u64 \<Rightarrow> u32" where
  "PL_DHashVoidPtrKeyStub key = drop_bit 2 (ucast key)"

definition PL_DHashGetKeyStub :: "u64 \<Rightarrow> u64" where
  "PL_DHashGetKeyStub stub = stub"

definition PL_DHashMatchEntryStub :: "u64 \<Rightarrow> u64 \<Rightarrow> bool" where
  "PL_DHashMatchEntryStub stub key \<longleftrightarrow> stub = key"

definition PL_DHashMoveEntryStub :: "u64 \<Rightarrow> u64" where
  "PL_DHashMoveEntryStub from_entry = from_entry"

definition PL_DHashClearEntryStub :: "u64 \<Rightarrow> u64" where
  "PL_DHashClearEntryStub stub = 0"

definition PL_DHashGetStubOps :: "(u64, u64) PLDHashTableOps" where
  "PL_DHashGetStubOps = \<lparr>getKey = PL_DHashGetKeyStub, hashKey = PL_DHashVoidPtrKeyStub,
     matchEntry = PL_DHashMatchEntryStub, moveEntry = PL_DHashMoveEntryStub,
     clearEntry = PL_DHashClearEntryStub, zeroed = 0, initEntry = None\<rparr>"

text \<open>The hash of a string key, and the match of two of them: pointers, or strings behind them.\<close>

fun StringKey_loop :: "cells \<Rightarrow> u32 \<Rightarrow> u32 option" where
  "StringKey_loop [] h = None"
| "StringKey_loop (c # s) h =
     (if c = 0 then Some h
      else StringKey_loop s ((drop_bit 28 h XOR push_bit 4 h) XOR ucast c))"

definition PL_DHashStringKey :: "cells \<Rightarrow> u32 option" where
  "PL_DHashStringKey key = StringKey_loop key 0"

definition PL_DHashMatchStringKey :: "(u64 \<Rightarrow> cells) \<Rightarrow> u64 \<Rightarrow> u64 \<Rightarrow> bool option" where
  "PL_DHashMatchStringKey mem stubkey key =
     (if stubkey = key then Some True
      else if stubkey \<noteq> 0 \<and> key \<noteq> 0
      then do { r \<leftarrow> c_strcmp (mem stubkey) (mem key); Some (r = 0) }
      else Some False)"

end
