(* ===== verification/Pl_DHash_Inv.thy ===== *)
theory Pl_DHash_Inv
  imports Pl_DHash
begin

text \<open>
  The store of \<open>pldhash.c\<close>: where the probes of a search go, what a search returns, the
  invariant every operation keeps, and the finite map a store stands for.
\<close>

subsection \<open>Where the probes go\<close>

definition probe :: "nat \<Rightarrow> u32 \<Rightarrow> nat \<Rightarrow> u32" where
  "probe L hash i = take_bit L (HASH1 hash (32 - L) - of_nat i * HASH2 hash L (32 - L))"

definition slot :: "nat \<Rightarrow> u32 \<Rightarrow> nat \<Rightarrow> nat" where
  "slot L hash i = unat (probe L hash i)"

lemma unat_take_bit_less: "unat (take_bit L (w :: u32)) < 2 ^ L"
  by (simp only: unsigned_take_bit_eq) (simp add: take_bit_eq_mod)

lemma slot_less: "slot L hash i < 2 ^ L"
  by (simp add: slot_def probe_def unat_take_bit_less)

lemma probe_0: "L \<le> 32 \<Longrightarrow> probe L hash 0 = HASH1 hash (32 - L)"
  by (rule bit_word_eqI) (auto simp: probe_def HASH1_def bit_simps dest: bit_imp_le_length)

lemma uint_take_bit: "uint (take_bit L (w :: u32)) = uint w mod 2 ^ L"
  by (simp only: unsigned_take_bit_eq) (simp add: take_bit_eq_mod)

lemma uint_diff_mod: "L \<le> 32 \<Longrightarrow> uint (a - b :: u32) mod 2 ^ L = (uint a - uint b) mod 2 ^ L"
  using mod_mod_cancel [OF le_imp_power_dvd [of L 32 "2 :: int"], of "uint a - uint b"] by (simp add: uint_word_ariths)

lemma probe_Suc:
  assumes "L \<le> 32"
  shows "(probe L hash i - HASH2 hash L (32 - L)) AND mask L = probe L hash (Suc i)"
proof -
  have "take_bit L (take_bit L a - b) = take_bit L (a - b)" for a b :: u32
    unfolding word_uint_eq_iff uint_take_bit uint_diff_mod [OF assms] by (simp add: mod_diff_left_eq)
  then show ?thesis
    unfolding probe_def take_bit_eq_mask [symmetric] by (simp add: algebra_simps)
qed

lemma HASH2_odd: "odd (HASH2 hash L s)"
  by (simp add: HASH2_def even_or_iff)

lemma slot_inj:
  assumes "i < 2 ^ L" "j < 2 ^ L" "L \<le> 32" "slot L hash i = slot L hash j"
  shows "i = j"
proof -
  let ?H = "uint (HASH1 hash (32 - L))" and ?S = "uint (HASH2 hash L (32 - L))"
  have u: "int (slot L hash i) = (?H - int i * ?S) mod 2 ^ L" for i
  proof -
    have "int (slot L hash i) = uint (probe L hash i)" by (simp add: slot_def)
    also have "\<dots> = (?H - uint (of_nat i * HASH2 hash L (32 - L))) mod 2 ^ L"
      by (simp only: probe_def uint_take_bit uint_diff_mod [OF assms(3)])
    also have "\<dots> = (?H - (int i * ?S) mod 2 ^ 32) mod 2 ^ L"
    proof -
      have "uint (of_nat i * HASH2 hash L (32 - L)) = (int i * ?S) mod 2 ^ 32"
        by (simp add: uint_word_ariths unsigned_of_nat take_bit_eq_mod mod_mult_left_eq of_nat_mod)
      then show ?thesis by simp
    qed
    also have "\<dots> = (?H - (int i * ?S) mod 2 ^ 32 mod 2 ^ L) mod 2 ^ L" by (simp add: mod_diff_right_eq)
    also have "(int i * ?S) mod 2 ^ 32 mod 2 ^ L = (int i * ?S) mod 2 ^ L"
      by (rule mod_mod_cancel) (rule le_imp_power_dvd [OF assms(3)])
    finally show ?thesis by (simp add: mod_diff_right_eq)
  qed
  have "(?H - int i * ?S) mod 2 ^ L = (?H - int j * ?S) mod 2 ^ L"
    using assms(4) u [of i] u [of j] by simp
  then have "2 ^ L dvd (?H - int i * ?S) - (?H - int j * ?S)"
    by (simp only: mod_eq_dvd_iff)
  then have "2 ^ L dvd (int j - int i) * ?S" by (simp add: algebra_simps)
  moreover have "odd ?S"
    using HASH2_odd [of hash L "32 - L"] unfolding bit_0 [symmetric] bit_unsigned_iff by simp
  then have "coprime (2 ^ L) ?S" by simp
  ultimately have "2 ^ L dvd int j - int i" by (simp add: coprime_dvd_mult_left_iff)
  moreover have "\<bar>int j - int i\<bar> < 2 ^ L"
  proof -
    have "int j < int (2 ^ L)" "int i < int (2 ^ L)" using assms(1,2) by (simp_all only: of_nat_less_iff)
    then have "int j < 2 ^ L" "int i < 2 ^ L" by (simp_all only: of_nat_power of_nat_numeral)
    then show ?thesis by linarith
  qed
  ultimately have "int j - int i = 0" by (metis dvd_imp_le_int linorder_not_less abs_of_nonneg zero_le_numeral zero_le_power)
  then show ?thesis by simp
qed

lemma slot_surj:
  assumes "s < 2 ^ L" "L \<le> 32"
  shows "\<exists>i < 2 ^ L. slot L hash i = s"
proof -
  have "inj_on (slot L hash) {..<2 ^ L}" using slot_inj [OF _ _ assms(2)] by (auto simp: inj_on_def)
  then have "slot L hash ` {..<2 ^ L} = {..<2 ^ L}"
    by (intro endo_inj_surj) (auto simp: slot_less)
  then show ?thesis using assms(1) by (metis imageE lessThan_iff)
qed


subsection \<open>One search\<close>

text \<open>The entry at \<open>s\<close> answers the search.\<close>

definition hit :: "('k, 'e) PLDHashTableOps \<Rightarrow> 'k \<Rightarrow> u32 \<Rightarrow> 'e PLDHashEntryHdr \<Rightarrow> bool" where
  "hit ops key hash e \<longleftrightarrow> MATCH_ENTRY_KEYHASH e hash \<and> matchEntry ops (payload e) key"

definition flag :: "'e PLDHashEntryHdr \<Rightarrow> 'e PLDHashEntryHdr" where
  "flag e = (if ENTRY_IS_LIVE e then e\<lparr>keyHash := keyHash e OR COLLISION_FLAG\<rparr> else e)"

definition mark :: "nat set \<Rightarrow> 'e PLDHashEntryHdr list \<Rightarrow> 'e PLDHashEntryHdr list" where
  "mark A es = map (\<lambda>s. if s \<in> A then flag (es ! s) else es ! s) [0..<length es]"

lemma mark_length [simp]: "length (mark A es) = length es"
  by (simp add: mark_def)

lemma mark_nth: "s < length es \<Longrightarrow> mark A es ! s = (if s \<in> A then flag (es ! s) else es ! s)"
  by (simp add: mark_def)

lemma mark_empty [simp]: "mark {} es = es"
  by (rule nth_equalityI) (simp_all add: mark_nth)

lemma not_2_le_1 [simp]: "\<not> 2 \<le> (1 :: u32)"
  by (simp add: word_le_nat_alt del: word_not_simps)

lemma flag_simps [simp]:
  "keyHash (flag e) AND - 2 = keyHash e AND - 2"
  "payload (flag e) = payload e"
  "ENTRY_IS_FREE (flag e) = ENTRY_IS_FREE e"
  "ENTRY_IS_REMOVED (flag e) = ENTRY_IS_REMOVED e"
  "ENTRY_IS_LIVE (flag e) = ENTRY_IS_LIVE e"
  "keyHash (flag e) AND NOT COLLISION_FLAG = keyHash e AND NOT COLLISION_FLAG"
  "flag (flag e) = flag e"
proof -
  have l: "2 \<le> h OR 1" if "2 \<le> h" for h :: u32
    using that le_word_or2 [of h 1] by (rule order_trans)
  have z: "\<not> 2 \<le> (0 :: u32)" "\<not> 2 \<le> (1 :: u32)" by simp_all
  show k: "keyHash (flag e) AND - 2 = keyHash e AND - 2"
  proof -
    have "(h OR 1) AND NOT 1 = h AND NOT (1 :: u32)" for h
      by (rule bit_word_eqI) (auto simp: bit_simps)
    then show ?thesis by (simp add: flag_def)
  qed
  show "keyHash (flag e) AND NOT COLLISION_FLAG = keyHash e AND NOT COLLISION_FLAG"
    using k by simp
  show "payload (flag e) = payload e" by (simp add: flag_def)
  show "ENTRY_IS_LIVE (flag e) = ENTRY_IS_LIVE e"
    by (auto simp: flag_def ENTRY_IS_LIVE_def l)
  show "ENTRY_IS_FREE (flag e) = ENTRY_IS_FREE e" "ENTRY_IS_REMOVED (flag e) = ENTRY_IS_REMOVED e"
    using l [of "keyHash e"] z by (auto simp: flag_def ENTRY_IS_LIVE_def ENTRY_IS_FREE_def ENTRY_IS_REMOVED_def)
  show "flag (flag e) = flag e"
    using l [of "keyHash e"] by (auto simp: flag_def ENTRY_IS_LIVE_def)
qed

lemma hit_flag [simp]: "hit ops key hash (flag e) = hit ops key hash e"
  by (simp add: hit_def MATCH_ENTRY_KEYHASH_def)

lemma entry_kinds: "ENTRY_IS_FREE e \<or> ENTRY_IS_REMOVED e \<or> ENTRY_IS_LIVE e"
proof -
  have "h = 0 \<or> h = 1 \<or> 2 \<le> h" for h :: u32
  proof -
    have "unat h = 0 \<or> unat h = 1 \<or> 2 \<le> unat h" by linarith
    then show ?thesis by (auto simp: word_le_nat_alt word_unat_eq_iff)
  qed
  then show ?thesis by (simp add: ENTRY_IS_FREE_def ENTRY_IS_REMOVED_def ENTRY_IS_LIVE_def)
qed

lemma kinds_disjoint [simp]:
  "ENTRY_IS_FREE e \<Longrightarrow> \<not> ENTRY_IS_REMOVED e" "ENTRY_IS_FREE e \<Longrightarrow> \<not> ENTRY_IS_LIVE e"
  "ENTRY_IS_REMOVED e \<Longrightarrow> \<not> ENTRY_IS_LIVE e"
  by (auto simp: ENTRY_IS_FREE_def ENTRY_IS_REMOVED_def ENTRY_IS_LIVE_def)

lemma mark_insert:
  assumes "i < length es" "ENTRY_IS_LIVE (es ! i)"
  shows "mark A (es[i := (es ! i)\<lparr>keyHash := keyHash (es ! i) OR COLLISION_FLAG\<rparr>]) = mark (insert i A) es"
proof (rule nth_equalityI)
  fix s
  assume s: "s < length (mark A (es[i := (es ! i)\<lparr>keyHash := keyHash (es ! i) OR COLLISION_FLAG\<rparr>]))"
  have "(es ! i)\<lparr>keyHash := keyHash (es ! i) OR COLLISION_FLAG\<rparr> = flag (es ! i)"
    using assms(2) by (simp add: flag_def)
  then show "mark A (es[i := (es ! i)\<lparr>keyHash := keyHash (es ! i) OR COLLISION_FLAG\<rparr>]) ! s = mark (insert i A) es ! s"
    using s by (cases "s = i") (auto simp: mark_nth)
qed simp

text \<open>
  The result of a search whose first free or matching entry is at probe number \<open>m\<close>, for the
  part of it from probe number \<open>i\<close> on.
\<close>

definition first_removed :: "nat \<Rightarrow> u32 \<Rightarrow> 'e PLDHashEntryHdr list \<Rightarrow> nat \<Rightarrow> nat \<Rightarrow> nat option" where
  "first_removed L hash es i m =
     map_option (slot L hash) (List.find (\<lambda>j. ENTRY_IS_REMOVED (es ! slot L hash j)) [i..<m])"

definition search_index :: "PLDHashOperator \<Rightarrow> nat option \<Rightarrow> bool \<Rightarrow> nat \<Rightarrow> nat" where
  "search_index op fr free k =
     (if free \<and> op = PL_DHASH_ADD then (case fr of None \<Rightarrow> k | Some r \<Rightarrow> r) else k)"

definition stops :: "('k, 'e) PLDHashTableOps \<Rightarrow> nat \<Rightarrow> 'k \<Rightarrow> u32 \<Rightarrow> 'e PLDHashEntryHdr list \<Rightarrow> nat \<Rightarrow> bool" where
  "stops ops L key hash es j \<longleftrightarrow>
     ENTRY_IS_FREE (es ! slot L hash j) \<or> hit ops key hash (es ! slot L hash j)"

lemma first_removed_step:
  "i < m \<Longrightarrow> first_removed L hash es i m =
     (if ENTRY_IS_REMOVED (es ! slot L hash i) then Some (slot L hash i) else first_removed L hash es (Suc i) m)"
  by (simp add: first_removed_def upt_conv_Cons)

lemma SearchTable_loop_spec:
  assumes "length es = 2 ^ L" "L \<le> 32" "i < m" "m < 2 ^ L"
    and "\<forall>j. i < j \<and> j < m \<longrightarrow> \<not> stops ops L key hash es j" and "stops ops L key hash es m"
  shows "SearchTable_loop ops key hash op (HASH2 hash L (32 - L)) (mask L) (probe L hash i) fr es
    = Some (if op = PL_DHASH_ADD then mark (slot L hash ` {i<..<m}) es else es,
        search_index op (case fr of None \<Rightarrow> first_removed L hash es (Suc i) m | Some r \<Rightarrow> Some r)
          (ENTRY_IS_FREE (es ! slot L hash m)) (slot L hash m))"
  using assms
proof (induction "m - i" arbitrary: i fr es)
  case (Suc d)
  let ?e = "es ! slot L hash (Suc i)"
  have s: "unat ((probe L hash i - HASH2 hash L (32 - L)) AND mask L) = slot L hash (Suc i)"
    by (simp add: probe_Suc [OF Suc.prems(2)] slot_def)
  have rd: "rd es (slot L hash (Suc i)) = Some ?e"
    using slot_less Suc.prems(1) by (simp add: rd_def)
  note unfold = SearchTable_loop.simps [of ops key hash op "HASH2 hash L (32 - L)" "mask L" "probe L hash i" fr es]
  show ?case
  proof (cases "Suc i = m")
    case True
    have "{i<..<m} = {}" "first_removed L hash es (Suc i) m = None"
      using True by (auto simp: first_removed_def)
    then show ?thesis
      using Suc.prems(6) True kinds_disjoint
      by (subst unfold)
        (auto simp: Let_def probe_Suc [OF Suc.prems(2)] slot_def [symmetric] rd stops_def hit_def search_index_def split: option.splits)
  next
    case False
    then have im: "Suc i < m" using Suc.prems(3) by simp
    then have ns: "\<not> stops ops L key hash es (Suc i)" using Suc.prems(5) by simp
    then have nf: "\<not> ENTRY_IS_FREE ?e" and nh: "\<not> (MATCH_ENTRY_KEYHASH ?e hash \<and> matchEntry ops (payload ?e) key)"
      by (simp_all add: stops_def hit_def)
    have set: "{i<..<m} = insert (Suc i) {Suc i<..<m}" using im by auto
    show ?thesis
    proof (cases "ENTRY_IS_REMOVED ?e")
      case True
      have "flag ?e = ?e" using True by (simp add: flag_def)
      then have "mark (slot L hash ` {i<..<m}) es = mark (slot L hash ` {Suc i<..<m}) es"
        unfolding set by (intro nth_equalityI) (auto simp: mark_nth)
      moreover have "d = m - Suc i" using Suc.hyps(2) by simp
      ultimately show ?thesis
        using Suc.hyps(1) [of "Suc i" es "case fr of None \<Rightarrow> Some (slot L hash (Suc i)) | Some r \<Rightarrow> Some r"]
          Suc.prems im True nf nh
        by (subst unfold)
          (auto simp: Let_def rd probe_Suc [OF Suc.prems(2)] slot_def [symmetric] first_removed_step [OF im] split: option.splits)
    next
      case False
      then have live: "ENTRY_IS_LIVE ?e" using nf entry_kinds by blast
      define es' where "es' = (if op = PL_DHASH_ADD then es[slot L hash (Suc i) := (?e)\<lparr>keyHash := keyHash ?e OR COLLISION_FLAG\<rparr>] else es)"
      have len: "slot L hash (Suc i) < length es" using slot_less Suc.prems(1) by simp
      have other: "es' ! slot L hash j = es ! slot L hash j" if "Suc i < j" "j \<le> m" for j
      proof -
        have "slot L hash (Suc i) \<noteq> slot L hash j"
          using slot_inj [of "Suc i" L j hash] that Suc.prems(2,4) by linarith
        then show ?thesis by (simp add: es'_def)
      qed
      have st: "stops ops L key hash es' j = stops ops L key hash es j" if "Suc i < j" "j \<le> m" for j
        using other [OF that] by (simp only: stops_def)
      have fr: "first_removed L hash es' (Suc (Suc i)) m = first_removed L hash es (Suc (Suc i)) m"
        unfolding first_removed_def by (intro arg_cong [of _ _ "map_option _"] find_cong) (simp_all add: other)
      have IH: "SearchTable_loop ops key hash op (HASH2 hash L (32 - L)) (mask L) (probe L hash (Suc i)) fr es'
        = Some (if op = PL_DHASH_ADD then mark (slot L hash ` {Suc i<..<m}) es' else es',
          search_index op (case fr of None \<Rightarrow> first_removed L hash es' (Suc (Suc i)) m | Some r \<Rightarrow> Some r)
            (ENTRY_IS_FREE (es' ! slot L hash m)) (slot L hash m))"
        using Suc.prems Suc.hyps(2) im st by (intro Suc.hyps(1)) (auto simp: es'_def)
      have "mark (slot L hash ` {Suc i<..<m}) (es[slot L hash (Suc i) := (?e)\<lparr>keyHash := keyHash ?e OR COLLISION_FLAG\<rparr>])
          = mark (slot L hash ` {i<..<m}) es"
        unfolding set image_insert by (rule mark_insert [OF len live])
      then show ?thesis
        using False nf nh IH [unfolded es'_def] fr [unfolded es'_def] other [OF im order_refl, unfolded es'_def] Suc.prems(2)
        by (subst unfold)
          (auto simp: Let_def rd probe_Suc [OF Suc.prems(2)] slot_def [symmetric] first_removed_step [OF im] split: option.splits)
    qed
  qed
qed simp

lemma mark_image_cong:
  "(\<And>s. s < length es \<Longrightarrow> (s \<in> A) \<noteq> (s \<in> B) \<Longrightarrow> \<not> ENTRY_IS_LIVE (es ! s)) \<Longrightarrow> mark A es = mark B es"
  by (intro nth_equalityI) (auto simp: mark_nth flag_def)

lemma SearchTable_spec:
  assumes "length (entryStore t) = 2 ^ L" "L \<le> 32" "hashShift t = 32 - L" "m < 2 ^ L"
    and "\<forall>j < m. \<not> stops ops L key hash (entryStore t) j" and "stops ops L key hash (entryStore t) m"
  shows "SearchTable ops t key hash op
    = Some (t\<lparr>entryStore := if op = PL_DHASH_ADD then mark (slot L hash ` {..<m}) (entryStore t) else entryStore t\<rparr>,
        search_index op (first_removed L hash (entryStore t) 0 m)
          (ENTRY_IS_FREE (entryStore t ! slot L hash m)) (slot L hash m))"
proof -
  define es where "es = entryStore t"
  let ?e = "es ! slot L hash 0"
  have h1: "HASH1 hash (32 - L) = probe L hash 0" "HASH1 hash (hashShift t) = probe L hash 0" "unat (probe L hash 0) = slot L hash 0"
    using assms(2,3) by (simp_all add: probe_0 slot_def)
  have L: "32 - (32 - L) = L" using assms(2) by simp
  have len: "slot L hash 0 < length es" using assms(1) by (simp add: es_def slot_less)
  then have rd: "rd es (slot L hash 0) = Some ?e" by (rule rd_in)
  show ?thesis
  proof (cases m)
    case 0
    have t: "t\<lparr>entryStore := es\<rparr> = t" by (simp add: es_def)
    have "ENTRY_IS_FREE ?e \<or> MATCH_ENTRY_KEYHASH ?e hash \<and> matchEntry ops (payload ?e) key"
      using assms(6) 0 by (simp add: stops_def hit_def es_def)
    then have "SearchTable ops t key hash op = Some (t, slot L hash 0)"
      by (simp only: SearchTable_def Let_def h1 es_def [symmetric] rd bind.bind_lunit) (erule disjE; simp)
    moreover have "first_removed L hash es 0 m = None" by (simp add: first_removed_def 0)
    ultimately show ?thesis
      unfolding es_def [symmetric] by (simp add: 0 search_index_def t)
  next
    case (Suc n)
    then have ns: "\<not> stops ops L key hash es 0" using assms(5) by (simp add: es_def)
    then have nf: "\<not> ENTRY_IS_FREE ?e" and nh: "\<not> hit ops key hash ?e"
      by (simp_all add: stops_def)
    have set: "{..<m} = insert 0 {0<..<m}" using Suc by auto
    have m0: "0 < m" using Suc by simp
    show ?thesis
    proof (cases "ENTRY_IS_REMOVED ?e")
      case True
      then have "mark (slot L hash ` {..<m}) es = mark (slot L hash ` {0<..<m}) es"
        unfolding set by (intro mark_image_cong) auto
      then show ?thesis
        using True nf nh SearchTable_loop_spec [of es L 0 m ops key hash op "Some (slot L hash 0)"] assms m0
        by (simp add: SearchTable_def Let_def h1 es_def [symmetric] hit_def [symmetric] rd L first_removed_step)
    next
      case False
      then have live: "ENTRY_IS_LIVE ?e" using nf entry_kinds by blast
      define es' where "es' = (if op = PL_DHASH_ADD then es[slot L hash 0 := (?e)\<lparr>keyHash := keyHash ?e OR COLLISION_FLAG\<rparr>] else es)"
      have other: "es' ! slot L hash j = es ! slot L hash j" if "0 < j" "j \<le> m" for j
      proof -
        have "slot L hash 0 \<noteq> slot L hash j"
          using slot_inj [of 0 L j hash] that assms(2,4) by auto
        then show ?thesis by (simp add: es'_def)
      qed
      have st: "stops ops L key hash es' j = stops ops L key hash es j" if "0 < j" "j \<le> m" for j
        using other [OF that] by (simp only: stops_def)
      have fr: "first_removed L hash es' (Suc 0) m = first_removed L hash es (Suc 0) m"
        unfolding first_removed_def by (intro arg_cong [of _ _ "map_option _"] find_cong) (simp_all add: other)
      have "mark (slot L hash ` {0<..<m}) (es[slot L hash 0 := (?e)\<lparr>keyHash := keyHash ?e OR COLLISION_FLAG\<rparr>])
          = mark (slot L hash ` {..<m}) es"
        unfolding set image_insert by (rule mark_insert [OF len live])
      moreover have "SearchTable_loop ops key hash op (HASH2 hash L (32 - L)) (mask L) (probe L hash 0) None es'
        = Some (if op = PL_DHASH_ADD then mark (slot L hash ` {0<..<m}) es' else es',
          search_index op (first_removed L hash es' (Suc 0) m)
            (ENTRY_IS_FREE (es' ! slot L hash m)) (slot L hash m))"
        using assms m0 st SearchTable_loop_spec [of es' L 0 m ops key hash op None]
        by (auto simp: es'_def es_def)
      ultimately show ?thesis
        using False nf nh fr other [OF m0 order_refl]
        by (cases "op = PL_DHASH_ADD") (simp_all add: SearchTable_def Let_def h1 assms(3) es_def [symmetric] hit_def [symmetric] rd L first_removed_step m0 es'_def)
    qed
  qed
qed

subsection \<open>The invariant of a store\<close>

text \<open>What the client promises of its operations.\<close>

definition dhash_client :: "('k, 'e) PLDHashTableOps \<Rightarrow> bool" where
  "dhash_client ops \<longleftrightarrow>
     (\<forall>d k. matchEntry ops d k \<longleftrightarrow> getKey ops d = k) \<and> (\<forall>d. moveEntry ops d = d) \<and>
     (case initEntry ops of None \<Rightarrow> True
      | Some f \<Rightarrow> \<forall>d k. fst (f d k) \<and> getKey ops (snd (f d k)) = k)"

text \<open>
  \<open>live_at ops es s k\<close>: slot \<open>s\<close> holds the entry of key \<open>k\<close>. \<open>reached\<close>: a search for the hash
  gets to slot \<open>s\<close>, past slots that all carry the collision flag.
\<close>

definition live_at :: "('k, 'e) PLDHashTableOps \<Rightarrow> 'e PLDHashEntryHdr list \<Rightarrow> nat \<Rightarrow> 'k \<Rightarrow> bool" where
  "live_at ops es s k \<longleftrightarrow> s < length es \<and> ENTRY_IS_LIVE (es ! s) \<and> getKey ops (payload (es ! s)) = k"

definition reached :: "nat \<Rightarrow> 'e PLDHashEntryHdr list \<Rightarrow> u32 \<Rightarrow> nat \<Rightarrow> bool" where
  "reached L es h s \<longleftrightarrow> (\<exists>i < 2 ^ L. slot L h i = s \<and> (\<forall>j < i. odd (keyHash (es ! slot L h j))))"

definition store_ok :: "('k, 'e) PLDHashTableOps \<Rightarrow> nat \<Rightarrow> 'e PLDHashEntryHdr list \<Rightarrow> bool" where
  "store_ok ops L es \<longleftrightarrow> length es = 2 ^ L \<and>
     (\<forall>s k. live_at ops es s k \<longrightarrow>
        keyHash (es ! s) AND NOT COLLISION_FLAG = live_hash ops k \<and> reached L es (live_hash ops k) s) \<and>
     (\<forall>s s' k. live_at ops es s k \<longrightarrow> live_at ops es s' k \<longrightarrow> s = s')"

lemma live_hash_even: "even (live_hash ops k)"
  unfolding live_hash_def by (simp only: even_and_iff) simp

lemma unat_even_part: "unat (h AND NOT (1 :: u32)) = 2 * (unat h div 2)"
proof -
  have "h AND NOT 1 = push_bit 1 (drop_bit 1 h)"
    by (rule bit_word_eqI) (simp only: bit_simps, auto simp: bit_1_iff dest: bit_imp_le_length)
  moreover have "unat (drop_bit 1 h) * 2 ^ 1 < 2 ^ 32"
    using unat_u32_less [of h] by (simp only: unat_drop_bit_div) simp
  ultimately show ?thesis by (simp only: unat_shift) (simp add: unat_drop_bit_div [of 1, simplified])
qed

lemma live_hash_ge2: "2 \<le> live_hash ops k"
proof -
  have g: "2 \<le> h AND NOT (1 :: u32)" if "2 \<le> h" for h
    using that by (simp only: word_le_nat_alt unat_even_part) simp
  have "2 \<le> ENSURE_LIVE_KEYHASH h" for h
  proof (cases "h < 2")
    case True
    then have "unat h = 0 \<or> unat h = 1" by (simp add: word_less_nat_alt) linarith
    then have "h = 0 \<or> h = 1" by (auto simp: word_unat_eq_iff)
    moreover have "2 \<le> (- 2 :: u32)" by (simp add: word_le_nat_alt)
    moreover have "2 \<le> (- 1 :: u32)" by (rule word_n1_ge)
    ultimately show ?thesis by (auto simp: ENSURE_LIVE_KEYHASH_def)
  qed (simp add: ENSURE_LIVE_KEYHASH_def)
  then show ?thesis by (simp only: live_hash_def g)
qed


lemma live_hash_mask: "live_hash ops k AND NOT COLLISION_FLAG = live_hash ops k"
  by (simp only: live_hash_def and.right_idem)

lemma not_free_odd: "odd (keyHash e) \<Longrightarrow> \<not> ENTRY_IS_FREE e"
  by (auto simp: ENTRY_IS_FREE_def)

lemma removed_odd: "ENTRY_IS_REMOVED e \<Longrightarrow> odd (keyHash e)"
  by (simp add: ENTRY_IS_REMOVED_def)

lemma flag_odd: "odd (keyHash (flag e)) \<longleftrightarrow> odd (keyHash e) \<or> ENTRY_IS_LIVE e"
  by (simp add: flag_def even_or_iff)

lemma flag_not_free: "odd (keyHash (flag e)) \<longleftrightarrow> \<not> ENTRY_IS_FREE e"
  using entry_kinds [of e] not_free_odd [of e] removed_odd [of e] kinds_disjoint(2) [of e] unfolding flag_odd by metis

lemma store_okD:
  assumes "store_ok ops L es"
  shows "length es = 2 ^ L"
    and "live_at ops es s k \<Longrightarrow> keyHash (es ! s) AND NOT COLLISION_FLAG = live_hash ops k"
    and "live_at ops es s k \<Longrightarrow> reached L es (live_hash ops k) s"
    and "live_at ops es s k \<Longrightarrow> live_at ops es s' k \<Longrightarrow> s = s'"
  using assms unfolding store_ok_def by blast+

lemma hit_iff:
  assumes "dhash_client ops" "store_ok ops L es" "s < 2 ^ L"
  shows "hit ops k (live_hash ops k) (es ! s) \<longleftrightarrow> live_at ops es s k"
proof
  assume h: "hit ops k (live_hash ops k) (es ! s)"
  then have m: "keyHash (es ! s) AND NOT 1 = live_hash ops k" and "getKey ops (payload (es ! s)) = k"
    using assms(1) by (simp_all only: hit_def MATCH_ENTRY_KEYHASH_def dhash_client_def)
  moreover have "2 \<le> keyHash (es ! s)"
    using live_hash_ge2 [of ops k] m word_and_le2 [of "keyHash (es ! s)" "NOT 1"] by (metis order_trans)
  ultimately show "live_at ops es s k"
    using assms(3) store_okD(1) [OF assms(2)] by (simp add: live_at_def ENTRY_IS_LIVE_def)
next
  assume "live_at ops es s k"
  then show "hit ops k (live_hash ops k) (es ! s)"
    using store_okD(2) [OF assms(2)] assms(1)
    by (simp only: hit_def MATCH_ENTRY_KEYHASH_def dhash_client_def) (simp add: live_at_def)
qed

subsection \<open>Updates that keep it\<close>

lemma live_at_mark [simp]: "live_at ops (mark A es) s k = live_at ops es s k"
  by (cases "s \<in> A") (auto simp: live_at_def mark_nth)

lemma reached_mono:
  assumes "reached L es h s" "length es = 2 ^ L"
    and "\<And>j. j < length es \<Longrightarrow> odd (keyHash (es ! j)) \<Longrightarrow> odd (keyHash (es' ! j))"
  shows "reached L es' h s"
proof -
  obtain i where i: "i < 2 ^ L" "slot L h i = s" "\<forall>j < i. odd (keyHash (es ! slot L h j))"
    using assms(1) by (auto simp: reached_def)
  then have "\<forall>j < i. odd (keyHash (es' ! slot L h j))"
    using assms(2,3) slot_less by metis
  with i show ?thesis by (auto simp: reached_def)
qed

lemma store_ok_mark:
  assumes "store_ok ops L es"
  shows "store_ok ops L (mark A es)"
proof -
  have "reached L (mark A es) h s" if "reached L es h s" for h s
    using that store_okD(1) [OF assms] by (rule reached_mono) (auto simp: mark_nth flag_odd)
  moreover have "keyHash (mark A es ! s) AND NOT COLLISION_FLAG = keyHash (es ! s) AND NOT COLLISION_FLAG"
    if "live_at ops es s k" for s k
    using that by (simp add: live_at_def mark_nth)
  ultimately show ?thesis
    using assms by (simp only: store_ok_def live_at_mark mark_length) metis
qed

lemma live_at_update:
  "i < length es \<Longrightarrow> live_at ops (es[i := e]) s k \<longleftrightarrow>
     (if s = i then ENTRY_IS_LIVE e \<and> getKey ops (payload e) = k else live_at ops es s k)"
  by (auto simp: live_at_def)

lemma store_ok_update:
  assumes ok: "store_ok ops L es" and i: "i < 2 ^ L"
    and odd: "odd (keyHash (es ! i)) \<Longrightarrow> odd (keyHash e)"
    and new: "\<And>k. ENTRY_IS_LIVE e \<Longrightarrow> getKey ops (payload e) = k \<Longrightarrow>
        keyHash e AND NOT COLLISION_FLAG = live_hash ops k \<and> reached L es (live_hash ops k) i
        \<and> (\<forall>s. live_at ops es s k \<longrightarrow> s = i)"
  shows "store_ok ops L (es[i := e])"
proof -
  have len: "length es = 2 ^ L" using store_okD(1) [OF ok] .
  have r: "reached L (es[i := e]) h s" if "reached L es h s" for h s
    using that len
  proof (rule reached_mono)
    show "odd (keyHash (es[i := e] ! j))" if "j < length es" "odd (keyHash (es ! j))" for j
      using that odd by (cases "j = i") simp_all
  qed
  note upd = live_at_update [of i es ops e, unfolded len, OF i]
  have "keyHash (es[i := e] ! s) AND NOT COLLISION_FLAG = live_hash ops k
      \<and> reached L (es[i := e]) (live_hash ops k) s" if a: "live_at ops (es[i := e]) s k" for s k
  proof (cases "s = i")
    case True
    then have "ENTRY_IS_LIVE e" "getKey ops (payload e) = k" using a by (simp_all add: upd)
    from new [OF this] True r i len show ?thesis by simp
  next
    case False
    then have "live_at ops es s k" using a by (simp add: upd)
    with False show ?thesis using r [OF store_okD(3) [OF ok]] store_okD(2) [OF ok] by simp
  qed
  moreover have "s = s'" if "live_at ops (es[i := e]) s k" "live_at ops (es[i := e]) s' k" for s s' k
    using that new [of k] store_okD(4) [OF ok] unfolding upd by metis
  ultimately show ?thesis
    unfolding store_ok_def by (simp add: len)
qed

lemma store_ok_insert:
  assumes "store_ok ops L es" "\<nexists>s. live_at ops es s k" "i < 2 ^ L"
    and "\<forall>j < i. odd (keyHash (es ! slot L (live_hash ops k) j))"
    and "\<not> ENTRY_IS_LIVE (es ! slot L (live_hash ops k) i)"
    and "keyHash e = (if ENTRY_IS_REMOVED (es ! slot L (live_hash ops k) i)
           then live_hash ops k OR COLLISION_FLAG else live_hash ops k)"
    and "getKey ops (payload e) = k"
  shows "store_ok ops L (es[slot L (live_hash ops k) i := e])"
proof (rule store_ok_update [OF assms(1) slot_less])
  assume "odd (keyHash (es ! slot L (live_hash ops k) i))"
  then show "odd (keyHash e)"
    using assms(5,6) entry_kinds not_free_odd by (metis even_or_iff odd_one)
next
  fix k'
  assume "getKey ops (payload e) = k'"
  moreover have "(live_hash ops k OR 1) AND NOT 1 = live_hash ops k"
    using live_hash_mask [of ops k] by (simp only: bit.conj_disj_distrib2 bit.conj_cancel_right or.right_neutral)
  ultimately show "keyHash e AND NOT COLLISION_FLAG = live_hash ops k'
      \<and> reached L es (live_hash ops k') (slot L (live_hash ops k) i)
      \<and> (\<forall>s. live_at ops es s k' \<longrightarrow> s = slot L (live_hash ops k) i)"
    using assms live_hash_mask [of ops k] by (auto simp only: reached_def if_split)
qed

lemma store_ok_remove:
  assumes "store_ok ops L es" "i < 2 ^ L" "keyHash e = (if odd (keyHash (es ! i)) then 1 else 0)"
  shows "store_ok ops L (es[i := e])"
  using assms(1,2) by (rule store_ok_update) (use assms(3) in \<open>simp_all add: ENTRY_IS_LIVE_def split: if_splits\<close>)

lemma store_ok_payload:
  assumes "store_ok ops L es" "live_at ops es i k" "getKey ops d = k"
  shows "store_ok ops L (es[i := (es ! i)\<lparr>payload := d\<rparr>])"
proof (rule store_ok_update [OF assms(1)])
  show "i < 2 ^ L" using assms(2) store_okD(1) [OF assms(1)] by (simp add: live_at_def)
  show "keyHash ((es ! i)\<lparr>payload := d\<rparr>) AND NOT COLLISION_FLAG = live_hash ops k'
      \<and> reached L es (live_hash ops k') i \<and> (\<forall>s. live_at ops es s k' \<longrightarrow> s = i)"
    if "getKey ops (payload ((es ! i)\<lparr>payload := d\<rparr>)) = k'" for k'
    using that assms(3) store_okD(2-4) [OF assms(1)] assms(2) by auto
qed simp


subsection \<open>What a search finds\<close>

lemma search_present:
  assumes "dhash_client ops" "store_ok ops L (entryStore t)" "L \<le> 32" "hashShift t = 32 - L"
    and "live_at ops (entryStore t) s k"
  obtains A where "SearchTable ops t k (live_hash ops k) op
    = Some (t\<lparr>entryStore := if op = PL_DHASH_ADD then mark A (entryStore t) else entryStore t\<rparr>, s)"
proof -
  let ?es = "entryStore t" and ?h = "live_hash ops k"
  note ok = store_okD [OF assms(2)]
  obtain i where i: "i < 2 ^ L" "slot L ?h i = s" "\<forall>j < i. odd (keyHash (?es ! slot L ?h j))"
    using ok(3) [OF assms(5)] by (auto simp: reached_def)
  have "\<not> stops ops L k ?h ?es j" if "j < i" for j
  proof -
    have "slot L ?h j \<noteq> s" using slot_inj [of j L i ?h] that i(1,2) assms(3) by auto
    then have "\<not> live_at ops ?es (slot L ?h j) k" using ok(4) assms(5) by blast
    then show ?thesis
      using i(3) that not_free_odd by (auto simp: stops_def hit_iff [OF assms(1,2) slot_less])
  qed
  moreover have "stops ops L k ?h ?es i"
    using assms(5) i(2) by (auto simp: stops_def hit_iff [OF assms(1,2) slot_less])
  moreover have "\<not> ENTRY_IS_FREE (?es ! s)" using assms(5) kinds_disjoint by (auto simp: live_at_def)
  ultimately show ?thesis
    using SearchTable_spec [OF ok(1) assms(3,4) i(1), of ops k ?h op] that i(2) by (simp add: search_index_def)
qed

lemma search_absent:
  assumes "dhash_client ops" "store_ok ops L (entryStore t)" "L \<le> 32" "hashShift t = 32 - L"
    and "\<nexists>s. live_at ops (entryStore t) s k"
    and "s < 2 ^ L" "ENTRY_IS_FREE (entryStore t ! s)"
  obtains m where "m < 2 ^ L" "ENTRY_IS_FREE (entryStore t ! slot L (live_hash ops k) m)"
    "\<forall>j < m. \<not> ENTRY_IS_FREE (entryStore t ! slot L (live_hash ops k) j)"
    "\<And>op. SearchTable ops t k (live_hash ops k) op
    = Some (t\<lparr>entryStore := if op = PL_DHASH_ADD then mark (slot L (live_hash ops k) ` {..<m}) (entryStore t) else entryStore t\<rparr>,
        search_index op (first_removed L (live_hash ops k) (entryStore t) 0 m) True (slot L (live_hash ops k) m))"
proof -
  let ?es = "entryStore t" and ?h = "live_hash ops k"
  let ?P = "\<lambda>j. ENTRY_IS_FREE (?es ! slot L ?h j)"
  obtain i where i: "i < 2 ^ L" "?P i" using slot_surj [OF assms(6,3)] assms(7) by metis
  define m where "m = (LEAST j. ?P j)"
  have m: "?P m" "m \<le> i" "\<forall>j < m. \<not> ?P j"
    using i(2) by (auto simp: m_def intro: LeastI Least_le dest: not_less_Least)
  have st: "stops ops L k ?h ?es j \<longleftrightarrow> ?P j" for j
    using assms(5) by (auto simp: stops_def hit_iff [OF assms(1,2) slot_less])
  have "m < 2 ^ L" using m(2) i(1) by simp
  from that [OF this m(1,3)] show ?thesis
    using SearchTable_spec [OF store_okD(1) [OF assms(2)] assms(3,4) \<open>m < 2 ^ L\<close>, of ops k ?h] m st by simp
qed

text \<open>The slot an add claims for a key that is not in the store.\<close>

lemma add_slot:
  assumes "m < 2 ^ L" "L \<le> 32" "ENTRY_IS_FREE (es ! slot L h m)"
    and "\<forall>j < m. \<not> ENTRY_IS_FREE (es ! slot L h j)"
  obtains i where "i \<le> m" "search_index PL_DHASH_ADD (first_removed L h es 0 m) True (slot L h m) = slot L h i"
    and "ENTRY_IS_FREE (es ! slot L h i) \<or> ENTRY_IS_REMOVED (es ! slot L h i)"
proof (cases "List.find (\<lambda>j. ENTRY_IS_REMOVED (es ! slot L h j)) [0..<m]")
  case None
  then show ?thesis using that [of m] assms(3) by (simp add: search_index_def first_removed_def)
next
  case (Some j)
  then have "ENTRY_IS_REMOVED (es ! slot L h j)" "j < m"
    using find_Some_iff [of "\<lambda>j. ENTRY_IS_REMOVED (es ! slot L h j)" "[0..<m]" j] by auto
  with Some show ?thesis using that [of j] by (simp add: search_index_def first_removed_def)
qed

subsection \<open>Counts\<close>

definition lives :: "'e PLDHashEntryHdr list \<Rightarrow> nat" where
  "lives es = length (filter ENTRY_IS_LIVE es)"

definition removeds :: "'e PLDHashEntryHdr list \<Rightarrow> nat" where
  "removeds es = length (filter ENTRY_IS_REMOVED es)"

lemma count_update:
  "i < length xs \<Longrightarrow> length (filter P (xs[i := x])) + of_bool (P (xs ! i)) = length (filter P xs) + of_bool (P x)"
proof (induction xs arbitrary: i)
  case (Cons y xs)
  then show ?case using Cons.IH [of "i - 1"] by (cases i) simp_all
qed simp

lemma lives_update: "i < length es \<Longrightarrow>
    lives (es[i := e]) + of_bool (ENTRY_IS_LIVE (es ! i)) = lives es + of_bool (ENTRY_IS_LIVE e)"
  unfolding lives_def by (rule count_update)

lemma removeds_update: "i < length es \<Longrightarrow>
    removeds (es[i := e]) + of_bool (ENTRY_IS_REMOVED (es ! i)) = removeds es + of_bool (ENTRY_IS_REMOVED e)"
  unfolding removeds_def by (rule count_update)

lemma count_mark:
  assumes "\<And>e. P (flag e) = P e"
  shows "length (filter P (mark A es)) = length (filter P es)"
proof -
  have "map P (mark A es) = map P es"
    using assms by (intro nth_equalityI) (auto simp: mark_nth)
  moreover have "length (filter P xs) = length (filter id (map P xs))" for xs :: "'a PLDHashEntryHdr list"
    by (induction xs) auto
  ultimately show ?thesis by metis
qed

lemma lives_mark [simp]: "lives (mark A es) = lives es"
  unfolding lives_def by (rule count_mark) simp

lemma removeds_mark [simp]: "removeds (mark A es) = removeds es"
  unfolding removeds_def by (rule count_mark) simp

lemma free_exists:
  assumes "lives es + removeds es < length es"
  obtains s where "s < length es" "ENTRY_IS_FREE (es ! s)"
proof (cases "\<exists>e \<in> set es. ENTRY_IS_FREE e")
  case True
  then show ?thesis using that by (auto simp: in_set_conv_nth)
next
  case False
  then have "\<forall>e \<in> set es. ENTRY_IS_REMOVED e \<longleftrightarrow> \<not> ENTRY_IS_LIVE e"
    using entry_kinds kinds_disjoint(3) by blast
  then have "removeds es = length (filter (\<lambda>e. \<not> ENTRY_IS_LIVE e) es)"
    unfolding removeds_def by (metis (mono_tags, lifting) filter_cong)
  then show ?thesis using assms sum_length_filter_compl [of ENTRY_IS_LIVE es] by (simp add: lives_def)
qed

subsection \<open>The map a store stands for\<close>

definition store_map :: "('k, 'e) PLDHashTableOps \<Rightarrow> 'e PLDHashEntryHdr list \<Rightarrow> 'k \<rightharpoonup> 'e" where
  "store_map ops es k =
     map_option payload (List.find (\<lambda>e. ENTRY_IS_LIVE e \<and> getKey ops (payload e) = k) es)"

lemma store_map_None: "store_map ops es k = None \<longleftrightarrow> (\<nexists>s. live_at ops es s k)"
  by (auto simp: store_map_def find_None_iff live_at_def in_set_conv_nth)

lemma store_map_Some:
  assumes "store_ok ops L es" "live_at ops es s k"
  shows "store_map ops es k = Some (payload (es ! s))"
proof -
  have "List.find (\<lambda>e. ENTRY_IS_LIVE e \<and> getKey ops (payload e) = k) es = Some (es ! s)"
    unfolding find_Some_iff
  proof (intro exI [of _ s] conjI allI impI)
    show "\<not> (ENTRY_IS_LIVE (es ! j) \<and> getKey ops (payload (es ! j)) = k)" if "j < s" for j
      using that assms(2) store_okD(4) [OF assms, of j] by (auto simp: live_at_def)
  qed (use assms(2) in \<open>simp_all add: live_at_def\<close>)
  then show ?thesis by (simp add: store_map_def)
qed

lemma store_map_cases:
  assumes "store_ok ops L es"
  obtains "store_map ops es k = None" "\<nexists>s. live_at ops es s k"
    | s where "store_map ops es k = Some (payload (es ! s))" "live_at ops es s k"
  using store_map_None store_map_Some [OF assms] that by metis

lemma store_map_eqI:
  assumes "store_ok ops L es"
    and "\<And>k. m k = None \<Longrightarrow> \<nexists>s. live_at ops es s k"
    and "\<And>k d. m k = Some d \<Longrightarrow> \<exists>s. live_at ops es s k \<and> payload (es ! s) = d"
  shows "store_map ops es = m"
proof
  fix k
  show "store_map ops es k = m k"
  proof (cases "m k")
    case None
    then show ?thesis using assms(2) store_map_None [of ops es k] by simp
  next
    case (Some d)
    then show ?thesis using assms(3) store_map_Some [OF assms(1)] by metis
  qed
qed

lemma store_map_mark [simp]: "store_ok ops L es \<Longrightarrow> store_map ops (mark A es) = store_map ops es"
proof (rule store_map_eqI [OF store_ok_mark])
  fix k d
  assume "store_ok ops L es" "store_map ops es k = Some d"
  then show "\<exists>s. live_at ops (mark A es) s k \<and> payload (mark A es ! s) = d"
    by (cases rule: store_map_cases [of ops L es k]) (auto simp: mark_nth live_at_def intro!: exI)
qed (simp_all add: store_map_None)

lemma store_map_set:
  assumes "store_ok ops L es" "store_ok ops L (es[i := e])" "i < length es"
    and "ENTRY_IS_LIVE e" "getKey ops (payload e) = k" "\<And>k'. live_at ops es i k' \<Longrightarrow> k' = k"
  shows "store_map ops (es[i := e]) = (store_map ops es)(k \<mapsto> payload e)"
proof (rule store_map_eqI [OF assms(2)])
  fix k' d
  note upd = live_at_update [OF assms(3), of ops e]
  show "\<nexists>s. live_at ops (es[i := e]) s k'" if "((store_map ops es)(k \<mapsto> payload e)) k' = None"
  proof -
    have "k' \<noteq> k" "store_map ops es k' = None" using that by (simp_all split: if_splits)
    then show ?thesis using assms(5) unfolding upd store_map_None by metis
  qed
  show "\<exists>s. live_at ops (es[i := e]) s k' \<and> payload (es[i := e] ! s) = d"
    if "((store_map ops es)(k \<mapsto> payload e)) k' = Some d"
  proof (cases "k' = k")
    case True
    then show ?thesis using that assms(3-5) by (intro exI [of _ i]) (simp add: upd)
  next
    case False
    then have "store_map ops es k' = Some d" using that by simp
    then obtain s where s: "live_at ops es s k'" "d = payload (es ! s)"
      using store_map_cases [OF assms(1), of k'] by (metis option.distinct(1) option.inject)
    then have "s \<noteq> i" using assms(6) False by blast
    with s show ?thesis by (intro exI [of _ s]) (simp add: upd)
  qed
qed

lemma store_map_clear:
  assumes "store_ok ops L es" "store_ok ops L (es[i := e])" "live_at ops es i k" "\<not> ENTRY_IS_LIVE e"
  shows "store_map ops (es[i := e]) = (store_map ops es)(k := None)"
proof (rule store_map_eqI [OF assms(2)])
  fix k' d
  have i: "i < length es" using assms(3) by (simp add: live_at_def)
  note upd = live_at_update [OF i, of ops e]
  show "\<nexists>s. live_at ops (es[i := e]) s k'" if "((store_map ops es)(k := None)) k' = None"
    using that assms(4) store_okD(4) [OF assms(1,3)] by (auto simp: upd store_map_None split: if_splits)
  show "\<exists>s. live_at ops (es[i := e]) s k' \<and> payload (es[i := e] ! s) = d"
    if "((store_map ops es)(k := None)) k' = Some d"
  proof -
    have "k' \<noteq> k" "store_map ops es k' = Some d" using that by (auto split: if_splits)
    then obtain s where s: "live_at ops es s k'" "d = payload (es ! s)"
      using store_map_cases [OF assms(1), of k'] by (metis option.distinct(1) option.inject)
    moreover have "s \<noteq> i" using s assms(3) \<open>k' \<noteq> k\<close> by (auto simp: live_at_def)
    ultimately show ?thesis by (intro exI [of _ s]) (simp add: upd)
  qed
qed

end
