(* ===== verification/Pl_DHash_Ops.thy ===== *)
theory Pl_DHash_Ops
  imports Pl_DHash_Inv
begin

text \<open>
  What each operation of \<open>pldhash.c\<close> does to a table that keeps the invariant, and to the map
  the table stands for: claiming an entry, rehashing, growing, removing, enumerating.
\<close>

subsection \<open>Claiming an entry\<close>

lemma add_absent:
  fixes t :: "'e PLDHashTable"
  assumes "dhash_client ops" "store_ok ops L (entryStore t)" "L \<le> 32" "hashShift t = 32 - L"
    and "store_map ops (entryStore t) k = None"
    and "lives (entryStore t) + removeds (entryStore t) < 2 ^ L"
  obtains A r where
    "SearchTable ops t k (live_hash ops k) PL_DHASH_ADD = Some (t\<lparr>entryStore := mark A (entryStore t)\<rparr>, r)"
    "r < 2 ^ L" "\<not> ENTRY_IS_LIVE (mark A (entryStore t) ! r)"
    "ENTRY_IS_REMOVED (mark A (entryStore t) ! r) \<Longrightarrow> removeds (entryStore t) > 0"
    "\<And>e :: 'e PLDHashEntryHdr. getKey ops (payload e) = k \<Longrightarrow>
       keyHash e = (if ENTRY_IS_REMOVED (mark A (entryStore t) ! r) then live_hash ops k OR COLLISION_FLAG else live_hash ops k) \<Longrightarrow>
       ENTRY_IS_LIVE e \<and> store_ok ops L ((mark A (entryStore t))[r := e]) \<and>
       store_map ops ((mark A (entryStore t))[r := e]) = (store_map ops (entryStore t))(k \<mapsto> payload e) \<and>
       lives ((mark A (entryStore t))[r := e]) = lives (entryStore t) + 1 \<and>
       removeds ((mark A (entryStore t))[r := e]) = removeds (entryStore t) - of_bool (ENTRY_IS_REMOVED (mark A (entryStore t) ! r))"
proof -
  let ?es = "entryStore t" and ?h = "live_hash ops k"
  note ok = store_okD [OF assms(2)]
  obtain s where s: "s < 2 ^ L" "ENTRY_IS_FREE (?es ! s)" using free_exists [of ?es] assms(6) ok(1) by metis
  have abs: "\<nexists>s. live_at ops ?es s k" using assms(5) by (simp add: store_map_None)
  obtain m where m: "m < 2 ^ L" "ENTRY_IS_FREE (?es ! slot L ?h m)" "\<forall>j < m. \<not> ENTRY_IS_FREE (?es ! slot L ?h j)"
    "SearchTable ops t k ?h PL_DHASH_ADD
      = Some (t\<lparr>entryStore := mark (slot L ?h ` {..<m}) ?es\<rparr>,
          search_index PL_DHASH_ADD (first_removed L ?h ?es 0 m) True (slot L ?h m))"
    by (rule search_absent [OF assms(1-4) abs s]) simp
  obtain i where i: "i \<le> m" "search_index PL_DHASH_ADD (first_removed L ?h ?es 0 m) True (slot L ?h m) = slot L ?h i"
    "ENTRY_IS_FREE (?es ! slot L ?h i) \<or> ENTRY_IS_REMOVED (?es ! slot L ?h i)"
    using add_slot [OF m(1) assms(3) m(2,3)] by metis
  define A where "A = slot L ?h ` {..<m}"
  define r where "r = slot L ?h i"
  let ?es1 = "mark A ?es"
  have r: "r < length ?es" "r < 2 ^ L" by (simp_all add: r_def slot_less ok(1))
  have nl: "\<not> ENTRY_IS_LIVE (?es1 ! r)"
    using i(3) kinds_disjoint(2,3) r by (auto simp: mark_nth r_def)
  have ok1: "store_ok ops L ?es1" using assms(2) by (rule store_ok_mark)
  have abs1: "\<nexists>s. live_at ops ?es1 s k" using abs by simp
  have odd: "\<forall>j < i. odd (keyHash (?es1 ! slot L ?h j))"
    using i(1) m(3) ok(1) slot_less [of L ?h] by (auto simp: mark_nth A_def flag_not_free)
  show ?thesis
  proof (rule that)
    show "SearchTable ops t k ?h PL_DHASH_ADD = Some (t\<lparr>entryStore := ?es1\<rparr>, r)"
      using m(4) i(2) by (simp add: A_def r_def)
    show "removeds ?es > 0" if "ENTRY_IS_REMOVED (?es1 ! r)"
    proof -
      have "?es1 ! r \<in> set (filter ENTRY_IS_REMOVED ?es1)" using that r by (simp add: nth_mem)
      then have "0 < removeds ?es1" unfolding removeds_def by (rule length_pos_if_in_set)
      then show ?thesis by simp
    qed
    fix e :: "'e PLDHashEntryHdr"
    assume e: "getKey ops (payload e) = k"
      "keyHash e = (if ENTRY_IS_REMOVED (?es1 ! r) then ?h OR COLLISION_FLAG else ?h)"
    have lv: "ENTRY_IS_LIVE e"
      using live_hash_ge2 [of ops k] le_word_or2 [of ?h 1] e(2) order_trans
      by (auto simp: ENTRY_IS_LIVE_def split: if_splits)
    moreover have ok2: "store_ok ops L (?es1[r := e])"
      using store_ok_insert [OF ok1 abs1, of i e] odd nl e i(1) m(1) by (simp add: r_def)
    moreover have "store_map ops (?es1[r := e]) = (store_map ops ?es)(k \<mapsto> payload e)"
      using store_map_set [OF ok1 ok2, of k] r lv e(1) nl assms(2) by (simp add: live_at_def)
    moreover have "lives (?es1[r := e]) = lives ?es + 1" "removeds (?es1[r := e]) = removeds ?es - of_bool (ENTRY_IS_REMOVED (?es1 ! r))"
      using lives_update [of r ?es1 e] removeds_update [of r ?es1 e] r nl lv kinds_disjoint(3) [of e]
      by (cases "ENTRY_IS_REMOVED e"; simp)+
    ultimately show "ENTRY_IS_LIVE e \<and> store_ok ops L (?es1[r := e]) \<and>
       store_map ops (?es1[r := e]) = (store_map ops ?es)(k \<mapsto> payload e) \<and>
       lives (?es1[r := e]) = lives ?es + 1 \<and>
       removeds (?es1[r := e]) = removeds ?es - of_bool (ENTRY_IS_REMOVED (?es1 ! r))"
      by blast
  qed (use r nl in simp_all)
qed

definition live_assoc :: "('k, 'e) PLDHashTableOps \<Rightarrow> 'e PLDHashEntryHdr list \<Rightarrow> ('k \<times> 'e) list" where
  "live_assoc ops es = map (\<lambda>e. (getKey ops (payload e), payload e)) (filter ENTRY_IS_LIVE es)"

lemma map_of_live_assoc: "map_of (live_assoc ops es) = store_map ops es"
proof
  fix k
  show "map_of (live_assoc ops es) k = store_map ops es k"
    unfolding live_assoc_def store_map_def by (induction es) auto
qed

lemma ChangeTable_loop_spec:
  fixes t :: "'e PLDHashTable"
  assumes "dhash_client ops" "L \<le> 32"
    and "store_ok ops L (entryStore t)" "hashShift t = 32 - L" "removeds (entryStore t) = 0"
    and "lives (entryStore t) + lives olds < 2 ^ L"
    and "\<forall>e \<in> set olds. ENTRY_IS_LIVE e \<longrightarrow> keyHash e AND NOT COLLISION_FLAG = live_hash ops (getKey ops (payload e))"
    and "distinct (map fst (live_assoc ops olds))"
    and "\<forall>k \<in> fst ` set (live_assoc ops olds). store_map ops (entryStore t) k = None"
  shows "\<exists>es. ChangeTable_loop ops olds t = Some (t\<lparr>entryStore := es\<rparr>) \<and> store_ok ops L es
    \<and> removeds es = 0 \<and> lives es = lives (entryStore t) + lives olds
    \<and> store_map ops es = store_map ops (entryStore t) ++ map_of (live_assoc ops olds)"
  using assms(3-)
proof (induction olds arbitrary: t)
  case Nil
  then show ?case by (intro exI [of _ "entryStore t"]) (simp add: lives_def live_assoc_def)
next
  case (Cons e olds)
  show ?case
  proof (cases "ENTRY_IS_LIVE e")
    case False
    then show ?thesis using Cons.IH [of t] Cons.prems by (simp add: lives_def live_assoc_def)
  next
    case True
    let ?k = "getKey ops (payload e)"
    have h: "keyHash e AND NOT COLLISION_FLAG = live_hash ops ?k" using Cons.prems(5) True by simp
    have la: "live_assoc ops (e # olds) = (?k, payload e) # live_assoc ops olds" and lv: "lives (e # olds) = Suc (lives olds)"
      using True by (simp_all add: live_assoc_def lives_def)
    have room: "lives (entryStore t) + removeds (entryStore t) < 2 ^ L" using Cons.prems(3,4) by simp
    have abs: "store_map ops (entryStore t) ?k = None" using Cons.prems(7) by (simp add: la)
    obtain A r where s: "SearchTable ops t ?k (live_hash ops ?k) PL_DHASH_ADD = Some (t\<lparr>entryStore := mark A (entryStore t)\<rparr>, r)"
      and r: "r < 2 ^ L" and "\<not> ENTRY_IS_LIVE (mark A (entryStore t) ! r)"
      and rem: "ENTRY_IS_REMOVED (mark A (entryStore t) ! r) \<Longrightarrow> removeds (entryStore t) > 0"
      and new: "\<And>e' :: 'e PLDHashEntryHdr. getKey ops (payload e') = ?k \<Longrightarrow>
         keyHash e' = (if ENTRY_IS_REMOVED (mark A (entryStore t) ! r) then live_hash ops ?k OR COLLISION_FLAG else live_hash ops ?k) \<Longrightarrow>
         ENTRY_IS_LIVE e' \<and> store_ok ops L ((mark A (entryStore t))[r := e']) \<and>
         store_map ops ((mark A (entryStore t))[r := e']) = (store_map ops (entryStore t))(?k \<mapsto> payload e') \<and>
         lives ((mark A (entryStore t))[r := e']) = lives (entryStore t) + 1 \<and>
         removeds ((mark A (entryStore t))[r := e']) = removeds (entryStore t) - of_bool (ENTRY_IS_REMOVED (mark A (entryStore t) ! r))"
      by (rule add_absent [OF assms(1) Cons.prems(1) assms(2) Cons.prems(2) abs room]) (rule that)
    have nr: "\<not> ENTRY_IS_REMOVED (mark A (entryStore t) ! r)" using rem Cons.prems(3) by auto
    define es' where "es' = (mark A (entryStore t))[r := \<lparr>keyHash = live_hash ops ?k, payload = payload e\<rparr>]"
    have n: "store_ok ops L es'" "store_map ops es' = (store_map ops (entryStore t))(?k \<mapsto> payload e)"
      "lives es' = lives (entryStore t) + 1" "removeds es' = 0"
      using new [of "\<lparr>keyHash = live_hash ops ?k, payload = payload e\<rparr>"] Cons.prems(3) nr by (simp_all add: es'_def)
    have nin: "?k \<notin> fst ` set (live_assoc ops olds)" using Cons.prems(6) by (simp add: la)
    have IH: "\<exists>es. ChangeTable_loop ops olds (t\<lparr>entryStore := es'\<rparr>) = Some (t\<lparr>entryStore := es'\<rparr>\<lparr>entryStore := es\<rparr>) \<and> store_ok ops L es
      \<and> removeds es = 0 \<and> lives es = lives (entryStore (t\<lparr>entryStore := es'\<rparr>)) + lives olds
      \<and> store_map ops es = store_map ops (entryStore (t\<lparr>entryStore := es'\<rparr>)) ++ map_of (live_assoc ops olds)"
    proof (rule Cons.IH)
      show "\<forall>k \<in> fst ` set (live_assoc ops olds). store_map ops (entryStore (t\<lparr>entryStore := es'\<rparr>)) k = None"
      proof
        fix k
        assume k: "k \<in> fst ` set (live_assoc ops olds)"
        then have "k \<noteq> ?k" using nin by metis
        then show "store_map ops (entryStore (t\<lparr>entryStore := es'\<rparr>)) k = None"
          using bspec [OF Cons.prems(7), of k] k by (simp add: la n(2))
      qed
    qed (use Cons.prems n in \<open>simp_all add: la lv\<close>)
    obtain es where es: "ChangeTable_loop ops olds (t\<lparr>entryStore := es'\<rparr>) = Some (t\<lparr>entryStore := es'\<rparr>\<lparr>entryStore := es\<rparr>)"
      "store_ok ops L es" "removeds es = 0" "lives es = lives es' + lives olds"
      "store_map ops es = store_map ops es' ++ map_of (live_assoc ops olds)"
      using IH by auto
    have "ChangeTable_loop ops (e # olds) t = Some (t\<lparr>entryStore := es\<rparr>)"
      using True s r h es(1) assms(1) store_okD(1) [OF Cons.prems(1)]
      by (simp add: Let_def wr_def es'_def dhash_client_def)
    moreover have "store_map ops es = store_map ops (entryStore t) ++ map_of (live_assoc ops (e # olds))"
      using n(2) nin es(5) by (simp add: la map_add_upd_left dom_map_of_conv_image_fst)
    ultimately show ?thesis using es(2-4) n(3) lv by (intro exI [of _ es]) simp
  qed
qed


subsection \<open>The invariant of a table\<close>

abbreviation sizeLog2 :: "'e PLDHashTable \<Rightarrow> nat" where
  "sizeLog2 t \<equiv> 32 - hashShift t"

definition table_ok :: "('k, 'e) PLDHashTableOps \<Rightarrow> 'e PLDHashTable \<Rightarrow> bool" where
  "table_ok ops t \<longleftrightarrow>
     9 \<le> hashShift t \<and> hashShift t \<le> 28 \<and> store_ok ops (sizeLog2 t) (entryStore t) \<and>
     unat (entryCount t) = lives (entryStore t) \<and> unat (removedCount t) = removeds (entryStore t) \<and>
     lives (entryStore t) + removeds (entryStore t) < 2 ^ sizeLog2 t \<and>
     unat (minAlphaFrac t) < 128 \<and> 0 < unat (entrySize t) \<and> unat (entrySize t) < 512"

definition dh_map :: "('k, 'e) PLDHashTableOps \<Rightarrow> 'e PLDHashTable \<Rightarrow> 'k \<rightharpoonup> 'e" where
  "dh_map ops t = store_map ops (entryStore t)"

lemma pow23: "n \<le> 23 \<Longrightarrow> (2 :: nat) ^ n \<le> 2 ^ 23"
  by (rule power_increasing) simp_all

lemma unat_2pow: "n < 32 \<Longrightarrow> unat (2 ^ n :: u32) = 2 ^ n"
  using unat_pow2 [of n] by (simp add: push_bit_of_1)

lemma table_size:
  assumes "9 \<le> hashShift t" "hashShift t \<le> 28"
  obtains sz where "PL_DHASH_TABLE_SIZE t = Some sz" "unat sz = 2 ^ sizeLog2 t"
  using assms by (simp add: PL_DHASH_TABLE_SIZE_def PR_BIT_def unat_2pow)

lemma zero_store_ok:
  assumes "n \<le> 23" "0 < unat esize" "unat esize < 512"
  shows "zero_store ops (push_bit n 1 * esize) esize = replicate (2 ^ n) \<lparr>keyHash = 0, payload = zeroed ops\<rparr>"
proof -
  have "2 ^ n * unat esize < 2 ^ 23 * 512"
    using pow23 [OF assms(1)] assms(2,3) by (intro mult_le_less_imp_less) simp_all
  then have "unat (push_bit n 1 * esize) = 2 ^ n * unat esize"
    using assms(1) by (simp only: unat_word_ariths unat_pow2) simp
  then show ?thesis using assms(2) by (simp add: zero_store_def)
qed

lemma store_ok_empty:
  "store_ok ops L (replicate (2 ^ L) \<lparr>keyHash = 0, payload = p\<rparr>)"
  "store_map ops (replicate n \<lparr>keyHash = 0, payload = p\<rparr>) = Map.empty"
  "lives (replicate n \<lparr>keyHash = 0, payload = p\<rparr>) = 0" "removeds (replicate n \<lparr>keyHash = 0, payload = p\<rparr>) = 0"
proof -
  have l: "\<not> live_at ops (replicate n \<lparr>keyHash = 0, payload = p\<rparr>) s k" for n s k
    by (auto simp: live_at_def ENTRY_IS_LIVE_def)
  show "store_ok ops L (replicate (2 ^ L) \<lparr>keyHash = 0, payload = p\<rparr>)"
    by (simp add: store_ok_def l)
  show "store_map ops (replicate n \<lparr>keyHash = 0, payload = p\<rparr>) = Map.empty"
    by (rule ext) (simp add: store_map_None l)
qed (simp_all add: lives_def removeds_def ENTRY_IS_LIVE_def ENTRY_IS_REMOVED_def)

lemma store_assoc_distinct:
  assumes "store_ok ops L es"
  shows "distinct (map fst (live_assoc ops es))"
proof -
  have "sorted_wrt (\<lambda>a b. ENTRY_IS_LIVE a \<longrightarrow> ENTRY_IS_LIVE b \<longrightarrow> getKey ops (payload a) \<noteq> getKey ops (payload b)) es"
    unfolding sorted_wrt_iff_nth_less
  proof (intro allI impI)
    fix i j
    assume "i < j" "j < length es" "ENTRY_IS_LIVE (es ! i)" "ENTRY_IS_LIVE (es ! j)"
    then show "getKey ops (payload (es ! i)) \<noteq> getKey ops (payload (es ! j))"
      using store_okD(4) [OF assms, of i _ j] by (auto simp: live_at_def)
  qed
  then show ?thesis by (induction es) (auto simp: live_assoc_def)
qed

lemma ChangeTable_spec:
  fixes t :: "'e PLDHashTable"
  assumes "dhash_client ops" "table_ok ops t"
    and "nat (int (sizeLog2 t) + d) = n" "4 \<le> n" "n \<le> 24" "lives (entryStore t) < 2 ^ n"
  obtains b t' where "ChangeTable ops alloc t d = Some (b, t')" "table_ok ops t'" "dh_map ops t' = dh_map ops t"
    "\<not> b \<Longrightarrow> t' = t"
    "b \<Longrightarrow> sizeLog2 t' = n \<and> removedCount t' = 0 \<and> entryCount t' = entryCount t \<and> n < 24"
    "b \<longleftrightarrow> n < 24 \<and> alloc (2 ^ n * entrySize t)"
proof -
  note ok = assms(2) [unfolded table_ok_def]
  have n: "PR_BIT n = Some (push_bit n 1)" "PR_BIT (sizeLog2 t) = Some (push_bit (sizeLog2 t) 1)"
    using assms(5) ok by (simp_all add: PR_BIT_def)
  have lim: "push_bit n 1 \<ge> PL_DHASH_SIZE_LIMIT \<longleftrightarrow> n = 24"
  proof (cases "n = 24")
    case False
    then have "(2 :: nat) ^ n \<le> 2 ^ 23" using assms(5) by (intro pow23) simp
    then show ?thesis using False assms(5) by (simp add: word_le_nat_alt unat_2pow)
  qed simp
  show ?thesis
  proof (cases "n = 24 \<or> \<not> alloc (push_bit n 1 * entrySize t)")
    case True
    then have "ChangeTable ops alloc t d = Some (False, t)"
      using n lim by (auto simp: ChangeTable_def Let_def assms(3))
    then show ?thesis using that [of False t] assms(2) True by (auto simp: push_bit_of_1)
  next
    case False
    define t1 where "t1 = t\<lparr>hashShift := 32 - n, removedCount := 0, generation := generation t + 1,
      entryStore := zero_store ops (push_bit n 1 * entrySize t) (entrySize t)\<rparr>"
    have n23: "n \<le> 23" using False assms(5) by simp
    have es1: "entryStore t1 = replicate (2 ^ n) \<lparr>keyHash = 0, payload = zeroed ops\<rparr>"
      using ok by (auto simp: t1_def intro!: zero_store_ok [OF n23, unfolded push_bit_of_1])
    have rng: "9 \<le> 32 - n" "32 - n \<le> 28" using n23 assms(4) by linarith+
    have hs: "hashShift t1 = 32 - n" by (simp add: t1_def)
    have len: "length (entryStore t) = 2 ^ sizeLog2 t" using ok store_okD(1) by blast
    have "\<exists>es. ChangeTable_loop ops (entryStore t) t1 = Some (t1\<lparr>entryStore := es\<rparr>) \<and> store_ok ops n es
      \<and> removeds es = 0 \<and> lives es = lives (entryStore t1) + lives (entryStore t)
      \<and> store_map ops es = store_map ops (entryStore t1) ++ map_of (live_assoc ops (entryStore t))"
    proof (rule ChangeTable_loop_spec [OF assms(1)])
      show "\<forall>e \<in> set (entryStore t). ENTRY_IS_LIVE e \<longrightarrow>
          keyHash e AND NOT COLLISION_FLAG = live_hash ops (getKey ops (payload e))"
        using ok store_okD(2) [of ops "sizeLog2 t" "entryStore t"] by (auto simp only: in_set_conv_nth live_at_def)
      show "distinct (map fst (live_assoc ops (entryStore t)))" using ok store_assoc_distinct by blast
    qed (use assms(6) n23 in \<open>simp_all add: es1 hs store_ok_empty\<close>)
    then obtain es where es: "ChangeTable_loop ops (entryStore t) t1 = Some (t1\<lparr>entryStore := es\<rparr>)" "store_ok ops n es"
      "removeds es = 0" "lives es = lives (entryStore t)" "store_map ops es = store_map ops (entryStore t)"
      by (auto simp: es1 store_ok_empty map_of_live_assoc)
    have "unat (push_bit (sizeLog2 t) 1 :: u32) = length (entryStore t)" using ok by (simp add: len unat_2pow)
    then have "ChangeTable ops alloc t d = Some (True, t1\<lparr>entryStore := es\<rparr>)"
      using False n lim es(1) by (simp add: ChangeTable_def Let_def assms(3) t1_def)
    moreover have "table_ok ops (t1\<lparr>entryStore := es\<rparr>)"
      using ok es(2-4) assms(6) n23 rng by (simp add: table_ok_def t1_def)
    ultimately show ?thesis
      using that [of True "t1\<lparr>entryStore := es\<rparr>"] es(5) n23 False by (simp add: dh_map_def t1_def push_bit_of_1)
  qed
qed


subsection \<open>The operations\<close>

text \<open>What the client does with the entry an add returns: it fills the payload in.\<close>

definition fill :: "'e PLDHashTable \<Rightarrow> nat \<Rightarrow> 'e \<Rightarrow> 'e PLDHashTable" where
  "fill t i d = t\<lparr>entryStore := (entryStore t)[i := (entryStore t ! i)\<lparr>payload := d\<rparr>]\<rparr>"

lemma table_okD:
  assumes "table_ok ops t"
  shows "store_ok ops (sizeLog2 t) (entryStore t)" and "sizeLog2 t \<le> 32" and "hashShift t = 32 - sizeLog2 t"
    and "lives (entryStore t) + removeds (entryStore t) < 2 ^ sizeLog2 t"
    and "unat (entryCount t) = lives (entryStore t)" and "unat (removedCount t) = removeds (entryStore t)"
    and "sizeLog2 t \<le> 23" and "4 \<le> sizeLog2 t" and "length (entryStore t) = 2 ^ sizeLog2 t"
  using assms store_okD(1) [of ops "sizeLog2 t" "entryStore t"] by (auto simp: table_ok_def)

lemma table_counts:
  assumes "table_ok ops t"
  shows "unat (entryCount t + removedCount t) = lives (entryStore t) + removeds (entryStore t)"
    and "lives (entryStore t) + removeds (entryStore t) < 2 ^ 23"
proof -
  show l: "lives (entryStore t) + removeds (entryStore t) < 2 ^ 23"
    using table_okD(4) [OF assms] pow23 [OF table_okD(7) [OF assms]] by linarith
  show "unat (entryCount t + removedCount t) = lives (entryStore t) + removeds (entryStore t)"
    using l table_okD(5,6) [OF assms] by (simp add: unat_word_ariths)
qed

lemma search_lookup:
  assumes "dhash_client ops" "table_ok ops t" "op \<noteq> PL_DHASH_ADD"
  obtains i where "SearchTable ops t k (live_hash ops k) op = Some (t, i)" "i < length (entryStore t)"
    "case dh_map ops t k of None \<Rightarrow> ENTRY_IS_FREE (entryStore t ! i)
     | Some d \<Rightarrow> live_at ops (entryStore t) i k \<and> payload (entryStore t ! i) = d"
proof -
  note ok = table_okD [OF assms(2)]
  have same: "t\<lparr>entryStore := entryStore t\<rparr> = t" by simp
  show ?thesis
  proof (cases rule: store_map_cases [OF ok(1), of k])
    case 1
    obtain s where s: "s < 2 ^ sizeLog2 t" "ENTRY_IS_FREE (entryStore t ! s)"
      using free_exists [of "entryStore t"] ok(4,9) by metis
    obtain m where m: "m < 2 ^ sizeLog2 t" "ENTRY_IS_FREE (entryStore t ! slot (sizeLog2 t) (live_hash ops k) m)"
      "SearchTable ops t k (live_hash ops k) op = Some (t\<lparr>entryStore := if op = PL_DHASH_ADD
          then mark (slot (sizeLog2 t) (live_hash ops k) ` {..<m}) (entryStore t) else entryStore t\<rparr>,
        search_index op (first_removed (sizeLog2 t) (live_hash ops k) (entryStore t) 0 m) True
          (slot (sizeLog2 t) (live_hash ops k) m))"
      by (rule search_absent [OF assms(1) ok(1-3) 1(2) s]) simp
    show ?thesis
      using that [of "slot (sizeLog2 t) (live_hash ops k) m"] m assms(3) 1(1) slot_less same
      by (simp add: search_index_def dh_map_def ok(9))
  next
    case (2 s)
    obtain A where "SearchTable ops t k (live_hash ops k) op
      = Some (t\<lparr>entryStore := if op = PL_DHASH_ADD then mark A (entryStore t) else entryStore t\<rparr>, s)"
      by (rule search_present [OF assms(1) ok(1-3) 2(2)])
    then show ?thesis
      using that [of s] 2 assms(3) same by (simp add: dh_map_def live_at_def)
  qed
qed

text \<open>The change of the table's logarithm that an add asks for when the table is loaded: none when a quarter of it are
  removed entries.\<close>

definition grow_by :: "'e PLDHashTable \<Rightarrow> nat" where
  "grow_by t = (if 2 ^ sizeLog2 t div 4 \<le> removeds (entryStore t) then 0 else 1)"

text \<open>Room for one more entry, as \<open>Operate_grow\<close> leaves it.\<close>

lemma max_load:
  assumes "unat sz \<le> 2 ^ 23" "0 < unat sz"
  shows "unat (MAX_LOAD t sz) < unat sz"
proof -
  have "unat (maxAlphaFrac t) * unat sz \<le> 255 * 2 ^ 23"
    using unat_u8_less [of "maxAlphaFrac t"] assms(1) by (intro mult_le_mono) simp_all
  then have "unat (MAX_LOAD t sz) = unat (maxAlphaFrac t) * unat sz div 256"
    using unat_u8_less [of "maxAlphaFrac t"] by (simp add: MAX_LOAD_def unat_drop_bit_div unat_word_ariths unsigned_ucast_eq take_bit_eq_mod)
  also have "\<dots> < unat sz"
    using unat_u8_less [of "maxAlphaFrac t"] assms(2) by (simp add: less_mult_imp_div_less mult.commute)
  finally show ?thesis .
qed

lemma min_load:
  assumes "unat sz \<le> 2 ^ 23" "unat (minAlphaFrac t) < 128" "0 < unat sz" "even (unat sz)"
  shows "unat (MIN_LOAD t sz) < unat sz div 2"
proof -
  have "unat (minAlphaFrac t) * unat sz \<le> 127 * 2 ^ 23"
    using assms(1,2) by (intro mult_le_mono) simp_all
  then have "unat (MIN_LOAD t sz) = unat (minAlphaFrac t) * unat sz div 256"
    using assms(2) by (simp add: MIN_LOAD_def unat_drop_bit_div unat_word_ariths unsigned_ucast_eq take_bit_eq_mod)
  also have "\<dots> < unat sz div 2"
  proof -
    have "unat (minAlphaFrac t) * unat sz < 128 * unat sz" using assms(2,3) by simp
    also have "\<dots> = unat sz div 2 * 256" using assms(4) by auto
    finally show ?thesis by (rule less_mult_imp_div_less)
  qed
  finally show ?thesis .
qed

lemma grow_spec:
  fixes t :: "'e PLDHashTable"
  assumes "dhash_client ops" "table_ok ops t"
  obtains b t' where "Operate_grow ops alloc t = Some (b, t')" "table_ok ops t'" "dh_map ops t' = dh_map ops t"
    "b \<Longrightarrow> lives (entryStore t') + removeds (entryStore t') + 1 < 2 ^ sizeLog2 t'"
    "\<not> b \<Longrightarrow> t' = t \<and> lives (entryStore t) + removeds (entryStore t) + 1 = 2 ^ sizeLog2 t"
    "\<not> b \<Longrightarrow> ChangeTable ops alloc t (int (grow_by t)) = Some (False, t)
      \<and> \<not> (sizeLog2 t + grow_by t < 24 \<and> alloc (2 ^ (sizeLog2 t + grow_by t) * entrySize t))"
proof -
  note ok = table_okD [OF assms(2)]
  obtain sz where sz: "PL_DHASH_TABLE_SIZE t = Some sz" "unat sz = 2 ^ sizeLog2 t"
    using assms(2) by (auto simp: table_ok_def elim: table_size)
  have ml: "unat (MAX_LOAD t sz) < 2 ^ sizeLog2 t"
    using max_load [of sz t] pow23 [OF ok(7)] by (simp add: sz(2))
  have sz1: "unat (sz - 1) = 2 ^ sizeLog2 t - 1"
  proof -
    have "sz \<noteq> 0" using sz(2) by auto
    then show ?thesis by (simp add: unat_minus_one sz(2))
  qed
  show ?thesis
  proof (cases "entryCount t + removedCount t \<ge> MAX_LOAD t sz")
    case False
    then have "lives (entryStore t) + removeds (entryStore t) + 1 < 2 ^ sizeLog2 t"
      using ml table_counts(1) [OF assms(2)] by (simp add: word_le_nat_alt)
    then show ?thesis
      using that [of True t] False assms(2) sz(1) by (simp add: Operate_grow_def)
  next
    case True
    define d where "d = (if removedCount t \<ge> drop_bit 2 sz then 0 else 1 :: int)"
    define n where "n = nat (int (sizeLog2 t) + d)"
    have n: "n = (if removedCount t \<ge> drop_bit 2 sz then sizeLog2 t else Suc (sizeLog2 t))"
      by (simp add: n_def d_def nat_add_distrib)
    have gb: "d = int (grow_by t)"
      using ok(6) by (simp add: d_def grow_by_def word_le_nat_alt unat_drop_bit_div sz(2))
    then have ng: "n = sizeLog2 t + grow_by t" by (simp add: n_def nat_int_add)
    have n24: "4 \<le> n" "n \<le> 24" using ok(7,8) by (auto simp: n)
    have lt: "lives (entryStore t) < 2 ^ n" using ok(4) by (auto simp: n)
    obtain b t' where c: "ChangeTable ops alloc t d = Some (b, t')" "table_ok ops t'"
      "dh_map ops t' = dh_map ops t" "\<not> b \<Longrightarrow> t' = t"
      "b \<Longrightarrow> sizeLog2 t' = n \<and> removedCount t' = 0 \<and> entryCount t' = entryCount t \<and> n < 24"
      "b \<longleftrightarrow> n < 24 \<and> alloc (2 ^ n * entrySize t)"
      by (rule ChangeTable_spec [OF assms n_def [symmetric] n24 lt]) (rule that)
    have g: "Operate_grow ops alloc t = Some (b \<or> entryCount t' + removedCount t' \<noteq> sz - 1, t')"
      using True sz(1) c(1) by (simp add: Operate_grow_def d_def Let_def)
    show ?thesis
    proof (cases b)
      case True
      note ok' = table_okD [OF c(2)] and b = c(5) [OF True]
      have r0: "removeds (entryStore t') = 0" using ok'(6) b by simp
      have le: "lives (entryStore t') = lives (entryStore t)" using ok'(5) ok(5) b by simp
      have "lives (entryStore t) + 1 < 2 ^ n"
      proof (cases "removedCount t \<ge> drop_bit 2 sz")
        case True
        then have "2 ^ sizeLog2 t div 4 \<le> removeds (entryStore t)"
          using ok(6) by (simp add: word_le_nat_alt unat_drop_bit_div sz(2))
        moreover have "(2 :: nat) ^ 4 \<le> 2 ^ sizeLog2 t" using ok(8) by (rule power_increasing) simp
        ultimately show ?thesis using ok(4) True by (simp add: n)
      next
        case False
        then show ?thesis using ok(4) by (simp add: n)
      qed
      then show ?thesis using that [of True t'] g True c(2,3) b r0 le by simp
    next
      case False
      then have t': "t' = t" using c(4) by simp
      have iff: "entryCount t + removedCount t \<noteq> sz - 1 \<longleftrightarrow> lives (entryStore t) + removeds (entryStore t) + 1 < 2 ^ sizeLog2 t"
        using table_counts(1) [OF assms(2)] ok(4) by (auto simp: word_unat_eq_iff sz1)
      have g': "Operate_grow ops alloc t = Some (entryCount t + removedCount t \<noteq> sz - 1, t)"
        using g False t' by simp
      show ?thesis
      proof (rule that [OF g' assms(2) refl])
        show "ChangeTable ops alloc t (int (grow_by t)) = Some (False, t)
            \<and> \<not> (sizeLog2 t + grow_by t < 24 \<and> alloc (2 ^ (sizeLog2 t + grow_by t) * entrySize t))"
          using c(1,6) False unfolding t' gb ng by simp
      qed (use iff ok(4) in \<open>simp; linarith\<close>)+
    qed
  qed
qed


lemma table_ok_fill:
  assumes "table_ok ops t" "live_at ops (entryStore t) i k" "getKey ops d = k"
  shows "table_ok ops (fill t i d)" "dh_map ops (fill t i d) = (dh_map ops t)(k \<mapsto> d)"
proof -
  note ok = table_okD [OF assms(1)]
  let ?e = "(entryStore t ! i)\<lparr>payload := d\<rparr>"
  have i: "i < length (entryStore t)" "ENTRY_IS_LIVE (entryStore t ! i)" using assms(2) by (simp_all add: live_at_def)
  have so: "store_ok ops (sizeLog2 t) ((entryStore t)[i := ?e])"
    by (rule store_ok_payload [OF ok(1) assms(2,3)])
  have k: "ENTRY_IS_LIVE ?e" "\<not> ENTRY_IS_REMOVED ?e" "\<not> ENTRY_IS_REMOVED (entryStore t ! i)"
    using i(2) kinds_disjoint(3) by (auto simp: ENTRY_IS_LIVE_def ENTRY_IS_REMOVED_def)
  have c: "lives ((entryStore t)[i := ?e]) = lives (entryStore t)" "removeds ((entryStore t)[i := ?e]) = removeds (entryStore t)"
    using lives_update [OF i(1), of ?e] removeds_update [OF i(1), of ?e] i k by simp_all
  show "table_ok ops (fill t i d)"
    using assms(1) so c by (simp add: table_ok_def fill_def)
  show "dh_map ops (fill t i d) = (dh_map ops t)(k \<mapsto> d)"
    using store_map_set [OF ok(1) so i(1) k(1), of k] assms(2,3) by (simp add: dh_map_def fill_def live_at_def)
qed

lemma table_ok_mark:
  assumes "table_ok ops t"
  shows "table_ok ops (t\<lparr>entryStore := mark A (entryStore t)\<rparr>)"
    "dh_map ops (t\<lparr>entryStore := mark A (entryStore t)\<rparr>) = dh_map ops t"
  using assms table_okD(1) [OF assms] store_ok_mark [OF table_okD(1) [OF assms]]
  by (simp_all add: table_ok_def dh_map_def)

lemma Operate_add_spec:
  fixes t :: "'e PLDHashTable"
  assumes "dhash_client ops" "table_ok ops t"
    and room: "lives (entryStore t) + removeds (entryStore t) + 1 < 2 ^ sizeLog2 t"
  obtains t' i where "Operate_add ops t k = Some (t', Some i)"
    "i < length (entryStore t')" "ENTRY_IS_LIVE (entryStore t' ! i)"
    "\<And>d. dh_map ops t k = Some d \<Longrightarrow> payload (entryStore t' ! i) = d"
    "\<And>d. getKey ops d = k \<Longrightarrow> table_ok ops (fill t' i d) \<and> dh_map ops (fill t' i d) = (dh_map ops t)(k \<mapsto> d)"
proof -
  note ok = table_okD [OF assms(2)]
  show ?thesis
  proof (cases rule: store_map_cases [OF ok(1), of k])
    case (2 s)
    obtain A where "SearchTable ops t k (live_hash ops k) PL_DHASH_ADD
      = Some (t\<lparr>entryStore := if PL_DHASH_ADD = PL_DHASH_ADD then mark A (entryStore t) else entryStore t\<rparr>, s)"
      by (rule search_present [OF assms(1) ok(1-3) 2(2)])
    then have s: "SearchTable ops t k (live_hash ops k) PL_DHASH_ADD = Some (t\<lparr>entryStore := mark A (entryStore t)\<rparr>, s)"
      by simp
    have m: "s < length (entryStore t)" "ENTRY_IS_LIVE (mark A (entryStore t) ! s)"
      "payload (mark A (entryStore t) ! s) = payload (entryStore t ! s)"
      using 2(2) by (auto simp: live_at_def mark_nth)
    have l: "live_at ops (entryStore (t\<lparr>entryStore := mark A (entryStore t)\<rparr>)) s k" using 2(2) by simp
    show ?thesis
    proof (rule that [of "t\<lparr>entryStore := mark A (entryStore t)\<rparr>" s])
      show "Operate_add ops t k = Some (t\<lparr>entryStore := mark A (entryStore t)\<rparr>, Some s)"
        using m s by (simp add: Operate_add_def Let_def rd_def)
      show "table_ok ops (fill (t\<lparr>entryStore := mark A (entryStore t)\<rparr>) s d)
          \<and> dh_map ops (fill (t\<lparr>entryStore := mark A (entryStore t)\<rparr>) s d) = (dh_map ops t)(k \<mapsto> d)"
        if "getKey ops d = k" for d
        using table_ok_fill [OF table_ok_mark(1) [OF assms(2)] l that] table_ok_mark(2) [OF assms(2)] by simp
    qed (use m 2(1) in \<open>simp_all add: dh_map_def\<close>)
  next
    case 1
    obtain A r where s: "SearchTable ops t k (live_hash ops k) PL_DHASH_ADD = Some (t\<lparr>entryStore := mark A (entryStore t)\<rparr>, r)"
      and r: "r < 2 ^ sizeLog2 t" "\<not> ENTRY_IS_LIVE (mark A (entryStore t) ! r)"
      and rem: "ENTRY_IS_REMOVED (mark A (entryStore t) ! r) \<Longrightarrow> removeds (entryStore t) > 0"
      and new: "\<And>e :: 'e PLDHashEntryHdr. getKey ops (payload e) = k \<Longrightarrow>
         keyHash e = (if ENTRY_IS_REMOVED (mark A (entryStore t) ! r) then live_hash ops k OR COLLISION_FLAG else live_hash ops k) \<Longrightarrow>
         ENTRY_IS_LIVE e \<and> store_ok ops (sizeLog2 t) ((mark A (entryStore t))[r := e]) \<and>
         store_map ops ((mark A (entryStore t))[r := e]) = (store_map ops (entryStore t))(k \<mapsto> payload e) \<and>
         lives ((mark A (entryStore t))[r := e]) = lives (entryStore t) + 1 \<and>
         removeds ((mark A (entryStore t))[r := e]) = removeds (entryStore t) - of_bool (ENTRY_IS_REMOVED (mark A (entryStore t) ! r))"
      by (rule add_absent [OF assms(1) ok(1-3) 1(1) ok(4)]) (rule that)
    let ?rm = "ENTRY_IS_REMOVED (mark A (entryStore t) ! r)"
    define h where "h = (if ?rm then live_hash ops k OR COLLISION_FLAG else live_hash ops k)"
    define data where "data = (case initEntry ops of None \<Rightarrow> payload (mark A (entryStore t) ! r)
        | Some f \<Rightarrow> snd (f (payload (mark A (entryStore t) ! r)) k))"
    define t' where "t' = t\<lparr>removedCount := removedCount t - of_bool ?rm, entryCount := entryCount t + 1,
      entryStore := (mark A (entryStore t))[r := \<lparr>keyHash = h, payload = data\<rparr>]\<rparr>"
    have len: "r < length (mark A (entryStore t))" using r(1) ok(9) by simp
    have init: "(case initEntry ops of None \<Rightarrow> (True, payload (mark A (entryStore t) ! r))
        | Some f \<Rightarrow> f (payload (mark A (entryStore t) ! r)) k) = (True, data)"
      using assms(1) by (auto simp: dhash_client_def data_def prod_eq_iff split: option.splits)
    have add: "Operate_add ops t k = Some (t', Some r)"
      using s len r(2) by (simp add: Operate_add_def Let_def rd_def init t'_def h_def)
    have "fill t' r d = t\<lparr>removedCount := removedCount t - of_bool ?rm, entryCount := entryCount t + 1,
      entryStore := (mark A (entryStore t))[r := \<lparr>keyHash = h, payload = d\<rparr>]\<rparr>" for d
      using len by (simp add: fill_def t'_def)
    moreover have "unat (entryCount t + 1) = lives (entryStore t) + 1"
      using ok(5) table_counts(2) [OF assms(2)] by (simp add: unat_word_ariths)
    moreover have "unat (removedCount t - of_bool ?rm) = removeds (entryStore t) - of_bool ?rm"
      using ok(6) rem by (cases ?rm) (auto simp: unat_sub_if_size)
    ultimately have f: "table_ok ops (fill t' r d) \<and> dh_map ops (fill t' r d) = (dh_map ops t)(k \<mapsto> d)"
      if "getKey ops d = k" for d
      using new [of "\<lparr>keyHash = h, payload = d\<rparr>"] that assms(2) room
      by (auto simp: table_ok_def dh_map_def h_def)
    have "ENTRY_IS_LIVE (entryStore t' ! r)"
      using live_hash_ge2 [of ops k] le_word_or2 [of "live_hash ops k" 1] order_trans len
      by (auto simp: t'_def h_def ENTRY_IS_LIVE_def)
    then show ?thesis
      using that [OF add] f 1(1) len by (simp add: t'_def dh_map_def)
  qed
qed


lemma RawRemove_spec:
  assumes "table_ok ops t" "live_at ops (entryStore t) i k"
  obtains t' where "PL_DHashTableRawRemove ops t i = Some t'" "table_ok ops t'" "hashShift t' = hashShift t"
    "dh_map ops t' = (dh_map ops t)(k := None)" "minAlphaFrac t' = minAlphaFrac t"
    "\<exists>e. entryStore t' = (entryStore t)[i := e] \<and> \<not> ENTRY_IS_LIVE e"
proof -
  note ok = table_okD [OF assms(1)]
  let ?es = "entryStore t"
  have i: "i < length ?es" "i < 2 ^ sizeLog2 t" "ENTRY_IS_LIVE (?es ! i)"
    using assms(2) ok(9) by (simp_all add: live_at_def)
  have nr: "\<not> ENTRY_IS_REMOVED (?es ! i)" using i(3) kinds_disjoint(3) by blast
  let ?o = "odd (keyHash (?es ! i))"
  define e where "e = \<lparr>keyHash = (if ?o then 1 else 0), payload = clearEntry ops (payload (?es ! i))\<rparr>"
  define t' where "t' = t\<lparr>entryStore := ?es[i := e], removedCount := removedCount t + of_bool ?o, entryCount := entryCount t - 1\<rparr>"
  have k: "\<not> ENTRY_IS_LIVE e" "ENTRY_IS_REMOVED e \<longleftrightarrow> ?o"
    by (simp_all add: e_def ENTRY_IS_LIVE_def ENTRY_IS_REMOVED_def)
  have so: "store_ok ops (sizeLog2 t) (?es[i := e])" by (rule store_ok_remove [OF ok(1) i(2)]) (simp add: e_def)
  have l: "Suc (lives (?es[i := e])) = lives ?es" "removeds (?es[i := e]) = removeds ?es + of_bool ?o"
    using lives_update [OF i(1), of e] removeds_update [OF i(1), of e] i(3) nr k by simp_all
  have "PL_DHashTableRawRemove ops t i = Some t'"
    using i(1) by (simp add: PL_DHashTableRawRemove_def rd_def Let_def t'_def e_def and_one_eq odd_iff_mod_2_eq_one)
  moreover have "table_ok ops t'"
  proof -
    have "unat (entryCount t) \<noteq> 0" using ok(5) l(1) by simp
    then have "unat (entryCount t - 1) = lives (?es[i := e])"
      using ok(5) l(1) by (subst unat_minus_one) auto
    moreover have "unat (removedCount t + of_bool ?o) = removeds (?es[i := e])"
      using ok(6) l(2) table_counts(2) [OF assms(1)] by (simp add: unat_word_ariths)
    ultimately show ?thesis
      using assms(1) so l by (auto simp: table_ok_def t'_def)
  qed
  moreover have "dh_map ops t' = (dh_map ops t)(k := None)"
    using store_map_clear [OF ok(1) so assms(2) k(1)] by (simp add: dh_map_def t'_def)
  ultimately show ?thesis using that k(1) by (simp add: t'_def) blast
qed

lemma shrink_to:
  assumes "dhash_client ops" "table_ok ops t"
    and "unat sz = 2 ^ sizeLog2 t" "sz > PL_DHASH_MIN_SIZE" "entryCount t \<le> MIN_LOAD t sz"
  shows "5 \<le> sizeLog2 t" "lives (entryStore t) < 2 ^ (sizeLog2 t - 1)"
proof -
  note ok = table_okD [OF assms(2)]
  have "(2 :: nat) ^ 4 < 2 ^ sizeLog2 t" using assms(3,4) by (simp add: word_less_nat_alt)
  then have "4 < sizeLog2 t" using power_less_imp_less_exp [of "2 :: nat" 4 "sizeLog2 t"] by simp
  then show L: "5 \<le> sizeLog2 t" by simp
  obtain j where j: "sizeLog2 t = Suc j" using L by (cases "sizeLog2 t") auto
  have "unat (MIN_LOAD t sz) < unat sz div 2"
    using assms(2,3) pow23 [OF ok(7)] by (intro min_load) (auto simp: table_ok_def j)
  then show "lives (entryStore t) < 2 ^ (sizeLog2 t - 1)"
    using assms(3,5) ok(5) by (simp add: j word_le_nat_alt)
qed

lemma ref_remove_spec:
  fixes t :: "'e PLDHashTable"
  assumes "dhash_client ops" "table_ok ops t"
  obtains t' where "Operate_remove ops alloc t k = Some (t', None)" "table_ok ops t'"
    "dh_map ops t' = (dh_map ops t)(k := None)"
proof -
  note ok = table_okD [OF assms(2)]
  obtain i where i: "SearchTable ops t k (live_hash ops k) PL_DHASH_REMOVE = Some (t, i)" "i < length (entryStore t)"
    "case dh_map ops t k of None \<Rightarrow> ENTRY_IS_FREE (entryStore t ! i)
     | Some d \<Rightarrow> live_at ops (entryStore t) i k \<and> payload (entryStore t ! i) = d"
    by (rule search_lookup [OF assms, of PL_DHASH_REMOVE]) (simp, rule that)
  show ?thesis
  proof (cases "dh_map ops t k")
    case None
    then have "Operate_remove ops alloc t k = Some (t, None)"
      using i kinds_disjoint(2) by (auto simp: Operate_remove_def rd_def)
    then show ?thesis using that [of t] assms(2) None by (simp add: fun_upd_idem)
  next
    case (Some d)
    then have l: "live_at ops (entryStore t) i k" using i(3) by simp
    obtain t1 where t1: "PL_DHashTableRawRemove ops t i = Some t1" "table_ok ops t1" "hashShift t1 = hashShift t"
      "dh_map ops t1 = (dh_map ops t)(k := None)"
      by (rule RawRemove_spec [OF assms(2) l]) (rule that)
    obtain sz where sz: "PL_DHASH_TABLE_SIZE t1 = Some sz" "unat sz = 2 ^ sizeLog2 t1"
      using t1(2) by (auto simp: table_ok_def elim: table_size)
    have live: "ENTRY_IS_LIVE (entryStore t ! i)" using l by (simp add: live_at_def)
    show ?thesis
    proof (cases "sz > PL_DHASH_MIN_SIZE \<and> entryCount t1 \<le> MIN_LOAD t1 sz")
      case False
      then have "Operate_remove ops alloc t k = Some (t1, None)"
        using i(1,2) live t1(1) sz(1) by (simp only: Operate_remove_def bind.bind_lunit rd_def if_True case_prod_conv if_False)
      then show ?thesis using that t1 by blast
    next
      case True
      note sh = shrink_to [OF assms(1) t1(2) sz(2) conjunct1 [OF True] conjunct2 [OF True]]
      have n: "nat (int (sizeLog2 t1) + -1) = sizeLog2 t1 - 1" by simp
      have n24: "4 \<le> sizeLog2 t1 - 1" "sizeLog2 t1 - 1 \<le> 24" using sh(1) table_okD(7) [OF t1(2)] by linarith+
      obtain b t2 where c: "ChangeTable ops alloc t1 (-1) = Some (b, t2)" "table_ok ops t2" "dh_map ops t2 = dh_map ops t1"
        by (rule ChangeTable_spec [OF assms(1) t1(2) n n24 sh(2)]) (rule that)
      then have "Operate_remove ops alloc t k = Some (t2, None)"
        using i(1,2) live t1(1) sz(1) True
        by (simp only: Operate_remove_def bind.bind_lunit rd_def if_True case_prod_conv simp_thms)
      then show ?thesis using that c t1(4) by simp
    qed
  qed
qed

lemma ref_init_spec:
  assumes "0 < unat esize" "unat esize < 512" "unat capacity \<le> 2 ^ 31"
  shows "let n = PR_CeilingLog2 (if capacity < PL_DHASH_MIN_SIZE then PL_DHASH_MIN_SIZE else capacity) in
    if n \<le> 23 \<and> alloc (2 ^ n * esize)
    then \<exists>t. PL_DHashTableInit ops alloc esize capacity = Some (Some t) \<and> table_ok ops t
         \<and> dh_map ops t = Map.empty \<and> length (entryStore t) = 2 ^ n
    else PL_DHashTableInit ops alloc esize capacity = Some None"
proof -
  define c where "c = (if capacity < PL_DHASH_MIN_SIZE then PL_DHASH_MIN_SIZE else capacity)"
  define n where "n = PR_CeilingLog2 c"
  have c: "16 \<le> unat c" "unat c \<le> 2 ^ 31" "c \<noteq> 0"
    using assms(3) by (auto simp: c_def word_less_nat_alt)
  have n31: "n \<le> 31" using CeilingLog2_bounds(2) [OF c(3), of 31] c(2) by (simp add: n_def)
  have "(2 :: nat) ^ 4 \<le> 2 ^ n" using CeilingLog2_bounds(1) [OF c(3)] c(1) by (simp add: n_def)
  then have n4: "4 \<le> n" using power_le_imp_le_exp [of "2 :: nat" 4 n] by simp
  have lim: "(2 ^ n :: u32) \<ge> PL_DHASH_SIZE_LIMIT \<longleftrightarrow> 24 \<le> n"
  proof -
    have "(16777216 :: nat) \<le> 2 ^ n \<longleftrightarrow> (2 :: nat) ^ 24 \<le> 2 ^ n" by simp
    also have "\<dots> \<longleftrightarrow> 24 \<le> n" by (rule power_increasing_iff) simp
    finally show ?thesis using n31 by (simp add: word_le_nat_alt unat_2pow)
  qed
  have init: "PL_DHashTableInit ops alloc esize capacity = (if 24 \<le> n \<or> \<not> alloc (2 ^ n * esize) then Some None
      else Some (Some \<lparr>hashShift = 32 - n, maxAlphaFrac = 0xC0, minAlphaFrac = 0x40,
           entrySize = esize, entryCount = 0, removedCount = 0, generation = 0,
           entryStore = zero_store ops (2 ^ n * esize) esize\<rparr>))"
    using n31 lim by (simp add: PL_DHashTableInit_def Let_def c_def [symmetric] n_def [symmetric] PR_BIT_def)
  show ?thesis
  proof (cases "n \<le> 23 \<and> alloc (2 ^ n * esize)")
    case True
    have z: "zero_store ops (2 ^ n * esize) esize = replicate (2 ^ n) \<lparr>keyHash = 0, payload = zeroed ops\<rparr>"
      using zero_store_ok [OF _ assms(1,2), of n ops] True by (simp add: push_bit_of_1)
    have "9 \<le> 32 - n" "32 - n \<le> 28" "32 - (32 - n) = n" using True n4 by linarith+
    then have "table_ok ops \<lparr>hashShift = 32 - n, maxAlphaFrac = 0xC0, minAlphaFrac = 0x40,
           entrySize = esize, entryCount = 0, removedCount = 0, generation = 0,
           entryStore = zero_store ops (2 ^ n * esize) esize\<rparr>"
      using assms(1,2) by (simp add: table_ok_def z store_ok_empty)
    then show ?thesis
      using True init by (simp add: Let_def c_def [symmetric] n_def [symmetric] dh_map_def z store_ok_empty)
  next
    case False
    then show ?thesis using init by (auto simp: Let_def c_def [symmetric] n_def [symmetric])
  qed
qed


subsection \<open>Enumeration\<close>

text \<open>
  What an enumeration means, on the list of the payloads: what it leaves, the number it
  visits, and the state of the enumerator at the end.
\<close>

fun visit :: "('e \<Rightarrow> u32 \<Rightarrow> 's \<Rightarrow> u32 \<times> 'e \<times> 's) \<Rightarrow> u32 \<Rightarrow> 's \<Rightarrow> 'e list \<Rightarrow> 'e list \<times> u32 \<times> 's" where
  "visit etor i arg [] = ([], i, arg)"
| "visit etor i arg (d # ds) = (
     let (op, d', arg') = etor d i arg;
         kept = (if op AND 2 \<noteq> 0 then [] else [d']);
         (rest, n, arg'') = (if op AND 1 \<noteq> 0 then (ds, i + 1, arg') else visit etor (i + 1) arg' ds)
     in (kept @ rest, n, arg''))"

definition live_payloads :: "'e PLDHashEntryHdr list \<Rightarrow> 'e list" where
  "live_payloads es = map payload (filter ENTRY_IS_LIVE es)"

definition assoc_of :: "('k, 'e) PLDHashTableOps \<Rightarrow> 'e list \<Rightarrow> 'k \<rightharpoonup> 'e" where
  "assoc_of ops ds = map_of (map (\<lambda>d. (getKey ops d, d)) ds)"

lemma dh_map_assoc: "dh_map ops t = assoc_of ops (live_payloads (entryStore t))"
  unfolding dh_map_def map_of_live_assoc [symmetric] assoc_of_def live_payloads_def live_assoc_def
  by (simp add: comp_def)

lemma live_payloads_split:
  assumes "j < length es"
  shows "live_payloads es = live_payloads (take j es)
    @ (if ENTRY_IS_LIVE (es ! j) then [payload (es ! j)] else []) @ live_payloads (drop (Suc j) es)"
proof -
  have "es = take j es @ es ! j # drop (Suc j) es" using assms by (rule id_take_nth_drop)
  then have "live_payloads es = live_payloads (take j es @ es ! j # drop (Suc j) es)" by simp
  then show ?thesis by (simp add: live_payloads_def)
qed

lemma Enumerate_loop_spec:
  assumes "table_ok ops t" "j + k = 2 ^ sizeLog2 t"
    and "\<And>d i a. getKey ops (fst (snd (etor d i a))) = getKey ops d"
  shows "\<exists>t2 did. Enumerate_loop ops etor k j i did0 arg t
      = Some (t2, fst (snd (visit etor i arg (live_payloads (drop j (entryStore t))))), did,
          snd (snd (visit etor i arg (live_payloads (drop j (entryStore t))))))
    \<and> table_ok ops t2 \<and> sizeLog2 t2 = sizeLog2 t
    \<and> live_payloads (entryStore t2) = live_payloads (take j (entryStore t))
        @ fst (visit etor i arg (live_payloads (drop j (entryStore t))))"
  using assms(1,2)
proof (induction k arbitrary: j i did0 arg t)
  case 0
  then have "length (entryStore t) \<le> j" using table_okD(9) [OF 0(1)] by simp
  then show ?case using 0 by (simp add: live_payloads_def)
next
  case (Suc k)
  let ?es = "entryStore t"
  have j: "j < length ?es" using Suc.prems table_okD(9) by fastforce
  have dr: "drop j ?es = ?es ! j # drop (Suc j) ?es" using j by (rule Cons_nth_drop_Suc [symmetric])
  have jk: "Suc j + k = 2 ^ sizeLog2 t" using Suc.prems(2) by simp
  show ?case
  proof (cases "ENTRY_IS_LIVE (?es ! j)")
    case False
    have "live_payloads (take (Suc j) ?es) = live_payloads (take j ?es)"
      "live_payloads (drop j ?es) = live_payloads (drop (Suc j) ?es)"
      using False j by (simp_all add: live_payloads_def take_Suc_conv_app_nth dr)
    then show ?thesis
      using Suc.IH [OF Suc.prems(1) jk, of i did0 arg] False j by (simp add: rd_def)
  next
    case True
    obtain op d' arg' where e: "etor (payload (?es ! j)) i arg = (op, d', arg')" by (cases "etor (payload (?es ! j)) i arg")
    let ?k = "getKey ops (payload (?es ! j))"
    have l: "live_at ops ?es j ?k" using True j by (simp add: live_at_def)
    have dk: "getKey ops d' = ?k" using assms(3) [of "payload (?es ! j)" i arg] e by simp
    define t1 where "t1 = fill t j d'"
    have t1: "table_ok ops t1" "hashShift t1 = hashShift t" "entryStore t1 = ?es[j := (?es ! j)\<lparr>payload := d'\<rparr>]"
      using table_ok_fill(1) [OF Suc.prems(1) l dk] by (simp_all add: t1_def fill_def)
    have l1: "live_at ops (entryStore t1) j ?k" using True j dk by (simp add: live_at_def t1(3) ENTRY_IS_LIVE_def)
    obtain t2 where t2: "(if op AND 2 \<noteq> 0 then PL_DHashTableRawRemove ops t1 j else Some t1) = Some t2"
      "table_ok ops t2" "sizeLog2 t2 = sizeLog2 t"
      "\<exists>e. entryStore t2 = ?es[j := e] \<and> (if op AND 2 \<noteq> 0 then \<not> ENTRY_IS_LIVE e else ENTRY_IS_LIVE e \<and> payload e = d')"
    proof (cases "op AND 2 \<noteq> 0")
      case True
      obtain t3 where "PL_DHashTableRawRemove ops t1 j = Some t3" "table_ok ops t3" "hashShift t3 = hashShift t1"
        "\<exists>e. entryStore t3 = (entryStore t1)[j := e] \<and> \<not> ENTRY_IS_LIVE e"
        by (rule RawRemove_spec [OF t1(1) l1]) (rule that)
      with True t1 that [of t3] show ?thesis by auto
    next
      case False
      have "\<exists>e. entryStore t1 = ?es[j := e] \<and> ENTRY_IS_LIVE e \<and> payload e = d'"
        by (rule exI [of _ "(?es ! j)\<lparr>payload := d'\<rparr>"]) (use True t1(3) in \<open>simp add: ENTRY_IS_LIVE_def\<close>)
      with False t1 that [of t1] show ?thesis by simp
    qed
    obtain e2 where e2: "entryStore t2 = ?es[j := e2]"
      "if op AND 2 \<noteq> 0 then \<not> ENTRY_IS_LIVE e2 else ENTRY_IS_LIVE e2 \<and> payload e2 = d'" using t2(4) by blast
    let ?kept = "if op AND 2 \<noteq> 0 then [] else [d']"
    have dp: "live_payloads (drop j ?es) = payload (?es ! j) # live_payloads (drop (Suc j) ?es)"
      using True by (simp add: dr live_payloads_def)
    have d2: "drop (Suc j) (entryStore t2) = drop (Suc j) ?es" by (simp add: e2(1))
    have tk: "live_payloads (take (Suc j) (entryStore t2)) = live_payloads (take j ?es) @ ?kept"
      using j e2 by (simp add: take_Suc_conv_app_nth live_payloads_def split: if_splits)
    have lp: "live_payloads (entryStore t2) = live_payloads (take (Suc j) (entryStore t2)) @ live_payloads (drop (Suc j) (entryStore t2))"
      by (metis append_take_drop_id filter_append live_payloads_def map_append)
    have step: "Enumerate_loop ops etor (Suc k) j i did0 arg t =
        (if op AND 1 \<noteq> 0 then Some (t2, i + 1, did0 \<or> op AND 2 \<noteq> 0, arg')
         else Enumerate_loop ops etor k (Suc j) (i + 1) (did0 \<or> op AND 2 \<noteq> 0) arg' t2)"
      using True j e t2(1) unfolding t1_def fill_def by (simp add: rd_def Let_def split: if_splits)
    show ?thesis
    proof (cases "op AND 1 \<noteq> 0")
      case True
      then show ?thesis using step t2(2,3) lp tk d2 by (simp add: dp e)
    next
      case False
      obtain t3 did where t3: "Enumerate_loop ops etor k (Suc j) (i + 1) (did0 \<or> op AND 2 \<noteq> 0) arg' t2
          = Some (t3, fst (snd (visit etor (i + 1) arg' (live_payloads (drop (Suc j) ?es)))), did,
              snd (snd (visit etor (i + 1) arg' (live_payloads (drop (Suc j) ?es)))))"
        "table_ok ops t3" "sizeLog2 t3 = sizeLog2 t2"
        "live_payloads (entryStore t3) = live_payloads (take (Suc j) (entryStore t2))
          @ fst (visit etor (i + 1) arg' (live_payloads (drop (Suc j) ?es)))"
        using Suc.IH [OF t2(2), of "Suc j" "i + 1" "did0 \<or> op AND 2 \<noteq> 0" arg'] jk t2(3) d2 by auto
      then show ?thesis using step False t2(3) tk by (auto simp: dp e split: prod.splits)
    qed
  qed
qed

lemma grown_capacity:
  assumes "unat c < 2 ^ 23"
  defines "cap \<equiv> (if c + drop_bit 1 c < PL_DHASH_MIN_SIZE then PL_DHASH_MIN_SIZE else c + drop_bit 1 c)"
  shows "4 \<le> PR_CeilingLog2 cap" "PR_CeilingLog2 cap \<le> 24" "unat c < 2 ^ PR_CeilingLog2 cap"
proof -
  have "unat (c + drop_bit 1 c) = unat c + unat c div 2"
    using assms(1) by (simp add: unat_word_ariths unat_drop_bit_div [of 1, simplified])
  then have cap: "16 \<le> unat cap" "unat c < unat cap" "unat cap \<le> 2 ^ 24"
    using assms(1) by (auto simp: cap_def word_less_nat_alt)
  then have nz: "cap \<noteq> 0" by auto
  note b = CeilingLog2_bounds [OF nz]
  have "(2 :: nat) ^ 4 \<le> 2 ^ PR_CeilingLog2 cap" using b(1) cap(1) by simp
  then show "4 \<le> PR_CeilingLog2 cap" using power_le_imp_le_exp [of "2 :: nat" 4] by simp
  show "PR_CeilingLog2 cap \<le> 24" using b(2) cap(3) .
  show "unat c < 2 ^ PR_CeilingLog2 cap" using b(1) cap(2) by simp
qed

lemma ref_enumerate_spec:
  fixes t :: "'e PLDHashTable"
  assumes "dhash_client ops" "table_ok ops t"
    and "\<And>d i a. getKey ops (fst (snd (etor d i a))) = getKey ops d"
  obtains t' where "PL_DHashTableEnumerate ops alloc etor arg t
      = Some (t', snd (visit etor 0 arg (live_payloads (entryStore t))))"
    "table_ok ops t'" "dh_map ops t' = assoc_of ops (fst (visit etor 0 arg (live_payloads (entryStore t))))"
proof -
  let ?v = "visit etor 0 arg (live_payloads (entryStore t))"
  obtain sz where sz: "PL_DHASH_TABLE_SIZE t = Some sz" "unat sz = 2 ^ sizeLog2 t"
    using assms(2) by (auto simp: table_ok_def elim: table_size)
  have "0 + unat sz = 2 ^ sizeLog2 t" by (simp add: sz(2))
  from Enumerate_loop_spec [of ops t 0 "unat sz" etor 0 False arg, OF assms(2) this assms(3)]
  obtain t1 did where t1: "Enumerate_loop ops etor (unat sz) 0 0 False arg t = Some (t1, fst (snd ?v), did, snd (snd ?v))"
    "table_ok ops t1" "sizeLog2 t1 = sizeLog2 t" "live_payloads (entryStore t1) = fst ?v"
    by (simp only: drop0 take0) (auto simp: live_payloads_def)
  have m: "dh_map ops t1 = assoc_of ops (fst ?v)" by (simp add: dh_map_assoc t1(4))
  define cap where "cap = (if entryCount t1 + drop_bit 1 (entryCount t1) < PL_DHASH_MIN_SIZE then PL_DHASH_MIN_SIZE
      else entryCount t1 + drop_bit 1 (entryCount t1))"
  have "unat (entryCount t1) < 2 ^ 23" using table_counts(2) [OF t1(2)] table_okD(5) [OF t1(2)] by simp
  note g = grown_capacity [OF this, folded cap_def]
  have lt: "lives (entryStore t1) < 2 ^ PR_CeilingLog2 cap" using g(3) table_okD(5) [OF t1(2)] by simp
  have n: "nat (int (sizeLog2 t1) + (int (PR_CeilingLog2 cap) - int (sizeLog2 t1))) = PR_CeilingLog2 cap" by simp
  obtain b t2 where c: "ChangeTable ops alloc t1 (int (PR_CeilingLog2 cap) - int (sizeLog2 t1)) = Some (b, t2)"
    "table_ok ops t2" "dh_map ops t2 = dh_map ops t1"
    by (rule ChangeTable_spec [OF assms(1) t1(2) n g(1,2) lt]) (rule that)
  show ?thesis
  proof (cases "did \<and> (removedCount t1 \<ge> drop_bit 2 sz \<or> sz > PL_DHASH_MIN_SIZE \<and> entryCount t1 \<le> MIN_LOAD t1 sz)")
    case True
    then have "PL_DHashTableEnumerate ops alloc etor arg t = Some (t2, snd ?v)"
      using sz(1) t1(1) c(1) by (simp only: PL_DHashTableEnumerate_def Let_def cap_def bind.bind_lunit case_prod_conv if_True prod.collapse simp_thms)
    then show ?thesis using that c m by simp
  next
    case False
    then have "PL_DHashTableEnumerate ops alloc etor arg t = Some (t1, snd ?v)"
      using sz(1) t1(1) by (simp only: PL_DHashTableEnumerate_def Let_def bind.bind_lunit case_prod_conv if_False prod.collapse)
    then show ?thesis using that t1(2) m by simp
  qed
qed

end
