(* ===== verification/Hash_Map.thy ===== *)
theory Hash_Map
  imports Kz_Prelude
begin

text \<open>
  The interface both hash tables promise: look an entry up, put one in, take one out, on a
  state that stands for a finite map from keys to entries (an entry carries its key). A
  look-up may change the state (\<open>plhash.c\<close> moves the entry it finds to the front of its
  chain), a put may report failure (no memory) and then leaves the map alone.

  The client's side is a session, a list of requests with the replies to them.
\<close>

datatype ('k, 'v) request = Get 'k | Put 'v | Del 'k

datatype 'v reply = Found "'v option" | Done bool | Gone

fun run ::
  "('t \<Rightarrow> 'k \<Rightarrow> ('t \<times> 'v option) option) \<Rightarrow> ('t \<Rightarrow> 'v \<Rightarrow> ('t \<times> bool) option) \<Rightarrow> ('t \<Rightarrow> 'k \<Rightarrow> 't option)
    \<Rightarrow> ('k, 'v) request list \<Rightarrow> 't \<Rightarrow> ('t \<times> 'v reply list) option" where
  "run get put del [] t = Some (t, [])"
| "run get put del (Get k # rs) t = do {
     (t1, r) \<leftarrow> get t k; (t2, as) \<leftarrow> run get put del rs t1; Some (t2, Found r # as)
   }"
| "run get put del (Put v # rs) t = do {
     (t1, b) \<leftarrow> put t v; (t2, as) \<leftarrow> run get put del rs t1; Some (t2, Done b # as)
   }"
| "run get put del (Del k # rs) t = do {
     t1 \<leftarrow> del t k; (t2, as) \<leftarrow> run get put del rs t1; Some (t2, Gone # as)
   }"

text \<open>The map after a session, if the replies are those of a finite map.\<close>

fun agrees :: "('v \<Rightarrow> 'k) \<Rightarrow> ('k \<rightharpoonup> 'v) \<Rightarrow> ('k, 'v) request list \<Rightarrow> 'v reply list \<Rightarrow> ('k \<rightharpoonup> 'v) option" where
  "agrees key m [] [] = Some m"
| "agrees key m (Get k # rs) (Found r # as) = (if r = m k then agrees key m rs as else None)"
| "agrees key m (Put v # rs) (Done b # as) = agrees key (if b then m(key v \<mapsto> v) else m) rs as"
| "agrees key m (Del k # rs) (Gone # as) = agrees key (m(k := None)) rs as"
| "agrees key m _ _ = None"

locale hash_map =
  fixes good :: "'t \<Rightarrow> bool" and content :: "'t \<Rightarrow> 'k \<rightharpoonup> 'v" and key :: "'v \<Rightarrow> 'k"
    and get :: "'t \<Rightarrow> 'k \<Rightarrow> ('t \<times> 'v option) option"
    and put :: "'t \<Rightarrow> 'v \<Rightarrow> ('t \<times> bool) option"
    and del :: "'t \<Rightarrow> 'k \<Rightarrow> 't option"
  assumes get_law: "good t \<Longrightarrow> \<exists>t'. get t k = Some (t', content t k) \<and> good t' \<and> content t' = content t"
    and put_law: "good t \<Longrightarrow> \<exists>t' b. put t v = Some (t', b) \<and> good t'
      \<and> content t' = (if b then (content t)(key v \<mapsto> v) else content t)"
    and del_law: "good t \<Longrightarrow> \<exists>t'. del t k = Some t' \<and> good t' \<and> content t' = (content t)(k := None)"
begin

text \<open>A session never gets stuck, and its replies are those of the map.\<close>

lemma session:
  assumes "good t"
  shows "\<exists>t' as. run get put del rs t = Some (t', as) \<and> good t' \<and> agrees key (content t) rs as = Some (content t')"
  using assms
proof (induction rs arbitrary: t)
  case (Cons r rs)
  show ?case
  proof (cases r)
    case (Get k)
    with get_law [OF Cons.prems, of k] Cons.IH show ?thesis by fastforce
  next
    case (Put v)
    obtain t1 b where t1: "put t v = Some (t1, b)" "good t1"
      "content t1 = (if b then (content t)(key v \<mapsto> v) else content t)"
      using put_law [OF Cons.prems, of v] by blast
    obtain t2 as where "run get put del rs t1 = Some (t2, as)" "good t2"
      "agrees key (content t1) rs as = Some (content t2)"
      using Cons.IH [OF t1(2)] by blast
    with t1 Put show ?thesis by (intro exI [of _ t2] exI [of _ "Done b # as"]) simp
  next
    case (Del k)
    with del_law [OF Cons.prems, of k] Cons.IH show ?thesis by fastforce
  qed
qed simp

text \<open>What was put last under a key is what a look-up finds.\<close>

lemma put_get:
  assumes "good t" "put t v = Some (t', True)"
  shows "\<exists>t''. get t' (key v) = Some (t'', Some v)"
  using put_law [OF assms(1), of v] assms(2) get_law [of t' "key v"] by auto

end

end
