(* ===== verification/Pl_DHash_Spec.thy ===== *)
theory Pl_DHash_Spec
  imports Pl_DHash_Ops Hash_Map
begin

text \<open>
  The table of \<open>pldhash.c\<close> as an implementation of a finite map, the properties of its
  operations, and the two ways a search can go wrong: a store without a free entry, and a
  failing \<open>initEntry\<close> that miscounts.
\<close>

subsection \<open>A search that cannot end\<close>

lemma flagged_stops:
  assumes "\<exists>x \<in> set (es[i := flag (es ! i)]). ENTRY_IS_FREE x \<or> hit ops key hash x"
  shows "\<exists>x \<in> set es. ENTRY_IS_FREE x \<or> hit ops key hash x"
proof (cases "i < length es")
  case True
  obtain x where x: "x \<in> set (es[i := flag (es ! i)])" "ENTRY_IS_FREE x \<or> hit ops key hash x" using assms by blast
  show ?thesis
  proof (cases "x = flag (es ! i)")
    case True
    then show ?thesis using x(2) nth_mem [OF \<open>i < length es\<close>] by auto
  next
    case False
    then have "x \<in> set es" using x(1) set_update_subset_insert [of es i "flag (es ! i)"] by blast
    then show ?thesis using x(2) by blast
  qed
next
  case False
  then show ?thesis using assms by (simp only: list_update_beyond not_less)
qed

lemma SearchTable_loop_stops:
  assumes "SearchTable_loop ops key hash op hash2 sizeMask hash1 fr es = Some (es', i)"
  shows "\<exists>e \<in> set es. ENTRY_IS_FREE e \<or> hit ops key hash e"
  using assms
proof (rule SearchTable_loop.raw_induct [where P = "\<lambda>ops key hash op h2 sm h1 fr es r.
    \<exists>e \<in> set es. ENTRY_IS_FREE e \<or> hit ops key hash e", rotated 1], goal_cases)
  case 2: (1 f ops key hash op h2 sm h1 fr es r)
  let ?i = "unat ((h1 - h2) AND sm)"
  obtain e where e: "rd es ?i = Some e" using 2(2) by (auto simp: Let_def bind_eq_Some_conv)
  then have mem: "e \<in> set es" "?i < length es" "es ! ?i = e" by (auto simp: rd_Some_iff)
  show ?case
  proof (cases "ENTRY_IS_FREE e \<or> hit ops key hash e")
    case True
    then show ?thesis using mem by blast
  next
    case False
    then have n: "\<not> ENTRY_IS_FREE e" "\<not> (MATCH_ENTRY_KEYHASH e hash \<and> matchEntry ops (payload e) key)"
      by (simp_all add: hit_def)
    show ?thesis
    proof (cases "ENTRY_IS_REMOVED e")
      case True
      then show ?thesis using 2(1) 2(2) e n by (auto simp: Let_def)
    next
      case False
      let ?es = "if op = PL_DHASH_ADD then es[?i := e\<lparr>keyHash := keyHash e OR COLLISION_FLAG\<rparr>] else es"
      have "\<exists>e \<in> set ?es. ENTRY_IS_FREE e \<or> hit ops key hash e"
        using 2(1) 2(2) e n False by (auto simp: Let_def)
      moreover have "ENTRY_IS_LIVE e" using n False entry_kinds by blast
      then have "e\<lparr>keyHash := keyHash e OR COLLISION_FLAG\<rparr> = flag e" by (simp add: flag_def)
      ultimately show ?thesis
        using flagged_stops [of es ?i ops key hash] mem by (cases "op = PL_DHASH_ADD") simp_all
    qed
  qed
qed

subsection \<open>The interface\<close>

text \<open>Look-up, put and remove, as a client does them with the entry it is given.\<close>

definition dhash_get :: "('k, 'e) PLDHashTableOps \<Rightarrow> (u32 \<Rightarrow> bool) \<Rightarrow> 'e PLDHashTable \<Rightarrow> 'k
    \<Rightarrow> ('e PLDHashTable \<times> 'e option) option" where
  "dhash_get ops alloc t k = do {
     (t1, r) \<leftarrow> PL_DHashTableOperate ops alloc t k PL_DHASH_LOOKUP;
     i \<leftarrow> r;
     e \<leftarrow> rd (entryStore t1) i;
     Some (t1, if ENTRY_IS_LIVE e then Some (payload e) else None)
   }"

definition dhash_put :: "('k, 'e) PLDHashTableOps \<Rightarrow> (u32 \<Rightarrow> bool) \<Rightarrow> 'e PLDHashTable \<Rightarrow> 'e
    \<Rightarrow> ('e PLDHashTable \<times> bool) option" where
  "dhash_put ops alloc t d = do {
     (t1, r) \<leftarrow> PL_DHashTableOperate ops alloc t (getKey ops d) PL_DHASH_ADD;
     case r of None \<Rightarrow> Some (t1, False) | Some i \<Rightarrow> Some (fill t1 i d, True)
   }"

definition dhash_del :: "('k, 'e) PLDHashTableOps \<Rightarrow> (u32 \<Rightarrow> bool) \<Rightarrow> 'e PLDHashTable \<Rightarrow> 'k
    \<Rightarrow> 'e PLDHashTable option" where
  "dhash_del ops alloc t k = do {
     (t1, r) \<leftarrow> PL_DHashTableOperate ops alloc t k PL_DHASH_REMOVE;
     Some t1
   }"

lemma Operate_lookup:
  assumes "dhash_client ops" "table_ok ops t"
  shows "\<exists>i. PL_DHashTableOperate ops alloc t k PL_DHASH_LOOKUP = Some (t, Some i) \<and> i < length (entryStore t)
    \<and> (case dh_map ops t k of
          None \<Rightarrow> ENTRY_IS_FREE (entryStore t ! i)
        | Some d \<Rightarrow> ENTRY_IS_LIVE (entryStore t ! i) \<and> payload (entryStore t ! i) = d)"
proof -
  obtain i where "SearchTable ops t k (live_hash ops k) PL_DHASH_LOOKUP = Some (t, i)" "i < length (entryStore t)"
    "case dh_map ops t k of None \<Rightarrow> ENTRY_IS_FREE (entryStore t ! i)
     | Some d \<Rightarrow> live_at ops (entryStore t) i k \<and> payload (entryStore t ! i) = d"
    by (rule search_lookup [OF assms, of PL_DHASH_LOOKUP]) (simp, rule that)
  then show ?thesis
    by (auto simp: PL_DHashTableOperate_def live_at_def split: option.splits)
qed

lemma Operate_ADD:
  fixes t :: "'e PLDHashTable"
  assumes "dhash_client ops" "table_ok ops t"
  shows "\<exists>t' r. PL_DHashTableOperate ops alloc t k PL_DHASH_ADD = Some (t', r) \<and>
    (case r of
       None \<Rightarrow> t' = t \<and> lives (entryStore t) + removeds (entryStore t) + 1 = 2 ^ sizeLog2 t
         \<and> ChangeTable ops alloc t (int (grow_by t)) = Some (False, t)
         \<and> \<not> (sizeLog2 t + grow_by t < 24 \<and> alloc (2 ^ (sizeLog2 t + grow_by t) * entrySize t))
     | Some i \<Rightarrow> i < length (entryStore t') \<and> ENTRY_IS_LIVE (entryStore t' ! i) \<and>
         (\<forall>d. dh_map ops t k = Some d \<longrightarrow> payload (entryStore t' ! i) = d) \<and>
         (\<forall>d. getKey ops d = k \<longrightarrow> table_ok ops (fill t' i d) \<and> dh_map ops (fill t' i d) = (dh_map ops t)(k \<mapsto> d)))"
proof -
  obtain b t1 where g: "Operate_grow ops alloc t = Some (b, t1)" "table_ok ops t1" "dh_map ops t1 = dh_map ops t"
    "b \<Longrightarrow> lives (entryStore t1) + removeds (entryStore t1) + 1 < 2 ^ sizeLog2 t1"
    "\<not> b \<Longrightarrow> t1 = t \<and> lives (entryStore t) + removeds (entryStore t) + 1 = 2 ^ sizeLog2 t"
    "\<not> b \<Longrightarrow> ChangeTable ops alloc t (int (grow_by t)) = Some (False, t)
      \<and> \<not> (sizeLog2 t + grow_by t < 24 \<and> alloc (2 ^ (sizeLog2 t + grow_by t) * entrySize t))"
    by (rule grow_spec [OF assms]) (rule that)
  show ?thesis
  proof (cases b)
    case False
    have "PL_DHashTableOperate ops alloc t k PL_DHASH_ADD = Some (t, None)"
      using g(1) g(5) [OF False] False by (simp add: PL_DHashTableOperate_def)
    then show ?thesis using g(5,6) [OF False] by (intro exI [of _ t] exI [of _ None]) simp
  next
    case True
    obtain t2 i where a: "Operate_add ops t1 k = Some (t2, Some i)"
      "i < length (entryStore t2)" "ENTRY_IS_LIVE (entryStore t2 ! i)"
      "\<And>d. dh_map ops t1 k = Some d \<Longrightarrow> payload (entryStore t2 ! i) = d"
      "\<And>d. getKey ops d = k \<Longrightarrow> table_ok ops (fill t2 i d) \<and> dh_map ops (fill t2 i d) = (dh_map ops t1)(k \<mapsto> d)"
      by (rule Operate_add_spec [OF assms(1) g(2) g(4) [OF True]]) (rule that)
    have "PL_DHashTableOperate ops alloc t k PL_DHASH_ADD = Some (t2, Some i)"
      using g(1) True a(1) by (simp add: PL_DHashTableOperate_def)
    then show ?thesis using a g(3) by (intro exI [of _ t2] exI [of _ "Some i"]) simp
  qed
qed

lemma Operate_REMOVE:
  fixes t :: "'e PLDHashTable"
  assumes "dhash_client ops" "table_ok ops t"
  shows "\<exists>t'. PL_DHashTableOperate ops alloc t k PL_DHASH_REMOVE = Some (t', None) \<and> table_ok ops t'
    \<and> dh_map ops t' = (dh_map ops t)(k := None)"
proof -
  obtain t' where "Operate_remove ops alloc t k = Some (t', None)" "table_ok ops t'"
    "dh_map ops t' = (dh_map ops t)(k := None)"
    by (rule ref_remove_spec [OF assms]) (rule that)
  then show ?thesis by (simp add: PL_DHashTableOperate_def)
qed

interpretation dhash: hash_map "\<lambda>t. dhash_client ops \<and> table_ok ops t" "dh_map ops" "getKey ops"
  "dhash_get ops alloc" "dhash_put ops alloc" "dhash_del ops alloc" for ops alloc
proof
  fix t k
  assume ok: "dhash_client ops \<and> table_ok ops t"
  obtain i where i: "PL_DHashTableOperate ops alloc t k PL_DHASH_LOOKUP = Some (t, Some i)" "i < length (entryStore t)"
    "case dh_map ops t k of None \<Rightarrow> ENTRY_IS_FREE (entryStore t ! i)
     | Some d \<Rightarrow> ENTRY_IS_LIVE (entryStore t ! i) \<and> payload (entryStore t ! i) = d"
    using Operate_lookup [of ops t alloc k] ok by blast
  then have "dhash_get ops alloc t k = Some (t, dh_map ops t k)"
    using kinds_disjoint(2) by (auto simp: dhash_get_def rd_def split: option.splits)
  with ok show "\<exists>t'. dhash_get ops alloc t k = Some (t', dh_map ops t k)
      \<and> (dhash_client ops \<and> table_ok ops t') \<and> dh_map ops t' = dh_map ops t" by blast
next
  fix t v
  assume ok: "dhash_client ops \<and> table_ok ops t"
  then obtain t' r where a: "PL_DHashTableOperate ops alloc t (getKey ops v) PL_DHASH_ADD = Some (t', r)"
    "case r of None \<Rightarrow> t' = t \<and> lives (entryStore t) + removeds (entryStore t) + 1 = 2 ^ sizeLog2 t
         \<and> ChangeTable ops alloc t (int (grow_by t)) = Some (False, t)
         \<and> \<not> (sizeLog2 t + grow_by t < 24 \<and> alloc (2 ^ (sizeLog2 t + grow_by t) * entrySize t))
     | Some i \<Rightarrow> i < length (entryStore t') \<and> ENTRY_IS_LIVE (entryStore t' ! i) \<and>
         (\<forall>d. dh_map ops t (getKey ops v) = Some d \<longrightarrow> payload (entryStore t' ! i) = d) \<and>
         (\<forall>d. getKey ops d = getKey ops v \<longrightarrow> table_ok ops (fill t' i d)
            \<and> dh_map ops (fill t' i d) = (dh_map ops t)(getKey ops v \<mapsto> d))"
    using Operate_ADD [of ops t alloc "getKey ops v"] by blast
  show "\<exists>t' b. dhash_put ops alloc t v = Some (t', b) \<and> (dhash_client ops \<and> table_ok ops t')
      \<and> dh_map ops t' = (if b then (dh_map ops t)(getKey ops v \<mapsto> v) else dh_map ops t)"
    using a ok by (cases r) (auto simp: dhash_put_def)
next
  fix t k
  assume ok: "dhash_client ops \<and> table_ok ops t"
  then show "\<exists>t'. dhash_del ops alloc t k = Some t' \<and> (dhash_client ops \<and> table_ok ops t')
      \<and> dh_map ops t' = (dh_map ops t)(k := None)"
    using Operate_REMOVE [of ops t alloc k] by (auto simp: dhash_del_def)
qed


subsection \<open>Properties\<close>

text \<open>An empty table of 16 entries, for the concrete inputs.\<close>

definition stub_table :: "u64 PLDHashTable" where
  "stub_table = \<lparr>hashShift = 28, maxAlphaFrac = 0xC0, minAlphaFrac = 0x40, entrySize = 16, entryCount = 0,
     removedCount = 0, generation = 0, entryStore = replicate (2 ^ 4) \<lparr>keyHash = 0, payload = 0\<rparr>\<rparr>"

lemma stub_client: "dhash_client PL_DHashGetStubOps"
  by (simp add: dhash_client_def PL_DHashGetStubOps_def PL_DHashMatchEntryStub_def PL_DHashGetKeyStub_def PL_DHashMoveEntryStub_def)

lemma stub_table_ok: "table_ok PL_DHashGetStubOps stub_table"
  using store_ok_empty(1) [of PL_DHashGetStubOps 4 0] store_ok_empty(3,4) [of 16 "0 :: u64"]
  by (simp add: table_ok_def stub_table_def)

lemma stub_dh_map: "dh_map PL_DHashGetStubOps stub_table = Map.empty"
  using store_ok_empty(2) [of PL_DHashGetStubOps 16 0] by (simp add: dh_map_def stub_table_def)

text \<open>C21: \<open>LOOKUP\<close> returns, leaves the table as it is, and gives a live entry with what the
  table holds for the key, or a free entry when the table does not hold the key. This covers the
  probing past removed and colliding entries.\<close>

theorem dhash_lookup:
  assumes "dhash_client ops" "table_ok ops t"
  shows "\<exists>i. PL_DHashTableOperate ops alloc t k PL_DHASH_LOOKUP = Some (t, Some i) \<and> i < length (entryStore t)
    \<and> (case dh_map ops t k of
          None \<Rightarrow> ENTRY_IS_FREE (entryStore t ! i)
        | Some d \<Rightarrow> ENTRY_IS_LIVE (entryStore t ! i) \<and> payload (entryStore t ! i) = d)"
  by (rule Operate_lookup [OF assms])

lemma dhash_lookup_witness:
  "\<exists>i. PL_DHashTableOperate PL_DHashGetStubOps (\<lambda>_. True) stub_table 7 PL_DHASH_LOOKUP = Some (stub_table, Some i)
    \<and> ENTRY_IS_FREE (entryStore stub_table ! i)"
  using dhash_lookup [OF stub_client stub_table_ok, of "\<lambda>_. True" 7] by (auto simp: stub_dh_map)

text \<open>C22: \<open>ADD\<close> returns an entry for the key, the one the table holds if it holds one; when the
  client has filled the entry in, the invariant holds and the map is updated at that key only.
  It returns no entry only when the table has a single free entry left and \<open>ChangeTable\<close>, tried at twice
  the size, or at the same size when a quarter of the entries are removed ones, has failed: the new size is at the
  limit or there is no memory; then the table is unchanged. This covers growing, compressing away the removed
  entries, and the reuse of a removed entry, for clients whose \<open>initEntry\<close>, if there is one, does not fail: with one that fails
  \<open>ADD\<close> also returns no entry, as \<open>dhash_failed_init\<close> says.\<close>

theorem dhash_add:
  assumes "dhash_client ops" "table_ok ops t"
  shows "\<exists>t' r. PL_DHashTableOperate ops alloc t k PL_DHASH_ADD = Some (t', r) \<and>
    (case r of
       None \<Rightarrow> t' = t \<and> lives (entryStore t) + removeds (entryStore t) + 1 = 2 ^ sizeLog2 t
         \<and> ChangeTable ops alloc t (int (grow_by t)) = Some (False, t)
         \<and> \<not> (sizeLog2 t + grow_by t < 24 \<and> alloc (2 ^ (sizeLog2 t + grow_by t) * entrySize t))
     | Some i \<Rightarrow> i < length (entryStore t') \<and> ENTRY_IS_LIVE (entryStore t' ! i) \<and>
         (\<forall>d. dh_map ops t k = Some d \<longrightarrow> payload (entryStore t' ! i) = d) \<and>
         (\<forall>d. getKey ops d = k \<longrightarrow> table_ok ops (fill t' i d) \<and> dh_map ops (fill t' i d) = (dh_map ops t)(k \<mapsto> d)))"
  by (rule Operate_ADD [OF assms])

lemma dhash_add_witness:
  "\<exists>t' i. PL_DHashTableOperate PL_DHashGetStubOps (\<lambda>_. True) stub_table 7 PL_DHASH_ADD = Some (t', Some i)
    \<and> dh_map PL_DHashGetStubOps (fill t' i 7) = [7 \<mapsto> 7]"
proof -
  have "lives (entryStore stub_table) + removeds (entryStore stub_table) + 1 \<noteq> 2 ^ sizeLog2 stub_table"
    using store_ok_empty(3,4) [of 16 "0 :: u64"] by (simp add: stub_table_def)
  moreover have "getKey PL_DHashGetStubOps 7 = 7" by (simp add: PL_DHashGetStubOps_def PL_DHashGetKeyStub_def)
  ultimately show ?thesis
    using dhash_add [OF stub_client stub_table_ok, of "\<lambda>_. True" 7] by (fastforce simp: stub_dh_map split: option.splits)
qed

text \<open>C23: \<open>REMOVE\<close> returns no entry, keeps the invariant and takes the key out of the map,
  whether the entry becomes free or a removed one, and whether the table shrinks after it.\<close>

theorem dhash_remove:
  assumes "dhash_client ops" "table_ok ops t"
  shows "\<exists>t'. PL_DHashTableOperate ops alloc t k PL_DHASH_REMOVE = Some (t', None) \<and> table_ok ops t'
    \<and> dh_map ops t' = (dh_map ops t)(k := None)"
  by (rule Operate_REMOVE [OF assms])

lemma dhash_remove_witness:
  "\<exists>t'. PL_DHashTableOperate PL_DHashGetStubOps (\<lambda>_. True) stub_table 7 PL_DHASH_REMOVE = Some (t', None)
    \<and> dh_map PL_DHashGetStubOps t' = Map.empty"
  using dhash_remove [OF stub_client stub_table_ok, of "\<lambda>_. True" 7] by (auto simp: stub_dh_map)

text \<open>C24: \<open>ChangeTable\<close> keeps the invariant and the map: every live entry is found again in
  the new store. It fails just when there is no memory or the table would get too big, and then the
  table is the one it was given. The new size is one that the callers ask for: room for the live entries, and 16 to the limit.\<close>

theorem dhash_change_table:
  assumes "dhash_client ops" "table_ok ops t"
    and "nat (int (sizeLog2 t) + d) = n" "4 \<le> n" "n \<le> 24" "lives (entryStore t) < 2 ^ n"
  shows "\<exists>b t'. ChangeTable ops alloc t d = Some (b, t') \<and> table_ok ops t' \<and> dh_map ops t' = dh_map ops t
    \<and> (b \<longleftrightarrow> n < 24 \<and> alloc (2 ^ n * entrySize t)) \<and> (if b then sizeLog2 t' = n \<and> n < 24 else t' = t)"
proof -
  obtain b t' where "ChangeTable ops alloc t d = Some (b, t')" "table_ok ops t'" "dh_map ops t' = dh_map ops t"
    "\<not> b \<Longrightarrow> t' = t" "b \<Longrightarrow> sizeLog2 t' = n \<and> removedCount t' = 0 \<and> entryCount t' = entryCount t \<and> n < 24"
    "b \<longleftrightarrow> n < 24 \<and> alloc (2 ^ n * entrySize t)"
    by (rule ChangeTable_spec [OF assms]) (rule that)
  then show ?thesis by (cases b) auto
qed

lemma dhash_change_table_witness:
  "\<exists>b t'. ChangeTable PL_DHashGetStubOps (\<lambda>_. True) stub_table 1 = Some (b, t')
    \<and> dh_map PL_DHashGetStubOps t' = Map.empty"
proof -
  have l: "lives (entryStore stub_table) < 2 ^ 5" and n: "nat (int (sizeLog2 stub_table) + 1) = 5"
    using store_ok_empty(3) [of 16 "0 :: u64"] by (simp_all add: stub_table_def)
  show ?thesis
    using dhash_change_table [OF stub_client stub_table_ok n _ _ l, of "\<lambda>_. True"] unfolding stub_dh_map by fastforce
qed

text \<open>a new table is empty, keeps the invariant, and has the least power of two that holds
  the capacity asked for and 16; above the size limit, or without memory, it is not made.\<close>

lemma dhash_init:
  assumes "0 < unat esize" "unat esize < 512" "unat capacity \<le> 2 ^ 31"
  shows "let n = PR_CeilingLog2 (if capacity < PL_DHASH_MIN_SIZE then PL_DHASH_MIN_SIZE else capacity) in
    if n \<le> 23 \<and> alloc (2 ^ n * esize)
    then \<exists>t. PL_DHashTableInit ops alloc esize capacity = Some (Some t) \<and> table_ok ops t
         \<and> dh_map ops t = Map.empty \<and> length (entryStore t) = 2 ^ n
    else PL_DHashTableInit ops alloc esize capacity = Some None"
  by (rule ref_init_spec [OF assms])

lemma dhash_init_witness:
  "let n = PR_CeilingLog2 (if (100 :: u32) < PL_DHASH_MIN_SIZE then PL_DHASH_MIN_SIZE else 100) in
    if n \<le> 23 \<and> True
    then \<exists>t. PL_DHashTableInit PL_DHashGetStubOps (\<lambda>_. True) 16 100 = Some (Some t) \<and> table_ok PL_DHashGetStubOps t
         \<and> dh_map PL_DHashGetStubOps t = Map.empty \<and> length (entryStore t) = 2 ^ n
    else PL_DHashTableInit PL_DHashGetStubOps (\<lambda>_. True) 16 100 = Some None"
  by (rule dhash_init [of 16 100 "\<lambda>_. True" PL_DHashGetStubOps]) simp_all

text \<open>C25: an enumeration returns, visits the live entries in the order of their slots as the
  reference \<open>visit\<close> does on the list of them, and the map it leaves is that of the entries
  \<open>visit\<close> leaves, also when the table is rehashed at the end.\<close>

theorem dhash_enumerate:
  assumes "dhash_client ops" "table_ok ops t"
    and "\<And>d i a. getKey ops (fst (snd (etor d i a))) = getKey ops d"
  shows "\<exists>t'. PL_DHashTableEnumerate ops alloc etor arg t
      = Some (t', snd (visit etor 0 arg (live_payloads (entryStore t)))) \<and> table_ok ops t'
    \<and> dh_map ops t' = assoc_of ops (fst (visit etor 0 arg (live_payloads (entryStore t))))"
  by (rule ref_enumerate_spec [where etor = etor and alloc = alloc and arg = arg, OF assms]) blast

lemma dhash_enumerate_witness:
  "\<exists>t'. PL_DHashTableEnumerate PL_DHashGetStubOps (\<lambda>_. True) (\<lambda>d i a. (2, d, Suc a)) (0 :: nat) stub_table
      = Some (t', 0, 0) \<and> dh_map PL_DHashGetStubOps t' = Map.empty"
proof -
  have "live_payloads (entryStore stub_table) = []"
    by (simp add: stub_table_def live_payloads_def ENTRY_IS_LIVE_def)
  then show ?thesis
    using dhash_enumerate [OF stub_client stub_table_ok, of "\<lambda>d i a. (2, d, Suc a)" "\<lambda>_. True" "0 :: nat"]
    by (auto simp: assoc_of_def)
qed

text \<open>C1: any sequence of look-ups, puts and removes on a table returns, and its replies are
  those of a finite map that starts as the table's: the table implements the map. The client's operations match an
  entry by its key, move it as it is, and do not fail to initialise one; a put may be refused, when the table cannot grow.\<close>

theorem dhash_session:
  assumes "dhash_client ops" "table_ok ops t"
  shows "\<exists>t' as. run (dhash_get ops alloc) (dhash_put ops alloc) (dhash_del ops alloc) rs t = Some (t', as)
    \<and> table_ok ops t' \<and> agrees (getKey ops) (dh_map ops t) rs as = Some (dh_map ops t')"
  using dhash.session [of ops t alloc rs] assms by blast

lemma dhash_session_witness:
  "\<exists>t' as. run (dhash_get PL_DHashGetStubOps (\<lambda>_. True)) (dhash_put PL_DHashGetStubOps (\<lambda>_. True))
      (dhash_del PL_DHashGetStubOps (\<lambda>_. True)) [Put 7, Get 7, Del 7, Get 7] stub_table = Some (t', as)
    \<and> agrees (getKey PL_DHashGetStubOps) Map.empty [Put 7, Get 7, Del 7, Get 7] as
      = Some (dh_map PL_DHashGetStubOps t')"
  using dhash_session [OF stub_client stub_table_ok, of "\<lambda>_. True" "[Put 7, Get 7, Del 7, Get 7]"]
  by (auto simp: stub_dh_map)

text \<open>a search of a store in which no entry is free and none matches does not end: the probe
  loop has no other exit. The load bounds in the invariant are what a caller relies on.\<close>

lemma dhash_full_search:
  assumes "\<forall>e \<in> set (entryStore t). \<not> ENTRY_IS_FREE e \<and> \<not> hit ops key hash e"
  shows "SearchTable ops t key hash op = None"
proof (rule ccontr)
  assume "SearchTable ops t key hash op \<noteq> None"
  then obtain r where r: "SearchTable ops t key hash op = Some r" by blast
  let ?es = "entryStore t" and ?i = "unat (HASH1 hash (hashShift t))"
  obtain e where e: "rd ?es ?i = Some e" using r by (auto simp: SearchTable_def Let_def bind_eq_Some_conv)
  then have i: "?i < length ?es" "?es ! ?i = e" "e \<in> set ?es" by (auto simp: rd_Some_iff)
  then have n: "\<not> ENTRY_IS_FREE e" "\<not> (MATCH_ENTRY_KEYHASH e hash \<and> matchEntry ops (payload e) key)"
    using assms by (auto simp: hit_def)
  have "\<exists>x \<in> set ?es. ENTRY_IS_FREE x \<or> hit ops key hash x"
  proof (cases "ENTRY_IS_REMOVED e")
    case True
    then obtain es' j where "SearchTable_loop ops key hash op (HASH2 hash (sizeLog2 t) (hashShift t)) (mask (sizeLog2 t))
        (HASH1 hash (hashShift t)) (Some ?i) ?es = Some (es', j)"
      using r e n by (auto simp: SearchTable_def Let_def bind_eq_Some_conv)
    then show ?thesis by (rule SearchTable_loop_stops)
  next
    case False
    then have "ENTRY_IS_LIVE e" using n entry_kinds by blast
    then have f: "(?es ! ?i)\<lparr>keyHash := keyHash (?es ! ?i) OR COLLISION_FLAG\<rparr> = flag (?es ! ?i)"
      using i(2) by (simp add: flag_def)
    let ?es1 = "if op = PL_DHASH_ADD then ?es[?i := flag (?es ! ?i)] else ?es"
    obtain es' j where "SearchTable_loop ops key hash op (HASH2 hash (sizeLog2 t) (hashShift t)) (mask (sizeLog2 t))
        (HASH1 hash (hashShift t)) None ?es1 = Some (es', j)"
      using r e n False i(2) by (cases "op = PL_DHASH_ADD") (auto simp: SearchTable_def Let_def bind_eq_Some_conv f)
    then have "\<exists>x \<in> set ?es1. ENTRY_IS_FREE x \<or> hit ops key hash x" by (rule SearchTable_loop_stops)
    then show ?thesis
      using flagged_stops [of ?es ?i ops key hash] by (cases "op = PL_DHASH_ADD") simp_all
  qed
  with assms show False by blast
qed

lemma dhash_full_search_witness:
  "SearchTable PL_DHashGetStubOps (stub_table\<lparr>entryStore := replicate 16 \<lparr>keyHash = 1, payload = 0\<rparr>\<rparr>) 7 8 PL_DHASH_ADD = None"
proof (rule dhash_full_search)
  have "\<not> MATCH_ENTRY_KEYHASH \<lparr>keyHash = 1, payload = 0 :: u64\<rparr> 8" by (simp add: MATCH_ENTRY_KEYHASH_def)
  then show "\<forall>e \<in> set (entryStore (stub_table\<lparr>entryStore := replicate 16 \<lparr>keyHash = 1, payload = 0\<rparr>\<rparr>)).
      \<not> ENTRY_IS_FREE e \<and> \<not> hit PL_DHashGetStubOps 7 8 e"
    by (simp add: ENTRY_IS_FREE_def hit_def)
qed

text \<open>when \<open>initEntry\<close> fails on a removed entry that an add would reuse, the entry stays
  removed and \<open>removedCount\<close> is one less all the same: from then on the count of the removed
  entries is below their number, and the load test lets the table fill up further.\<close>

lemma dhash_failed_init:
  assumes "SearchTable ops t k (live_hash ops k) PL_DHASH_ADD = Some (t1, i)"
    and "i < length (entryStore t1)" "ENTRY_IS_REMOVED (entryStore t1 ! i)"
    and "initEntry ops = Some f" "\<not> fst (f (payload (entryStore t1 ! i)) k)"
  shows "\<exists>t'. Operate_add ops t k = Some (t', None) \<and> removedCount t' = removedCount t1 - 1
    \<and> removeds (entryStore t') = removeds (entryStore t1) \<and> entryCount t' = entryCount t1"
proof -
  let ?e = "(entryStore t1 ! i)\<lparr>payload := zeroed ops\<rparr>"
  have "ENTRY_IS_REMOVED ?e" using assms(3) by (simp add: ENTRY_IS_REMOVED_def)
  then have c: "removeds ((entryStore t1)[i := ?e]) = removeds (entryStore t1)"
    using removeds_update [OF assms(2), of ?e] assms(3) by simp
  obtain d where d: "f (payload (entryStore t1 ! i)) k = (False, d)"
    using assms(5) by (cases "f (payload (entryStore t1 ! i)) k") simp
  have "\<not> ENTRY_IS_LIVE (entryStore t1 ! i)" using assms(3) kinds_disjoint(3) by blast
  then show ?thesis
    using assms(1-4) c d by (simp add: Operate_add_def Let_def rd_def)
qed

definition failing_ops :: "(u64, u64) PLDHashTableOps" where
  "failing_ops = PL_DHashGetStubOps\<lparr>initEntry := Some (\<lambda>e k. (False, e))\<rparr>"

definition reused_table :: "u64 PLDHashTable" where
  "reused_table = stub_table\<lparr>removedCount := 1,
     entryStore := replicate 15 \<lparr>keyHash = 0, payload = 0\<rparr> @ [\<lparr>keyHash = 1, payload = 0\<rparr>]\<rparr>"

lemma reused_search:
  "SearchTable failing_ops reused_table 0 (live_hash failing_ops 0) PL_DHASH_ADD = Some (reused_table, 15)"
proof -
  have h: "live_hash failing_ops 0 = 0xFFFFFFFE"
    by (simp add: live_hash_def failing_ops_def PL_DHashGetStubOps_def PL_DHashVoidPtrKeyStub_def ENSURE_LIVE_KEYHASH_def)
  have h1: "HASH1 0xFFFFFFFE 28 = 15" "HASH2 0xFFFFFFFE 4 28 = 15"
    by (simp_all add: HASH1_def HASH2_def)
  have m: "\<not> MATCH_ENTRY_KEYHASH \<lparr>keyHash = 1, payload = 0 :: u64\<rparr> 0xFFFFFFFE"
    by (simp add: MATCH_ENTRY_KEYHASH_def)
  have loop: "SearchTable_loop failing_ops 0 0xFFFFFFFE PL_DHASH_ADD 15 15 15 (Some 15) (entryStore reused_table)
      = Some (entryStore reused_table, 15)"
    by (subst SearchTable_loop.simps) (simp add: Let_def reused_table_def rd_def nth_append ENTRY_IS_FREE_def)
  have mask: "mask 4 = (15 :: u32)" by (simp add: mask_eq_exp_minus_1)
  have t: "hashShift reused_table = 28" "rd (entryStore reused_table) 15 = Some \<lparr>keyHash = 1, payload = 0\<rparr>"
    by (simp_all add: reused_table_def stub_table_def rd_def nth_append)
  show ?thesis
    by (simp add: SearchTable_def h h1 m t mask loop Let_def ENTRY_IS_FREE_def ENTRY_IS_REMOVED_def)
qed

lemma dhash_failed_init_witness:
  "\<exists>t'. Operate_add failing_ops reused_table 0 = Some (t', None) \<and> removedCount t' = 0
    \<and> removeds (entryStore t') = 1"
proof -
  have "entryStore reused_table ! 15 = \<lparr>keyHash = 1, payload = 0\<rparr>" "length (entryStore reused_table) = 16"
    "removeds (entryStore reused_table) = 1" "removedCount reused_table = 1"
    by (simp_all add: reused_table_def nth_append removeds_def ENTRY_IS_REMOVED_def)
  moreover have "initEntry failing_ops = Some (\<lambda>e k. (False, e))" by (simp add: failing_ops_def)
  ultimately show ?thesis
    using dhash_failed_init [OF reused_search] by (simp add: ENTRY_IS_REMOVED_def) blast
qed

end
