(* ===== verification/Pl_Hash.thy ===== *)
theory Pl_Hash
  imports Pr_Bits Pl_String
begin

text \<open>
  The chained hash table of \<open>nsprpub/lib/ds/plhash.c\<close>, without \<open>HASHMETER\<close>, \<open>DEBUG\<close> and the
  16-bit platforms.

  A chain is the list of its entries, so \<open>he->next\<close> is the rest of the list. The code names a
  place in a chain by the address \<open>hep\<close> of the pointer to it: here the number of the bucket and
  the number of entries before it, so that \<open>*hep = 0\<close> at the length of the chain. The calls of
  the client's \<open>freeEntry\<close> are recorded, in order, in \<open>freed\<close>. Values are pointers, 0 the null
  pointer; keys are used through the client's functions only.
\<close>

subsection \<open>Data\<close>

datatype free_flag = HT_FREE_VALUE | HT_FREE_ENTRY

record 'k PLHashEntry =
  keyHash :: u32
  key :: 'k
  valuep :: u64                     \<comment> \<open>the field \<open>value\<close>, a keyword here\<close>

text \<open>Whether an allocation succeeds: a table of so many bytes, an entry when there are so many.\<close>

record PLHashAllocOps =
  allocTable :: "u64 \<Rightarrow> bool"
  allocEntry :: "u32 \<Rightarrow> bool"

record 'k PLHashTable =
  buckets :: "'k PLHashEntry list list"
  nentries :: u32
  shift :: nat
  hashOf :: "'k \<Rightarrow> u32"                \<comment> \<open>the field \<open>keyHash\<close> of the C struct\<close>
  keyCompare :: "'k \<Rightarrow> 'k \<Rightarrow> bool"
  valueCompare :: "u64 \<Rightarrow> u64 \<Rightarrow> bool"
  allocOps :: PLHashAllocOps
  freed :: "('k PLHashEntry \<times> free_flag) list"

type_synonym hep = "nat \<times> nat"

text \<open>\<open>1 << n\<close> on an \<open>int\<close>.\<close>

definition int_bit :: "nat \<Rightarrow> u32 option" where
  "int_bit n = (if n < 31 then Some (push_bit n 1) else None)"

definition NBUCKETS :: "'k PLHashTable \<Rightarrow> u32 option" where
  "NBUCKETS ht = int_bit (32 - shift ht)"

abbreviation MINBUCKETSLOG2 :: nat where "MINBUCKETSLOG2 \<equiv> 4"
abbreviation MINBUCKETS :: u32 where "MINBUCKETS \<equiv> 16"
abbreviation GOLDEN_RATIO :: u32 where "GOLDEN_RATIO \<equiv> 0x9E3779B9"

definition OVERLOADED :: "u32 \<Rightarrow> u32" where
  "OVERLOADED n = n - drop_bit 3 n"

definition UNDERLOADED :: "u32 \<Rightarrow> u32" where
  "UNDERLOADED n = (if n > MINBUCKETS then drop_bit 2 n else 0)"

text \<open>A zeroed vector in a block of \<open>nb\<close> bytes: as many null pointers as fit.\<close>

definition zero_buckets :: "u64 \<Rightarrow> 'k PLHashEntry list list" where
  "zero_buckets nb = replicate (unat nb div 8) []"

subsection \<open>Making and ending a table\<close>

definition PL_NewHashTable ::
  "u32 \<Rightarrow> ('k \<Rightarrow> u32) \<Rightarrow> ('k \<Rightarrow> 'k \<Rightarrow> bool) \<Rightarrow> (u64 \<Rightarrow> u64 \<Rightarrow> bool) \<Rightarrow> PLHashAllocOps \<Rightarrow> bool
    \<Rightarrow> 'k PLHashTable option option" where
  "PL_NewHashTable n hashf keycmp valcmp aops mem = (
     let log2 = (if n \<le> MINBUCKETS then MINBUCKETSLOG2 else PR_CeilingLog2 n)
     in if \<not> mem then Some None
        else do {
          n1 \<leftarrow> int_bit log2;
          let nb = ucast n1 * 8;
          if \<not> allocTable aops nb then Some None
          else Some (Some \<lparr>buckets = zero_buckets nb, nentries = 0, shift = 32 - log2, hashOf = hashf,
                 keyCompare = keycmp, valueCompare = valcmp, allocOps = aops, freed = []\<rparr>)
        })"

text \<open>The calls of \<open>freeEntry\<close> up to the end of \<open>PL_HashTableDestroy\<close>.\<close>

definition PL_HashTableDestroy :: "'k PLHashTable \<Rightarrow> ('k PLHashEntry \<times> free_flag) list option" where
  "PL_HashTableDestroy ht = do {
     n \<leftarrow> NBUCKETS ht;
     if unat n \<le> length (buckets ht)
     then Some (freed ht @ map (\<lambda>he. (he, HT_FREE_ENTRY)) (concat (take (unat n) (buckets ht))))
     else None
   }"

subsection \<open>Looking up\<close>

text \<open>The number of entries before the first one that matches; all of them when none does.\<close>

fun chain_find :: "'k PLHashTable \<Rightarrow> u32 \<Rightarrow> 'k \<Rightarrow> 'k PLHashEntry list \<Rightarrow> nat" where
  "chain_find ht hash k [] = 0"
| "chain_find ht hash k (he # chain) =
     (if keyHash he = hash \<and> keyCompare ht k (key he) then 0 else Suc (chain_find ht hash k chain))"

definition bucket_of :: "'k PLHashTable \<Rightarrow> u32 \<Rightarrow> nat" where
  "bucket_of ht hash = unat (drop_bit (shift ht) (hash * GOLDEN_RATIO))"

definition PL_HashTableRawLookup :: "'k PLHashTable \<Rightarrow> u32 \<Rightarrow> 'k \<Rightarrow> ('k PLHashTable \<times> hep) option" where
  "PL_HashTableRawLookup ht hash k = (
     let h = bucket_of ht hash in do {
       chain \<leftarrow> rd (buckets ht) h;
       let i = chain_find ht hash k chain;
       if i < length chain
       then Some (ht\<lparr>buckets := (buckets ht)[h := chain ! i # take i chain @ drop (Suc i) chain]\<rparr>, (h, 0))
       else Some (ht, (h, i))
     })"

definition PL_HashTableRawLookupConst :: "'k PLHashTable \<Rightarrow> u32 \<Rightarrow> 'k \<Rightarrow> hep option" where
  "PL_HashTableRawLookupConst ht hash k = (
     let h = bucket_of ht hash in do {
       chain \<leftarrow> rd (buckets ht) h;
       Some (h, chain_find ht hash k chain)
     })"

text \<open>\<open>*hep\<close>: outside a chain's own pointers there is nothing to read.\<close>

definition deref :: "'k PLHashTable \<Rightarrow> hep \<Rightarrow> 'k PLHashEntry option option" where
  "deref ht hep = do {
     chain \<leftarrow> rd (buckets ht) (fst hep);
     if snd hep < length chain then Some (Some (chain ! snd hep))
     else if snd hep = length chain then Some None
     else None
   }"

subsection \<open>Adding\<close>

text \<open>
  The loops that hash the entries of the old buckets into the new ones: \<open>he->next = 0; *hep = he\<close>
  cuts the chain after the new entry.
\<close>

fun rehash :: "'k PLHashEntry list \<Rightarrow> 'k PLHashTable \<Rightarrow> 'k PLHashTable option" where
  "rehash [] ht = Some ht"
| "rehash (he # hes) ht = do {
     (ht1, (b, i)) \<leftarrow> PL_HashTableRawLookup ht (keyHash he) (key he);
     chain \<leftarrow> rd (buckets ht1) b;
     rehash hes (ht1\<lparr>buckets := (buckets ht1)[b := take i chain @ [he]]\<rparr>)
   }"

text \<open>The place of the new entry, \<open>None\<close> for the null pointer.\<close>

definition RawAdd_insert ::
  "'k PLHashTable \<Rightarrow> hep \<Rightarrow> u32 \<Rightarrow> 'k \<Rightarrow> u64 \<Rightarrow> ('k PLHashTable \<times> hep option) option" where
  "RawAdd_insert ht hep hash k v =
     (if \<not> allocEntry (allocOps ht) (nentries ht) then Some (ht, None)
      else do {
        chain \<leftarrow> rd (buckets ht) (fst hep);
        let he = \<lparr>keyHash = hash, key = k, valuep = v\<rparr>;
        Some (ht\<lparr>buckets := (buckets ht)[fst hep := take (snd hep) chain @ he # drop (snd hep) chain],
                 nentries := nentries ht + 1\<rparr>, Some hep)
      })"

definition PL_HashTableRawAdd ::
  "'k PLHashTable \<Rightarrow> hep \<Rightarrow> u32 \<Rightarrow> 'k \<Rightarrow> u64 \<Rightarrow> ('k PLHashTable \<times> hep option) option" where
  "PL_HashTableRawAdd ht hep hash k v = do {
     n \<leftarrow> NBUCKETS ht;
     if nentries ht \<ge> OVERLOADED n
     then let nb = ucast (2 * n) * 8 in
       if \<not> allocTable (allocOps ht) nb then Some (ht, None)
       else do {
         olds \<leftarrow> (if unat n \<le> length (buckets ht) then Some (take (unat n) (buckets ht)) else None);
         ht1 \<leftarrow> rehash (concat olds) (ht\<lparr>buckets := zero_buckets nb, shift := shift ht - 1\<rparr>);
         (ht2, hep2) \<leftarrow> PL_HashTableRawLookup ht1 hash k;
         RawAdd_insert ht2 hep2 hash k v
       }
     else RawAdd_insert ht hep hash k v
   }"

definition PL_HashTableAdd :: "'k PLHashTable \<Rightarrow> 'k \<Rightarrow> u64 \<Rightarrow> ('k PLHashTable \<times> hep option) option" where
  "PL_HashTableAdd ht k v = (
     let hash = hashOf ht k in do {
       (ht1, hep) \<leftarrow> PL_HashTableRawLookup ht hash k;
       r \<leftarrow> deref ht1 hep;
       case r of
         None \<Rightarrow> PL_HashTableRawAdd ht1 hep hash k v
       | Some he \<Rightarrow>
           if valueCompare ht1 (valuep he) v then Some (ht1, Some hep)
           else let ht2 = (if valuep he \<noteq> 0 then ht1\<lparr>freed := freed ht1 @ [(he, HT_FREE_VALUE)]\<rparr> else ht1)
             in do {
               chain \<leftarrow> rd (buckets ht2) (fst hep);
               Some (ht2\<lparr>buckets := (buckets ht2)[fst hep := chain[snd hep := he\<lparr>valuep := v\<rparr>]]\<rparr>, Some hep)
             }
     })"

subsection \<open>Removing\<close>

text \<open>\<open>PL_HashTableRawRemove\<close> after \<open>*hep = he->next\<close>.\<close>

definition RawRemove_freed :: "'k PLHashTable \<Rightarrow> 'k PLHashEntry \<Rightarrow> 'k PLHashTable option" where
  "RawRemove_freed ht he = do {
     let ht1 = ht\<lparr>freed := freed ht @ [(he, HT_FREE_ENTRY)], nentries := nentries ht - 1\<rparr>;
     n \<leftarrow> NBUCKETS ht1;
     if nentries ht1 < UNDERLOADED n
     then let nb = drop_bit 1 (ucast n * 8) in
       if \<not> allocTable (allocOps ht1) nb then Some ht1
       else do {
         olds \<leftarrow> (if unat n \<le> length (buckets ht1) then Some (take (unat n) (buckets ht1)) else None);
         rehash (concat olds) (ht1\<lparr>buckets := zero_buckets nb, shift := shift ht1 + 1\<rparr>)
       }
     else Some ht1
   }"

definition PL_HashTableRawRemove :: "'k PLHashTable \<Rightarrow> hep \<Rightarrow> 'k PLHashEntry \<Rightarrow> 'k PLHashTable option" where
  "PL_HashTableRawRemove ht hep he = do {
     chain \<leftarrow> rd (buckets ht) (fst hep);
     RawRemove_freed (ht\<lparr>buckets := (buckets ht)[fst hep := take (snd hep) chain @ drop (Suc (snd hep)) chain]\<rparr>) he
   }"

definition PL_HashTableRemove :: "'k PLHashTable \<Rightarrow> 'k \<Rightarrow> ('k PLHashTable \<times> bool) option" where
  "PL_HashTableRemove ht k = (
     let hash = hashOf ht k in do {
       (ht1, hep) \<leftarrow> PL_HashTableRawLookup ht hash k;
       r \<leftarrow> deref ht1 hep;
       case r of
         None \<Rightarrow> Some (ht1, False)
       | Some he \<Rightarrow> do { ht2 \<leftarrow> PL_HashTableRawRemove ht1 hep he; Some (ht2, True) }
     })"

definition PL_HashTableLookup :: "'k PLHashTable \<Rightarrow> 'k \<Rightarrow> ('k PLHashTable \<times> u64) option" where
  "PL_HashTableLookup ht k = do {
     (ht1, hep) \<leftarrow> PL_HashTableRawLookup ht (hashOf ht k) k;
     r \<leftarrow> deref ht1 hep;
     Some (ht1, case r of None \<Rightarrow> 0 | Some he \<Rightarrow> valuep he)
   }"

definition PL_HashTableLookupConst :: "'k PLHashTable \<Rightarrow> 'k \<Rightarrow> u64 option" where
  "PL_HashTableLookupConst ht k = do {
     hep \<leftarrow> PL_HashTableRawLookupConst ht (hashOf ht k) k;
     r \<leftarrow> deref ht hep;
     Some (case r of None \<Rightarrow> 0 | Some he \<Rightarrow> valuep he)
   }"

subsection \<open>Enumeration\<close>

text \<open>
  The enumerator gets an entry, its number, and the state \<open>arg\<close> it keeps; it returns its verdict
  (bit 0: stop, bit 1: remove, bit 2: unhash), the entry as it leaves it, and its state.
  The result: the chain that is left, the entries to remove (last first), the count, whether to
  stop.
\<close>

fun enum_chain ::
  "('k PLHashEntry \<Rightarrow> int \<Rightarrow> 's \<Rightarrow> u32 \<times> 'k PLHashEntry \<times> 's) \<Rightarrow> 'k PLHashEntry list \<Rightarrow> 'k PLHashEntry list
    \<Rightarrow> int \<Rightarrow> 's \<Rightarrow> 'k PLHashEntry list \<times> 'k PLHashEntry list \<times> int \<times> 's \<times> bool" where
  "enum_chain f [] todo n arg = ([], todo, n, arg, False)"
| "enum_chain f (he # chain) todo n arg = (
     let (rv, he1, arg1) = f he n arg;
         gone = (rv AND 6 \<noteq> 0);
         todo1 = (if rv AND 2 \<noteq> 0 then he1 # todo else todo)
     in if rv AND 1 \<noteq> 0 then (if gone then chain else he1 # chain, todo1, n + 1, arg1, True)
        else let (rest, todo2, n2, arg2, stop) = enum_chain f chain todo1 (n + 1) arg1
             in (if gone then rest else he1 # rest, todo2, n2, arg2, stop))"

fun enum_buckets ::
  "('k PLHashEntry \<Rightarrow> int \<Rightarrow> 's \<Rightarrow> u32 \<times> 'k PLHashEntry \<times> 's) \<Rightarrow> 'k PLHashEntry list list \<Rightarrow> 'k PLHashEntry list
    \<Rightarrow> int \<Rightarrow> 's \<Rightarrow> 'k PLHashEntry list list \<times> 'k PLHashEntry list \<times> int \<times> 's" where
  "enum_buckets f [] todo n arg = ([], todo, n, arg)"
| "enum_buckets f (chain # bs) todo n arg = (
     let (chain1, todo1, n1, arg1, stop) = enum_chain f chain todo n arg
     in if stop then (chain1 # bs, todo1, n1, arg1)
        else let (bs2, todo2, n2, arg2) = enum_buckets f bs todo1 n1 arg1
             in (chain1 # bs2, todo2, n2, arg2))"

fun remove_todo :: "'k PLHashEntry list \<Rightarrow> 'k PLHashTable \<Rightarrow> 'k PLHashTable option" where
  "remove_todo [] ht = Some ht"
| "remove_todo (he # todo) ht = do { ht1 \<leftarrow> RawRemove_freed ht he; remove_todo todo ht1 }"

definition PL_HashTableEnumerateEntries ::
  "'k PLHashTable \<Rightarrow> ('k PLHashEntry \<Rightarrow> int \<Rightarrow> 's \<Rightarrow> u32 \<times> 'k PLHashEntry \<times> 's) \<Rightarrow> 's
    \<Rightarrow> ('k PLHashTable \<times> int \<times> 's) option" where
  "PL_HashTableEnumerateEntries ht f arg = do {
     nbuckets \<leftarrow> NBUCKETS ht;
     if unat nbuckets \<le> length (buckets ht)
     then let (bs, todo, n, arg1) = enum_buckets f (take (unat nbuckets) (buckets ht)) [] 0 arg
       in do {
         ht1 \<leftarrow> remove_todo todo (ht\<lparr>buckets := bs @ drop (unat nbuckets) (buckets ht)\<rparr>);
         Some (ht1, n, arg1)
       }
     else None
   }"

subsection \<open>Strings and values\<close>

fun HashString_loop :: "u32 \<Rightarrow> cells \<Rightarrow> u32 option" where
  "HashString_loop h [] = None"
| "HashString_loop h (c # s) =
     (if c = 0 then Some h else HashString_loop (drop_bit 28 h XOR push_bit 4 h XOR ucast c) s)"

definition PL_HashString :: "cells \<Rightarrow> u32 option" where
  "PL_HashString k = HashString_loop 0 k"

definition PL_CompareStrings :: "cells \<Rightarrow> cells \<Rightarrow> bool option" where
  "PL_CompareStrings v1 v2 = do { r \<leftarrow> c_strcmp v1 v2; Some (r = 0) }"

definition PL_CompareValues :: "u64 \<Rightarrow> u64 \<Rightarrow> bool" where
  "PL_CompareValues v1 v2 \<longleftrightarrow> v1 = v2"

end
