(* ===== verification/Pl_Hash_Inv.thy ===== *)
theory Pl_Hash_Inv
  imports Pl_Hash "HOL-Library.Multiset"
begin

text \<open>
  The invariant of the table of \<open>plhash.c\<close>, the finite map a table stands for, and what the
  operations do to both. Chains are compared as multisets, so that the move to the front and the
  rehashing are one argument: the entries are the same.
\<close>

subsection \<open>The invariant\<close>

definition entries :: "'k PLHashTable \<Rightarrow> 'k PLHashEntry list" where
  "entries ht = concat (buckets ht)"

abbreviation log2_of :: "'k PLHashTable \<Rightarrow> nat" where
  "log2_of ht \<equiv> 32 - shift ht"

text \<open>Every entry is in the bucket of its hash, under the hash of its key.\<close>

definition at_home :: "'k PLHashTable \<Rightarrow> nat \<Rightarrow> 'k PLHashEntry \<Rightarrow> bool" where
  "at_home ht b e \<longleftrightarrow> keyHash e = hashOf ht (key e) \<and> bucket_of ht (keyHash e) = b"

definition placed :: "'k PLHashTable \<Rightarrow> bool" where
  "placed ht \<longleftrightarrow> length (buckets ht) = 2 ^ log2_of ht \<and> shift ht \<le> 28 \<and> 2 \<le> shift ht \<and>
     (\<forall>b < length (buckets ht). \<forall>e \<in> set (buckets ht ! b). at_home ht b e) \<and>
     distinct (map key (entries ht))"

definition plhash_client :: "'k PLHashTable \<Rightarrow> bool" where
  "plhash_client ht \<longleftrightarrow> (\<forall>a b. keyCompare ht a b \<longleftrightarrow> a = b) \<and> (\<forall>a b. valueCompare ht a b \<longrightarrow> a = b) \<and>
     (\<forall>nb. allocTable (allocOps ht) nb \<longrightarrow> unat nb \<le> 2 ^ 33) \<and> \<not> allocEntry (allocOps ht) (- 1)"

definition ph_ok :: "'k PLHashTable \<Rightarrow> bool" where
  "ph_ok ht \<longleftrightarrow> plhash_client ht \<and> placed ht \<and> unat (nentries ht) = length (entries ht)"

definition ht_map :: "'k PLHashTable \<Rightarrow> 'k \<rightharpoonup> u64" where
  "ht_map ht = map_of (map (\<lambda>e. (key e, valuep e)) (entries ht))"

lemma at_home_cong [simp]:
  "at_home (ht\<lparr>buckets := bs\<rparr>) = at_home ht" "at_home (ht\<lparr>nentries := n\<rparr>) = at_home ht" "at_home (ht\<lparr>freed := fr\<rparr>) = at_home ht"
  by (intro ext; simp add: at_home_def bucket_of_def)+

lemma bucket_of_less: "shift ht \<le> 28 \<Longrightarrow> bucket_of ht h < 2 ^ log2_of ht"
proof -
  assume s: "shift ht \<le> 28"
  have "unat (h * GOLDEN_RATIO) div 2 ^ shift ht < 2 ^ (32 - shift ht)"
  proof (rule less_mult_imp_div_less)
    have "(2 :: nat) ^ (32 - shift ht) * 2 ^ shift ht = 2 ^ 32" using s by (simp flip: power_add)
    then show "unat (h * GOLDEN_RATIO) < 2 ^ (32 - shift ht) * 2 ^ shift ht"
      using unat_u32_less [of "h * GOLDEN_RATIO"] by simp
  qed
  then show ?thesis by (simp add: bucket_of_def unat_drop_bit_div)
qed

lemma placedD:
  assumes "placed ht"
  shows "length (buckets ht) = 2 ^ log2_of ht" "shift ht \<le> 28" "2 \<le> shift ht"
    and "b < length (buckets ht) \<Longrightarrow> e \<in> set (buckets ht ! b) \<Longrightarrow> at_home ht b e"
    and "distinct (map key (entries ht))" "bucket_of ht h < length (buckets ht)"
  using assms bucket_of_less [of ht h] by (simp_all add: placed_def)

lemma mset_concat_update:
  "b < length bs \<Longrightarrow> mset (concat (bs[b := c])) + mset (bs ! b) = mset (concat bs) + mset c"
proof (induction bs arbitrary: b)
  case (Cons x bs)
  then show ?case using Cons.IH [of "b - 1"] by (cases b) (simp_all add: ac_simps)
qed simp

lemma concat_nth_mem: "b < length bs \<Longrightarrow> e \<in> set (bs ! b) \<Longrightarrow> e \<in> set (concat bs)"
  by auto

lemma map_of_mset:
  assumes "distinct (map fst xs)" "mset xs = mset ys"
  shows "map_of xs = map_of ys"
proof (rule map_of_inject_set [THEN iffD2])
  show "distinct (map fst ys)" using assms by (metis mset_eq_imp_distinct_iff mset_map)
  show "set xs = set ys" using assms(2) by (rule mset_eq_setD)
qed (use assms in simp)

lemma ht_map_mset:
  assumes "distinct (map key (entries ht))" "mset (entries ht') = mset (entries ht)"
  shows "ht_map ht' = ht_map ht"
  unfolding ht_map_def
  by (rule map_of_mset [symmetric]) (use assms in \<open>simp_all add: comp_def\<close>)

lemma distinct_mset_cong: "mset (map f xs) = mset (map f ys) \<Longrightarrow> distinct (map f xs) \<Longrightarrow> distinct (map f ys)"
  by (metis mset_eq_imp_distinct_iff)

subsection \<open>A look-up\<close>

lemma chain_find_le: "chain_find ht h k c \<le> length c"
  by (induction c) auto

lemma chain_find_spec:
  assumes "\<And>a b. keyCompare ht a b \<longleftrightarrow> a = b" "\<And>e. e \<in> set c \<Longrightarrow> keyHash e = hashOf ht (key e)"
  shows "chain_find ht (hashOf ht k) k c < length c \<longleftrightarrow> k \<in> key ` set c"
    "chain_find ht (hashOf ht k) k c < length c \<Longrightarrow> key (c ! chain_find ht (hashOf ht k) k c) = k"
  using assms(2) by (induction c) (auto simp: assms(1))

lemma front_mset: "i < length c \<Longrightarrow> mset (c ! i # take i c @ drop (Suc i) c) = mset c"
proof -
  assume "i < length c"
  then have "c = take i c @ c ! i # drop (Suc i) c" by (rule id_take_nth_drop)
  then have "mset c = mset (take i c @ c ! i # drop (Suc i) c)" by simp
  then show ?thesis by simp
qed

lemma key_bucket:
  assumes "placed ht"
  shows "k \<in> key ` set (buckets ht ! bucket_of ht (hashOf ht k)) \<longleftrightarrow> k \<in> key ` set (entries ht)"
proof
  assume "k \<in> key ` set (entries ht)"
  then obtain e where e: "e \<in> set (concat (buckets ht))" "key e = k" by (auto simp: entries_def)
  then obtain c where "c \<in> set (buckets ht)" "e \<in> set c" by auto
  then obtain b where "b < length (buckets ht)" "e \<in> set (buckets ht ! b)" by (metis in_set_conv_nth)
  then show "k \<in> key ` set (buckets ht ! bucket_of ht (hashOf ht k))"
    using placedD(4) [OF assms, of b e] e(2) by (auto simp: at_home_def)
next
  assume "k \<in> key ` set (buckets ht ! bucket_of ht (hashOf ht k))"
  then show "k \<in> key ` set (entries ht)"
    using concat_nth_mem [OF placedD(6) [OF assms, of "hashOf ht k"]] unfolding entries_def by blast
qed

text \<open>Replacing a chain.\<close>

lemma entries_set:
  "b < length (buckets ht) \<Longrightarrow>
    mset (entries (ht\<lparr>buckets := (buckets ht)[b := c]\<rparr>)) + mset (buckets ht ! b) = mset (entries ht) + mset c"
  using mset_concat_update [of b "buckets ht" c] by (simp add: entries_def)

lemma placed_set:
  assumes "placed ht" "b < length (buckets ht)" "\<forall>e \<in> set c. at_home ht b e"
    and "distinct (map key (entries (ht\<lparr>buckets := (buckets ht)[b := c]\<rparr>)))"
  shows "placed (ht\<lparr>buckets := (buckets ht)[b := c]\<rparr>)"
  using assms unfolding placed_def by (auto simp: nth_list_update split: if_splits)

lemma placed_chain:
  assumes "placed ht" "b < length (buckets ht)" "mset c = mset (buckets ht ! b)"
  shows "placed (ht\<lparr>buckets := (buckets ht)[b := c]\<rparr>)"
    and "mset (entries (ht\<lparr>buckets := (buckets ht)[b := c]\<rparr>)) = mset (entries ht)"
proof -
  let ?ht = "ht\<lparr>buckets := (buckets ht)[b := c]\<rparr>"
  show m: "mset (entries ?ht) = mset (entries ht)"
    using entries_set [OF assms(2), of c] assms(3) by simp
  have "distinct (map key (entries ?ht))"
    using placedD(5) [OF assms(1)] m by (metis distinct_mset_cong mset_map)
  moreover have "set c = set (buckets ht ! b)" using assms(3) by (rule mset_eq_setD)
  ultimately show "placed ?ht"
    using placed_set [OF assms(1,2)] placedD(4) [OF assms(1,2)] by simp
qed

lemma placed_add:
  assumes "placed ht" "keyHash e = hashOf ht (key e)" "key e \<notin> key ` set (entries ht)"
    and "b = bucket_of ht (keyHash e)" "mset c = add_mset e (mset (buckets ht ! b))"
  shows "placed (ht\<lparr>buckets := (buckets ht)[b := c]\<rparr>)"
    and "mset (entries (ht\<lparr>buckets := (buckets ht)[b := c]\<rparr>)) = add_mset e (mset (entries ht))"
proof -
  let ?ht = "ht\<lparr>buckets := (buckets ht)[b := c]\<rparr>"
  have b: "b < length (buckets ht)" using placedD(6) [OF assms(1)] by (simp add: assms(4))
  show m: "mset (entries ?ht) = add_mset e (mset (entries ht))"
    using entries_set [OF b, of c] assms(5) by simp
  have "mset (map key (entries ?ht)) = mset (map key (e # entries ht))" using m by simp
  moreover have "distinct (map key (e # entries ht))" using assms(3) placedD(5) [OF assms(1)] by simp
  ultimately have "distinct (map key (entries ?ht))" by (metis mset_eq_imp_distinct_iff)
  moreover have "set c = insert e (set (buckets ht ! b))" by (metis assms(5) set_mset_add_mset_insert set_mset_mset)
  moreover have "at_home ht b e" using assms(2,4) by (simp add: at_home_def)
  ultimately show "placed ?ht"
    using placed_set [OF assms(1) b] placedD(4) [OF assms(1) b] by simp
qed

lemma RawLookup_spec:
  assumes "\<And>a b. keyCompare ht a b \<longleftrightarrow> a = b" "placed ht"
  obtains ht' i c where "PL_HashTableRawLookup ht (hashOf ht k) k = Some (ht', (bucket_of ht (hashOf ht k), i))"
    "ht' = ht\<lparr>buckets := (buckets ht)[bucket_of ht (hashOf ht k) := c]\<rparr>"
    "placed ht'" "mset (entries ht') = mset (entries ht)" "buckets ht' ! bucket_of ht (hashOf ht k) = c"
    "k \<in> key ` set (entries ht) \<Longrightarrow> i = 0 \<and> c \<noteq> [] \<and> key (hd c) = k"
    "k \<notin> key ` set (entries ht) \<Longrightarrow> i = length c \<and> ht' = ht"
proof -
  let ?h = "hashOf ht k" and ?b = "bucket_of ht (hashOf ht k)"
  let ?c = "buckets ht ! ?b"
  have b: "?b < length (buckets ht)" using assms(2) by (rule placedD)
  note cf = chain_find_spec [of ht ?c k, OF assms(1)]
  let ?i = "chain_find ht ?h k ?c"
  have hh: "\<And>e. e \<in> set ?c \<Longrightarrow> keyHash e = hashOf ht (key e)" using placedD(4) [OF assms(2) b] by (simp add: at_home_def)
  show ?thesis
  proof (cases "?i < length ?c")
    case True
    let ?c' = "?c ! ?i # take ?i ?c @ drop (Suc ?i) ?c"
    have m: "mset ?c' = mset ?c" using True by (rule front_mset)
    have "k \<in> key ` set (entries ht)" using cf(1) hh True key_bucket [OF assms(2)] by simp
    moreover have "key (?c ! ?i) = k" using cf(2) hh True by simp
    moreover have "PL_HashTableRawLookup ht ?h k = Some (ht\<lparr>buckets := (buckets ht)[?b := ?c']\<rparr>, (?b, 0))"
      using True b by (simp add: PL_HashTableRawLookup_def Let_def rd_def)
    ultimately show ?thesis
      using placed_chain [OF assms(2) b m] b by (intro that [of "ht\<lparr>buckets := (buckets ht)[?b := ?c']\<rparr>" 0 ?c']) auto
  next
    case False
    then have i: "?i = length ?c" using chain_find_le [of ht ?h k ?c] by simp
    have "k \<notin> key ` set (entries ht)" using cf(1) hh False key_bucket [OF assms(2)] by simp
    moreover have "PL_HashTableRawLookup ht ?h k = Some (ht, (?b, length ?c))"
      using False b i by (simp add: PL_HashTableRawLookup_def Let_def rd_def)
    ultimately show ?thesis
      using assms(2) b by (intro that [of ht "length ?c" ?c]) simp_all
  qed
qed


subsection \<open>Hashing entries again\<close>

definition same_ops :: "'k PLHashTable \<Rightarrow> 'k PLHashTable \<Rightarrow> bool" where
  "same_ops ht ht' \<longleftrightarrow> hashOf ht' = hashOf ht \<and> keyCompare ht' = keyCompare ht \<and>
     valueCompare ht' = valueCompare ht \<and> allocOps ht' = allocOps ht"

lemma same_client: "same_ops ht ht' \<Longrightarrow> plhash_client ht' = plhash_client ht"
  by (simp add: same_ops_def plhash_client_def)

lemma rehash_spec:
  assumes "\<And>a b. keyCompare ht a b \<longleftrightarrow> a = b" "placed ht"
    and "\<forall>e \<in> set olds. keyHash e = hashOf ht (key e)" "distinct (map key (olds @ entries ht))"
  shows "\<exists>bs. rehash olds ht = Some (ht\<lparr>buckets := bs\<rparr>) \<and> placed (ht\<lparr>buckets := bs\<rparr>)
    \<and> mset (concat bs) = mset (entries ht) + mset olds"
  using assms
proof (induction olds arbitrary: ht)
  case Nil
  then show ?case by (intro exI [of _ "buckets ht"]) (simp add: entries_def)
next
  case (Cons e olds)
  have h: "keyHash e = hashOf ht (key e)" and new: "key e \<notin> key ` set (entries ht)" using Cons.prems by auto
  obtain ht1 i c where l: "PL_HashTableRawLookup ht (hashOf ht (key e)) (key e) = Some (ht1, (bucket_of ht (hashOf ht (key e)), i))"
    "buckets ht1 ! bucket_of ht (hashOf ht (key e)) = c" "key e \<notin> key ` set (entries ht) \<Longrightarrow> i = length c \<and> ht1 = ht"
    by (rule RawLookup_spec [of ht "key e", OF Cons.prems(1,2)]) (rule that)
  let ?b = "bucket_of ht (hashOf ht (key e))"
  have i: "i = length c" "ht1 = ht" using l(3) new by simp_all
  define ht2 where "ht2 = ht\<lparr>buckets := (buckets ht)[?b := c @ [e]]\<rparr>"
  have p: "placed ht2" "mset (entries ht2) = add_mset e (mset (entries ht))"
    using placed_add [OF Cons.prems(2) h new, of ?b "c @ [e]"] l(2) i(2) h by (simp_all add: ht2_def)
  have step: "rehash (e # olds) ht = rehash olds ht2"
    using l(1,2) i h placedD(6) [OF Cons.prems(2)] by (simp add: rd_def ht2_def)
  have "mset (map key (olds @ entries ht2)) = mset (map key ((e # olds) @ entries ht))"
    using p(2) by simp
  then have d: "distinct (map key (olds @ entries ht2))"
    using Cons.prems(4) by (metis mset_eq_imp_distinct_iff)
  obtain bs where "rehash olds ht2 = Some (ht2\<lparr>buckets := bs\<rparr>)" "placed (ht2\<lparr>buckets := bs\<rparr>)"
    "mset (concat bs) = mset (entries ht2) + mset olds"
    using Cons.IH [of ht2] Cons.prems(1,3) p(1) d by (auto simp: ht2_def)
  then show ?case
    using step p(2) by (intro exI [of _ bs]) (simp add: ht2_def)
qed

lemma ph_size:
  assumes "placed ht"
  obtains n where "NBUCKETS ht = Some n" "unat n = 2 ^ log2_of ht"
proof
  show "NBUCKETS ht = Some (push_bit (log2_of ht) 1)"
    using placedD(3) [OF assms] by (simp add: NBUCKETS_def int_bit_def)
  show "unat (push_bit (log2_of ht) 1 :: u32) = 2 ^ log2_of ht"
    by (rule unat_pow2) (use placedD(3) [OF assms] in simp)
qed

text \<open>The state between a new vector and the entries in it.\<close>

lemma rehash_resize:
  assumes "\<And>a b. keyCompare ht a b \<longleftrightarrow> a = b" "placed ht" "2 \<le> s" "s \<le> 28" "unat nb = 2 ^ (32 - s) * 8"
  shows "\<exists>bs. rehash (entries ht) (ht\<lparr>buckets := zero_buckets nb, shift := s\<rparr>)
      = Some (ht\<lparr>shift := s, buckets := bs\<rparr>)
    \<and> placed (ht\<lparr>shift := s, buckets := bs\<rparr>) \<and> mset (concat bs) = mset (entries ht)"
proof -
  let ?ht = "ht\<lparr>buckets := zero_buckets nb, shift := s\<rparr>"
  have e: "entries ?ht = []" by (auto simp: entries_def zero_buckets_def)
  have p: "placed ?ht" using assms(3-5) by (simp add: placed_def e) (simp add: zero_buckets_def)
  have h: "\<forall>e \<in> set (entries ht). keyHash e = hashOf ht (key e)"
  proof
    fix e
    assume "e \<in> set (entries ht)"
    then obtain c where "c \<in> set (buckets ht)" "e \<in> set c" by (auto simp: entries_def)
    then obtain b where "b < length (buckets ht)" "e \<in> set (buckets ht ! b)" by (metis in_set_conv_nth)
    then show "keyHash e = hashOf ht (key e)" using placedD(4) [OF assms(2)] by (auto simp: at_home_def)
  qed
  have d: "distinct (map key (entries ht @ entries ?ht))" using placedD(5) [OF assms(2)] by (simp add: e)
  have k: "keyCompare ?ht a b \<longleftrightarrow> a = b" for a b using assms(1) by simp
  have "\<forall>e \<in> set (entries ht). keyHash e = hashOf ?ht (key e)" using h by simp
  from rehash_spec [OF k p this d] obtain bs where
    "rehash (entries ht) ?ht = Some (?ht\<lparr>buckets := bs\<rparr>)" "placed (?ht\<lparr>buckets := bs\<rparr>)"
    "mset (concat bs) = mset (entries ?ht) + mset (entries ht)" by blast
  then show ?thesis by (intro exI [of _ bs]) (simp add: e)
qed


subsection \<open>Adding and removing\<close>

lemma ph_okD:
  assumes "ph_ok ht"
  shows "placed ht" "plhash_client ht" "unat (nentries ht) = length (entries ht)"
    and "keyCompare ht a b \<longleftrightarrow> a = b" "valueCompare ht u v \<Longrightarrow> u = v"
  using assms by (simp_all add: ph_ok_def plhash_client_def)

lemma entries_inject: "distinct (map key (entries ht)) \<Longrightarrow> (k, v) \<in> set (map (\<lambda>e. (key e, valuep e)) (entries ht)) \<longleftrightarrow> ht_map ht k = Some v"
  unfolding ht_map_def by (subst map_of_eq_Some_iff) (simp_all add: comp_def)

lemma ht_map_mset_upd:
  assumes "distinct (map key (entries ht'))" "mset (entries ht') = add_mset e M"
    "mset (entries ht) = M \<or> (\<exists>e'. key e' = key e \<and> mset (entries ht) = add_mset e' M)"
    "distinct (map key (entries ht))"
  shows "ht_map ht' = (ht_map ht)(key e \<mapsto> valuep e)"
proof -
  obtain ms where ms: "mset ms = M" using ex_mset by blast
  have "map_of (map (\<lambda>e. (key e, valuep e)) (entries ht')) = map_of (map (\<lambda>e. (key e, valuep e)) (e # ms))"
    by (rule map_of_mset) (use assms(1,2) ms in \<open>simp_all add: comp_def\<close>)
  moreover have "map_of (map (\<lambda>e. (key e, valuep e)) (entries ht)) = map_of (map (\<lambda>e. (key e, valuep e)) ms)
      \<or> (\<exists>e'. key e' = key e \<and> map_of (map (\<lambda>e. (key e, valuep e)) (entries ht)) = map_of (map (\<lambda>e. (key e, valuep e)) (e' # ms)))"
    using assms(3)
  proof
    assume "mset (entries ht) = M"
    then have "map_of (map (\<lambda>e. (key e, valuep e)) (entries ht)) = map_of (map (\<lambda>e. (key e, valuep e)) ms)"
      by (intro map_of_mset) (use assms(4) ms in \<open>simp_all add: comp_def\<close>)
    then show ?thesis ..
  next
    assume "\<exists>e'. key e' = key e \<and> mset (entries ht) = add_mset e' M"
    then obtain e' where e': "key e' = key e" "mset (entries ht) = add_mset e' M" by blast
    then have "map_of (map (\<lambda>e. (key e, valuep e)) (entries ht)) = map_of (map (\<lambda>e. (key e, valuep e)) (e' # ms))"
      by (intro map_of_mset) (use assms(4) ms in \<open>simp_all add: comp_def\<close>)
    with e'(1) show ?thesis by blast
  qed
  ultimately show ?thesis by (auto simp: ht_map_def)
qed

lemma ht_map_mset_del:
  assumes "mset (entries ht) = add_mset e (mset (entries ht'))" "distinct (map key (entries ht))"
  shows "ht_map ht' = (ht_map ht)(key e := None)"
proof -
  have "mset (map key (entries ht)) = mset (map key (e # entries ht'))" using assms(1) by simp
  then have d: "distinct (map key (e # entries ht'))" using assms(2) by (metis mset_eq_imp_distinct_iff)
  have "map_of (map (\<lambda>e. (key e, valuep e)) (entries ht)) = map_of (map (\<lambda>e. (key e, valuep e)) (e # entries ht'))"
    by (rule map_of_mset) (use assms in \<open>simp_all add: comp_def\<close>)
  then have "ht_map ht = (ht_map ht')(key e \<mapsto> valuep e)" by (simp add: ht_map_def)
  moreover have "ht_map ht' (key e) = None" using d by (auto simp: ht_map_def map_of_eq_None_iff)
  ultimately show ?thesis by (simp add: fun_upd_idem)
qed

text \<open>The outcome of an attempt to add \<open>e\<close>.\<close>

definition added :: "'k PLHashTable \<Rightarrow> 'k PLHashTable \<Rightarrow> bool \<Rightarrow> 'k PLHashEntry \<Rightarrow> bool" where
  "added ht ht' b e \<longleftrightarrow> same_ops ht ht' \<and> freed ht' = freed ht \<and> placed ht' \<and>
     unat (nentries ht') = length (entries ht') \<and>
     mset (entries ht') = (if b then add_mset e (mset (entries ht)) else mset (entries ht))"

lemma RawAdd_insert_spec:
  assumes "ph_ok ht" "k \<notin> key ` set (entries ht)" "b = bucket_of ht (hashOf ht k)" "i = length (buckets ht ! b)"
  shows "\<exists>ht' r. RawAdd_insert ht (b, i) (hashOf ht k) k v = Some (ht', r)
    \<and> added ht ht' (r \<noteq> None) \<lparr>keyHash = hashOf ht k, key = k, valuep = v\<rparr>"
proof (cases "allocEntry (allocOps ht) (nentries ht)")
  case False
  then show ?thesis
    using ph_okD [OF assms(1)] by (simp add: RawAdd_insert_def added_def same_ops_def)
next
  case True
  let ?e = "\<lparr>keyHash = hashOf ht k, key = k, valuep = v\<rparr>"
  note ok = ph_okD [OF assms(1)]
  have b: "b < length (buckets ht)" using placedD(6) [OF ok(1)] by (simp add: assms(3))
  let ?ht = "ht\<lparr>buckets := (buckets ht)[b := buckets ht ! b @ [?e]]\<rparr>"
  have p: "placed ?ht" "mset (entries ?ht) = add_mset ?e (mset (entries ht))"
    using placed_add [OF ok(1), of ?e b "buckets ht ! b @ [?e]"] assms(2,3) by simp_all
  have "nentries ht \<noteq> - 1" using True ok(2) by (auto simp: plhash_client_def)
  then have "unat (nentries ht + 1) = Suc (unat (nentries ht))"
    using unatSuc [of "nentries ht"] by (simp add: add_eq_0_iff add.commute)
  moreover have "length (entries ?ht) = Suc (length (entries ht))" by (metis p(2) size_add_mset size_mset)
  moreover have "placed (?ht\<lparr>nentries := nentries ht + 1\<rparr>)" "entries (?ht\<lparr>nentries := nentries ht + 1\<rparr>) = entries ?ht"
    using p(1) by (simp_all add: placed_def entries_def)
  moreover have "RawAdd_insert ht (b, i) (hashOf ht k) k v = Some (?ht\<lparr>nentries := nentries ht + 1\<rparr>, Some (b, i))"
    using True b assms(4) by (simp add: RawAdd_insert_def rd_def Let_def)
  ultimately show ?thesis using ok(3) p(2) by (simp add: added_def same_ops_def)
qed

lemma RawAdd_spec:
  assumes "ph_ok ht" "k \<notin> key ` set (entries ht)" "b = bucket_of ht (hashOf ht k)" "i = length (buckets ht ! b)"
  shows "\<exists>ht' r. PL_HashTableRawAdd ht (b, i) (hashOf ht k) k v = Some (ht', r)
    \<and> added ht ht' (r \<noteq> None) \<lparr>keyHash = hashOf ht k, key = k, valuep = v\<rparr>"
proof -
  note ok = ph_okD [OF assms(1)]
  obtain n where n: "NBUCKETS ht = Some n" "unat n = 2 ^ log2_of ht" by (rule ph_size [OF ok(1)])
  have L: "log2_of ht \<le> 30" "unat n = length (buckets ht)" using placedD(1,3) [OF ok(1)] n(2) by simp_all
  let ?nb = "ucast (2 * n) * 8 :: u64"
  show ?thesis
  proof (cases "nentries ht \<ge> OVERLOADED n")
    case False
    then show ?thesis
      using RawAdd_insert_spec [OF assms] n(1) by (simp add: PL_HashTableRawAdd_def)
  next
    case over: True
    show ?thesis
    proof (cases "allocTable (allocOps ht) ?nb")
      case False
      then show ?thesis
        using over n(1) ok by (simp add: PL_HashTableRawAdd_def added_def same_ops_def Let_def)
    next
      case True
      have p30: "(2 :: nat) ^ log2_of ht \<le> 2 ^ 30" using L(1) by (rule power_increasing) simp
      then have nb: "unat ?nb = 2 ^ (Suc (log2_of ht)) * 8"
        by (simp add: unat_word_ariths unsigned_ucast_eq take_bit_eq_mod n(2))
      then have "(2 :: nat) ^ (Suc (log2_of ht)) * 8 \<le> 2 ^ 33" using True ok(2) by (metis plhash_client_def)
      then have "(2 :: nat) ^ (Suc (log2_of ht)) \<le> 2 ^ 30" by simp
      then have "Suc (log2_of ht) \<le> 30" using power_le_imp_le_exp [of "2 :: nat" "Suc (log2_of ht)" 30] by simp
      then have s: "2 \<le> shift ht - 1" "shift ht - 1 \<le> 28" "32 - (shift ht - 1) = Suc (log2_of ht)"
        using placedD(2,3) [OF ok(1)] by linarith+
      obtain bs where bs: "rehash (entries ht) (ht\<lparr>buckets := zero_buckets ?nb, shift := shift ht - 1\<rparr>)
          = Some (ht\<lparr>shift := shift ht - 1, buckets := bs\<rparr>)"
        "placed (ht\<lparr>shift := shift ht - 1, buckets := bs\<rparr>)" "mset (concat bs) = mset (entries ht)"
        using rehash_resize [OF ok(4) ok(1) s(1,2), of ?nb] unfolding nb s(3) by blast
      define ht1 where "ht1 = ht\<lparr>shift := shift ht - 1, buckets := bs\<rparr>"
      have h1: "placed ht1" "mset (entries ht1) = mset (entries ht)" "same_ops ht ht1" "freed ht1 = freed ht" "nentries ht1 = nentries ht"
        using bs by (simp_all add: ht1_def entries_def same_ops_def)
      have t1: "ph_ok ht1"
        using h1 ok(2,3) same_client [OF h1(3)] mset_eq_length [OF h1(2)] by (simp add: ph_ok_def)
      have k1: "k \<notin> key ` set (entries ht1)" using assms(2) h1(2) by (metis mset_eq_setD)
      obtain ht2 j c where l: "PL_HashTableRawLookup ht1 (hashOf ht1 k) k = Some (ht2, (bucket_of ht1 (hashOf ht1 k), j))"
        "buckets ht2 ! bucket_of ht1 (hashOf ht1 k) = c" "k \<notin> key ` set (entries ht1) \<Longrightarrow> j = length c \<and> ht2 = ht1"
        by (rule RawLookup_spec [of ht1 k, OF ph_okD(4) [OF t1] h1(1)]) (rule that)
      obtain ht3 r where a: "RawAdd_insert ht1 (bucket_of ht1 (hashOf ht1 k), j) (hashOf ht1 k) k v = Some (ht3, r)"
        "added ht1 ht3 (r \<noteq> None) \<lparr>keyHash = hashOf ht1 k, key = k, valuep = v\<rparr>"
        using RawAdd_insert_spec [OF t1 k1 refl, of j v] l(2,3) k1 by blast
      have h: "hashOf ht1 = hashOf ht" using h1(3) by (simp add: same_ops_def)
      have "PL_HashTableRawAdd ht (b, i) (hashOf ht k) k v = Some (ht3, r)"
        using over n(1) True L(2) bs(1) l(1,3) k1 a(1) h
        by (simp add: PL_HashTableRawAdd_def Let_def entries_def ht1_def)
      moreover have "added ht ht3 (r \<noteq> None) \<lparr>keyHash = hashOf ht k, key = k, valuep = v\<rparr>"
        using a(2) h1 h by (auto simp: added_def same_ops_def)
      ultimately show ?thesis by blast
    qed
  qed
qed

text \<open>A table whose count is \<open>m\<close> above the number of its entries.\<close>

definition loose :: "nat \<Rightarrow> 'k PLHashTable \<Rightarrow> bool" where
  "loose m ht \<longleftrightarrow> plhash_client ht \<and> placed ht \<and> unat (nentries ht) = length (entries ht) + m"

lemma loose_0: "loose 0 ht \<longleftrightarrow> ph_ok ht"
  by (simp add: loose_def ph_ok_def)

lemma RawRemove_freed_spec:
  assumes "loose (Suc m) ht"
  shows "\<exists>ht'. RawRemove_freed ht he = Some ht' \<and> loose m ht' \<and> same_ops ht ht'
    \<and> freed ht' = freed ht @ [(he, HT_FREE_ENTRY)] \<and> mset (entries ht') = mset (entries ht)"
proof -
  define ht1 where "ht1 = ht\<lparr>freed := freed ht @ [(he, HT_FREE_ENTRY)], nentries := nentries ht - 1\<rparr>"
  have p: "placed ht" "plhash_client ht" "unat (nentries ht) = length (entries ht) + Suc m"
    using assms by (simp_all add: loose_def)
  have e1: "entries ht1 = entries ht" "placed ht1" "same_ops ht ht1"
    using p(1) by (simp_all add: ht1_def entries_def placed_def same_ops_def)
  have "nentries ht \<noteq> 0" using p(3) by auto
  then have n1: "unat (nentries ht1) = length (entries ht1) + m"
    using p(3) e1(1) by (simp add: ht1_def unat_minus_one)
  have l1: "loose m ht1" using p(2) e1 n1 same_client [OF e1(3)] by (simp add: loose_def)
  obtain n where n: "NBUCKETS ht1 = Some n" "unat n = 2 ^ log2_of ht1" by (rule ph_size [OF e1(2)])
  let ?nb = "drop_bit 1 (ucast n * 8) :: u64"
  show ?thesis
  proof (cases "nentries ht1 < UNDERLOADED n \<and> allocTable (allocOps ht1) ?nb")
    case False
    then have "RawRemove_freed ht he = Some ht1"
      using n(1) by (auto simp: RawRemove_freed_def Let_def ht1_def)
    then show ?thesis using l1 e1 by (auto simp: ht1_def)
  next
    case True
    then have n16: "n > 16" by (simp add: UNDERLOADED_def split: if_splits)
    have L: "log2_of ht1 \<le> 30" "unat n = length (buckets ht1)" using placedD(1,3) [OF e1(2)] n(2) by simp_all
    have "(2 :: nat) ^ 4 < 2 ^ log2_of ht1" using n16 n(2) by (simp add: word_less_nat_alt)
    then have L5: "5 \<le> log2_of ht1" using power_less_imp_less_exp [of "2 :: nat" 4 "log2_of ht1"] by simp
    then obtain j where j: "log2_of ht1 = Suc j" by (cases "log2_of ht1") auto
    have "(2 :: nat) ^ log2_of ht1 \<le> 2 ^ 30" using L(1) by (rule power_increasing) simp
    then have "unat (ucast n * 8 :: u64) = 2 ^ log2_of ht1 * 8"
      by (simp add: unat_word_ariths unsigned_ucast_eq take_bit_eq_mod n(2))
    then have nb: "unat ?nb = 2 ^ j * 8"
      by (simp only: unat_drop_bit_eq) (simp add: drop_bit_eq_div j)
    have s: "2 \<le> shift ht1 + 1" "shift ht1 + 1 \<le> 28" "32 - (shift ht1 + 1) = j"
      using L5 j placedD(2,3) [OF e1(2)] by linarith+
    have kc: "keyCompare ht1 a b \<longleftrightarrow> a = b" for a b using l1 by (simp add: loose_def plhash_client_def)
    obtain bs where bs: "rehash (entries ht1) (ht1\<lparr>buckets := zero_buckets ?nb, shift := shift ht1 + 1\<rparr>)
        = Some (ht1\<lparr>shift := shift ht1 + 1, buckets := bs\<rparr>)"
      "placed (ht1\<lparr>shift := shift ht1 + 1, buckets := bs\<rparr>)" "mset (concat bs) = mset (entries ht1)"
      using rehash_resize [OF kc e1(2) s(1,2), of ?nb] unfolding nb s(3) by blast
    let ?ht2 = "ht1\<lparr>shift := shift ht1 + 1, buckets := bs\<rparr>"
    have "RawRemove_freed ht he = Some ?ht2"
      using True n(1) L(2) bs(1) unfolding RawRemove_freed_def Let_def ht1_def [symmetric] by (simp add: entries_def)
    moreover have "same_ops ht1 ?ht2" "freed ?ht2 = freed ht1" "mset (entries ?ht2) = mset (entries ht1)"
      using bs(3) by (simp_all add: same_ops_def entries_def)
    moreover have "length (entries ?ht2) = length (entries ht1)" using bs(3) by (metis mset_eq_length calculation(4))
    ultimately show ?thesis
      using e1 bs(2) n1 p(2) same_client [of ht ?ht2]
      by (intro exI [of _ ?ht2]) (auto simp: loose_def same_ops_def ht1_def)
  qed
qed


subsection \<open>The operations on a table\<close>

lemma at_home_value [simp]: "at_home ht b (e\<lparr>valuep := v\<rparr>) = at_home ht b e"
  by (simp add: at_home_def)

lemma ht_map_None: "ht_map ht k = None \<longleftrightarrow> k \<notin> key ` set (entries ht)"
  by (simp add: ht_map_def map_of_eq_None_iff image_image)

lemma lookup_ok:
  assumes "ph_ok ht"
  obtains ht' i c where "PL_HashTableRawLookup ht (hashOf ht k) k = Some (ht', (bucket_of ht (hashOf ht k), i))"
    "ht' = ht\<lparr>buckets := (buckets ht)[bucket_of ht (hashOf ht k) := c]\<rparr>"
    "ph_ok ht'" "same_ops ht ht'" "mset (entries ht') = mset (entries ht)" "ht_map ht' = ht_map ht"
    "buckets ht' ! bucket_of ht (hashOf ht k) = c" "bucket_of ht (hashOf ht k) < length (buckets ht')"
    "ht_map ht k = None \<Longrightarrow> k \<notin> key ` set (entries ht) \<and> i = length c \<and> ht' = ht"
    "\<And>v. ht_map ht k = Some v \<Longrightarrow> i = 0 \<and> c \<noteq> [] \<and> key (hd c) = k \<and> valuep (hd c) = v"
proof -
  note ok = ph_okD [OF assms]
  obtain ht' i c where l: "PL_HashTableRawLookup ht (hashOf ht k) k = Some (ht', (bucket_of ht (hashOf ht k), i))"
    "ht' = ht\<lparr>buckets := (buckets ht)[bucket_of ht (hashOf ht k) := c]\<rparr>"
    "placed ht'" "mset (entries ht') = mset (entries ht)" "buckets ht' ! bucket_of ht (hashOf ht k) = c"
    "k \<in> key ` set (entries ht) \<Longrightarrow> i = 0 \<and> c \<noteq> [] \<and> key (hd c) = k"
    "k \<notin> key ` set (entries ht) \<Longrightarrow> i = length c \<and> ht' = ht"
    by (rule RawLookup_spec [of ht k, OF ok(4,1)]) (rule that)
  have so: "same_ops ht ht'" "nentries ht' = nentries ht" by (simp_all add: l(2) same_ops_def)
  have t: "ph_ok ht'"
    using l(3,4) so ok(2,3) same_client [OF so(1)] mset_eq_length [OF l(4)] by (simp add: ph_ok_def)
  have m: "ht_map ht' = ht_map ht" using placedD(5) [OF ok(1)] l(4) by (rule ht_map_mset)
  have b: "bucket_of ht (hashOf ht k) < length (buckets ht')"
    using placedD(6) [OF ok(1), of "hashOf ht k"] by (simp add: l(2))
  note none = ht_map_None [of ht k]
  have "valuep (hd c) = v" if "ht_map ht k = Some v" for v
  proof -
    have "k \<in> key ` set (entries ht)" using that none by (metis option.distinct(1))
    then have c: "c \<noteq> []" "key (hd c) = k" using l(6) by simp_all
    then have "hd c \<in> set (entries ht')"
      using concat_nth_mem [OF b, of "hd c"] l(5) by (simp add: entries_def)
    then have "(k, valuep (hd c)) \<in> set (map (\<lambda>e. (key e, valuep e)) (entries ht'))"
      using c(2) by force
    then have "ht_map ht' k = Some (valuep (hd c))" using entries_inject [OF placedD(5) [OF l(3)]] by blast
    then show ?thesis using m that by simp
  qed
  then show ?thesis
    using l so t m b none by (intro that [of ht' i c]) (auto simp del: not_None_eq)
qed

lemma deref_simps:
  assumes "b < length (buckets ht)"
  shows "buckets ht ! b = c \<Longrightarrow> deref ht (b, length c) = Some None"
    "buckets ht ! b \<noteq> [] \<Longrightarrow> deref ht (b, 0) = Some (Some (hd (buckets ht ! b)))"
  using assms by (auto simp: deref_def rd_def hd_conv_nth)

lemma Lookup_spec:
  assumes "ph_ok ht"
  shows "\<exists>ht'. PL_HashTableLookup ht k = Some (ht', case ht_map ht k of None \<Rightarrow> 0 | Some v \<Rightarrow> v)
    \<and> ph_ok ht' \<and> ht_map ht' = ht_map ht \<and> mset (entries ht') = mset (entries ht)"
proof -
  obtain ht' i c where l: "PL_HashTableRawLookup ht (hashOf ht k) k = Some (ht', (bucket_of ht (hashOf ht k), i))"
    "ph_ok ht'" "mset (entries ht') = mset (entries ht)" "ht_map ht' = ht_map ht"
    "buckets ht' ! bucket_of ht (hashOf ht k) = c" "bucket_of ht (hashOf ht k) < length (buckets ht')"
    "ht_map ht k = None \<Longrightarrow> k \<notin> key ` set (entries ht) \<and> i = length c \<and> ht' = ht"
    "\<And>v. ht_map ht k = Some v \<Longrightarrow> i = 0 \<and> c \<noteq> [] \<and> key (hd c) = k \<and> valuep (hd c) = v"
    by (rule lookup_ok [OF assms, of k]) (rule that)
  show ?thesis
    using l deref_simps [OF l(6)] by (cases "ht_map ht k") (auto simp: PL_HashTableLookup_def)
qed

lemma LookupConst_spec:
  assumes "ph_ok ht"
  shows "PL_HashTableLookupConst ht k = Some (case ht_map ht k of None \<Rightarrow> 0 | Some v \<Rightarrow> v)"
proof -
  note ok = ph_okD [OF assms]
  let ?b = "bucket_of ht (hashOf ht k)"
  let ?c = "buckets ht ! ?b" and ?i = "chain_find ht (hashOf ht k) k (buckets ht ! ?b)"
  have b: "?b < length (buckets ht)" by (rule placedD(6) [OF ok(1)])
  have hh: "\<And>e. e \<in> set ?c \<Longrightarrow> keyHash e = hashOf ht (key e)" using placedD(4) [OF ok(1) b] by (simp add: at_home_def)
  note cf = chain_find_spec [of ht ?c k, OF ok(4) hh]
  have r: "PL_HashTableRawLookupConst ht (hashOf ht k) k = Some (?b, ?i)"
    using b by (simp add: PL_HashTableRawLookupConst_def Let_def rd_def)
  show ?thesis
  proof (cases "?i < length ?c")
    case True
    then have "?c ! ?i \<in> set (entries ht)" "key (?c ! ?i) = k"
      using cf concat_nth_mem [OF b nth_mem [OF True]] by (simp_all add: entries_def)
    then have "(k, valuep (?c ! ?i)) \<in> set (map (\<lambda>e. (key e, valuep e)) (entries ht))" by force
    then have "ht_map ht k = Some (valuep (?c ! ?i))" using entries_inject [OF placedD(5) [OF ok(1)]] by blast
    then show ?thesis using r b True by (simp add: PL_HashTableLookupConst_def deref_def rd_def)
  next
    case False
    then have "?i = length ?c" using chain_find_le [of ht "hashOf ht k" k ?c] by simp
    moreover have "k \<notin> key ` set (entries ht)" using False cf(1) key_bucket [OF ok(1)] by simp
    then have "ht_map ht k = None" by (simp add: ht_map_None)
    ultimately show ?thesis using r b by (simp add: PL_HashTableLookupConst_def deref_def rd_def)
  qed
qed

lemma Add_spec:
  assumes "ph_ok ht"
  shows "\<exists>ht' r. PL_HashTableAdd ht k v = Some (ht', r) \<and> ph_ok ht'
    \<and> ht_map ht' = (if r \<noteq> None then (ht_map ht)(k \<mapsto> v) else ht_map ht)"
proof -
  note ok = ph_okD [OF assms]
  obtain ht1 i c where l: "PL_HashTableRawLookup ht (hashOf ht k) k = Some (ht1, (bucket_of ht (hashOf ht k), i))"
    "ht1 = ht\<lparr>buckets := (buckets ht)[bucket_of ht (hashOf ht k) := c]\<rparr>"
    "ph_ok ht1" "same_ops ht ht1" "mset (entries ht1) = mset (entries ht)" "ht_map ht1 = ht_map ht"
    "buckets ht1 ! bucket_of ht (hashOf ht k) = c" "bucket_of ht (hashOf ht k) < length (buckets ht1)"
    "ht_map ht k = None \<Longrightarrow> k \<notin> key ` set (entries ht) \<and> i = length c \<and> ht1 = ht"
    "\<And>v. ht_map ht k = Some v \<Longrightarrow> i = 0 \<and> c \<noteq> [] \<and> key (hd c) = k \<and> valuep (hd c) = v"
    by (rule lookup_ok [OF assms, of k]) (rule that)
  let ?b = "bucket_of ht (hashOf ht k)"
  show ?thesis
  proof (cases "ht_map ht k")
    case None
    then have n: "k \<notin> key ` set (entries ht)" "i = length (buckets ht ! ?b)" "ht1 = ht" using l(9) l(7) by auto
    let ?e = "\<lparr>keyHash = hashOf ht k, key = k, valuep = v\<rparr>"
    obtain ht2 r where a: "PL_HashTableRawAdd ht (?b, i) (hashOf ht k) k v = Some (ht2, r)" "added ht ht2 (r \<noteq> None) ?e"
      using RawAdd_spec [OF assms n(1) refl n(2), of v] by blast
    have d: "deref ht (?b, i) = Some None" using deref_simps(1) [OF l(8)] n(2,3) by simp
    have "PL_HashTableAdd ht k v = Some (ht2, r)"
      using l(1) a(1) d by (simp add: PL_HashTableAdd_def n(3))
    moreover have "ph_ok ht2"
      using a(2) same_client ok(2) by (auto simp: added_def ph_ok_def)
    moreover have "ht_map ht2 = (if r \<noteq> None then (ht_map ht)(k \<mapsto> v) else ht_map ht)"
    proof (cases "r = None")
      case True
      then show ?thesis using a(2) ht_map_mset [OF placedD(5) [OF ok(1)], of ht2] by (simp add: added_def)
    next
      case False
      then have "placed ht2" "mset (entries ht2) = add_mset ?e (mset (entries ht))" using a(2) by (simp_all add: added_def)
      then have "ht_map ht2 = (ht_map ht)(key ?e \<mapsto> valuep ?e)"
        using placedD(5) [OF ok(1)] by (intro ht_map_mset_upd [where M = "mset (entries ht)"]) (auto simp: placedD(5))
      then show ?thesis using False by simp
    qed
    ultimately show ?thesis by blast
  next
    case (Some w)
    then have p: "i = 0" "c \<noteq> []" "key (hd c) = k" "valuep (hd c) = w" using l(10) by auto
    have d: "deref ht1 (?b, i) = Some (Some (hd c))" using deref_simps(2) [OF l(8)] l(7) p(1,2) by simp
    show ?thesis
    proof (cases "valueCompare ht1 (valuep (hd c)) v")
      case True
      then have "w = v" using ph_okD(5) [OF l(3)] p(4) by blast
      moreover have "PL_HashTableAdd ht k v = Some (ht1, Some (?b, i))"
        using True l(1) d by (simp add: PL_HashTableAdd_def)
      ultimately show ?thesis using l(3,6) Some by (intro exI [of _ ht1] exI [of _ "Some (?b, i)"]) (simp add: fun_upd_idem)
    next
      case False
      define ht2 where "ht2 = (if valuep (hd c) \<noteq> 0 then ht1\<lparr>freed := freed ht1 @ [(hd c, HT_FREE_VALUE)]\<rparr> else ht1)"
      let ?e = "(hd c)\<lparr>valuep := v\<rparr>"
      define ht3 where "ht3 = ht2\<lparr>buckets := (buckets ht2)[?b := c[0 := ?e]]\<rparr>"
      have h2: "buckets ht2 = buckets ht1" "entries ht2 = entries ht1" "placed ht2" "same_ops ht1 ht2" "nentries ht2 = nentries ht1"
        using ph_okD(1) [OF l(3)] by (auto simp: ht2_def entries_def placed_def same_ops_def)
      have "PL_HashTableAdd ht k v = Some (ht3, Some (?b, i))"
        using False l(1,7,8) d p(1) h2(1) by (simp add: PL_HashTableAdd_def Let_def ht3_def ht2_def [symmetric] rd_def)
      moreover have m: "mset (entries ht3) + mset c = mset (entries ht1) + mset (c[0 := ?e])"
        using entries_set [of ?b ht2 "c[0 := ?e]"] l(7,8) h2(1,2) by (simp add: ht3_def)
      have cc: "c = hd c # tl c" using p(2) by simp
      have "hd c \<in> set (entries ht1)" using concat_nth_mem [OF l(8), of "hd c"] l(7) p(2) by (simp add: entries_def)
      then obtain M where m1: "mset (entries ht1) = add_mset (hd c) M" by (metis multi_member_split set_mset_mset)
      have m3: "mset (entries ht3) = add_mset ?e M"
      proof -
        have "mset c = add_mset (hd c) (mset (tl c))" "mset (c[0 := ?e]) = add_mset ?e (mset (tl c))"
          using p(2) by (cases c; simp)+
        with m m1 show ?thesis by simp
      qed
      have keys: "mset (map key (entries ht3)) = mset (map key (entries ht1))"
      proof -
        have "image_mset key (mset (entries ht3)) = image_mset key (mset (entries ht1))"
          by (simp add: m1 m3)
        then show ?thesis by simp
      qed
      then have d3: "distinct (map key (entries ht3))"
        using placedD(5) [OF ph_okD(1) [OF l(3)]] by (metis mset_eq_imp_distinct_iff)
      have "placed ht3"
        unfolding ht3_def
      proof (rule placed_set [OF h2(3)])
        show "?b < length (buckets ht2)" using l(8) h2(1) by simp
        have "\<forall>e \<in> set c. at_home ht2 ?b e" using placedD(4) [OF h2(3)] l(7,8) h2(1) by simp
        then have "at_home ht2 ?b (hd c)" "\<forall>e \<in> set (tl c). at_home ht2 ?b e" using p(2) by (simp_all add: list.set_sel)
        then show "\<forall>e \<in> set (c[0 := ?e]). at_home ht2 ?b e"
          by (subst cc) simp
        show "distinct (map key (entries (ht2\<lparr>buckets := (buckets ht2)[?b := c[0 := ?e]]\<rparr>)))"
          using d3 by (simp add: ht3_def)
      qed
      moreover have "length (entries ht3) = length (entries ht1)" using keys by (metis length_map mset_eq_length)
      moreover have so: "same_ops ht1 ht3" "nentries ht3 = nentries ht1" using h2 by (simp_all add: ht3_def same_ops_def)
      ultimately have t: "ph_ok ht3"
        using same_client [OF so(1)] ph_okD(2,3) [OF l(3)] by (simp add: ph_ok_def)
      have "ht_map ht3 = (ht_map ht1)(key ?e \<mapsto> valuep ?e)"
        using m1 by (intro ht_map_mset_upd [OF d3 m3]) (auto simp: placedD(5) [OF ph_okD(1) [OF l(3)]])
      then have "ht_map ht3 = (ht_map ht)(k \<mapsto> v)" using l(6) p(3) by simp
      with t \<open>PL_HashTableAdd ht k v = Some (ht3, Some (?b, i))\<close> show ?thesis by auto
    qed
  qed
qed

lemma Remove_spec:
  assumes "ph_ok ht"
  shows "\<exists>ht'. PL_HashTableRemove ht k = Some (ht', ht_map ht k \<noteq> None) \<and> ph_ok ht'
    \<and> ht_map ht' = (ht_map ht)(k := None)"
proof -
  obtain ht1 i c where l: "PL_HashTableRawLookup ht (hashOf ht k) k = Some (ht1, (bucket_of ht (hashOf ht k), i))"
    "ph_ok ht1" "mset (entries ht1) = mset (entries ht)" "ht_map ht1 = ht_map ht"
    "buckets ht1 ! bucket_of ht (hashOf ht k) = c" "bucket_of ht (hashOf ht k) < length (buckets ht1)"
    "ht_map ht k = None \<Longrightarrow> k \<notin> key ` set (entries ht) \<and> i = length c \<and> ht1 = ht"
    "\<And>v. ht_map ht k = Some v \<Longrightarrow> i = 0 \<and> c \<noteq> [] \<and> key (hd c) = k \<and> valuep (hd c) = v"
    by (rule lookup_ok [OF assms, of k]) (rule that)
  let ?b = "bucket_of ht (hashOf ht k)"
  note ok1 = ph_okD [OF l(2)]
  show ?thesis
  proof (cases "ht_map ht k")
    case None
    then have "PL_HashTableRemove ht k = Some (ht, False)"
      using l(1,5,6,7) deref_simps(1) [OF l(6)] by (simp add: PL_HashTableRemove_def)
    then show ?thesis using None assms by (auto simp: fun_upd_idem)
  next
    case (Some w)
    then have p: "i = 0" "c \<noteq> []" "key (hd c) = k" using l(8) by auto
    have d: "deref ht1 (?b, i) = Some (Some (hd c))" using deref_simps(2) [OF l(6)] l(5) p(1,2) by simp
    define ht2 where "ht2 = ht1\<lparr>buckets := (buckets ht1)[?b := drop 1 c]\<rparr>"
    have cc: "mset c = add_mset (hd c) (mset (drop 1 c))" using p(2) by (cases c) simp_all
    have "mset (entries ht2) + mset c = mset (entries ht1) + mset (drop 1 c)"
      using entries_set [OF l(6), of "drop 1 c"] l(5) by (simp add: ht2_def)
    then have m: "mset (entries ht1) = add_mset (hd c) (mset (entries ht2))"
      by (simp add: cc)
    have "mset (map key (entries ht1)) = mset (map key (hd c # entries ht2))" using m by simp
    then have "distinct (map key (hd c # entries ht2))" using placedD(5) [OF ok1(1)] by (metis mset_eq_imp_distinct_iff)
    then have d2: "distinct (map key (entries ht2))" by simp
    have p2: "placed ht2"
      unfolding ht2_def
    proof (rule placed_set [OF ok1(1) l(6)])
      show "\<forall>e \<in> set (drop 1 c). at_home ht1 ?b e"
        using placedD(4) [OF ok1(1) l(6)] l(5) by (auto dest: in_set_dropD)
    qed (use d2 in \<open>simp add: ht2_def\<close>)
    have so: "same_ops ht1 ht2" "nentries ht2 = nentries ht1" by (simp_all add: ht2_def same_ops_def)
    have "length (entries ht1) = Suc (length (entries ht2))" by (metis m size_add_mset size_mset)
    then have "loose (Suc 0) ht2"
      using p2 so same_client [OF so(1)] ok1(2,3) by (simp add: loose_def)
    then obtain ht3 where r: "RawRemove_freed ht2 (hd c) = Some ht3" "loose 0 ht3" "mset (entries ht3) = mset (entries ht2)"
      using RawRemove_freed_spec by blast
    have "PL_HashTableRemove ht k = Some (ht3, True)"
      using l(1,5,6) d p(1) r(1) by (simp add: PL_HashTableRemove_def PL_HashTableRawRemove_def rd_def ht2_def)
    moreover have "ht_map ht3 = (ht_map ht1)(key (hd c) := None)"
      using m r(3) placedD(5) [OF ok1(1)] by (intro ht_map_mset_del) simp_all
    ultimately show ?thesis using r(2) p(3) Some l(4) by (auto simp: loose_0)
  qed
qed

end
