(* ===== verification/Pl_Hash_Spec.thy ===== *)
theory Pl_Hash_Spec
  imports Pl_Hash_Inv Hash_Map
begin

text \<open>
  The enumeration of \<open>plhash.c\<close>, its table as an implementation of a finite map, and the
  properties of its operations.
\<close>

subsection \<open>Enumeration\<close>

text \<open>The enumerator leaves the key and the hash of an entry alone.\<close>

definition keeps_keys :: "('k PLHashEntry \<Rightarrow> int \<Rightarrow> 's \<Rightarrow> u32 \<times> 'k PLHashEntry \<times> 's) \<Rightarrow> bool" where
  "keeps_keys f \<longleftrightarrow> (\<forall>e n a. key (fst (snd (f e n a))) = key e \<and> keyHash (fst (snd (f e n a))) = keyHash e)"

lemma enum_chain_append:
  "enum_chain f (c1 @ c2) todo n arg = (case enum_chain f c1 todo n arg of (k1, todo1, n1, arg1, stop1) \<Rightarrow>
     if stop1 then (k1 @ c2, todo1, n1, arg1, True)
     else case enum_chain f c2 todo1 n1 arg1 of (k2, todo2, n2, arg2, stop2) \<Rightarrow> (k1 @ k2, todo2, n2, arg2, stop2))"
  by (induction c1 arbitrary: todo n arg) (auto simp: Let_def split: prod.splits)

lemma enum_buckets_concat:
  "enum_buckets f bs todo n arg = (bs', todo', n', arg') \<Longrightarrow>
    length bs' = length bs \<and> (\<exists>stop. enum_chain f (concat bs) todo n arg = (concat bs', todo', n', arg', stop))"
proof (induction bs arbitrary: todo n arg bs' todo' n' arg')
  case (Cons c bs)
  obtain k1 todo1 n1 arg1 stop1 where c: "enum_chain f c todo n arg = (k1, todo1, n1, arg1, stop1)"
    by (cases "enum_chain f c todo n arg") auto
  show ?case
  proof (cases stop1)
    case True
    then show ?thesis using Cons.prems c by (auto simp: enum_chain_append)
  next
    case False
    obtain bs2 todo2 n2 arg2 where b: "enum_buckets f bs todo1 n1 arg1 = (bs2, todo2, n2, arg2)"
      by (cases "enum_buckets f bs todo1 n1 arg1") auto
    then show ?thesis using Cons.IH [OF b] Cons.prems c False by (auto simp: enum_chain_append)
  qed
qed auto

lemma enum_chain_spec:
  assumes "keeps_keys f" "enum_chain f c todo n arg = (kept, todo', n', arg', stop)"
  shows "\<exists>gone. todo' = gone @ todo \<and> length kept + length gone \<le> length c
    \<and> (\<forall>e' \<in> set kept. \<exists>e \<in> set c. key e' = key e \<and> keyHash e' = keyHash e)
    \<and> (distinct (map key c) \<longrightarrow> distinct (map key kept))"
  using assms(2)
proof (induction c arbitrary: todo n arg kept todo' n' arg' stop)
  case (Cons e c)
  obtain rv e1 arg1 where f: "f e n arg = (rv, e1, arg1)" by (cases "f e n arg") auto
  have k: "key e1 = key e" "keyHash e1 = keyHash e" using assms(1) f by (metis keeps_keys_def fst_conv snd_conv)+
  let ?todo = "if rv AND 2 \<noteq> 0 then e1 # todo else todo"
  have six: "rv AND 2 \<noteq> 0 \<Longrightarrow> rv AND 6 \<noteq> 0"
  proof -
    have "rv AND 2 = (rv AND 6) AND 2" by (simp add: and.assoc)
    then show "rv AND 2 \<noteq> 0 \<Longrightarrow> rv AND 6 \<noteq> 0" by auto
  qed
  show ?case
  proof (cases "rv AND 1 \<noteq> 0")
    case True
    then show ?thesis
      using Cons.prems f k six by (auto simp: Let_def split: if_splits)
  next
    case False
    obtain rest todo2 n2 arg2 stop2 where r: "enum_chain f c ?todo (n + 1) arg1 = (rest, todo2, n2, arg2, stop2)"
      by (cases "enum_chain f c ?todo (n + 1) arg1") auto
    obtain gone where g: "todo2 = gone @ ?todo" "length rest + length gone \<le> length c"
      "\<forall>e' \<in> set rest. \<exists>e \<in> set c. key e' = key e \<and> keyHash e' = keyHash e"
      "distinct (map key c) \<longrightarrow> distinct (map key rest)"
      using Cons.IH [OF r] by blast
    have kept: "kept = (if rv AND 6 \<noteq> 0 then rest else e1 # rest)" "todo' = todo2"
      using Cons.prems f False r by (auto simp: Let_def split: if_splits)
    have new: "key e1 \<notin> key ` set rest" if "key e \<notin> key ` set c"
    proof
      assume "key e1 \<in> key ` set rest"
      then obtain e' where e': "e' \<in> set rest" "key e' = key e" using k(1) by auto
      then obtain x where "x \<in> set c" "key e' = key x" using g(3) by blast
      then have "key e \<in> key ` set c" using e'(2) by (intro image_eqI [of _ _ x]) simp_all
      with that show False by contradiction
    qed
    have "todo' = (if rv AND 2 \<noteq> 0 then gone @ [e1] else gone) @ todo" using g(1) kept(2) by simp
    moreover have "length kept + length (if rv AND 2 \<noteq> 0 then gone @ [e1] else gone) \<le> length (e # c)"
      using g(2) kept(1) six by auto
    moreover have "\<forall>e' \<in> set kept. \<exists>x \<in> set (e # c). key e' = key x \<and> keyHash e' = keyHash x"
      using g(3) kept(1) k by (auto split: if_splits)
    moreover have "distinct (map key (e # c)) \<longrightarrow> distinct (map key kept)"
      using g(4) kept(1) new by simp
    ultimately show ?thesis by blast
  qed
qed simp

subsection \<open>What an enumeration does, as a reference\<close>

text \<open>
  The replies of an enumerator that is called on every entry of a list: its verdict, the entry as it leaves it,
  and its state. An enumeration sees them up to the first verdict with bit 0 (stop). Of the entries visited those with
  bit 1 (remove) or bit 2 (unhash) leave the table, and those with bit 1 are freed.
\<close>

fun replies ::
  "('k PLHashEntry \<Rightarrow> int \<Rightarrow> 's \<Rightarrow> u32 \<times> 'k PLHashEntry \<times> 's) \<Rightarrow> 'k PLHashEntry list \<Rightarrow> int \<Rightarrow> 's
    \<Rightarrow> (u32 \<times> 'k PLHashEntry \<times> 's) list" where
  "replies f [] n a = []"
| "replies f (e # es) n a = f e n a # replies f es (n + 1) (snd (snd (f e n a)))"

definition stops :: "u32 \<times> 'k PLHashEntry \<times> 's \<Rightarrow> bool" where
  "stops r \<longleftrightarrow> bit (fst r) 0"

definition removes :: "u32 \<times> 'k PLHashEntry \<times> 's \<Rightarrow> bool" where
  "removes r \<longleftrightarrow> bit (fst r) 1"

definition unhashes :: "u32 \<times> 'k PLHashEntry \<times> 's \<Rightarrow> bool" where
  "unhashes r \<longleftrightarrow> \<not> bit (fst r) 1 \<and> bit (fst r) 2"

definition visited ::
  "('k PLHashEntry \<Rightarrow> int \<Rightarrow> 's \<Rightarrow> u32 \<times> 'k PLHashEntry \<times> 's) \<Rightarrow> 'k PLHashEntry list \<Rightarrow> int \<Rightarrow> 's
    \<Rightarrow> (u32 \<times> 'k PLHashEntry \<times> 's) list" where
  "visited f es n a = (let rs = replies f es n a in take (Suc (length (takeWhile (\<lambda>r. \<not> stops r) rs))) rs)"

definition entry_of :: "u32 \<times> 'k PLHashEntry \<times> 's \<Rightarrow> 'k PLHashEntry" where
  "entry_of r = fst (snd r)"

definition kept_of :: "(u32 \<times> 'k PLHashEntry \<times> 's) list \<Rightarrow> 'k PLHashEntry list" where
  "kept_of vs = map entry_of (filter (\<lambda>r. \<not> removes r \<and> \<not> unhashes r) vs)"

definition removed_of :: "(u32 \<times> 'k PLHashEntry \<times> 's) list \<Rightarrow> 'k PLHashEntry list" where
  "removed_of vs = map entry_of (filter removes vs)"

definition state_after :: "'s \<Rightarrow> (u32 \<times> 'k PLHashEntry \<times> 's) list \<Rightarrow> 's" where
  "state_after a vs = (if vs = [] then a else snd (snd (last vs)))"

lemma visited_Nil: "visited f [] n a = []"
  by (simp add: visited_def)

lemma visited_Cons:
  "visited f (e # es) n a = (let r = f e n a in if stops r then [r] else r # visited f es (n + 1) (snd (snd r)))"
  by (simp add: visited_def Let_def)

lemma state_after_Cons: "state_after a (r # vs) = state_after (snd (snd r)) vs"
  by (simp add: state_after_def)

lemma verdict_bits:
  "(rv :: u32) AND 1 \<noteq> 0 \<longleftrightarrow> bit rv 0" "rv AND 2 \<noteq> 0 \<longleftrightarrow> bit rv 1" "rv AND 6 \<noteq> 0 \<longleftrightarrow> bit rv 1 \<or> bit rv 2"
proof -
  have one: "rv AND push_bit k 1 \<noteq> 0 \<longleftrightarrow> bit rv k" for k by (simp add: bit_iff_and_push_bit_not_eq_0)
  show "rv AND 1 \<noteq> 0 \<longleftrightarrow> bit rv 0" "rv AND 2 \<noteq> 0 \<longleftrightarrow> bit rv 1" using one [of 0] one [of 1] by simp_all
  have "rv AND 6 = (rv AND push_bit 1 1) OR (rv AND push_bit 2 1)" by (simp flip: bit.conj_disj_distrib)
  then show "rv AND 6 \<noteq> 0 \<longleftrightarrow> bit rv 1 \<or> bit rv 2" using one [of 1] one [of 2] by (auto simp: or_eq_0_iff)
qed

lemma enum_chain_visited:
  assumes "enum_chain f c todo n a = (kept, todo', n', a', stop)" and "vs = visited f c n a"
  shows "kept = kept_of vs @ drop (length vs) c \<and> todo' = rev (removed_of vs) @ todo \<and> n' = n + int (length vs)
    \<and> a' = state_after a vs"
  using assms
proof (induction c arbitrary: todo n a kept todo' n' a' stop vs)
  case Nil
  then show ?case by (simp add: visited_Nil kept_of_def removed_of_def state_after_def)
next
  case (Cons e c)
  note defs = kept_of_def removed_of_def stops_def removes_def unhashes_def entry_of_def
  obtain rv e1 a1 where f: "f e n a = (rv, e1, a1)" by (cases "f e n a") auto
  let ?todo = "if bit rv 1 then e1 # todo else todo"
  show ?case
  proof (cases "bit rv 0")
    case True
    then have vs: "vs = [(rv, e1, a1)]" using Cons.prems(2) f by (simp add: visited_Cons stops_def)
    show ?thesis
      using Cons.prems(1) f True unfolding vs
      by (auto simp: verdict_bits defs state_after_def split: if_splits)
  next
    case False
    obtain rest todo2 n2 a2 stop2 where r: "enum_chain f c ?todo (n + 1) a1 = (rest, todo2, n2, a2, stop2)"
      by (cases "enum_chain f c ?todo (n + 1) a1") auto
    note IH = Cons.IH [OF r refl]
    have vs: "vs = (rv, e1, a1) # visited f c (n + 1) a1" using Cons.prems(2) f False by (simp add: visited_Cons stops_def)
    have "kept = (if bit rv 1 \<or> bit rv 2 then rest else e1 # rest)" "todo' = todo2" "n' = n2" "a' = a2"
      using Cons.prems(1) f False r by (auto simp: verdict_bits split: if_splits)
    then show ?thesis
      using IH unfolding vs state_after_Cons by (auto simp: defs)
  qed
qed

lemma enum_buckets_home:
  assumes "keeps_keys f"
  shows "enum_buckets f bs todo n arg = (bs', todo', n', arg') \<Longrightarrow>
    \<forall>b < length bs. \<forall>e' \<in> set (bs' ! b). \<exists>e \<in> set (bs ! b). key e' = key e \<and> keyHash e' = keyHash e"
proof (induction bs arbitrary: todo n arg bs' todo' n' arg')
  case (Cons c bs)
  obtain k1 todo1 n1 arg1 stop1 where c: "enum_chain f c todo n arg = (k1, todo1, n1, arg1, stop1)"
    by (cases "enum_chain f c todo n arg") auto
  have h: "\<forall>e' \<in> set k1. \<exists>e \<in> set c. key e' = key e \<and> keyHash e' = keyHash e"
    using enum_chain_spec [OF assms c] by blast
  show ?case
  proof (cases stop1)
    case True
    then have bs': "bs' = k1 # bs" using Cons.prems c by simp
    show ?thesis using h by (auto simp: bs' less_Suc_eq_0_disj)
  next
    case False
    obtain bs2 todo2 n2 arg2 where b: "enum_buckets f bs todo1 n1 arg1 = (bs2, todo2, n2, arg2)"
      by (cases "enum_buckets f bs todo1 n1 arg1") auto
    then have bs': "bs' = k1 # bs2" using Cons.prems c False by simp
    show ?thesis using h Cons.IH [OF b] by (auto simp: bs' less_Suc_eq_0_disj)
  qed
qed simp

lemma remove_todo_spec:
  "loose (m + length todo) ht \<Longrightarrow> \<exists>ht'. remove_todo todo ht = Some ht' \<and> loose m ht' \<and> same_ops ht ht'
    \<and> freed ht' = freed ht @ map (\<lambda>e. (e, HT_FREE_ENTRY)) todo \<and> mset (entries ht') = mset (entries ht)"
proof (induction todo arbitrary: ht)
  case Nil
  then show ?case by (simp add: same_ops_def)
next
  case (Cons e todo)
  have "loose (Suc (m + length todo)) ht" using Cons.prems by simp
  from RawRemove_freed_spec [OF this, of e] obtain ht1 where ht1: "RawRemove_freed ht e = Some ht1"
    "loose (m + length todo) ht1" "same_ops ht ht1" "freed ht1 = freed ht @ [(e, HT_FREE_ENTRY)]"
    "mset (entries ht1) = mset (entries ht)" by blast
  from Cons.IH [OF ht1(2)] obtain ht2 where "remove_todo todo ht1 = Some ht2" "loose m ht2" "same_ops ht1 ht2"
    "freed ht2 = freed ht1 @ map (\<lambda>e. (e, HT_FREE_ENTRY)) todo" "mset (entries ht2) = mset (entries ht1)" by blast
  with ht1 show ?case by (auto simp: same_ops_def)
qed

lemma Enumerate_spec:
  assumes "ph_ok ht" "keeps_keys f" "enum_chain f (entries ht) [] 0 arg = (kept, todo, n, arg', stop)"
  shows "\<exists>ht'. PL_HashTableEnumerateEntries ht f arg = Some (ht', n, arg')
    \<and> mset (entries ht') = mset kept \<and> freed ht' = freed ht @ map (\<lambda>e. (e, HT_FREE_ENTRY)) todo
    \<and> loose (length (entries ht) - length kept - length todo) ht'"
proof -
  note ok = ph_okD [OF assms(1)]
  obtain bs' todo' n' arg'' where b: "enum_buckets f (buckets ht) [] 0 arg = (bs', todo', n', arg'')"
    by (cases "enum_buckets f (buckets ht) [] 0 arg") auto
  have c: "concat bs' = kept" "todo' = todo" "n' = n" "arg'' = arg'" "length bs' = length (buckets ht)"
    using enum_buckets_concat [OF b] assms(3) by (auto simp: entries_def)
  obtain nb where nb: "NBUCKETS ht = Some nb" "unat nb = length (buckets ht)"
    using ph_size [OF ok(1)] placedD(1) [OF ok(1)] by metis
  define ht1 where "ht1 = ht\<lparr>buckets := bs'\<rparr>"
  have e1: "entries ht1 = kept" by (simp add: ht1_def entries_def c(1))
  obtain gone where g: "todo = gone @ []" "length kept + length gone \<le> length (entries ht)"
    "distinct (map key (entries ht)) \<longrightarrow> distinct (map key kept)"
    using enum_chain_spec [OF assms(2,3)] by blast
  have "at_home ht b' e'" if "b' < length bs'" "e' \<in> set (bs' ! b')" for b' e'
  proof -
    obtain e where "e \<in> set (buckets ht ! b')" "key e' = key e" "keyHash e' = keyHash e"
      using enum_buckets_home [OF assms(2) b] \<open>e' \<in> set (bs' ! b')\<close> \<open>b' < length bs'\<close> c(5) by metis
    then show ?thesis
      using placedD(4) [OF ok(1), of b' e] \<open>b' < length bs'\<close> c(5) by (metis at_home_def)
  qed
  then have p1: "placed ht1"
    using ok(1) g(3) c(5) e1 unfolding placed_def by (simp add: ht1_def)
  have so: "same_ops ht ht1" "nentries ht1 = nentries ht" "freed ht1 = freed ht" by (simp_all add: ht1_def same_ops_def)
  have "loose ((length (entries ht) - length kept - length todo) + length todo) ht1"
    using p1 ok(2,3) same_client [OF so(1)] so(2) e1 g(1,2) by (simp add: loose_def)
  from remove_todo_spec [OF this] obtain ht2 where "remove_todo todo ht1 = Some ht2"
    "loose (length (entries ht) - length kept - length todo) ht2"
    "freed ht2 = freed ht1 @ map (\<lambda>e. (e, HT_FREE_ENTRY)) todo" "mset (entries ht2) = mset (entries ht1)" by blast
  moreover have "PL_HashTableEnumerateEntries ht f arg = Some (ht2, n, arg')"
    using nb b c calculation(1) by (simp add: PL_HashTableEnumerateEntries_def ht1_def)
  ultimately show ?thesis using so(3) e1 by auto
qed


lemma visited_length: "length (visited f c n a) \<le> length c"
proof -
  have "length (replies f c n a) = length c" by (induction c arbitrary: n a) simp_all
  then show ?thesis by (simp add: visited_def Let_def)
qed

lemma visited_parts: "length (kept_of vs) + length (removed_of vs) + length (filter unhashes vs) = length vs"
  by (induction vs) (auto simp: kept_of_def removed_of_def removes_def unhashes_def)

lemma Enumerate_visited:
  assumes "ph_ok ht" "keeps_keys f" and "vs = visited f (entries ht) 0 arg"
  shows "\<exists>ht'. PL_HashTableEnumerateEntries ht f arg = Some (ht', int (length vs), state_after arg vs)
    \<and> mset (entries ht') = mset (kept_of vs @ drop (length vs) (entries ht))
    \<and> freed ht' = freed ht @ map (\<lambda>e. (e, HT_FREE_ENTRY)) (rev (removed_of vs))
    \<and> loose (length (filter unhashes vs)) ht'"
proof -
  obtain kept todo n arg' stop where c: "enum_chain f (entries ht) [] 0 arg = (kept, todo, n, arg', stop)"
    by (cases "enum_chain f (entries ht) [] 0 arg") auto
  have v: "kept = kept_of vs @ drop (length vs) (entries ht)" "todo = rev (removed_of vs)" "n = int (length vs)"
    "arg' = state_after arg vs" using enum_chain_visited [OF c assms(3)] by simp_all
  have "length vs \<le> length (entries ht)" using visited_length assms(3) by simp
  then have "length (entries ht) - length kept - length todo = length (filter unhashes vs)"
    using visited_parts [of vs] unfolding v by simp
  then show ?thesis using Enumerate_spec [OF assms(1,2) c] unfolding v by simp
qed

subsection \<open>The interface\<close>

lemma NewHashTable_spec:
  assumes "unat n \<le> 2 ^ 30" "\<forall>a b. keycmp a b \<longleftrightarrow> a = b" "\<forall>a b. valcmp a b \<longrightarrow> a = b"
    and "\<forall>nb. allocTable aops nb \<longrightarrow> unat nb \<le> 2 ^ 33" "\<not> allocEntry aops (- 1)"
  obtains "PL_NewHashTable n hashf keycmp valcmp aops mem = Some None"
    | ht where "PL_NewHashTable n hashf keycmp valcmp aops mem = Some (Some ht)" "ph_ok ht" "ht_map ht = Map.empty"
        "freed ht = []"
proof -
  define l where "l = (if n \<le> MINBUCKETS then 4 else PR_CeilingLog2 n)"
  have l: "4 \<le> l" "l \<le> 30"
  proof -
    have "4 \<le> PR_CeilingLog2 n" if "\<not> n \<le> 16"
    proof -
      have "n \<noteq> 0" "16 \<le> unat n" using that by (auto simp: word_le_nat_alt)
      then have "(2 :: nat) ^ 4 \<le> 2 ^ PR_CeilingLog2 n" using CeilingLog2_bounds(1) [of n] by simp
      then show ?thesis using power_le_imp_le_exp [of "2 :: nat" 4] by simp
    qed
    then show "4 \<le> l" by (simp add: l_def)
    have "PR_CeilingLog2 n \<le> 30" if "\<not> n \<le> 16"
    proof -
      have "n \<noteq> 0" using that by auto
      then show ?thesis using CeilingLog2_bounds(2) [of n 30] assms(1) by simp
    qed
    then show "l \<le> 30" by (simp add: l_def)
  qed
  let ?nb = "ucast (push_bit l 1 :: u32) * 8 :: u64"
  have new: "PL_NewHashTable n hashf keycmp valcmp aops mem = (if \<not> mem \<or> \<not> allocTable aops ?nb then Some None
      else Some (Some \<lparr>buckets = zero_buckets ?nb, nentries = 0, shift = 32 - l, hashOf = hashf,
                 keyCompare = keycmp, valueCompare = valcmp, allocOps = aops, freed = []\<rparr>))"
    using l(2) by (simp add: PL_NewHashTable_def l_def [symmetric] int_bit_def Let_def)
  have p30: "(2 :: nat) ^ l \<le> 2 ^ 30" using l(2) by (rule power_increasing) simp
  have "unat (push_bit l 1 :: u32) = 2 ^ l" using l(2) by (intro unat_pow2) simp
  then have nb: "unat ?nb = 2 ^ l * 8" using p30 by (simp add: unat_word_ariths unsigned_ucast_eq take_bit_eq_mod)
  have s: "2 \<le> 32 - l" "32 - l \<le> 28" "32 - (32 - l) = l" using l by linarith+
  let ?ht = "\<lparr>buckets = zero_buckets ?nb, nentries = 0, shift = 32 - l, hashOf = hashf,
       keyCompare = keycmp, valueCompare = valcmp, allocOps = aops, freed = []\<rparr>"
  have e: "entries ?ht = []" by (simp add: entries_def zero_buckets_def)
  have zb: "zero_buckets ?nb = replicate (2 ^ l) []" unfolding zero_buckets_def nb by simp
  have "placed ?ht" using s unfolding placed_def zb by (simp add: entries_def)
  then have "ph_ok ?ht" using assms(2-5) unfolding ph_ok_def e by (simp add: plhash_client_def)
  moreover have "ht_map ?ht = Map.empty" unfolding ht_map_def e by simp
  ultimately show ?thesis using new that(1) that(2) [of ?ht] by (cases "\<not> mem \<or> \<not> allocTable aops ?nb") simp_all
qed

text \<open>Look-up, put and remove of key and value pairs.\<close>

definition plhash_get :: "'k PLHashTable \<Rightarrow> 'k \<Rightarrow> ('k PLHashTable \<times> ('k \<times> u64) option) option" where
  "plhash_get ht k = do {
     (ht1, hep) \<leftarrow> PL_HashTableRawLookup ht (hashOf ht k) k;
     r \<leftarrow> deref ht1 hep;
     Some (ht1, map_option (\<lambda>he. (key he, valuep he)) r)
   }"

definition plhash_put :: "'k PLHashTable \<Rightarrow> 'k \<times> u64 \<Rightarrow> ('k PLHashTable \<times> bool) option" where
  "plhash_put ht kv = do { (ht1, r) \<leftarrow> PL_HashTableAdd ht (fst kv) (snd kv); Some (ht1, r \<noteq> None) }"

definition plhash_del :: "'k PLHashTable \<Rightarrow> 'k \<Rightarrow> 'k PLHashTable option" where
  "plhash_del ht k = do { (ht1, b) \<leftarrow> PL_HashTableRemove ht k; Some ht1 }"

definition pairs :: "'k PLHashTable \<Rightarrow> 'k \<rightharpoonup> 'k \<times> u64" where
  "pairs ht k = map_option (Pair k) (ht_map ht k)"

interpretation plhash: hash_map ph_ok pairs fst plhash_get plhash_put plhash_del
proof
  fix ht :: "'k PLHashTable" and k
  assume ok: "ph_ok ht"
  obtain ht' i c where l: "PL_HashTableRawLookup ht (hashOf ht k) k = Some (ht', (bucket_of ht (hashOf ht k), i))"
    "ph_ok ht'" "ht_map ht' = ht_map ht"
    "buckets ht' ! bucket_of ht (hashOf ht k) = c" "bucket_of ht (hashOf ht k) < length (buckets ht')"
    "ht_map ht k = None \<Longrightarrow> k \<notin> key ` set (entries ht) \<and> i = length c \<and> ht' = ht"
    "\<And>v. ht_map ht k = Some v \<Longrightarrow> i = 0 \<and> c \<noteq> [] \<and> key (hd c) = k \<and> valuep (hd c) = v"
    by (rule lookup_ok [OF ok, of k]) (rule that)
  have "plhash_get ht k = Some (ht', pairs ht k)"
    using l deref_simps [OF l(5)] by (cases "ht_map ht k") (auto simp: plhash_get_def pairs_def)
  then show "\<exists>t'. plhash_get ht k = Some (t', pairs ht k) \<and> ph_ok t' \<and> pairs t' = pairs ht"
    using l(2,3) by (simp add: pairs_def fun_eq_iff)
next
  fix ht :: "'k PLHashTable" and v
  assume ok: "ph_ok ht"
  obtain ht' r where "PL_HashTableAdd ht (fst v) (snd v) = Some (ht', r)" "ph_ok ht'"
    "ht_map ht' = (if r \<noteq> None then (ht_map ht)(fst v \<mapsto> snd v) else ht_map ht)"
    using Add_spec [OF ok] by blast
  then show "\<exists>t' b. plhash_put ht v = Some (t', b) \<and> ph_ok t' \<and> pairs t' = (if b then (pairs ht)(fst v \<mapsto> v) else pairs ht)"
    by (intro exI [of _ ht'] exI [of _ "r \<noteq> None"]) (auto simp: plhash_put_def pairs_def fun_eq_iff)
next
  fix ht :: "'k PLHashTable" and k
  assume ok: "ph_ok ht"
  obtain ht' where "PL_HashTableRemove ht k = Some (ht', ht_map ht k \<noteq> None)" "ph_ok ht'"
    "ht_map ht' = (ht_map ht)(k := None)" using Remove_spec [OF ok] by blast
  then show "\<exists>t'. plhash_del ht k = Some t' \<and> ph_ok t' \<and> pairs t' = (pairs ht)(k := None)"
    by (auto simp: plhash_del_def pairs_def fun_eq_iff)
qed

subsection \<open>Properties\<close>

text \<open>A table on 32-bit keys, for the concrete inputs: empty, and with one entry.\<close>

definition small_aops :: PLHashAllocOps where
  "small_aops = \<lparr>allocTable = \<lambda>nb. nb \<le> 0x100000, allocEntry = \<lambda>n. n < 0x10000\<rparr>"

definition small_table :: "u32 PLHashTable" where
  "small_table = \<lparr>buckets = replicate 16 [], nentries = 0, shift = 28, hashOf = \<lambda>k. k, keyCompare = (=),
     valueCompare = (=), allocOps = small_aops, freed = []\<rparr>"

definition one_entry :: "u32 PLHashTable" where
  "one_entry = small_table\<lparr>buckets := (replicate 16 [])[0 := [\<lparr>keyHash = 0, key = 0, valuep = 5\<rparr>]], nentries := 1\<rparr>"

lemma small_ok: "ph_ok small_table" "entries small_table = []" "ht_map small_table = Map.empty"
proof -
  have a: "(nb :: u64) \<le> 0x100000 \<Longrightarrow> unat nb \<le> 2 ^ 33" for nb by (simp add: word_le_nat_alt)
  show e: "entries small_table = []" by (simp add: entries_def small_table_def)
  show "ph_ok small_table"
    using a by (simp add: ph_ok_def e) (simp add: plhash_client_def placed_def small_table_def small_aops_def entries_def)
  show "ht_map small_table = Map.empty" by (simp add: ht_map_def e)
qed

lemma one_entry_ok: "ph_ok one_entry" "entries one_entry = [\<lparr>keyHash = 0, key = 0, valuep = 5\<rparr>]"
proof -
  let ?e = "\<lparr>keyHash = 0, key = 0, valuep = 5\<rparr> :: u32 PLHashEntry"
  have b: "bucket_of small_table 0 = 0" by (simp add: bucket_of_def small_table_def)
  have 1: "one_entry = small_table\<lparr>buckets := (buckets small_table)[0 := [?e]]\<rparr>\<lparr>nentries := 1\<rparr>"
    by (simp add: one_entry_def small_table_def)
  have "placed (small_table\<lparr>buckets := (buckets small_table)[0 := [?e]]\<rparr>)"
    using placed_add(1) [OF ph_okD(1) [OF small_ok(1)], of ?e 0 "[?e]"] b
    by (simp add: small_ok(2)) (simp add: small_table_def)
  then have p: "placed one_entry" unfolding 1 by (simp add: placed_def entries_def)
  show e: "entries one_entry = [?e]" by (simp add: entries_def one_entry_def small_table_def numeral_eq_Suc)
  have "plhash_client one_entry"
    using ph_okD(2) [OF small_ok(1)] by (simp add: plhash_client_def one_entry_def)
  then show "ph_ok one_entry" using p e by (simp add: ph_ok_def one_entry_def)
qed

text \<open>C2: any sequence of look-ups, puts and removes on a table of \<open>plhash.c\<close> returns, and its
  replies are those of a finite map that starts as the table's. This covers the move to the front
  in a look-up, growing and shrinking, and allocations that fail.\<close>

theorem plhash_session:
  assumes "ph_ok ht"
  shows "\<exists>ht' as. run plhash_get plhash_put plhash_del rs ht = Some (ht', as) \<and> ph_ok ht'
    \<and> agrees fst (pairs ht) rs as = Some (pairs ht')"
  using plhash.session [OF assms] .

lemma plhash_session_witness:
  "\<exists>ht' as. run plhash_get plhash_put plhash_del [Put (1, 5), Get 1, Del 1, Get 1] small_table = Some (ht', as)
    \<and> agrees fst (pairs small_table) [Put (1, 5), Get 1, Del 1, Get 1] as = Some (pairs ht')"
  using plhash_session [OF small_ok(1), of "[Put (1, 5), Get 1, Del 1, Get 1]"] by blast

text \<open>C26: \<open>PL_HashTableLookup\<close> and \<open>PL_HashTableLookupConst\<close> give the value the table holds for the
  key, and 0 for a key it does not hold. The first one may reorder the entries of a chain and
  changes nothing else: the table has the same entries, the same map, and keeps the invariant.\<close>

theorem plhash_lookup:
  assumes "ph_ok ht"
  shows "\<exists>ht'. PL_HashTableLookup ht k = Some (ht', case ht_map ht k of None \<Rightarrow> 0 | Some v \<Rightarrow> v)
    \<and> PL_HashTableLookupConst ht k = Some (case ht_map ht k of None \<Rightarrow> 0 | Some v \<Rightarrow> v)
    \<and> ph_ok ht' \<and> ht_map ht' = ht_map ht \<and> mset (entries ht') = mset (entries ht)"
  using Lookup_spec [OF assms] LookupConst_spec [OF assms] by blast

lemma plhash_lookup_witness: "\<exists>ht'. PL_HashTableLookup one_entry 0 = Some (ht', 5) \<and> mset (entries ht') = mset (entries one_entry)"
  using plhash_lookup [OF one_entry_ok(1), of 0] by (auto simp: ht_map_def one_entry_ok(2))

text \<open>C27: an enumeration with an enumerator that leaves keys and hashes alone returns. It visits the entries in the order of the
  buckets up to and including the first for which the enumerator says stop, and gives their number. The entries visited
  stay as the enumerator leaves them but for those to remove or to unhash, the others stay as they are; the entries to
  remove are freed once each, last first, those only unhashed are not, and the table is a good one except that
  its count is above the number of its entries by the number of the entries that were unhashed.\<close>

theorem plhash_enumerate:
  assumes "ph_ok ht" "keeps_keys f" and "vs = visited f (entries ht) 0 arg"
  shows "\<exists>ht'. PL_HashTableEnumerateEntries ht f arg = Some (ht', int (length vs), state_after arg vs)
    \<and> mset (entries ht') = mset (kept_of vs @ drop (length vs) (entries ht))
    \<and> freed ht' = freed ht @ map (\<lambda>e. (e, HT_FREE_ENTRY)) (rev (removed_of vs))
    \<and> loose (length (filter unhashes vs)) ht'"
  by (rule Enumerate_visited [OF assms])

lemma plhash_enumerate_witness:
  "\<exists>ht'. PL_HashTableEnumerateEntries one_entry (\<lambda>e n a. (2, e, a + n + 7)) (0 :: int) = Some (ht', 1, 7)
    \<and> entries ht' = [] \<and> freed ht' = [(\<lparr>keyHash = 0, key = 0, valuep = 5\<rparr>, HT_FREE_ENTRY)]"
proof -
  have "visited (\<lambda>e n a. (2, e, a + n + 7)) (entries one_entry) 0 (0 :: int) = [(2, \<lparr>keyHash = 0, key = 0, valuep = 5\<rparr>, 7)]"
    by (simp add: one_entry_ok(2) visited_def Let_def)
  with plhash_enumerate [OF one_entry_ok(1) _ refl, of "\<lambda>e n a. (2, e, a + n + 7)" "0 :: int"] show ?thesis
    by (auto simp: keeps_keys_def kept_of_def removed_of_def removes_def unhashes_def entry_of_def state_after_def one_entry_ok(2))
      (simp add: one_entry_def small_table_def)
qed

text \<open>an enumerator that unhashes every entry empties the table and leaves \<open>nentries\<close> as it
  was: unhashing does not count down.\<close>

lemma plhash_unhash_count:
  assumes "ph_ok ht"
  shows "\<exists>ht'. PL_HashTableEnumerateEntries ht (\<lambda>e n a. (4, e, a)) () = Some (ht', int (length (entries ht)), ())
    \<and> entries ht' = [] \<and> nentries ht' = nentries ht"
proof -
  have e: "enum_chain (\<lambda>e n a. (4, e, a)) c [] n () = ([], [], n + int (length c), (), False)" for c n
    by (induction c arbitrary: n) simp_all
  obtain ht' where ht': "PL_HashTableEnumerateEntries ht (\<lambda>e n a. (4, e, a)) () = Some (ht', int (length (entries ht)), ())"
    "entries ht' = []" "loose (length (entries ht)) ht'"
    using Enumerate_spec [OF assms _ e [of "entries ht" 0]] by (auto simp: keeps_keys_def)
  then have "unat (nentries ht') = unat (nentries ht)" using ph_okD(3) [OF assms] by (simp add: loose_def)
  with ht' show ?thesis by (auto simp: word_unat_eq_iff)
qed

lemma plhash_unhash_count_witness:
  "\<exists>ht'. PL_HashTableEnumerateEntries one_entry (\<lambda>e n a. (4, e, a)) () = Some (ht', 1, ())
    \<and> entries ht' = [] \<and> nentries ht' = 1"
  using plhash_unhash_count [OF one_entry_ok(1)] by (simp add: one_entry_ok(2)) (simp add: one_entry_def)

end
