(* ===== verification/Pr_Time.thy ===== *)
theory Pr_Time
  imports Kz_Prelude "HOL-Library.Signed_Division"
begin

text \<open>
  The calendar of \<open>nsprpub/pr/src/misc/prtime.c\<close>: a \<open>PRTime\<close>, microseconds since the start of
  1970, exploded into fields, the fields normalised, and imploded again.

  The fields are \<open>int\<close>s. Arithmetic of C is written with its truncating division (\<open>sdiv\<close>,
  \<open>smod\<close>); a value of type \<open>PRInt32\<close> that does not fit is no defined result (\<open>i32\<close>); an
  assignment to a \<open>PRInt16\<close> or \<open>PRInt8\<close> field keeps the low bits (\<open>as16\<close>, \<open>as8\<close>). Where the values
  cannot leave the range of an \<open>int\<close> the check is left out.
\<close>

subsection \<open>Data\<close>

record PRTimeParameters =
  tp_gmt_offset :: int
  tp_dst_offset :: int

record PRExplodedTime =
  tm_usec :: int
  tm_sec :: int
  tm_min :: int
  tm_hour :: int
  tm_mday :: int
  tm_month :: int
  tm_year :: int
  tm_wday :: int
  tm_yday :: int
  tm_params :: PRTimeParameters

type_synonym PRTimeParamFn = "PRExplodedTime \<Rightarrow> PRTimeParameters option"

definition as16 :: "int \<Rightarrow> int" where
  "as16 x = (x + 32768) mod 65536 - 32768"

definition as8 :: "int \<Rightarrow> int" where
  "as8 x = (x + 128) mod 256 - 128"

definition lastDayOfMonth :: "int list list" where
  "lastDayOfMonth =
     [[-1, 30, 58, 89, 119, 150, 180, 211, 242, 272, 303, 333, 364],
      [-1, 30, 59, 90, 120, 151, 181, 212, 243, 273, 304, 334, 365]]"

definition nDays :: "int list list" where
  "nDays =
     [[31, 28, 31, 30, 31, 30, 31, 31, 30, 31, 30, 31],
      [31, 29, 31, 30, 31, 30, 31, 31, 30, 31, 30, 31]]"

definition IsLeapYear :: "int \<Rightarrow> nat" where
  "IsLeapYear year = (if year smod 4 = 0 \<and> year smod 100 \<noteq> 0 \<or> year smod 400 = 0 then 1 else 0)"

text \<open>\<open>table[IsLeapYear(year)][month]\<close>\<close>

definition table_at :: "int list list \<Rightarrow> nat \<Rightarrow> int \<Rightarrow> int option" where
  "table_at t leap month = (if month < 0 then None else do { row \<leftarrow> rd t leap; rd row (nat month) })"

subsection \<open>From an instant to the fields\<close>

text \<open>The loop over the months: the first one, from \<open>tmp\<close> on, whose last day is not before \<open>yday\<close>.\<close>

fun find_month :: "int \<Rightarrow> int \<Rightarrow> int list \<Rightarrow> int option" where
  "find_month yday tmp [] = None"
| "find_month yday tmp (d # ds) = (if d < yday then find_month yday (tmp + 1) ds else Some tmp)"

text \<open>The year and the day of it, from the four-year span and the day in the span.\<close>

definition year_of_span :: "int \<Rightarrow> int \<Rightarrow> int \<times> int \<times> nat" where
  "year_of_span tmp rem =
     (if rem \<ge> 365
      then if rem - 365 \<ge> 365
           then if rem - 730 \<ge> 366 then (tmp + 3, rem - 1096, 0)
                else (tmp + 2, rem - 730, 1)
           else (tmp + 1, rem - 365, 0)
      else (tmp, rem, 0))"

definition ComputeGMT :: "int \<Rightarrow> PRExplodedTime option" where
  "ComputeGMT time = (
     let sec0 = time sdiv 1000000; usec0 = time smod 1000000;
         (sec, usec) = (if usec0 < 0 then (sec0 - 1, usec0 + 1000000) else (sec0, usec0));
         days0 = sec sdiv 86400; rem0 = sec smod 86400;
         (numDays, rem1) = (if rem0 < 0 then (days0 - 1, rem0 + 86400) else (days0, rem0));
         wday0 = (numDays + 4) smod 7;
         wday = (if wday0 < 0 then wday0 + 7 else wday0);
         hour = rem1 sdiv 3600; rem2 = rem1 smod 3600;
         minute = rem2 sdiv 60; second = rem2 smod 60;
         span0 = numDays sdiv 1461; day0 = numDays smod 1461;
         (span, day) = (if day0 < 0 then (span0 - 1, day0 + 1461) else (span0, day0));
         (year, yday, isLeap) = year_of_span (span * 4 + 1970) day
     in do {
       row \<leftarrow> rd lastDayOfMonth isLeap;
       month1 \<leftarrow> find_month yday 1 (drop 1 row);
       let month = month1 - 1;
       last \<leftarrow> rd row (nat month);
       Some \<lparr>tm_usec = usec, tm_sec = second, tm_min = minute, tm_hour = hour, tm_mday = yday - last,
             tm_month = month, tm_year = as16 year, tm_wday = wday, tm_yday = yday,
             tm_params = \<lparr>tp_gmt_offset = 0, tp_dst_offset = 0\<rparr>\<rparr>
     })"

subsection \<open>Carrying\<close>

text \<open>
  The lines that bring a field into \<open>0 .. n - 1\<close> and carry into the next one, as they stand for
  the microseconds, seconds, minutes and hours.
\<close>

definition carry :: "int \<Rightarrow> int \<Rightarrow> int \<Rightarrow> (int \<times> int) option" where
  "carry n low high =
     (if low < 0 \<or> low \<ge> n
      then do {
        high1 \<leftarrow> i32 (high + low sdiv n);
        let low1 = low smod n;
        if low1 < 0 then do { high2 \<leftarrow> i32 (high1 - 1); Some (low1 + n, high2) }
        else Some (low1, high1)
      }
      else Some (low, high))"

text \<open>The lines under \<open>tm_hour < 0\<close> and under \<open>tm_hour > 23\<close>: the day before, the day after.\<close>

definition day_back :: "PRExplodedTime \<Rightarrow> PRExplodedTime option" where
  "day_back e1 = do {
     mday0 \<leftarrow> i32 (tm_mday e1 - 1);
     e2 \<leftarrow> (if mday0 < 1
       then do {
         month0 \<leftarrow> i32 (tm_month e1 - 1);
         let e3 = e1\<lparr>tm_yday := as16 (tm_yday e1 - 1)\<rparr>;
         let e4 = (if month0 < 0
                   then let year = as16 (tm_year e3 - 1)
                     in e3\<lparr>tm_month := 11, tm_year := year, tm_yday := (if IsLeapYear year = 1 then 365 else 364)\<rparr>
                   else e3\<lparr>tm_month := month0\<rparr>);
         mday \<leftarrow> table_at nDays (IsLeapYear (tm_year e4)) (tm_month e4);
         Some (e4\<lparr>tm_mday := mday\<rparr>)
       }
       else Some (e1\<lparr>tm_mday := mday0, tm_yday := as16 (tm_yday e1 - 1)\<rparr>));
     let wday = as8 (tm_wday e2 - 1);
     Some (e2\<lparr>tm_hour := tm_hour e1 + 24, tm_wday := (if wday < 0 then 6 else wday)\<rparr>)
   }"

definition day_forward :: "PRExplodedTime \<Rightarrow> PRExplodedTime option" where
  "day_forward e1 = do {
     mday0 \<leftarrow> i32 (tm_mday e1 + 1);
     n \<leftarrow> table_at nDays (IsLeapYear (tm_year e1)) (tm_month e1);
     let e3 = e1\<lparr>tm_mday := mday0, tm_yday := as16 (tm_yday e1 + 1)\<rparr>;
     let e2 = (if mday0 > n
               then if tm_month e1 + 1 > 11
                    then e3\<lparr>tm_mday := 1, tm_month := 0, tm_year := as16 (tm_year e1 + 1), tm_yday := 0\<rparr>
                    else e3\<lparr>tm_mday := 1, tm_month := tm_month e1 + 1\<rparr>
               else e3);
     let wday = as8 (tm_wday e2 + 1);
     Some (e2\<lparr>tm_hour := tm_hour e1 - 24, tm_wday := (if wday > 6 then 0 else wday)\<rparr>)
   }"

definition ApplySecOffset :: "PRExplodedTime \<Rightarrow> int \<Rightarrow> PRExplodedTime option" where
  "ApplySecOffset e secOffset = do {
     sec0 \<leftarrow> i32 (tm_sec e + secOffset);
     (sec, min0) \<leftarrow> carry 60 sec0 (tm_min e);
     (minute, hour) \<leftarrow> carry 60 min0 (tm_hour e);
     let e1 = e\<lparr>tm_sec := sec, tm_min := minute, tm_hour := hour\<rparr>;
     if hour < 0 then day_back e1
     else if hour > 23 then day_forward e1
     else Some e1
   }"

definition PR_GMTParameters :: PRTimeParamFn where
  "PR_GMTParameters gmt = Some \<lparr>tp_gmt_offset = 0, tp_dst_offset = 0\<rparr>"

definition PR_ExplodeTime :: "int \<Rightarrow> PRTimeParamFn \<Rightarrow> PRExplodedTime option" where
  "PR_ExplodeTime usecs params = do {
     e \<leftarrow> ComputeGMT usecs;
     p \<leftarrow> params e;
     off \<leftarrow> i32 (tp_gmt_offset p + tp_dst_offset p);
     ApplySecOffset (e\<lparr>tm_params := p\<rparr>) off
   }"

subsection \<open>Normalising\<close>

text \<open>The two loops on the day of the month, on year, month and day.\<close>

function mday_down :: "int \<Rightarrow> int \<Rightarrow> int \<Rightarrow> (int \<times> int \<times> int) option" where
  "mday_down year month mday = do {
     month0 \<leftarrow> i32 (month - 1);
     let (year1, month1) = (if month0 < 0 then (as16 (year - 1), 11) else (year, month0));
     n \<leftarrow> table_at nDays (IsLeapYear year1) month1;
     if mday + n < 1 then mday_down year1 month1 (mday + n) else Some (year1, month1, mday + n)
   }"
  by pat_completeness auto

function mday_up :: "int \<Rightarrow> int \<Rightarrow> int \<Rightarrow> (int \<times> int \<times> int) option" where
  "mday_up year month mday = do {
     n \<leftarrow> table_at nDays (IsLeapYear year) month;
     if mday > n
     then let (year1, month1) = (if month + 1 > 11 then (as16 (year + 1), 0) else (year, month + 1))
       in mday_up year1 month1 (mday - n)
     else Some (year, month, mday)
   }"
  by pat_completeness auto

lemma nDays_bounds: "table_at nDays leap month = Some n \<Longrightarrow> 28 \<le> n \<and> n \<le> 31 \<and> 0 \<le> month \<and> month \<le> 11"
proof -
  assume a: "table_at nDays leap month = Some n"
  have sets: "\<forall>r \<in> set nDays. length r = 12 \<and> (\<forall>x \<in> set r. 28 \<le> x \<and> x \<le> 31)" by (simp add: nDays_def)
  obtain row where row: "rd nDays leap = Some row" "rd row (nat month) = Some n" "0 \<le> month"
    using a by (auto simp: table_at_def bind_eq_Some_conv split: if_splits)
  then have "row \<in> set nDays" "nat month < length row" "n \<in> set row" by (auto simp: rd_Some_iff)
  with sets row(3) show ?thesis by auto
qed

termination mday_down
  by (relation "measure (\<lambda>(y, m, d). nat (1 - d))") (auto dest!: nDays_bounds)

termination mday_up
  by (relation "measure (\<lambda>(y, m, d). nat d)") (auto dest!: nDays_bounds)

declare mday_down.simps [simp del] mday_up.simps [simp del]

text \<open>The days from the start of 1970 to the start of a year, by four-year spans.\<close>

definition span_days :: "int \<Rightarrow> int" where
  "span_days year = (
     let fourYears0 = (year - 1970) sdiv 4; rem0 = (year - 1970) smod 4;
         (fourYears, remainder) = (if rem0 < 0 then (fourYears0 - 1, rem0 + 4) else (fourYears0, rem0));
         numDays = fourYears * 1461
     in if remainder = 1 then numDays + 365
        else if remainder = 2 then numDays + 730
        else if remainder = 3 then numDays + 1096
        else numDays)"

definition PR_NormalizeTime :: "PRExplodedTime \<Rightarrow> PRTimeParamFn \<Rightarrow> PRExplodedTime option" where
  "PR_NormalizeTime e params = do {
     off \<leftarrow> i32 (tp_gmt_offset (tm_params e) + tp_dst_offset (tm_params e));
     sec0 \<leftarrow> i32 (tm_sec e - off);
     (usec, sec1) \<leftarrow> carry 1000000 (tm_usec e) sec0;
     (sec, min1) \<leftarrow> carry 60 sec1 (tm_min e);
     (minute, hour1) \<leftarrow> carry 60 min1 (tm_hour e);
     (hour, mday1) \<leftarrow> carry 24 hour1 (tm_mday e);
     let (month2, year2) =
       (if tm_month e < 0 \<or> tm_month e \<ge> 12
        then let year1 = as16 (tm_year e + tm_month e sdiv 12); month1 = tm_month e smod 12
          in if month1 < 0 then (month1 + 12, as16 (year1 - 1)) else (month1, year1)
        else (tm_month e, tm_year e));
     (year, month, mday) \<leftarrow> (if mday1 < 1 then mday_down year2 month2 mday1 else mday_up year2 month2 mday1);
     last \<leftarrow> table_at lastDayOfMonth (IsLeapYear year) month;
     let yday = as16 (mday + last);
     let wday0 = (span_days year + yday + 4) smod 7;
     let wday = (if wday0 < 0 then wday0 + 7 else wday0);
     let gmt = \<lparr>tm_usec = usec, tm_sec = sec, tm_min = minute, tm_hour = hour, tm_mday = mday, tm_month = month,
                tm_year = year, tm_wday = wday, tm_yday = yday, tm_params = \<lparr>tp_gmt_offset = 0, tp_dst_offset = 0\<rparr>\<rparr>;
     p \<leftarrow> params gmt;
     poff \<leftarrow> i32 (tp_gmt_offset p + tp_dst_offset p);
     ApplySecOffset (gmt\<lparr>tm_params := p\<rparr>) poff
   }"

definition PR_ImplodeTime :: "PRExplodedTime \<Rightarrow> int option" where
  "PR_ImplodeTime exploded = do {
     copy \<leftarrow> PR_NormalizeTime exploded PR_GMTParameters;
     let numSecs = tm_yday copy * 86400 + tm_hour copy * 3600 + tm_min copy * 60 + tm_sec copy;
     let numSecs64 = numSecs + span_days (tm_year copy) * 86400
           - tp_gmt_offset (tm_params copy) - tp_dst_offset (tm_params copy);
     Some (tm_usec copy + numSecs64 * 1000000)
   }"

subsection \<open>US Pacific time, and weeks\<close>

text \<open>On the day of the month and the day of the week of a date, both in their ranges.\<close>

definition NthSunday :: "int \<Rightarrow> int \<Rightarrow> int \<Rightarrow> int \<Rightarrow> int" where
  "NthSunday mday wday n ndays = (
     let firstSun = (mday - wday + 7 - 1) smod 7 + 1;
         n1 = (if n < 0 then (ndays - firstSun) sdiv 7 else n)
     in firstSun + 7 * n1)"

record DSTParams =
  dst_start_month :: int
  dst_start_Nth_Sunday :: int
  dst_start_month_ndays :: int
  dst_end_month :: int
  dst_end_Nth_Sunday :: int
  dst_end_month_ndays :: int

definition dstParams :: "DSTParams list" where
  "dstParams =
     [\<lparr>dst_start_month = 3, dst_start_Nth_Sunday = 0, dst_start_month_ndays = 30,
       dst_end_month = 9, dst_end_Nth_Sunday = -1, dst_end_month_ndays = 31\<rparr>,
      \<lparr>dst_start_month = 2, dst_start_Nth_Sunday = 1, dst_start_month_ndays = 31,
       dst_end_month = 10, dst_end_Nth_Sunday = 0, dst_end_month_ndays = 30\<rparr>]"

definition PR_USPacificTimeParameters :: PRTimeParamFn where
  "PR_USPacificTimeParameters gmt = do {
     st \<leftarrow> ApplySecOffset gmt (- 28800);
     let dst = dstParams ! (if tm_year st < 2007 then 0 else 1);
     let off =
           (if tm_month st < dst_start_month dst then 0
            else if tm_month st = dst_start_month dst
            then let NthSun = NthSunday (tm_mday st) (tm_wday st) (dst_start_Nth_Sunday dst) (dst_start_month_ndays dst)
              in if tm_mday st < NthSun then 0
                 else if tm_mday st = NthSun then (if tm_hour st < 2 then 0 else 3600)
                 else 3600
            else if tm_month st < dst_end_month dst then 3600
            else if tm_month st = dst_end_month dst
            then let NthSun = NthSunday (tm_mday st) (tm_wday st) (dst_end_Nth_Sunday dst) (dst_end_month_ndays dst)
              in if tm_mday st < NthSun then 3600
                 else if tm_mday st = NthSun then (if tm_hour st < 1 then 3600 else 0)
                 else 0
            else 0);
     Some \<lparr>tp_gmt_offset = - 28800, tp_dst_offset = off\<rparr>
   }"

definition pr_WeekOfYear :: "PRExplodedTime \<Rightarrow> int \<Rightarrow> int" where
  "pr_WeekOfYear time firstDayOfWeek = (
     let dayOfWeek0 = tm_wday time - firstDayOfWeek;
         dayOfWeek = (if dayOfWeek0 < 0 then dayOfWeek0 + 7 else dayOfWeek0);
         dayOfYear = tm_yday time - dayOfWeek
     in if dayOfYear \<le> 0 then 0
        else dayOfYear sdiv 7 + (if dayOfYear smod 7 = 0 then 0 else 1))"

end
