(* ===== verification/Pr_Calendar.thy ===== *)
theory Pr_Calendar
  imports Pr_Time
begin

text \<open>
  The Gregorian calendar as day numbers (\<open>jan1\<close>, \<open>day_no\<close>), what the fields of a \<open>PRExplodedTime\<close>
  stand for (\<open>wall_sec\<close>, \<open>instant\<close>), and the lemmas on the steps of \<open>prtime.c\<close> over them: the carries, the tables,
  the four-year spans, \<open>ComputeGMT\<close>, and \<open>ApplySecOffset\<close> with the day before and the day after.
\<close>

subsection \<open>Truncating division and carries\<close>

lemma floor_fix:
  assumes "0 < (n :: int)"
  shows "(if a smod n < 0 then a sdiv n - 1 else a sdiv n) = a div n"
    "(if a smod n < 0 then a smod n + n else a smod n) = a mod n"
proof -
  have d: "(if a smod n < 0 then a sdiv n - 1 else a sdiv n) = a div n \<and>
    (if a smod n < 0 then a smod n + n else a smod n) = a mod n"
  proof (cases "0 \<le> a")
    case True
    then have "a sdiv n = a div n" "a smod n = a mod n"
      using assms by (auto simp: signed_divide_int_def signed_modulo_int_def sgn_if)
    moreover have "\<not> a mod n < 0" using assms by (simp add: not_less)
    ultimately show ?thesis by simp
  next
    case False
    then have s: "a sdiv n = - ((- a) div n)" "a smod n = - ((- a) mod n)"
      using assms by (simp_all add: signed_divide_int_def signed_modulo_int_def sgn_if)
    show ?thesis
    proof (cases "(- a) mod n = 0")
      case True
      then have "n dvd a" by (simp add: mod_eq_0_iff_dvd)
      then obtain q where q: "a = n * q" ..
      then have "(- a) div n = - q" "a div n = q" using assms by (simp_all flip: mult_minus_right)
      then show ?thesis using s True q by simp
    next
      case False
      have "0 \<le> (- a) mod n" using assms by simp
      then have pos: "a smod n < 0" using False s(2) by linarith
      have "a div n = - ((- a) div n) - 1" "a mod n = n - (- a) mod n"
        using zdiv_zminus1_eq_if [of n "- a"] zmod_zminus1_eq_if [of "- a" n] assms False by simp_all
      then show ?thesis using s pos by (simp only: if_True) simp
    qed
  qed
  show "(if a smod n < 0 then a sdiv n - 1 else a sdiv n) = a div n"
    "(if a smod n < 0 then a smod n + n else a smod n) = a mod n" using d by blast+
qed

lemma as16_in: "- 32768 \<le> x \<Longrightarrow> x < 32768 \<Longrightarrow> as16 x = x"
  by (simp add: as16_def)

lemma as8_in: "- 128 \<le> x \<Longrightarrow> x < 128 \<Longrightarrow> as8 x = x"
  by (simp add: as8_def)

lemma sdiv_bound:
  assumes "24 \<le> (n :: int)" "\<bar>a\<bar> \<le> 2000000000"
  shows "\<bar>a sdiv n\<bar> \<le> 83333333" "\<bar>a div n\<bar> \<le> 83333334"
proof -
  have q: "b div n \<le> 83333333" if "b \<le> 2000000000" for b
  proof -
    have "b div n \<le> 2000000000 div n" using that assms(1) by (intro zdiv_mono1) simp_all
    also have "\<dots> \<le> 2000000000 div 24" using assms(1) by (intro zdiv_mono2) simp_all
    finally show ?thesis by simp
  qed
  have nn: "0 \<le> b div n" if "0 \<le> b" for b using that assms(1) by (simp add: pos_imp_zdiv_nonneg_iff)
  show s: "\<bar>a sdiv n\<bar> \<le> 83333333"
  proof (cases "0 \<le> a")
    case True
    then show ?thesis using q [of a] nn [of a] assms by (simp add: signed_divide_int_def sgn_if)
  next
    case False
    then show ?thesis using q [of "- a"] nn [of "- a"] assms by (simp add: signed_divide_int_def sgn_if)
  qed
  have "a div n = (if a smod n < 0 then a sdiv n - 1 else a sdiv n)" using floor_fix(1) [of n a] assms(1) by simp
  then show "\<bar>a div n\<bar> \<le> 83333334" using s by (auto split: if_splits)
qed

lemma carry_spec:
  assumes "24 \<le> n" "\<bar>low\<bar> \<le> 2000000000" "\<bar>high\<bar> \<le> 2000000000"
  shows "carry n low high = Some (low mod n, high + low div n)"
proof (cases "low < 0 \<or> low \<ge> n")
  case True
  have n: "0 < n" using assms(1) by simp
  note b = sdiv_bound [OF assms(1,2)]
  have i: "i32 (high + low sdiv n) = Some (high + low sdiv n)" "i32 (high + low sdiv n - 1) = Some (high + low sdiv n - 1)"
    using b assms(3) by (auto intro!: i32_in)
  show ?thesis
    using floor_fix [OF n, of low] True i by (simp add: carry_def Let_def split: if_splits)
next
  case False
  then show ?thesis by (simp add: carry_def)
qed

subsection \<open>The Gregorian calendar\<close>

definition leap :: "int \<Rightarrow> bool" where
  "leap y \<longleftrightarrow> y mod 4 = 0 \<and> y mod 100 \<noteq> 0 \<or> y mod 400 = 0"

definition month_length :: "int \<Rightarrow> nat \<Rightarrow> int" where
  "month_length y m =
     (if m = 1 then (if leap y then 29 else 28) else if m \<in> {3, 5, 8, 10} then 30 else 31)"

text \<open>The number of the first day of a year; of a date, with months from 0 and days from 1. Day 0
  is the first of January 1970.\<close>

definition jan1 :: "int \<Rightarrow> int" where
  "jan1 y = 365 * (y - 1970) + (y - 1) div 4 - (y - 1) div 100 + (y - 1) div 400 - 477"

definition day_no :: "int \<Rightarrow> int \<Rightarrow> int \<Rightarrow> int" where
  "day_no y m d = jan1 y + (\<Sum>j < nat m. month_length y j) + d - 1"

lemma IsLeapYear_leap: "IsLeapYear y = (if leap y then 1 else 0)"
proof -
  have "y smod n = 0 \<longleftrightarrow> y mod n = 0" if "0 < n" for n :: int
    using floor_fix(2) [OF that, of y] that by (auto simp: signed_modulo_int_def sgn_if dvd_eq_mod_eq_0 [symmetric] split: if_splits)
  then show ?thesis by (simp add: IsLeapYear_def leap_def)
qed

lemma jan1_Suc: "jan1 (y + 1) = jan1 y + (if leap y then 366 else 365)"
proof -
  have d: "y div n = (y - 1) div n + (if y mod n = 0 then 1 else 0)" if n: "1 < n" for n :: int
  proof -
    have "y - 1 = (y mod n - 1) + y div n * n" by simp
    then have "(y - 1) div n = y div n + (y mod n - 1) div n"
      using n by (metis div_mult_self1 add.commute less_irrefl zero_less_one order.strict_trans)
    moreover have "(y mod n - 1) div n = (if y mod n = 0 then - 1 else 0)"
    proof (cases "y mod n = 0")
      case True
      then show ?thesis using n by (simp add: div_eq_minus1)
    next
      case False
      moreover have "0 \<le> y mod n" "y mod n < n" using n by simp_all
      ultimately have "0 \<le> y mod n - 1" "y mod n - 1 < n" by linarith+
      then show ?thesis using False by (simp add: div_pos_pos_trivial)
    qed
    ultimately show ?thesis by simp
  qed
  have "y mod 100 = 0 \<Longrightarrow> y mod 4 = 0" "y mod 400 = 0 \<Longrightarrow> y mod 100 = 0"
  proof -
    have "(4 :: int) dvd 100" "(100 :: int) dvd 400" by simp_all
    then show "y mod 100 = 0 \<Longrightarrow> y mod 4 = 0" "y mod 400 = 0 \<Longrightarrow> y mod 100 = 0"
      unfolding mod_eq_0_iff_dvd by (blast intro: dvd_trans)+
  qed
  note m = this
  have d4: "y div 4 = (y - 1) div 4 + (if y mod 4 = 0 then 1 else 0)" by (rule d) simp
  have d100: "y div 100 = (y - 1) div 100 + (if y mod 100 = 0 then 1 else 0)" by (rule d) simp
  have d400: "y div 400 = (y - 1) div 400 + (if y mod 400 = 0 then 1 else 0)" by (rule d) simp
  have "jan1 (y + 1) = jan1 y + 365 + (if y mod 4 = 0 then 1 else 0) - (if y mod 100 = 0 then 1 else 0) + (if y mod 400 = 0 then 1 else 0)"
  proof -
    have "jan1 (y + 1) = 365 * (y + 1 - 1970) + y div 4 - y div 100 + y div 400 - 477" by (simp add: jan1_def)
    also have "\<dots> = 365 * (y + 1 - 1970) + ((y - 1) div 4 + (if y mod 4 = 0 then 1 else 0))
        - ((y - 1) div 100 + (if y mod 100 = 0 then 1 else 0)) + ((y - 1) div 400 + (if y mod 400 = 0 then 1 else 0)) - 477"
      by (simp only: d4 d100 d400)
    also have "\<dots> = jan1 y + 365 + (if y mod 4 = 0 then 1 else 0) - (if y mod 100 = 0 then 1 else 0)
        + (if y mod 400 = 0 then 1 else 0)"
      unfolding jan1_def by (simp only: algebra_simps)
    finally show ?thesis .
  qed
  then show ?thesis
    using m by (cases "y mod 400 = 0"; cases "y mod 100 = 0"; cases "y mod 4 = 0"; simp only: leap_def simp_thms if_True if_False)
qed


definition days_before :: "int \<Rightarrow> nat \<Rightarrow> int" where
  "days_before y m = (\<Sum>j < m. month_length y j)"

lemma day_no_before: "day_no y m d = jan1 y + days_before y (nat m) + d - 1"
  by (simp add: day_no_def days_before_def)

lemma days_before_Suc: "days_before y (Suc m) = days_before y m + month_length y m"
  by (simp add: days_before_def)

lemma days_before_12: "days_before y 12 = (if leap y then 366 else 365)"
  by (simp add: days_before_def month_length_def eval_nat_numeral)

lemma month_length_bounds: "28 \<le> month_length y m \<and> month_length y m \<le> 31"
  by (simp add: month_length_def)

lemma month_cases:
  assumes "m < (12 :: nat)"
  shows "m = 0 \<or> m = 1 \<or> m = 2 \<or> m = 3 \<or> m = 4 \<or> m = 5 \<or> m = 6 \<or> m = 7 \<or> m = 8 \<or> m = 9 \<or> m = 10 \<or> m = 11"
  using assms by (auto simp: eval_nat_numeral less_Suc_eq)

lemma nDays_table:
  assumes "0 \<le> m" "m < 12"
  shows "table_at nDays (IsLeapYear y) m = Some (month_length y (nat m))"
proof -
  have "rd (nDays ! IsLeapYear y) k = Some (month_length y k)" if "k < 12" for k
    using month_cases [OF that] by (elim disjE) (simp_all add: IsLeapYear_leap nDays_def month_length_def)
  then have "rd (nDays ! IsLeapYear y) (nat m) = Some (month_length y (nat m))" using assms by simp
  moreover have "rd nDays (IsLeapYear y) = Some (nDays ! IsLeapYear y)"
    by (simp add: rd_def nDays_def IsLeapYear_leap)
  ultimately show ?thesis using assms by (simp add: table_at_def)
qed

lemma lastDay_row:
  assumes "k \<le> 12"
  shows "rd (lastDayOfMonth ! IsLeapYear y) k = Some (days_before y k - 1)"
proof (cases "k = 12")
  case True
  then show ?thesis by (simp add: days_before_12 IsLeapYear_leap lastDayOfMonth_def)
next
  case False
  then have "k < 12" using assms by simp
  from month_cases [OF this] show ?thesis
    by (elim disjE) (simp_all add: IsLeapYear_leap lastDayOfMonth_def days_before_def month_length_def eval_nat_numeral)
qed

lemma lastDay_table:
  assumes "0 \<le> m" "m < 12"
  shows "table_at lastDayOfMonth (IsLeapYear y) m = Some (days_before y (nat m) - 1)"
proof -
  have "rd lastDayOfMonth (IsLeapYear y) = Some (lastDayOfMonth ! IsLeapYear y)"
    by (simp add: rd_def lastDayOfMonth_def IsLeapYear_leap)
  then show ?thesis using assms lastDay_row [of "nat m" y] by (simp add: table_at_def)
qed

lemma day_no_next_month:
  "0 \<le> m \<Longrightarrow> day_no y (m + 1) d = day_no y m (d + month_length y (nat m))"
  by (simp add: day_no_before nat_add_distrib days_before_Suc)

lemma day_no_next_year: "day_no (y + 1) 0 d = day_no y 12 d"
  using days_before_12 [of y] by (simp add: day_no_before jan1_Suc days_before_def)

lemma jan1_mono: "y \<le> z \<Longrightarrow> jan1 y \<le> jan1 z"
proof (induction z rule: int_ge_induct)
  case (step z)
  then show ?case using jan1_Suc [of z] by (simp split: if_splits)
qed simp

lemma jan1_strict: "y < z \<Longrightarrow> jan1 (y + 1) \<le> jan1 z"
  using jan1_mono [of "y + 1" z] by simp

text \<open>The 20th and 21st century, where every fourth year is a leap year.\<close>

lemma centuries:
  assumes "1901 \<le> y" "y \<le> (2100 :: int)"
  shows "(y - 1) div 100 - (y - 1) div 400 = 15"
proof (cases "y \<le> 2000")
  case True
  have "(y - 1) div 100 = 19" using assms True by (intro int_div_pos_eq [of _ _ _ "y - 1901"]) simp_all
  moreover have "(y - 1) div 400 = 4" using assms True by (intro int_div_pos_eq [of _ _ _ "y - 1601"]) simp_all
  ultimately show ?thesis by simp
next
  case False
  have "(y - 1) div 100 = 20" using assms False by (intro int_div_pos_eq [of _ _ _ "y - 2001"]) simp_all
  moreover have "(y - 1) div 400 = 5" using assms False by (intro int_div_pos_eq [of _ _ _ "y - 2001"]) simp_all
  ultimately show ?thesis by simp
qed

lemma jan1_span:
  assumes "1901 \<le> y" "y \<le> 2100" "y = 1970 + 4 * q + r" "0 \<le> r" "r \<le> 3"
  shows "jan1 y = 1461 * q + (if r = 3 then 1096 else 365 * r)"
proof -
  have "(y - 1) div 4 = q + 492 + (if r = 3 then 1 else 0)"
  proof (cases "r = 3")
    case True
    then show ?thesis using assms by (intro int_div_pos_eq [of _ _ _ 0]) simp_all
  next
    case False
    then show ?thesis using assms by (intro int_div_pos_eq [of _ _ _ "r + 1"]) simp_all
  qed
  then show ?thesis
    using centuries [OF assms(1,2)] assms(3) unfolding jan1_def by (cases "r = 3") simp_all
qed

lemma leap_span:
  assumes "1901 \<le> y" "y \<le> 2099" "y = 1970 + 4 * q + r" "0 \<le> r" "r \<le> 3"
  shows "leap y \<longleftrightarrow> r = 2"
proof -
  have "jan1 (y + 1) - jan1 y = (if r = 2 then 366 else 365)"
  proof (cases "r = 3")
    case True
    then show ?thesis
      using jan1_span [OF _ _ assms(3-5)] jan1_span [of "y + 1" "q + 1" 0] assms by simp
  next
    case False
    then show ?thesis
      using jan1_span [OF _ _ assms(3-5)] jan1_span [of "y + 1" q "r + 1"] assms by auto
  qed
  then show ?thesis using jan1_Suc [of y] by (auto split: if_splits)
qed

lemma span_days_jan1:
  assumes "1901 \<le> y" "y \<le> 2100"
  shows "span_days y = jan1 y"
proof -
  define q r where "q = (y - 1970) div 4" and "r = (y - 1970) mod 4"
  have r: "0 \<le> r" "r \<le> 3" "y = 1970 + 4 * q + r" by (simp_all add: q_def r_def)
  have p: "(if (y - 1970) smod 4 < 0 then ((y - 1970) sdiv 4 - 1, (y - 1970) smod 4 + 4)
      else ((y - 1970) sdiv 4, (y - 1970) smod 4)) = (q, r)"
    using floor_fix [of 4 "y - 1970"] by (simp add: q_def r_def split: if_splits)
  have "r = 0 \<or> r = 1 \<or> r = 2 \<or> r = 3" using r by linarith
  then show ?thesis
    unfolding span_days_def Let_def p using jan1_span [OF assms r(3,1,2)] by auto
qed

subsection \<open>Fields and instants\<close>

text \<open>The fields of a date and a time of the day that there are.\<close>

definition valid :: "PRExplodedTime \<Rightarrow> bool" where
  "valid e \<longleftrightarrow> 0 \<le> tm_usec e \<and> tm_usec e < 1000000 \<and> 0 \<le> tm_sec e \<and> tm_sec e < 60 \<and> 0 \<le> tm_min e \<and> tm_min e < 60 \<and>
     0 \<le> tm_hour e \<and> tm_hour e < 24 \<and> 0 \<le> tm_month e \<and> tm_month e < 12 \<and>
     1 \<le> tm_mday e \<and> tm_mday e \<le> month_length (tm_year e) (nat (tm_month e)) \<and>
     tm_yday e = day_no (tm_year e) (tm_month e) (tm_mday e) - jan1 (tm_year e) \<and>
     tm_wday e = (day_no (tm_year e) (tm_month e) (tm_mday e) + 4) mod 7"

text \<open>The day, the second of the clock on the wall, and the microsecond since 1970 the fields stand
  for; a month outside 0 to 11 counts into other years.\<close>

definition day_of :: "PRExplodedTime \<Rightarrow> int" where
  "day_of e = day_no (tm_year e + tm_month e div 12) (tm_month e mod 12) (tm_mday e)"

definition wall_sec :: "PRExplodedTime \<Rightarrow> int" where
  "wall_sec e = day_of e * 86400 + tm_hour e * 3600 + tm_min e * 60 + tm_sec e"

definition instant :: "PRExplodedTime \<Rightarrow> int" where
  "instant e = (wall_sec e - tp_gmt_offset (tm_params e) - tp_dst_offset (tm_params e)) * 1000000 + tm_usec e"

lemma day_of_valid: "0 \<le> tm_month e \<Longrightarrow> tm_month e < 12 \<Longrightarrow> day_of e = day_no (tm_year e) (tm_month e) (tm_mday e)"
  by (simp add: day_of_def)

lemma days_before_mono: "m \<le> k \<Longrightarrow> days_before y m \<le> days_before y k"
proof (induction rule: dec_induct)
  case (step n)
  then show ?case using month_length_bounds [of y n] by (simp add: days_before_Suc)
qed simp

text \<open>The day of a date is in its year.\<close>

lemma day_in_year:
  assumes "0 \<le> m" "m < 12" "1 \<le> d" "d \<le> month_length y (nat m)"
  shows "jan1 y \<le> day_no y m d" "day_no y m d < jan1 (y + 1)"
proof -
  have "0 \<le> days_before y (nat m)" using days_before_mono [of 0 "nat m" y] by (simp add: days_before_def)
  then show "jan1 y \<le> day_no y m d" using assms by (simp add: day_no_before)
  have "days_before y (Suc (nat m)) \<le> days_before y 12" using assms by (intro days_before_mono) linarith
  then show "day_no y m d < jan1 (y + 1)"
    using assms days_before_12 [of y] jan1_Suc [of y] by (simp add: day_no_before days_before_Suc split: if_splits)
qed

lemma year_range:
  assumes "jan1 a \<le> n" "n < jan1 (b + 1)" "jan1 y \<le> n" "n < jan1 (y + 1)"
  shows "a \<le> y \<and> y \<le> b"
proof
  show "a \<le> y" using assms jan1_strict [of y a] by (cases "a \<le> y") auto
  show "y \<le> b" using assms jan1_strict [of b y] by (cases "y \<le> b") auto
qed


subsection \<open>From an instant to the fields\<close>

lemma sdiv_nonneg: "0 \<le> (a :: int) \<Longrightarrow> 0 < n \<Longrightarrow> a sdiv n = a div n" "0 \<le> a \<Longrightarrow> 0 < n \<Longrightarrow> a smod n = a mod n"
  by (simp_all add: signed_divide_int_def signed_modulo_int_def sgn_if)

lemma floor_pair:
  assumes "0 < (n :: int)"
  shows "(if a smod n < 0 then (a sdiv n - 1, a smod n + n) else (a sdiv n, a smod n)) = (a div n, a mod n)"
  using floor_fix [OF assms, of a] by (simp split: if_splits)

lemma year_of_span_spec:
  assumes "jan1 1901 \<le> n" "n < jan1 2100"
  obtains y where "year_of_span (n div 1461 * 4 + 1970) (n mod 1461) = (y, n - jan1 y, IsLeapYear y)"
    "1901 \<le> y" "y \<le> 2099" "jan1 y \<le> n" "n < jan1 (y + 1)"
proof -
  define q k where "q = n div 1461" and "k = n mod 1461"
  have n: "n = 1461 * q + k" "0 \<le> k" "k < 1461" by (simp_all add: q_def k_def)
  have b: "- 25202 \<le> n" "n < 47482" using assms by (simp_all add: jan1_def)
  define r :: int where "r = (if k < 365 then 0 else if k < 730 then 1 else if k < 1096 then 2 else 3)"
  define y where "y = 1970 + 4 * q + r"
  define base where "base = (if r = 3 then 1096 else 365 * r)"
  have r: "0 \<le> r" "r \<le> 3" by (simp_all add: r_def)
  have lim: "base \<le> k" "k < base + (if r = 2 then 366 else 365)" using n by (auto simp: base_def r_def)
  have y: "1901 \<le> y" "y \<le> 2099" using b n unfolding y_def r_def by (auto split: if_splits)
  have j: "jan1 y = 1461 * q + base" unfolding base_def by (rule jan1_span) (use y r y_def in auto)
  have l: "leap y \<longleftrightarrow> r = 2" by (rule leap_span) (use y r y_def in auto)
  have L: "IsLeapYear y = (if r = 2 then 1 else 0)" using l by (simp add: IsLeapYear_leap)
  have ys: "year_of_span (q * 4 + 1970) k = (y, k - base, IsLeapYear y)"
  proof -
    have "k < 365 \<or> 365 \<le> k \<and> k < 730 \<or> 730 \<le> k \<and> k < 1096 \<or> 1096 \<le> k" by auto
    then show ?thesis unfolding L by (elim disjE) (simp_all add: year_of_span_def y_def base_def r_def)
  qed
  show ?thesis
  proof (rule that)
    show "year_of_span (n div 1461 * 4 + 1970) (n mod 1461) = (y, n - jan1 y, IsLeapYear y)"
    proof -
      have "n - jan1 y = k - base" using n(1) j by linarith
      then show ?thesis using ys by (simp only: q_def k_def)
    qed
    show "jan1 y \<le> n" using j n(1) lim by linarith
    have "jan1 (y + 1) = jan1 y + (if r = 2 then 366 else 365)" by (simp only: jan1_Suc l)
    then show "n < jan1 (y + 1)" using j n(1) lim by linarith
  qed (rule y)+
qed

lemma find_month_finds:
  assumes "\<exists>d \<in> set ds. yday \<le> d"
  obtains j where "j < length ds" "find_month yday tmp ds = Some (tmp + int j)" "yday \<le> ds ! j" "\<forall>i < j. ds ! i < yday"
  using assms
proof (induction ds arbitrary: tmp thesis)
  case (Cons d ds)
  show ?case
  proof (cases "d < yday")
    case True
    with Cons.prems(2) have "\<exists>d \<in> set ds. yday \<le> d" by auto
    then obtain j where j: "j < length ds" "find_month yday (tmp + 1) ds = Some (tmp + 1 + int j)" "yday \<le> ds ! j"
      "\<forall>i < j. ds ! i < yday" using Cons.IH [where tmp = "tmp + 1"] by blast
    show ?thesis
    proof (rule Cons.prems(1) [of "Suc j"])
      show "\<forall>i < Suc j. (d # ds) ! i < yday" using True j(4) by (auto simp: less_Suc_eq_0_disj)
    qed (use True j in auto)
  next
    case False
    then show ?thesis by (intro Cons.prems(1) [of 0]) auto
  qed
qed simp

lemma lastDay_nth:
  assumes "k \<le> 12"
  shows "lastDayOfMonth ! IsLeapYear y ! k = days_before y k - 1"
  using lastDay_row [OF assms, of y] by (auto simp: rd_Some_iff)

lemma lastDay_length: "length (lastDayOfMonth ! IsLeapYear y) = 13"
  by (simp add: IsLeapYear_leap lastDayOfMonth_def)

lemma month_of_day:
  assumes "0 \<le> k" "k < days_before y 12"
  obtains j where "j < 12" "find_month k 1 (drop 1 (lastDayOfMonth ! IsLeapYear y)) = Some (1 + int j)"
    "days_before y j \<le> k" "k < days_before y (Suc j)"
proof -
  define ds where "ds = drop 1 (lastDayOfMonth ! IsLeapYear y)"
  have ds: "length ds = 12" "\<And>i. i < 12 \<Longrightarrow> ds ! i = days_before y (Suc i) - 1"
    unfolding ds_def using lastDay_length [of y] by (simp_all add: lastDay_nth)
  have "ds ! 11 \<in> set ds" using ds(1) by (intro nth_mem) simp
  moreover have "k \<le> ds ! 11" using ds(2) [of 11] assms(2) by simp
  ultimately have "\<exists>d \<in> set ds. k \<le> d" by blast
  then obtain j where j: "j < length ds" "find_month k 1 ds = Some (1 + int j)" "k \<le> ds ! j" "\<forall>i < j. ds ! i < k"
    by (rule find_month_finds [where tmp = 1])
  show ?thesis
  proof (rule that)
    show "days_before y j \<le> k"
    proof (cases j)
      case 0
      then show ?thesis using assms(1) by (simp add: days_before_def)
    next
      case (Suc i)
      then show ?thesis using j(1,4) ds by auto
    qed
  qed (use j ds in \<open>auto simp: ds_def\<close>)
qed

lemma clock_sum:
  fixes r :: int
  assumes "0 \<le> r"
  shows "r div 3600 * 3600 + r mod 3600 div 60 * 60 + r mod 3600 mod 60 = r"
proof -
  have "r mod 3600 div 60 * 60 + r mod 3600 mod 60 = r mod 3600" by (rule div_mult_mod_eq)
  then show ?thesis using div_mult_mod_eq [of r 3600] by linarith
qed

lemma ComputeGMT_spec:
  assumes "jan1 1901 * 86400000000 \<le> t" "t < jan1 2100 * 86400000000"
  obtains e where "ComputeGMT t = Some e" "valid e" "1901 \<le> tm_year e" "tm_year e \<le> 2099"
    "tm_usec e = t mod 1000000" "wall_sec e = t div 1000000" "tm_params e = \<lparr>tp_gmt_offset = 0, tp_dst_offset = 0\<rparr>"
proof -
  define sec where "sec = t div 1000000"
  define n where "n = sec div 86400"
  define rem where "rem = sec mod 86400"
  have rem: "0 \<le> rem" "rem < 86400" "sec = n * 86400 + rem" by (simp_all add: rem_def n_def)
  have nt: "n = t div 86400000000" unfolding n_def sec_def by (simp flip: zdiv_zmult2_eq)
  have n: "jan1 1901 \<le> n" "n < jan1 2100"
    unfolding nt using assms by (simp_all add: int_div_bounds)
  obtain y where y: "year_of_span (n div 1461 * 4 + 1970) (n mod 1461) = (y, n - jan1 y, IsLeapYear y)"
    "1901 \<le> y" "y \<le> 2099" "jan1 y \<le> n" "n < jan1 (y + 1)"
    by (rule year_of_span_spec [OF n])
  define k where "k = n - jan1 y"
  have k: "0 \<le> k" "k < days_before y 12" using y(4,5) by (simp_all add: k_def days_before_12 jan1_Suc)
  obtain j where j: "j < 12" "find_month k 1 (drop 1 (lastDayOfMonth ! IsLeapYear y)) = Some (1 + int j)"
    "days_before y j \<le> k" "k < days_before y (Suc j)" by (rule month_of_day [OF k])
  have row: "rd lastDayOfMonth (IsLeapYear y) = Some (lastDayOfMonth ! IsLeapYear y)"
    by (simp add: rd_def lastDayOfMonth_def IsLeapYear_leap)
  have last: "rd (lastDayOfMonth ! IsLeapYear y) j = Some (days_before y j - 1)" using j(1) by (intro lastDay_row) simp
  have wday: "(if (n + 4) smod 7 < 0 then (n + 4) smod 7 + 7 else (n + 4) smod 7) = (n + 4) mod 7"
    by (rule floor_fix) simp
  have a16: "as16 y = y" using y by (intro as16_in) auto
  have clock: "rem sdiv 3600 = rem div 3600" "rem smod 3600 = rem mod 3600"
    "(rem mod 3600) sdiv 60 = rem mod 3600 div 60" "(rem mod 3600) smod 60 = rem mod 3600 mod 60"
    using rem(1) by (simp_all add: sdiv_nonneg)
  let ?e = "\<lparr>tm_usec = t mod 1000000, tm_sec = rem mod 3600 mod 60, tm_min = rem mod 3600 div 60, tm_hour = rem div 3600,
    tm_mday = k - (days_before y j - 1), tm_month = int j, tm_year = y, tm_wday = (n + 4) mod 7, tm_yday = k,
    tm_params = \<lparr>tp_gmt_offset = 0, tp_dst_offset = 0\<rparr>\<rparr>"
  have e: "ComputeGMT t = Some ?e"
    unfolding ComputeGMT_def Let_def
    using wday j(2)
    by (auto simp: floor_pair clock row last a16 y(1) simp flip: sec_def n_def rem_def k_def split: if_splits)
  have day: "day_no y (int j) (k - (days_before y j - 1)) = n" by (simp add: day_no_before k_def)
  show ?thesis
  proof (rule that [OF e])
    have "rem div 3600 < 24" using rem by (intro int_div_bounds) simp_all
    moreover have "rem mod 3600 div 60 < 60" by (intro int_div_bounds) simp_all
    ultimately show "valid ?e"
      using rem(1) j day by (simp add: valid_def k_def days_before_Suc pos_imp_zdiv_nonneg_iff)
    show "wall_sec ?e = t div 1000000"
      using day j(1) rem clock_sum [OF rem(1)] by (simp add: wall_sec_def day_of_def flip: sec_def)
  qed (use y in simp_all)
qed


subsection \<open>A day back or forth\<close>

text \<open>The half of \<open>valid\<close> on the date.\<close>

definition date_ok :: "PRExplodedTime \<Rightarrow> bool" where
  "date_ok e \<longleftrightarrow> 0 \<le> tm_month e \<and> tm_month e < 12 \<and>
     1 \<le> tm_mday e \<and> tm_mday e \<le> month_length (tm_year e) (nat (tm_month e)) \<and>
     tm_yday e = day_no (tm_year e) (tm_month e) (tm_mday e) - jan1 (tm_year e) \<and>
     tm_wday e = (day_no (tm_year e) (tm_month e) (tm_mday e) + 4) mod 7"

definition clock_ok :: "PRExplodedTime \<Rightarrow> bool" where
  "clock_ok e \<longleftrightarrow> 0 \<le> tm_usec e \<and> tm_usec e < 1000000 \<and> 0 \<le> tm_sec e \<and> tm_sec e < 60 \<and> 0 \<le> tm_min e \<and> tm_min e < 60 \<and>
     0 \<le> tm_hour e \<and> tm_hour e < 24"

lemma valid_parts: "valid e \<longleftrightarrow> clock_ok e \<and> date_ok e"
  by (auto simp: valid_def clock_ok_def date_ok_def)

lemma wday_back: "as8 (d mod 7 - 1) = d mod 7 - 1" "(if d mod 7 - 1 < 0 then 6 else d mod 7 - 1) = (d - 1) mod (7 :: int)"
proof -
  have b: "0 \<le> d mod 7" "d mod 7 < 7" by simp_all
  then show "as8 (d mod 7 - 1) = d mod 7 - 1" by (intro as8_in) linarith+
  have e: "(d - 1) mod 7 = (d mod 7 - 1) mod 7" by (simp add: mod_diff_left_eq)
  show "(if d mod 7 - 1 < 0 then 6 else d mod 7 - 1) = (d - 1) mod 7"
  proof (cases "d mod 7 = 0")
    case False
    then have "0 \<le> d mod 7 - 1" "d mod 7 - 1 < 7" using b by linarith+
    then show ?thesis unfolding e by (simp add: mod_pos_pos_trivial)
  qed (simp add: e)
qed

lemma wday_forward: "as8 (d mod 7 + 1) = d mod 7 + 1" "(if d mod 7 + 1 > 6 then 0 else d mod 7 + 1) = (d + 1) mod (7 :: int)"
proof -
  have b: "0 \<le> d mod 7" "d mod 7 < 7" by simp_all
  then show "as8 (d mod 7 + 1) = d mod 7 + 1" by (intro as8_in) linarith+
  have e: "(d + 1) mod 7 = (d mod 7 + 1) mod 7" by (simp add: mod_add_left_eq)
  show "(if d mod 7 + 1 > 6 then 0 else d mod 7 + 1) = (d + 1) mod 7"
  proof (cases "d mod 7 = 6")
    case False
    then have "0 \<le> d mod 7 + 1" "d mod 7 + 1 < 7" using b by linarith+
    then show ?thesis unfolding e by (simp add: mod_pos_pos_trivial)
  qed (simp add: e)
qed

lemma date_ok_yday:
  assumes "date_ok e"
  shows "0 \<le> tm_yday e" "tm_yday e < 366"
proof -
  have "jan1 (tm_year e) \<le> day_no (tm_year e) (tm_month e) (tm_mday e)"
    "day_no (tm_year e) (tm_month e) (tm_mday e) < jan1 (tm_year e + 1)"
    by (rule day_in_year; use assms in \<open>simp add: date_ok_def\<close>)+
  then show "0 \<le> tm_yday e" "tm_yday e < 366"
    using assms jan1_Suc [of "tm_year e"] by (simp_all add: date_ok_def split: if_splits)
qed

text \<open>What a step of a day leaves alone.\<close>

definition same_clock :: "PRExplodedTime \<Rightarrow> PRExplodedTime \<Rightarrow> bool" where
  "same_clock e e' \<longleftrightarrow> tm_usec e' = tm_usec e \<and> tm_sec e' = tm_sec e \<and> tm_min e' = tm_min e \<and> tm_params e' = tm_params e"

lemma day_back_spec:
  assumes ok: "date_ok e" and year: "- 32000 \<le> tm_year e" "tm_year e \<le> 32000"
  obtains e' where "day_back e = Some e'" "date_ok e'" "same_clock e e'" "tm_hour e' = tm_hour e + 24" "day_of e' = day_of e - 1"
    "tm_year e - 1 \<le> tm_year e'" "tm_year e' \<le> tm_year e"
proof -
  note f = ok [unfolded date_ok_def]
  note yd = date_ok_yday [OF ok]
  define d where "d = day_no (tm_year e) (tm_month e) (tm_mday e)"
  have w: "tm_wday e = (d + 4) mod 7" using f by (simp add: d_def)
  have a8: "as8 (tm_wday e - 1) = tm_wday e - 1" using wday_back(1) [of "d + 4"] by (simp add: w)
  have wb: "(3 + d) mod 7 = (if tm_wday e < 1 then 6 else tm_wday e - 1)"
    using wday_back(2) [of "d + 4"] by (simp add: w split: if_splits)
  have ml: "month_length (tm_year e) k \<le> 31" for k using month_length_bounds by blast
  have i: "i32 (tm_mday e - 1) = Some (tm_mday e - 1)" "i32 (tm_month e - 1) = Some (tm_month e - 1)"
    using f ml [of "nat (tm_month e)"] by (auto intro!: i32_in)
  have a: "as16 (tm_yday e - 1) = tm_yday e - 1" "as16 (tm_year e - 1) = tm_year e - 1" using yd year by (auto intro!: as16_in)
  have fd: "tm_yday e = d - jan1 (tm_year e)" using f by (simp add: d_def)
  have dy: "day_of e = d" using f by (simp add: day_of_valid d_def)
  show ?thesis
  proof (cases "tm_mday e = 1")
    case False
    then have m: "\<not> tm_mday e - 1 < 1" using f by linarith
    let ?e = "e\<lparr>tm_mday := tm_mday e - 1, tm_yday := tm_yday e - 1, tm_hour := tm_hour e + 24, tm_wday := (3 + d) mod 7\<rparr>"
    have r: "day_back e = Some ?e"
      unfolding day_back_def Let_def using m by (simp add: i a a8 wb)
    show ?thesis
      by (rule that [OF r]) (use f m year in \<open>auto simp: date_ok_def same_clock_def day_no_def day_of_def d_def algebra_simps\<close>)
  next
    case one: True
    show ?thesis
    proof (cases "tm_month e = 0")
      case False
      then have m: "\<not> tm_month e - 1 < 0" "0 \<le> tm_month e - 1" "tm_month e - 1 < 12" using f by linarith+
      let ?n = "month_length (tm_year e) (nat (tm_month e - 1))"
      let ?e = "e\<lparr>tm_yday := tm_yday e - 1, tm_month := tm_month e - 1, tm_mday := ?n, tm_hour := tm_hour e + 24, tm_wday := (3 + d) mod 7\<rparr>"
      have r: "day_back e = Some ?e"
        unfolding day_back_def Let_def using m(1) one by (simp add: i32_in i a a8 wb nDays_table [OF m(2,3)])
      have d': "day_no (tm_year e) (tm_month e - 1) ?n = d - 1"
        using day_no_next_month [OF m(2), of "tm_year e" 0] one by (simp add: d_def day_no_def)
      show ?thesis
        by (rule that [OF r])
          (use fd m d' month_length_bounds [of "tm_year e" "nat (tm_month e - 1)"] in
            \<open>simp_all add: date_ok_def same_clock_def day_of_valid dy\<close>)
    next
      case zero: True
      let ?y = "tm_year e - 1"
      let ?e = "e\<lparr>tm_yday := (if leap ?y then 365 else 364), tm_month := 11, tm_year := ?y, tm_mday := 31, tm_hour := tm_hour e + 24, tm_wday := (3 + d) mod 7\<rparr>"
      have n: "table_at nDays (IsLeapYear ?y) 11 = Some 31" by (simp add: nDays_table month_length_def)
      have r: "day_back e = Some ?e"
        unfolding day_back_def Let_def using zero one n by (simp add: i32_in i a a8 wb IsLeapYear_leap)
      have d': "day_no ?y 11 31 = d - 1"
        using day_no_next_month [of 11 ?y 0] day_no_next_year [of ?y 0] one zero
        by (simp add: d_def day_no_def month_length_def)
      have d2: "day_no ?y 11 31 = jan1 ?y + (if leap ?y then 365 else 364)"
        using d' one zero jan1_Suc [of ?y] by (simp add: d_def day_no_def split: if_splits)
      have wd: "(3 + d) mod 7 = (day_no ?y 11 31 + 4) mod 7" by (simp add: d')
      have ok': "date_ok ?e" using d2 wd by (simp add: date_ok_def month_length_def)
      show ?thesis
        by (rule that [OF r ok']) (use d' in \<open>simp_all add: same_clock_def day_of_valid dy\<close>)
    qed
  qed
qed

lemma day_forward_spec:
  assumes ok: "date_ok e" and year: "- 32000 \<le> tm_year e" "tm_year e \<le> 32000"
  obtains e' where "day_forward e = Some e'" "date_ok e'" "same_clock e e'" "tm_hour e' = tm_hour e - 24" "day_of e' = day_of e + 1"
    "tm_year e \<le> tm_year e'" "tm_year e' \<le> tm_year e + 1"
proof -
  note f = ok [unfolded date_ok_def]
  note yd = date_ok_yday [OF ok]
  define d where "d = day_no (tm_year e) (tm_month e) (tm_mday e)"
  define n where "n = month_length (tm_year e) (nat (tm_month e))"
  have w: "tm_wday e = (d + 4) mod 7" using f by (simp add: d_def)
  have a8: "as8 (tm_wday e + 1) = tm_wday e + 1" using wday_forward(1) [of "d + 4"] by (simp add: w)
  have wb: "(5 + d) mod 7 = (if tm_wday e > 5 then 0 else tm_wday e + 1)"
    using wday_forward(2) [of "d + 4"] by (simp add: w split: if_splits)
  have nb: "28 \<le> n" "n \<le> 31" using month_length_bounds by (simp_all add: n_def)
  have i: "i32 (tm_mday e + 1) = Some (tm_mday e + 1)" using f nb by (intro i32_in) (auto simp: n_def)
  have a: "as16 (tm_yday e + 1) = tm_yday e + 1" "as16 (tm_year e + 1) = tm_year e + 1" using yd year by (auto intro!: as16_in)
  have t: "table_at nDays (IsLeapYear (tm_year e)) (tm_month e) = Some n" using f by (simp add: nDays_table n_def)
  have fd: "tm_yday e = d - jan1 (tm_year e)" using f by (simp add: d_def)
  have dy: "day_of e = d" using f by (simp add: day_of_valid d_def)
  show ?thesis
  proof (cases "tm_mday e + 1 \<le> n")
    case True
    let ?e = "e\<lparr>tm_mday := tm_mday e + 1, tm_yday := tm_yday e + 1, tm_hour := tm_hour e - 24, tm_wday := (5 + d) mod 7\<rparr>"
    have r: "day_forward e = Some ?e"
      unfolding day_forward_def Let_def using True by (simp add: i a t a8 wb)
    show ?thesis
      by (rule that [OF r]) (use f True in \<open>auto simp: date_ok_def same_clock_def day_no_def day_of_def d_def n_def algebra_simps\<close>)
  next
    case False
    then have last: "tm_mday e = n" using f by (simp add: n_def)
    show ?thesis
    proof (cases "tm_month e = 11")
      case False
      then have m: "\<not> 10 < tm_month e" "0 \<le> tm_month e" "tm_month e + 1 < 12" using f by linarith+
      let ?e = "e\<lparr>tm_mday := 1, tm_yday := tm_yday e + 1, tm_month := tm_month e + 1, tm_hour := tm_hour e - 24, tm_wday := (5 + d) mod 7\<rparr>"
      have r: "day_forward e = Some ?e"
        unfolding day_forward_def Let_def using m(1) last by (simp add: i [unfolded last] a t a8 wb)
      have d': "day_no (tm_year e) (tm_month e + 1) 1 = d + 1"
        using day_no_next_month [OF m(2), of "tm_year e" 1] last by (simp add: d_def n_def day_no_def)
      show ?thesis
        by (rule that [OF r])
          (use fd m d' month_length_bounds [of "tm_year e" "nat (tm_month e + 1)"] in
            \<open>simp_all add: date_ok_def same_clock_def day_of_valid dy\<close>)
    next
      case dec: True
      let ?y = "tm_year e + 1"
      let ?e = "e\<lparr>tm_mday := 1, tm_yday := 0, tm_month := 0, tm_year := ?y, tm_hour := tm_hour e - 24, tm_wday := (5 + d) mod 7\<rparr>"
      have r: "day_forward e = Some ?e"
        unfolding day_forward_def Let_def using dec last by (simp add: i [unfolded last] a t [unfolded dec] a8 wb)
      have d': "day_no ?y 0 1 = d + 1"
        using day_no_next_month [of 11 "tm_year e" 1] day_no_next_year [of "tm_year e" 1] last dec
        by (simp add: d_def n_def day_no_def)
      have d2: "day_no ?y 0 1 = jan1 ?y" by (simp add: day_no_def)
      have wd: "(5 + d) mod 7 = (day_no ?y 0 1 + 4) mod 7" by (simp add: d')
      have ok': "date_ok ?e" using d2 wd by (simp add: date_ok_def month_length_def)
      show ?thesis
        by (rule that [OF r ok']) (use d' in \<open>simp_all add: same_clock_def day_of_valid dy\<close>)
    qed
  qed
qed

lemma ApplySecOffset_spec:
  assumes v: "valid e" and off: "- 86400 < off" "off < 86400" and year: "- 32000 \<le> tm_year e" "tm_year e \<le> 32000"
  obtains e' where "ApplySecOffset e off = Some e'" "valid e'" "wall_sec e' = wall_sec e + off" "tm_usec e' = tm_usec e"
    "tm_params e' = tm_params e" "tm_year e - 1 \<le> tm_year e'" "tm_year e' \<le> tm_year e + 1"
proof -
  have c: "clock_ok e" and d: "date_ok e" using v by (simp_all add: valid_parts)
  note c' = c [unfolded clock_ok_def]
  define t where "t = tm_min e + (tm_sec e + off) div 60"
  define h where "h = tm_hour e + t div 60"
  define s m where "s = (tm_sec e + off) mod 60" and "m = t mod 60"
  define e1 where "e1 = e\<lparr>tm_sec := s, tm_min := m, tm_hour := h\<rparr>"
  have sb: "0 \<le> s" "s < 60" "0 \<le> m" "m < 60" by (simp_all add: s_def m_def)
  have tb: "- 1440 \<le> (tm_sec e + off) div 60" "(tm_sec e + off) div 60 < 1442"
    using c' off by (auto intro!: int_div_bounds)
  have total: "h * 3600 + m * 60 + s = tm_hour e * 3600 + tm_min e * 60 + tm_sec e + off"
    using div_mult_mod_eq [of "tm_sec e + off" 60, folded s_def] div_mult_mod_eq [of t 60, folded m_def]
      t_def h_def by linarith
  have hb: "- 24 \<le> h" "h < 48" using total sb c' off by linarith+
  have carries: "i32 (tm_sec e + off) = Some (tm_sec e + off)" "carry 60 (tm_sec e + off) (tm_min e) = Some (s, t)"
    "carry 60 t (tm_hour e) = Some (m, h)"
  proof -
    have "\<bar>t\<bar> \<le> 2000000000" using c' tb unfolding t_def by linarith
    then show "carry 60 t (tm_hour e) = Some (m, h)" unfolding m_def h_def by (intro carry_spec) (use c' in linarith)+
    show "carry 60 (tm_sec e + off) (tm_min e) = Some (s, t)" unfolding s_def t_def by (rule carry_spec) (use c' off in linarith)+
    show "i32 (tm_sec e + off) = Some (tm_sec e + off)" by (rule i32_in) (use c' off in linarith)+
  qed
  have r: "ApplySecOffset e off = (if h < 0 then day_back e1 else if h > 23 then day_forward e1 else Some e1)"
    by (simp add: ApplySecOffset_def carries e1_def)
  have d1: "date_ok e1" and day1: "day_of e1 = day_of e" using d by (simp_all add: e1_def date_ok_def day_of_def)
  have f1: "tm_hour e1 = h" "tm_min e1 = m" "tm_sec e1 = s" "tm_usec e1 = tm_usec e" "tm_params e1 = tm_params e" "tm_year e1 = tm_year e"
    by (simp_all add: e1_def)
  have year1: "- 32000 \<le> tm_year e1" "tm_year e1 \<le> 32000" using year f1 by simp_all
  have usec: "0 \<le> tm_usec e" "tm_usec e < 1000000" using c' by simp_all
  consider "h < 0" | "23 < h" | "0 \<le> h" "h \<le> 23" by (meson not_less)
  then show ?thesis
  proof cases
    case 1
    obtain e' where e': "day_back e1 = Some e'" "date_ok e'" "same_clock e1 e'" "tm_hour e' = tm_hour e1 + 24"
      "day_of e' = day_of e1 - 1" "tm_year e1 - 1 \<le> tm_year e'" "tm_year e' \<le> tm_year e1"
      by (rule day_back_spec [OF d1 year1])
    show ?thesis
      by (rule that [of e'])
        (use 1 r e' f1 day1 total hb sb usec in \<open>simp_all add: valid_parts clock_ok_def same_clock_def wall_sec_def\<close>)
  next
    case 2
    obtain e' where e': "day_forward e1 = Some e'" "date_ok e'" "same_clock e1 e'" "tm_hour e' = tm_hour e1 - 24"
      "day_of e' = day_of e1 + 1" "tm_year e1 \<le> tm_year e'" "tm_year e' \<le> tm_year e1 + 1"
      by (rule day_forward_spec [OF d1 year1])
    show ?thesis
      by (rule that [of e'])
        (use 2 r e' f1 day1 total hb sb usec in \<open>simp_all add: valid_parts clock_ok_def same_clock_def wall_sec_def\<close>)
  next
    case 3
    show ?thesis
      by (rule that [of e1])
        (use 3 r d1 f1 day1 total sb usec in \<open>simp_all add: valid_parts clock_ok_def wall_sec_def\<close>)
  qed
qed



end
