(* ===== verification/Pr_Time_Spec.thy ===== *)
theory Pr_Time_Spec
  imports Pr_Calendar
begin

text \<open>
  Normalising, exploding and imploding over the day numbers of \<open>Pr_Calendar\<close>, the zone functions of
  \<open>prtime.c\<close>, daylight saving time and weeks; then the properties of the calendar.
\<close>

subsection \<open>Normalising\<close>

lemma day_no_ge: "0 \<le> m \<Longrightarrow> 1 \<le> d \<Longrightarrow> jan1 y \<le> day_no y m d"
  using days_before_mono [of 0 "nat m" y] by (simp add: day_no_before days_before_def)

lemma day_no_less:
  assumes "0 \<le> m" "m < 12" "d < 1"
  shows "day_no y m d < jan1 (y + 1)"
proof -
  have "days_before y (nat m) \<le> days_before y 12" using assms by (intro days_before_mono) linarith
  then show ?thesis using assms days_before_12 [of y] jan1_Suc [of y] by (simp add: day_no_before split: if_splits)
qed

lemma jan1_less: "jan1 a < jan1 b \<Longrightarrow> a < b"
  using jan1_mono [of b a] by linarith

lemma mday_up_spec:
  assumes "0 \<le> m" "m < 12" "1 \<le> d" "- 32001 \<le> y" "day_no y m d < jan1 32000"
  shows "\<exists>y' m' d'. mday_up y m d = Some (y', m', d') \<and> 0 \<le> m' \<and> m' < 12 \<and> 1 \<le> d' \<and> d' \<le> month_length y' (nat m') \<and>
    day_no y' m' d' = day_no y m d"
  using assms
proof (induction "nat d" arbitrary: y m d rule: less_induct)
  case less
  define n where "n = month_length y (nat m)"
  have t: "table_at nDays (IsLeapYear y) m = Some n" using less.prems by (simp add: nDays_table n_def)
  have n: "28 \<le> n" using month_length_bounds by (simp add: n_def)
  show ?case
  proof (cases "d \<le> n")
    case True
    then show ?thesis using less.prems t by (simp add: mday_up.simps [of y m d] n_def)
  next
    case False
    have "jan1 y < jan1 32000" using day_no_ge [of m d y] less.prems by linarith
    then have "y < 32000" by (rule jan1_less)
    then have a: "as16 (y + 1) = y + 1" using less.prems by (intro as16_in) simp_all
    define y1 m1 where "y1 = (if m + 1 > 11 then y + 1 else y)" and "m1 = (if m + 1 > 11 then 0 else m + 1)"
    have step: "mday_up y m d = mday_up y1 m1 (d - n)"
      using False t a by (simp add: mday_up.simps [of y m d] y1_def m1_def)
    have day: "day_no y1 m1 (d - n) = day_no y m d"
    proof (cases "m = 11")
      case True
      then show ?thesis using day_no_next_month [of 11 y "d - n"] day_no_next_year [of y "d - n"] by (simp add: y1_def m1_def n_def)
    next
      case False
      then show ?thesis using day_no_next_month [of m y "d - n"] less.prems by (simp add: y1_def m1_def n_def)
    qed
    have "nat (d - n) < nat d" "1 \<le> d - n" "0 \<le> m1" "m1 < 12" "- 32001 \<le> y1"
      using False n less.prems by (auto simp: m1_def y1_def)
    then show ?thesis using less.hyps [of "d - n" m1 y1] day less.prems step by simp
  qed
qed

lemma mday_down_spec:
  assumes "0 \<le> m" "m < 12" "d < 1" "y \<le> 32001" "jan1 (- 32000) \<le> day_no y m d"
  shows "\<exists>y' m' d'. mday_down y m d = Some (y', m', d') \<and> 0 \<le> m' \<and> m' < 12 \<and> 1 \<le> d' \<and> d' \<le> month_length y' (nat m') \<and>
    day_no y' m' d' = day_no y m d"
  using assms
proof (induction "nat (1 - d)" arbitrary: y m d rule: less_induct)
  case less
  have "jan1 (- 32000) < jan1 (y + 1)" using day_no_less [of m d y] less.prems by linarith
  then have "- 32000 < y + 1" by (rule jan1_less)
  then have a: "as16 (y - 1) = y - 1" using less.prems by (intro as16_in) simp_all
  have i: "i32 (m - 1) = Some (m - 1)" using less.prems by (intro i32_in) simp_all
  define y1 m1 where "y1 = (if m - 1 < 0 then y - 1 else y)" and "m1 = (if m - 1 < 0 then 11 else m - 1)"
  have m1: "0 \<le> m1" "m1 < 12" using less.prems by (auto simp: m1_def)
  define n where "n = month_length y1 (nat m1)"
  have t: "table_at nDays (IsLeapYear y1) m1 = Some n" using m1 by (simp add: nDays_table n_def)
  have n: "28 \<le> n" using month_length_bounds by (simp add: n_def)
  have p: "(if m - 1 < 0 then (as16 (y - 1), 11) else (y, m - 1)) = (y1, m1)" by (simp add: y1_def m1_def a)
  have day: "day_no y1 m1 (d + n) = day_no y m d"
  proof (cases "m = 0")
    case True
    then show ?thesis using day_no_next_month [of 11 "y - 1" d] day_no_next_year [of "y - 1" d] by (simp add: y1_def m1_def n_def)
  next
    case False
    then show ?thesis using day_no_next_month [of "m - 1" y d] less.prems by (simp add: y1_def m1_def n_def)
  qed
  have step: "mday_down y m d = (if d + n < 1 then mday_down y1 m1 (d + n) else Some (y1, m1, d + n))"
    unfolding mday_down.simps [of y m d] i bind.bind_lunit Let_def p prod.case t ..
  show ?case
  proof (cases "d + n < 1")
    case True
    have "nat (1 - (d + n)) < nat (1 - d)" "y1 \<le> 32001" using True n less.prems by (auto simp: y1_def)
    then show ?thesis using less.hyps [of "d + n" m1 y1] day less.prems step m1 True by simp
  next
    case False
    then show ?thesis using step day m1 less.prems by (auto simp: n_def)
  qed
qed

text \<open>Fields far enough inside the range of \<open>PRInt32\<close> that no carry leaves it.\<close>

definition bounded :: "PRExplodedTime \<Rightarrow> bool" where
  "bounded e \<longleftrightarrow> \<bar>tm_usec e\<bar> \<le> 1000000000 \<and> \<bar>tm_sec e\<bar> \<le> 1000000000 \<and> \<bar>tm_min e\<bar> \<le> 1000000000 \<and>
     \<bar>tm_hour e\<bar> \<le> 1000000000 \<and> \<bar>tm_mday e\<bar> \<le> 1000000000 \<and>
     - 32000 \<le> tm_year e + tm_month e div 12 \<and> tm_year e + tm_month e div 12 \<le> 32000 \<and>
     \<bar>tp_gmt_offset (tm_params e)\<bar> \<le> 400000000 \<and> \<bar>tp_dst_offset (tm_params e)\<bar> \<le> 400000000"

definition century :: "int \<Rightarrow> bool" where
  "century t \<longleftrightarrow> jan1 1901 * 86400000000 \<le> t \<and> t < jan1 2100 * 86400000000"

lemma month_carry:
  assumes "- 32000 \<le> y + m div 12" "y + m div 12 \<le> 32000"
  shows "(if m < 0 \<or> m \<ge> 12
     then let year1 = as16 (y + m sdiv 12); month1 = m smod 12
       in if month1 < 0 then (month1 + 12, as16 (year1 - 1)) else (month1, year1)
     else (m, y)) = (m mod 12, y + m div 12)"
proof (cases "m < 0 \<or> m \<ge> 12")
  case True
  have f: "(if m smod 12 < 0 then m sdiv 12 - 1 else m sdiv 12) = m div 12"
    "(if m smod 12 < 0 then m smod 12 + 12 else m smod 12) = m mod 12" by (rule floor_fix; simp)+
  show ?thesis
  proof (cases "m smod 12 < 0")
    case neg: True
    then have "m sdiv 12 = m div 12 + 1" "m smod 12 + 12 = m mod 12" using f by simp_all
    moreover have "as16 (y + (m div 12 + 1)) = y + m div 12 + 1" "as16 (y + m div 12 + 1 - 1) = y + m div 12"
      using assms by (simp_all add: as16_in)
    ultimately show ?thesis using True neg by (simp add: Let_def)
  next
    case pos: False
    then have "m sdiv 12 = m div 12" "m smod 12 = m mod 12" using f by simp_all
    moreover have "as16 (y + m div 12) = y + m div 12" using assms by (simp add: as16_in)
    ultimately show ?thesis using True pos by (simp add: Let_def)
  qed
qed simp


lemma normalized_mday:
  assumes "0 \<le> m" "m < 12" "- 32000 \<le> y" "y \<le> 32000" "jan1 1901 \<le> day_no y m d" "day_no y m d < jan1 2100"
  obtains y' m' d' where "(if d < 1 then mday_down y m d else mday_up y m d) = Some (y', m', d')"
    "0 \<le> m'" "m' < 12" "1 \<le> d'" "d' \<le> month_length y' (nat m')" "day_no y' m' d' = day_no y m d" "1901 \<le> y'" "y' \<le> 2099"
proof -
  have lim: "jan1 (- 32000) \<le> jan1 1901" "jan1 2100 \<le> jan1 32000" by (rule jan1_mono; simp)+
  have "\<exists>y' m' d'. (if d < 1 then mday_down y m d else mday_up y m d) = Some (y', m', d') \<and>
    0 \<le> m' \<and> m' < 12 \<and> 1 \<le> d' \<and> d' \<le> month_length y' (nat m') \<and> day_no y' m' d' = day_no y m d"
  proof (cases "d < 1")
    case True
    then show ?thesis using mday_down_spec [of m d y] assms lim by simp
  next
    case False
    then show ?thesis using mday_up_spec [of m d y] assms lim by simp
  qed
  then obtain y' m' d' where r: "(if d < 1 then mday_down y m d else mday_up y m d) = Some (y', m', d')"
    "0 \<le> m'" "m' < 12" "1 \<le> d'" "d' \<le> month_length y' (nat m')" "day_no y' m' d' = day_no y m d" by blast
  have "1901 \<le> y' \<and> y' \<le> 2099"
    using year_range [of 1901 "day_no y m d" 2099 y'] day_in_year [OF r(2-5)] r(6) assms(5,6) by simp
  then show ?thesis using that [OF r] by blast
qed

lemma normalized_carries:
  assumes b: "bounded e"
  obtains off sec0 u sec1 s min1 mi hour1 h mday where
    "i32 (tp_gmt_offset (tm_params e) + tp_dst_offset (tm_params e)) = Some off" "i32 (tm_sec e - off) = Some sec0"
    "carry 1000000 (tm_usec e) sec0 = Some (u, sec1)" "carry 60 sec1 (tm_min e) = Some (s, min1)"
    "carry 60 min1 (tm_hour e) = Some (mi, hour1)" "carry 24 hour1 (tm_mday e) = Some (h, mday)"
    "0 \<le> u" "u < 1000000" "0 \<le> s" "s < 60" "0 \<le> mi" "mi < 60" "0 \<le> h" "h < 24"
    "(mday * 86400 + h * 3600 + mi * 60 + s) * 1000000 + u =
     (tm_mday e * 86400 + tm_hour e * 3600 + tm_min e * 60 + tm_sec e - tp_gmt_offset (tm_params e) - tp_dst_offset (tm_params e)) * 1000000 + tm_usec e"
proof -
  note b' = b [unfolded bounded_def]
  define off where "off = tp_gmt_offset (tm_params e) + tp_dst_offset (tm_params e)"
  define sec0 where "sec0 = tm_sec e - off"
  define u where "u = tm_usec e mod 1000000"
  define sec1 where "sec1 = sec0 + tm_usec e div 1000000"
  define s where "s = sec1 mod 60"
  define min1 where "min1 = tm_min e + sec1 div 60"
  define mi where "mi = min1 mod 60"
  define hour1 where "hour1 = tm_hour e + min1 div 60"
  define h where "h = hour1 mod 24"
  define mday where "mday = tm_mday e + hour1 div 24"
  have gb: "\<bar>tp_gmt_offset (tm_params e)\<bar> \<le> 400000000" "\<bar>tp_dst_offset (tm_params e)\<bar> \<le> 400000000" "\<bar>tm_sec e\<bar> \<le> 1000000000"
    using b' by blast+
  have "\<bar>off\<bar> \<le> 900000000" using gb(1,2) unfolding off_def by linarith
  with gb(3) have ob: "\<bar>off\<bar> \<le> 1000000000" "\<bar>sec0\<bar> \<le> 1900000000" unfolding sec0_def by linarith+
  have "\<bar>tm_usec e\<bar> \<le> 1000000000" using b' by blast
  then have ub: "- 1000 \<le> tm_usec e div 1000000" "tm_usec e div 1000000 < 1001"
    by (auto intro!: int_div_bounds)
  have sb: "\<bar>sec1\<bar> \<le> 2000000000" using ob(2) ub unfolding sec1_def by linarith
  have fb: "\<bar>tm_min e\<bar> \<le> 1000000000" "\<bar>tm_hour e\<bar> \<le> 1000000000"
    "\<bar>tm_usec e\<bar> \<le> 1000000000" "\<bar>tm_mday e\<bar> \<le> 1000000000" using b' by blast+
  have "\<bar>sec1 div 60\<bar> \<le> 83333334" by (rule sdiv_bound(2)) (use sb in simp_all)
  then have mb: "\<bar>min1\<bar> \<le> 2000000000" using fb(1) unfolding min1_def by linarith
  have "\<bar>min1 div 60\<bar> \<le> 83333334" by (rule sdiv_bound(2)) (use mb in simp_all)
  then have hb: "\<bar>hour1\<bar> \<le> 2000000000" using fb(2) unfolding hour1_def by linarith
    show ?thesis
    proof (rule that)
      show "i32 (tp_gmt_offset (tm_params e) + tp_dst_offset (tm_params e)) = Some off"
        unfolding off_def by (rule i32_in) (use ob(1) in \<open>simp_all add: off_def\<close>)
      show "i32 (tm_sec e - off) = Some sec0" unfolding sec0_def by (rule i32_in) (use ob(2) in \<open>simp_all add: sec0_def\<close>)
      show "carry 1000000 (tm_usec e) sec0 = Some (u, sec1)"
        unfolding u_def sec1_def by (rule carry_spec) (use fb(3) ob(2) in simp_all)
      show "carry 60 sec1 (tm_min e) = Some (s, min1)" unfolding s_def min1_def by (rule carry_spec) (use fb(1) sb in simp_all)
      show "carry 60 min1 (tm_hour e) = Some (mi, hour1)" unfolding mi_def hour1_def by (rule carry_spec) (use fb(2) mb in simp_all)
      show "carry 24 hour1 (tm_mday e) = Some (h, mday)" unfolding h_def mday_def by (rule carry_spec) (use fb(4) hb in simp_all)
      show "(mday * 86400 + h * 3600 + mi * 60 + s) * 1000000 + u =
        (tm_mday e * 86400 + tm_hour e * 3600 + tm_min e * 60 + tm_sec e - tp_gmt_offset (tm_params e) - tp_dst_offset (tm_params e)) * 1000000 + tm_usec e"
      proof -
        have 1: "sec1 * 1000000 + u = (tm_sec e - off) * 1000000 + tm_usec e"
          using div_mult_mod_eq [of "tm_usec e" 1000000, folded u_def] by (simp add: sec1_def sec0_def algebra_simps)
        have 2: "min1 * 60 + s = tm_min e * 60 + sec1" using div_mult_mod_eq [of sec1 60, folded s_def] by (simp add: min1_def algebra_simps)
        have 3: "hour1 * 60 + mi = tm_hour e * 60 + min1" using div_mult_mod_eq [of min1 60, folded mi_def] by (simp add: hour1_def algebra_simps)
        have 4: "mday * 24 + h = tm_mday e * 24 + hour1" using div_mult_mod_eq [of hour1 24, folded h_def] by (simp add: mday_def algebra_simps)
        have "mday * 86400 + h * 3600 + mi * 60 + s = tm_mday e * 86400 + tm_hour e * 3600 + tm_min e * 60 + sec1"
          using 2 3 4 by linarith
        then show ?thesis using 1 by (simp add: off_def algebra_simps)
      qed
    qed (simp_all add: u_def s_def mi_def h_def)
qed

lemma normalized_gmt:
  assumes b: "bounded e" and t: "century (instant e)"
  obtains g where "\<forall>params. PR_NormalizeTime e params = do {
       p \<leftarrow> params g; poff \<leftarrow> i32 (tp_gmt_offset p + tp_dst_offset p); ApplySecOffset (g\<lparr>tm_params := p\<rparr>) poff }"
    "valid g" "1901 \<le> tm_year g" "tm_year g \<le> 2099" "instant g = instant e"
    "tm_params g = \<lparr>tp_gmt_offset = 0, tp_dst_offset = 0\<rparr>"
proof -
  obtain off sec0 u sec1 s min1 mi hour1 h mday where c:
    "i32 (tp_gmt_offset (tm_params e) + tp_dst_offset (tm_params e)) = Some off" "i32 (tm_sec e - off) = Some sec0"
    "carry 1000000 (tm_usec e) sec0 = Some (u, sec1)" "carry 60 sec1 (tm_min e) = Some (s, min1)"
    "carry 60 min1 (tm_hour e) = Some (mi, hour1)" "carry 24 hour1 (tm_mday e) = Some (h, mday)"
    and r: "0 \<le> u" "u < 1000000" "0 \<le> s" "s < 60" "0 \<le> mi" "mi < 60" "0 \<le> h" "h < 24"
    and tot: "(mday * 86400 + h * 3600 + mi * 60 + s) * 1000000 + u =
     (tm_mday e * 86400 + tm_hour e * 3600 + tm_min e * 60 + tm_sec e - tp_gmt_offset (tm_params e) - tp_dst_offset (tm_params e)) * 1000000 + tm_usec e"
    by (rule normalized_carries [OF b])
  define y2 m2 where "y2 = tm_year e + tm_month e div 12" and "m2 = tm_month e mod 12"
  have y2: "- 32000 \<le> y2" "y2 \<le> 32000" using b by (simp_all add: bounded_def y2_def)
  have m2: "0 \<le> m2" "m2 < 12" by (simp_all add: m2_def)
  note mc = month_carry [of "tm_year e" "tm_month e", folded y2_def m2_def, OF y2]
  define D where "D = day_no y2 m2 mday"
  have D: "D = day_of e - tm_mday e + mday" by (simp add: D_def day_of_def day_no_def y2_def m2_def)
  have inst: "instant e = (D * 86400 + h * 3600 + mi * 60 + s) * 1000000 + u"
    using tot unfolding D instant_def wall_sec_def by (simp add: algebra_simps)
  define c where "c = h * 3600 + mi * 60 + s"
  define w where "w = c * 1000000 + u"
  have "0 \<le> c" "c < 86400" using r unfolding c_def by linarith+
  then have w: "0 \<le> w" "w < 86400000000" using r(1,2) unfolding w_def by linarith+
  have "instant e = D * 86400000000 + w" using inst by (simp add: w_def c_def)
  moreover have "jan1 1901 * 86400000000 \<le> instant e" "instant e < jan1 2100 * 86400000000" using t by (simp_all add: century_def)
  ultimately have Dr: "jan1 1901 \<le> D" "D < jan1 2100" using w by linarith+
  obtain y' m' d' where d: "(if mday < 1 then mday_down y2 m2 mday else mday_up y2 m2 mday) = Some (y', m', d')"
    "0 \<le> m'" "m' < 12" "1 \<le> d'" "d' \<le> month_length y' (nat m')" "day_no y' m' d' = D" "1901 \<le> y'" "y' \<le> 2099"
    by (rule normalized_mday [OF m2 y2, of mday]) (use Dr in \<open>auto simp: D_def\<close>)
  define last yday where "last = days_before y' (nat m') - 1" and "yday = D - jan1 y'"
  have last: "table_at lastDayOfMonth (IsLeapYear y') m' = Some last" using d by (simp add: lastDay_table last_def)
  have yd: "d' + last = yday" using d(6) by (simp add: last_def yday_def day_no_before)
  have yr: "0 \<le> yday" "yday < 366"
    using day_in_year [OF d(2-5)] jan1_Suc [of y'] d(6) by (simp_all add: yday_def split: if_splits)
  have a16: "as16 yday = yday" using yr by (intro as16_in) simp_all
  have sp: "span_days y' + yday + 4 = D + 4" using span_days_jan1 [of y'] d by (simp add: yday_def)
  have wday: "(if (D + 4) smod 7 < 0 then (D + 4) smod 7 + 7 else (D + 4) smod 7) = (D + 4) mod 7" by (rule floor_fix) simp
  let ?g = "\<lparr>tm_usec = u, tm_sec = s, tm_min = mi, tm_hour = h, tm_mday = d', tm_month = m', tm_year = y',
    tm_wday = (D + 4) mod 7, tm_yday = yday, tm_params = \<lparr>tp_gmt_offset = 0, tp_dst_offset = 0\<rparr>\<rparr>"
  show ?thesis
  proof (rule that [of ?g])
    show "\<forall>params. PR_NormalizeTime e params = do {
       p \<leftarrow> params ?g; poff \<leftarrow> i32 (tp_gmt_offset p + tp_dst_offset p); ApplySecOffset (?g\<lparr>tm_params := p\<rparr>) poff }"
      unfolding PR_NormalizeTime_def c bind.bind_lunit prod.case Let_def mc [unfolded Let_def] d(1) last yd a16 sp wday by (intro allI refl)
    show "valid ?g" using d r by (simp add: valid_def yday_def)
    show "instant ?g = instant e" using inst d by (simp add: instant_def wall_sec_def day_of_def)
  qed (use d in simp_all)
qed


subsection \<open>Zones\<close>

text \<open>A function that gives an offset of less than a day for every time there is.\<close>

locale time_zone =
  fixes params :: PRTimeParamFn
  assumes zoned: "valid g \<Longrightarrow> 1901 \<le> tm_year g \<Longrightarrow> tm_year g \<le> 2099 \<Longrightarrow>
     \<exists>p. params g = Some p \<and> \<bar>tp_gmt_offset p\<bar> \<le> 400000000 \<and> \<bar>tp_dst_offset p\<bar> \<le> 400000000 \<and>
       \<bar>tp_gmt_offset p + tp_dst_offset p\<bar> < 86400"

interpretation gmt: time_zone PR_GMTParameters
  by unfold_locales (simp add: PR_GMTParameters_def)

interpretation pacific: time_zone PR_USPacificTimeParameters
proof
  fix g :: PRExplodedTime
  assume g: "valid g" "1901 \<le> tm_year g" "tm_year g \<le> 2099"
  obtain st where st: "ApplySecOffset g (- 28800) = Some st" "valid st" "wall_sec st = wall_sec g + - 28800" "tm_usec st = tm_usec g"
    "tm_params st = tm_params g" "tm_year g - 1 \<le> tm_year st" "tm_year st \<le> tm_year g + 1"
    by (rule ApplySecOffset_spec [OF g(1), of "- 28800"]) (use g in simp_all)
  obtain d where d: "PR_USPacificTimeParameters g = Some \<lparr>tp_gmt_offset = - 28800, tp_dst_offset = d\<rparr>" "d = 0 \<or> d = 3600"
    unfolding PR_USPacificTimeParameters_def st(1) bind.bind_lunit Let_def by simp
  then show "\<exists>p. PR_USPacificTimeParameters g = Some p \<and> \<bar>tp_gmt_offset p\<bar> \<le> 400000000 \<and> \<bar>tp_dst_offset p\<bar> \<le> 400000000 \<and>
       \<bar>tp_gmt_offset p + tp_dst_offset p\<bar> < 86400" by auto
qed

lemma valid_year:
  assumes v: "valid e" and "jan1 1901 * 86400 \<le> wall_sec e" "wall_sec e < jan1 2100 * 86400"
  shows "1901 \<le> tm_year e \<and> tm_year e \<le> 2099"
proof -
  note f = v [unfolded valid_def]
  define w where "w = tm_hour e * 3600 + tm_min e * 60 + tm_sec e"
  have w: "0 \<le> w" "w < 86400" using f unfolding w_def by linarith+
  have day: "day_of e = day_no (tm_year e) (tm_month e) (tm_mday e)" using f by (simp add: day_of_valid)
  have "wall_sec e = day_of e * 86400 + w" by (simp add: wall_sec_def w_def)
  then have "jan1 1901 \<le> day_of e" "day_of e < jan1 2100" using assms(2,3) w by linarith+
  then show ?thesis
    using year_range [of 1901 "day_of e" 2099 "tm_year e"] day_in_year [of "tm_month e" "tm_mday e" "tm_year e"] f day by simp
qed

lemma instant_wall: "tm_params e = \<lparr>tp_gmt_offset = 0, tp_dst_offset = 0\<rparr> \<Longrightarrow> instant e = wall_sec e * 1000000 + tm_usec e"
  by (simp add: instant_def)

lemma century_wall:
  assumes v: "valid e" and "century (wall_sec e * 1000000 + tm_usec e)"
  shows "jan1 1901 * 86400 \<le> wall_sec e" "wall_sec e < jan1 2100 * 86400"
  using assms by (simp_all add: century_def valid_def)

text \<open>The sum that \<open>PR_ImplodeTime\<close> forms of normalised fields.\<close>

lemma implode_sum:
  assumes v: "valid e" and y: "1901 \<le> tm_year e" "tm_year e \<le> 2099"
  shows "tm_yday e * 86400 + tm_hour e * 3600 + tm_min e * 60 + tm_sec e + span_days (tm_year e) * 86400 = wall_sec e"
proof -
  have "tm_yday e + span_days (tm_year e) = day_of e"
    using v y span_days_jan1 [of "tm_year e"] by (simp add: valid_def day_of_valid)
  then have "day_of e * 86400 = tm_yday e * 86400 + span_days (tm_year e) * 86400" by (simp flip: distrib_right)
  then show ?thesis by (simp add: wall_sec_def)
qed

text \<open>The zone that a zone function asks for at an instant: what it gives for the fields of the instant in Greenwich.\<close>

definition zone_at :: "PRTimeParamFn \<Rightarrow> int \<Rightarrow> PRTimeParameters \<Rightarrow> bool" where
  "zone_at params t p \<longleftrightarrow> (\<exists>g. valid g \<and> tm_params g = \<lparr>tp_gmt_offset = 0, tp_dst_offset = 0\<rparr> \<and> instant g = t \<and> params g = Some p)"

context time_zone begin

lemma with_zone:
  assumes "valid g" "1901 \<le> tm_year g" "tm_year g \<le> 2099"
  obtains p e where "params g = Some p"
    "do { p \<leftarrow> params g; off \<leftarrow> i32 (tp_gmt_offset p + tp_dst_offset p); ApplySecOffset (g\<lparr>tm_params := p\<rparr>) off } = Some e"
    "valid e" "instant e = wall_sec g * 1000000 + tm_usec g" "tm_params e = p"
    "wall_sec e = wall_sec g + (tp_gmt_offset p + tp_dst_offset p)" "bounded e"
proof -
  obtain p where p: "params g = Some p" "\<bar>tp_gmt_offset p\<bar> \<le> 400000000" "\<bar>tp_dst_offset p\<bar> \<le> 400000000"
    "\<bar>tp_gmt_offset p + tp_dst_offset p\<bar> < 86400" using zoned [OF assms] by blast
  define off where "off = tp_gmt_offset p + tp_dst_offset p"
  have off: "- 86400 < off" "off < 86400" using p(4) unfolding off_def by linarith+
  have i: "i32 off = Some off" using off by (intro i32_in) simp_all
  have v: "valid (g\<lparr>tm_params := p\<rparr>)" using assms(1) by (simp add: valid_def)
  obtain e where e: "ApplySecOffset (g\<lparr>tm_params := p\<rparr>) off = Some e" "valid e" "wall_sec e = wall_sec (g\<lparr>tm_params := p\<rparr>) + off"
    "tm_usec e = tm_usec (g\<lparr>tm_params := p\<rparr>)" "tm_params e = tm_params (g\<lparr>tm_params := p\<rparr>)"
    "tm_year (g\<lparr>tm_params := p\<rparr>) - 1 \<le> tm_year e" "tm_year e \<le> tm_year (g\<lparr>tm_params := p\<rparr>) + 1"
    by (rule ApplySecOffset_spec [OF v off]) (use assms in simp_all)
  have w: "wall_sec (g\<lparr>tm_params := p\<rparr>) = wall_sec g" by (simp add: wall_sec_def day_of_def)
  show ?thesis
  proof (rule that [OF p(1)])
    show "do { p \<leftarrow> params g; off \<leftarrow> i32 (tp_gmt_offset p + tp_dst_offset p); ApplySecOffset (g\<lparr>tm_params := p\<rparr>) off } = Some e"
      using p(1) i e(1) by (simp add: off_def)
    show "instant e = wall_sec g * 1000000 + tm_usec g" using e w by (simp add: instant_def off_def)
    have d: "1 \<le> tm_mday e" "tm_mday e \<le> 31" "tm_month e div 12 = 0"
      using e(2) month_length_bounds [of "tm_year e" "nat (tm_month e)"] by (auto simp: valid_def)
    show "bounded e" using e(2,5-7) p d assms(2,3) unfolding bounded_def by (auto simp: valid_def)
  qed (use e w in \<open>simp_all add: off_def\<close>)
qed


lemma PR_NormalizeTime_spec:
  assumes b: "bounded e" and t: "century (instant e)"
  obtains g e' where "PR_NormalizeTime e params = Some e'" "valid e'" "instant e' = instant e"
    "valid g" "1901 \<le> tm_year g" "tm_year g \<le> 2099" "params g = Some (tm_params e')"
    "zone_at params (instant e) (tm_params e')"
proof -
  obtain g where g: "\<forall>params. PR_NormalizeTime e params = do {
       p \<leftarrow> params g; poff \<leftarrow> i32 (tp_gmt_offset p + tp_dst_offset p); ApplySecOffset (g\<lparr>tm_params := p\<rparr>) poff }"
    "valid g" "1901 \<le> tm_year g" "tm_year g \<le> 2099" "instant g = instant e"
    "tm_params g = \<lparr>tp_gmt_offset = 0, tp_dst_offset = 0\<rparr>" by (rule normalized_gmt [OF b t])
  obtain p e' where e': "params g = Some p"
    "do { p \<leftarrow> params g; off \<leftarrow> i32 (tp_gmt_offset p + tp_dst_offset p); ApplySecOffset (g\<lparr>tm_params := p\<rparr>) off } = Some e'"
    "valid e'" "instant e' = wall_sec g * 1000000 + tm_usec g" "tm_params e' = p"
    "wall_sec e' = wall_sec g + (tp_gmt_offset p + tp_dst_offset p)" "bounded e'"
    by (rule with_zone [OF g(2-4)])
  show ?thesis
    by (rule that [of e' g]) (use g e' in \<open>auto simp: instant_wall zone_at_def\<close>)
qed

lemma PR_ExplodeTime_spec:
  assumes t: "century t"
  obtains e where "PR_ExplodeTime t params = Some e" "valid e" "instant e = t" "bounded e" "zone_at params t (tm_params e)"
proof -
  have t': "jan1 1901 * 86400000000 \<le> t" "t < jan1 2100 * 86400000000" using t by (simp_all add: century_def)
  obtain g where g: "ComputeGMT t = Some g" "valid g" "1901 \<le> tm_year g" "tm_year g \<le> 2099"
    "tm_usec g = t mod 1000000" "wall_sec g = t div 1000000" "tm_params g = \<lparr>tp_gmt_offset = 0, tp_dst_offset = 0\<rparr>"
    by (rule ComputeGMT_spec [OF t'])
  obtain p e where e: "params g = Some p"
    "do { p \<leftarrow> params g; off \<leftarrow> i32 (tp_gmt_offset p + tp_dst_offset p); ApplySecOffset (g\<lparr>tm_params := p\<rparr>) off } = Some e"
    "valid e" "instant e = wall_sec g * 1000000 + tm_usec g" "tm_params e = p"
    "wall_sec e = wall_sec g + (tp_gmt_offset p + tp_dst_offset p)" "bounded e"
    by (rule with_zone [OF g(2-4)])
  have "instant g = t" using g by (simp add: instant_wall)
  then have z: "zone_at params t (tm_params e)" using g e by (auto simp: zone_at_def)
  show ?thesis
    by (rule that [OF _ _ _ _ z]) (use g e in \<open>simp_all add: PR_ExplodeTime_def\<close>)
qed

end

lemma PR_ImplodeTime_spec:
  assumes b: "bounded e" and t: "century (instant e)"
  shows "PR_ImplodeTime e = Some (instant e)"
proof -
  obtain g c where c: "PR_NormalizeTime e PR_GMTParameters = Some c" "valid c" "instant c = instant e"
    "valid g" "1901 \<le> tm_year g" "tm_year g \<le> 2099" "PR_GMTParameters g = Some (tm_params c)"
    "zone_at PR_GMTParameters (instant e) (tm_params c)"
    by (rule gmt.PR_NormalizeTime_spec [OF b t])
  have p: "tm_params c = \<lparr>tp_gmt_offset = 0, tp_dst_offset = 0\<rparr>" using c(7) by (simp add: PR_GMTParameters_def)
  have i: "instant e = wall_sec c * 1000000 + tm_usec c" using c(3) instant_wall [OF p] by simp
  have "1901 \<le> tm_year c \<and> tm_year c \<le> 2099"
    by (rule valid_year [OF c(2)]) (use t i century_wall [OF c(2)] in simp_all)
  then have "tm_yday c * 86400 + tm_hour c * 3600 + tm_min c * 60 + tm_sec c + span_days (tm_year c) * 86400 = wall_sec c"
    using implode_sum [OF c(2)] by simp
  then show ?thesis using i p by (simp add: PR_ImplodeTime_def c(1))
qed

subsection \<open>Daylight saving time\<close>

text \<open>The first Sunday from a day on, and the days of the year on which US daylight saving time begins and ends.\<close>

definition sunday_from :: "int \<Rightarrow> int" where
  "sunday_from n = n + (- (n + 4)) mod 7"

definition dst_begin :: "int \<Rightarrow> int" where
  "dst_begin y = (if y < 2007 then sunday_from (day_no y 3 1) else sunday_from (day_no y 2 8))"

definition dst_end :: "int \<Rightarrow> int" where
  "dst_end y = (if y < 2007 then sunday_from (day_no y 9 25) else sunday_from (day_no y 10 1))"

lemma first_sunday:
  assumes "1 \<le> d"
  shows "(d - (day_no y m d + 4) mod 7 + 7 - 1) smod 7 + 1 = sunday_from (day_no y m 1) - day_no y m 1 + 1"
proof -
  define k where "k = day_no y m d"
  have b: "0 \<le> (k + 4) mod 7" "(k + 4) mod 7 < 7" by simp_all
  then have "0 \<le> d - (k + 4) mod 7 + 7 - 1" using assms by linarith
  then have "(d - (k + 4) mod 7 + 7 - 1) smod 7 = (d - (k + 4) mod 7 + 6) mod 7" by (simp add: sdiv_nonneg algebra_simps)
  also have "\<dots> = (d - (k + 4) + 6) mod 7" by (metis mod_add_left_eq mod_diff_right_eq)
  also have "d - (k + 4) + 6 = - (k - d + 1 + 4) + 7" by simp
  also have "(- (k - d + 1 + 4) + 7) mod 7 = (- (k - d + 1 + 4)) mod 7" by (rule mod_add_self2)
  finally show ?thesis by (simp add: sunday_from_def k_def day_no_def)
qed

lemma NthSunday_nth:
  assumes "1 \<le> d" "0 \<le> n"
  shows "NthSunday d ((day_no y m d + 4) mod 7) n ndays = sunday_from (day_no y m (1 + 7 * n)) - day_no y m 1 + 1"
proof -
  have "(- (day_no y m 1 + 7 * n + 4)) mod 7 = (- (day_no y m 1 + 4)) mod 7"
  proof -
    have "- (day_no y m 1 + 7 * n + 4) = - (day_no y m 1 + 4) + (- n) * 7" by simp
    then show ?thesis by (simp only: mod_mult_self1)
  qed
  moreover have "day_no y m (1 + 7 * n) = day_no y m 1 + 7 * n" by (simp add: day_no_def)
  ultimately have "sunday_from (day_no y m (1 + 7 * n)) = sunday_from (day_no y m 1) + 7 * n" by (simp add: sunday_from_def)
  then show ?thesis using first_sunday [OF assms(1), of y m] assms(2) by (simp add: NthSunday_def Let_def)
qed

lemma NthSunday_last:
  assumes "1 \<le> d"
  shows "NthSunday d ((day_no y m d + 4) mod 7) (- 1) 31 = sunday_from (day_no y m 25) - day_no y m 1 + 1"
proof -
  define D f where "D = day_no y m 1" and "f = (- (D + 4)) mod 7"
  have f: "0 \<le> f" "f < 7" by (simp_all add: f_def)
  have first: "(d - (day_no y m d + 4) mod 7 + 7 - 1) smod 7 + 1 = f + 1"
    using first_sunday [OF assms, of y m] by (simp add: sunday_from_def f_def D_def)
  have D25: "day_no y m 25 = D + 24" by (simp add: D_def day_no_def)
  have "(- (D + 24 + 4)) mod 7 = (- (D + 4) + - 24) mod 7" by (simp add: algebra_simps)
  also have "\<dots> = (f - 24) mod 7" unfolding f_def by (metis mod_add_left_eq uminus_add_conv_diff diff_conv_add_uminus)
  finally have s: "sunday_from (D + 24) = D + 24 + (f - 24) mod 7" by (simp add: sunday_from_def)
  have "f = 0 \<or> f = 1 \<or> f = 2 \<or> f = 3 \<or> f = 4 \<or> f = 5 \<or> f = 6" using f by linarith
  then have "f + 1 + 7 * ((31 - (f + 1)) sdiv 7) = 24 + (f - 24) mod 7 + 1" by (elim disjE) simp_all
  then show ?thesis unfolding NthSunday_def Let_def first D25 s D_def [symmetric] by simp
qed

lemma day_no_lex:
  assumes "0 \<le> m" "m < m'" "m' < 12" "d \<le> month_length y (nat m)"
  shows "day_no y m d < day_no y m' 1"
proof -
  have "days_before y (Suc (nat m)) \<le> days_before y (nat m')" using assms by (intro days_before_mono) linarith
  then show ?thesis using assms(4) by (simp add: day_no_before days_before_Suc)
qed

text \<open>What \<open>PR_USPacificTimeParameters\<close> does in the month in which the time changes: the \<open>n\<close>-th Sunday \<open>s\<close> is in that month.\<close>

lemma sunday_in_month:
  assumes "0 \<le> m" "m < 12" "1 \<le> a" "a + 6 \<le> month_length y (nat m)"
  shows "day_no y m 1 \<le> sunday_from (day_no y m a)" "sunday_from (day_no y m a) < day_no y (m + 1) 1"
proof -
  have b: "0 \<le> (- (day_no y m a + 4)) mod 7" "(- (day_no y m a + 4)) mod 7 < 7" by simp_all
  show "day_no y m 1 \<le> sunday_from (day_no y m a)" using b(1) assms(3) unfolding sunday_from_def by (simp add: day_no_def)
  have "day_no y (m + 1) 1 = day_no y m (1 + month_length y (nat m))" using assms by (simp add: day_no_next_month)
  then show "sunday_from (day_no y m a) < day_no y (m + 1) 1" using b(2) assms(4) unfolding sunday_from_def by (simp add: day_no_def)
qed

lemma dst_begin_end:
  "day_no y (if y < 2007 then 3 else 2) 1 \<le> dst_begin y" "dst_begin y < day_no y (if y < 2007 then 4 else 3) 1"
  "day_no y (if y < 2007 then 9 else 10) 1 \<le> dst_end y" "dst_end y < day_no y (if y < 2007 then 10 else 11) 1"
  using sunday_in_month [of 3 1 y] sunday_in_month [of 2 8 y] sunday_in_month [of 9 25 y] sunday_in_month [of 10 1 y]
  by (simp_all add: dst_begin_def dst_end_def month_length_def)

lemma PR_USPacificTimeParameters_spec:
  assumes g: "valid g" "1901 \<le> tm_year g" "tm_year g \<le> 2099"
    and y: "jan1 y * 86400 \<le> wall_sec g - 28800" "wall_sec g - 28800 < jan1 (y + 1) * 86400"
  shows "PR_USPacificTimeParameters g = Some \<lparr>tp_gmt_offset = - 28800, tp_dst_offset =
    (if dst_begin y * 86400 + 7200 \<le> wall_sec g - 28800 \<and> wall_sec g - 28800 < dst_end y * 86400 + 3600 then 3600 else 0)\<rparr>"
proof -
  obtain st where st: "ApplySecOffset g (- 28800) = Some st" "valid st" "wall_sec st = wall_sec g + - 28800" "tm_usec st = tm_usec g"
    "tm_params st = tm_params g" "tm_year g - 1 \<le> tm_year st" "tm_year st \<le> tm_year g + 1"
    by (rule ApplySecOffset_spec [OF g(1), of "- 28800"]) (use g in simp_all)
  define m d where "m = tm_month st" and "d = tm_mday st"
  define w where "w = tm_hour st * 3600 + tm_min st * 60 + tm_sec st"
  define k where "k = day_no (tm_year st) m d"
  note f = st(2) [unfolded valid_def]
  have md: "0 \<le> m" "m < 12" "1 \<le> d" "d \<le> month_length (tm_year st) (nat m)" using f by (simp_all add: m_def d_def)
  have wday: "tm_wday st = (day_no (tm_year st) m d + 4) mod 7" using f by (simp add: m_def d_def)
  have w: "0 \<le> w" "w < 86400" "w < 7200 \<longleftrightarrow> tm_hour st < 2" "w < 3600 \<longleftrightarrow> tm_hour st < 1" using f unfolding w_def by linarith+
  have wall: "wall_sec g - 28800 = k * 86400 + w"
    using st(3) md by (simp add: wall_sec_def day_of_valid w_def k_def m_def d_def)
  have "jan1 y \<le> k" "k < jan1 (y + 1)" using y wall w(1,2) by linarith+
  then have yy: "tm_year st = y"
    using year_range [of y k y "tm_year st"] day_in_year [OF md] by (simp add: k_def)
  have kd: "k = day_no y m 1 + d - 1" by (simp add: k_def yy day_no_def)
  have cmp: "s * 86400 + c \<le> wall_sec g - 28800 \<longleftrightarrow> s < k \<or> s = k \<and> c \<le> w" if "0 \<le> c" "c < 86400" for s c
    unfolding wall using w(1,2) that by (cases "s < k"; cases "s = k") auto
  have low: "k < day_no y i 1" if "m < i" "i < 12" for i using day_no_lex [of m i d y] md that by (simp add: k_def yy)
  have high: "day_no y (i + 1) 1 \<le> k" if "i < m" "0 \<le> i" for i
  proof -
    have "days_before y (nat (i + 1)) \<le> days_before y (nat m)" using that by (intro days_before_mono) linarith
    then show ?thesis using md by (simp add: k_def yy day_no_before)
  qed
  define a b where "a = (if y < 2007 then 3 else 2 :: int)" and "b = (if y < 2007 then 9 else 10 :: int)"
  define dst where "dst = dstParams ! (if y < 2007 then 0 else 1)"
  have dst: "dst_start_month dst = a" "dst_end_month dst = b" by (simp_all add: dst_def a_def b_def dstParams_def)
  have begin_month: "m < a \<Longrightarrow> k < dst_begin y" "a < m \<Longrightarrow> dst_begin y < k"
    using low [of a] high [of a] dst_begin_end(1,2) [of y] by (auto simp: a_def split: if_splits)
  have end_month: "m < b \<Longrightarrow> k < dst_end y" "b < m \<Longrightarrow> dst_end y < k"
    using low [of b] high [of b] dst_begin_end(3,4) [of y] by (auto simp: b_def split: if_splits)
  have begin_sun: "NthSunday d (tm_wday st) (dst_start_Nth_Sunday dst) (dst_start_month_ndays dst) = d + (dst_begin y - k)" if "m = a"
    using NthSunday_nth [OF md(3), of 0 y m] NthSunday_nth [OF md(3), of 1 y m] wday kd that
    by (simp add: dst_def dstParams_def a_def yy dst_begin_def split: if_splits)
  have end_sun: "NthSunday d (tm_wday st) (dst_end_Nth_Sunday dst) (dst_end_month_ndays dst) = d + (dst_end y - k)" if "m = b"
    using NthSunday_nth [OF md(3), of 0 y m] NthSunday_last [OF md(3), of y m] wday kd that
    by (simp add: dst_def dstParams_def b_def yy dst_end_def split: if_splits)
  have ab: "a < b" by (simp add: a_def b_def)
  have r: "PR_USPacificTimeParameters g = Some \<lparr>tp_gmt_offset = - 28800, tp_dst_offset =
      (if m < a then 0 else if m = a then if k < dst_begin y then 0 else if k = dst_begin y then if tm_hour st < 2 then 0 else 3600 else 3600
       else if m < b then 3600
       else if m = b then if k < dst_end y then 3600 else if k = dst_end y then if tm_hour st < 1 then 3600 else 0 else 0 else 0)\<rparr>"
    using begin_sun end_sun
    unfolding PR_USPacificTimeParameters_def st(1) bind.bind_lunit Let_def yy dst_def [symmetric] dst m_def [symmetric] d_def [symmetric]
    by (cases "m = a"; cases "m = b") (simp_all add: ab)
  have on: "dst_begin y * 86400 + 7200 \<le> wall_sec g - 28800 \<longleftrightarrow> dst_begin y < k \<or> dst_begin y = k \<and> 7200 \<le> w"
    by (rule cmp) simp_all
  have off: "wall_sec g - 28800 < dst_end y * 86400 + 3600 \<longleftrightarrow> \<not> (dst_end y < k \<or> dst_end y = k \<and> 3600 \<le> w)"
    using cmp [of 3600 "dst_end y"] by linarith
  consider "m < a" | "m = a" | "a < m" "m < b" | "m = b" | "b < m" using ab by linarith
  then show ?thesis
    unfolding r on off
    by cases (use ab begin_month end_month w in auto)
qed


subsection \<open>Weeks\<close>

text \<open>The number of the week, counted as the comments of \<open>PR_FormatTimeUSEnglish\<close> do: week 1 begins on the
  first day of the year that is an \<open>f\<close>, the days before it are in week 0.\<close>

definition week_number :: "PRExplodedTime \<Rightarrow> int \<Rightarrow> int" where
  "week_number e f = (tm_yday e + 7 - (tm_wday e - f) mod 7) div 7"

lemma week_back:
  assumes "0 \<le> w" "w < 7" "0 \<le> f" "f < (7 :: int)"
  shows "(if w - f < 0 then w - f + 7 else w - f) = (w - f) mod 7"
proof (cases "w - f < 0")
  case True
  have "(w - f) mod 7 = (w - f + 7) mod 7" by simp
  also have "\<dots> = w - f + 7" using True assms by (intro mod_pos_pos_trivial) simp_all
  finally show ?thesis using True by simp
next
  case False
  then show ?thesis using assms by (simp add: mod_pos_pos_trivial)
qed

subsection \<open>The calendar's properties\<close>

text \<open>C6: Fields that may be outside their ranges (fields up to a thousand million either way, zone offsets up
  to four hundred million seconds, and any month whose year fits) stand for an instant, by the rules of the Gregorian calendar. When that instant is in the years
  1901 to 2099 and the zone function gives offsets of less than a day, \<open>PR_NormalizeTime\<close> gives the fields of the same instant,
  all in their ranges with the right day of the week and of the year, in the zone that the function asks for at the instant
  (what it gives for the fields of the instant in Greenwich), and \<open>PR_ImplodeTime\<close> gives the instant.\<close>

theorem time_implode:
  assumes "bounded e" and "century (instant e)" and "time_zone params"
  shows "(\<exists>e'. PR_NormalizeTime e params = Some e' \<and> valid e' \<and> instant e' = instant e \<and> zone_at params (instant e) (tm_params e')) \<and>
    PR_ImplodeTime e = Some (instant e)"
proof
  show "\<exists>e'. PR_NormalizeTime e params = Some e' \<and> valid e' \<and> instant e' = instant e \<and> zone_at params (instant e) (tm_params e')"
    by (rule time_zone.PR_NormalizeTime_spec [OF assms(3,1,2)]) blast
qed (rule PR_ImplodeTime_spec [OF assms(1,2)])

text \<open>The thirtieth of February 2006, hour 25 less 70 seconds and a microsecond, two hours east of Greenwich.\<close>

definition odd_time :: PRExplodedTime where
  "odd_time = \<lparr>tm_usec = -1, tm_sec = -70, tm_min = 0, tm_hour = 25, tm_mday = 30, tm_month = 13, tm_year = 2005, tm_wday = 0, tm_yday = 0,
     tm_params = \<lparr>tp_gmt_offset = 3600, tp_dst_offset = 3600\<rparr>\<rparr>"

lemma odd_time_instant: "instant odd_time = 1141340329999999"
  by code_simp

lemma odd_time_pacific:
  assumes "zone_at PR_USPacificTimeParameters 1141340329999999 p"
  shows "p = \<lparr>tp_gmt_offset = - 28800, tp_dst_offset = 0\<rparr>"
proof -
  obtain g where g: "valid g" "tm_params g = \<lparr>tp_gmt_offset = 0, tp_dst_offset = 0\<rparr>" "instant g = 1141340329999999"
    "PR_USPacificTimeParameters g = Some p" using assms by (auto simp: zone_at_def)
  have "0 \<le> tm_usec g" "tm_usec g < 1000000" using g(1) by (simp_all add: valid_def)
  then have w: "wall_sec g = 1141340329" using g(3) unfolding instant_wall [OF g(2)] by linarith
  have y: "1901 \<le> tm_year g \<and> tm_year g \<le> 2099" by (rule valid_year [OF g(1)]) (simp_all add: w jan1_def)
  have "dst_begin 2006 = 13240" by code_simp
  then show ?thesis using PR_USPacificTimeParameters_spec [OF g(1), of 2006] y g(4) by (simp add: w jan1_def)
qed

theorem time_implode_witness:
  "\<exists>e'. PR_NormalizeTime odd_time PR_USPacificTimeParameters = Some e' \<and> valid e' \<and> instant e' = 1141340329999999 \<and>
     tm_params e' = \<lparr>tp_gmt_offset = - 28800, tp_dst_offset = 0\<rparr> \<and> PR_ImplodeTime odd_time = Some 1141340329999999"
proof -
  have "bounded odd_time" by (simp add: bounded_def odd_time_def)
  moreover have "century (instant odd_time)" by (simp add: odd_time_instant century_def jan1_def)
  ultimately show ?thesis
    using time_implode [OF _ _ pacific.time_zone_axioms, of odd_time] odd_time_pacific unfolding odd_time_instant by blast
qed

text \<open>C5: For an instant in the years 1901 to 2099 and any zone function with offsets of less
  than a day, \<open>PR_ExplodeTime\<close> gives fields in their ranges that stand for the instant, with the right day of the
  week and of the year, in the zone that the function asks for at the instant, and \<open>PR_ImplodeTime\<close> gives the instant back.\<close>

theorem time_explode:
  assumes "century t" and "time_zone params"
  shows "\<exists>e. PR_ExplodeTime t params = Some e \<and> valid e \<and> instant e = t \<and> zone_at params t (tm_params e) \<and> PR_ImplodeTime e = Some t"
proof -
  obtain e where "PR_ExplodeTime t params = Some e" "valid e" "instant e = t" "bounded e" "zone_at params t (tm_params e)"
    by (rule time_zone.PR_ExplodeTime_spec [OF assms(2,1)])
  then show ?thesis using PR_ImplodeTime_spec [of e] assms(1) by blast
qed

theorem time_explode_witness:
  "\<exists>e. PR_ExplodeTime 1165795200000000 PR_USPacificTimeParameters = Some e \<and> valid e \<and> PR_ImplodeTime e = Some 1165795200000000"
proof -
  have "century 1165795200000000" by (simp add: century_def jan1_def)
  from time_explode [OF this pacific.time_zone_axioms] show ?thesis by blast
qed

text \<open>C40: \<open>PR_USPacificTimeParameters\<close> says daylight saving time from two o'clock standard time of the Sunday
  on which it begins to one o'clock standard time of the Sunday on which it ends: up to 2006 the first Sunday of April
  and the last of October, from 2007 on the second of March and the first of November. The year is that of the local standard time.\<close>

theorem time_pacific:
  assumes "valid g" "1901 \<le> tm_year g" "tm_year g \<le> 2099"
    and "jan1 y * 86400 \<le> wall_sec g - 28800" "wall_sec g - 28800 < jan1 (y + 1) * 86400"
  shows "PR_USPacificTimeParameters g = Some \<lparr>tp_gmt_offset = - 28800, tp_dst_offset =
    (if dst_begin y * 86400 + 7200 \<le> wall_sec g - 28800 \<and> wall_sec g - 28800 < dst_end y * 86400 + 3600 then 3600 else 0)\<rparr>"
  by (rule PR_USPacificTimeParameters_spec [OF assms])

text \<open>The second of April 2006, ten o'clock in Greenwich.\<close>

definition april :: PRExplodedTime where
  "april = \<lparr>tm_usec = 0, tm_sec = 0, tm_min = 0, tm_hour = 10, tm_mday = 2, tm_month = 3, tm_year = 2006, tm_wday = 0, tm_yday = 91,
     tm_params = \<lparr>tp_gmt_offset = 0, tp_dst_offset = 0\<rparr>\<rparr>"

theorem time_pacific_witness: "PR_USPacificTimeParameters april = Some \<lparr>tp_gmt_offset = - 28800, tp_dst_offset = 3600\<rparr>"
proof -
  have "valid april" "wall_sec april = 1143972000" "dst_begin 2006 = 13240" "dst_end 2006 = 13450" by code_simp+
  then show ?thesis using time_pacific [of april 2006] by (simp add: april_def jan1_def)
qed

text \<open>\<open>pr_WeekOfYear\<close> gives the number of the week, but one too few all through a year whose first
  day is the first day of the week.\<close>

lemma week_of_year:
  assumes "valid e" and "0 \<le> f" "f < 7"
  shows "pr_WeekOfYear e f = week_number e f - (if (jan1 (tm_year e) + 4) mod 7 = f then 1 else 0)"
proof -
  note v = assms(1) [unfolded valid_def]
  define D J where "D = day_no (tm_year e) (tm_month e) (tm_mday e)" and "J = jan1 (tm_year e)"
  have y: "tm_yday e = D - J" "tm_wday e = (D + 4) mod 7" using v by (simp_all add: D_def J_def)
  have "jan1 (tm_year e) \<le> D" unfolding D_def by (rule day_in_year) (use v in simp_all)
  then have yday: "0 \<le> tm_yday e" using y by (simp add: J_def)
  define w where "w = (tm_wday e - f) mod 7"
  have w: "0 \<le> w" "w < 7" "(if tm_wday e - f < 0 then tm_wday e - f + 7 else tm_wday e - f) = w"
    using week_back [of "tm_wday e" f] assms y by (simp_all add: w_def)
  define d where "d = tm_yday e - w"
  have "d mod 7 = (D - J - (D + 4 - f)) mod 7"
    unfolding d_def w_def y by (metis mod_diff_left_eq mod_diff_right_eq)
  also have "\<dots> = (f - (J + 4)) mod 7" by (simp add: algebra_simps)
  finally have dm: "d mod 7 = (f - (J + 4)) mod 7" .
  have "(f - (J + 4)) mod 7 = 0 \<longleftrightarrow> f mod 7 = (J + 4) mod 7" by (simp add: mod_eq_dvd_iff dvd_eq_mod_eq_0)
  then have first: "d mod 7 = 0 \<longleftrightarrow> (J + 4) mod 7 = f" using dm assms(2,3) by (auto simp: mod_pos_pos_trivial)
  have week: "week_number e f = d div 7 + 1" unfolding week_number_def d_def w_def [symmetric]
    using div_add_self2 [of 7 "tm_yday e - w"] by (simp add: algebra_simps)
  have r: "pr_WeekOfYear e f = (if d \<le> 0 then 0 else d sdiv 7 + (if d smod 7 = 0 then 0 else 1))"
    unfolding pr_WeekOfYear_def Let_def w(3) d_def ..
  show ?thesis
  proof (cases "d \<le> 0")
    case True
    have "d div 7 = (if d mod 7 = 0 then 0 else - 1)"
    proof (cases "d = 0")
      case False
      moreover have "- 7 < d" using w(2) yday unfolding d_def by linarith
      ultimately have "d div 7 = - 1" using True int_div_bounds [of 7 "- 1" d] int_div_bounds [of 7 d 0] by simp
      moreover have "d mod 7 \<noteq> 0" 
      proof -
        have "- 7 < d" using w(2) yday unfolding d_def by linarith
        then show ?thesis using \<open>d div 7 = - 1\<close> div_mult_mod_eq [of d 7] by linarith
      qed
      ultimately show ?thesis by simp
    qed simp
    then show ?thesis using r week True first by (simp add: J_def)
  next
    case False
    then show ?thesis using r week first by (simp add: J_def sdiv_nonneg)
  qed
qed

text \<open>The eighth of January 2006, the second Sunday: week 2 from Sundays, but the code says 1.\<close>

lemma week_of_year_witness:
  "pr_WeekOfYear (april\<lparr>tm_mday := 8, tm_month := 0, tm_yday := 7\<rparr>) 0 = 1 \<and> week_number (april\<lparr>tm_mday := 8, tm_month := 0, tm_yday := 7\<rparr>) 0 = 2"
proof -
  have "valid (april\<lparr>tm_mday := 8, tm_month := 0, tm_yday := 7\<rparr>)" "week_number (april\<lparr>tm_mday := 8, tm_month := 0, tm_yday := 7\<rparr>) 0 = 2"
    by code_simp+
  then show ?thesis using week_of_year [of "april\<lparr>tm_mday := 8, tm_month := 0, tm_yday := 7\<rparr>" 0] by (simp add: april_def jan1_def)
qed

end
