(* ===== verification/Pr_Long.thy ===== *)
theory Pr_Long
  imports Kz_Prelude
begin

text \<open>
  64-bit integers as two 32-bit halves: the macros of \<open>nsprpub/pr/include/prlong.h\<close> and the
  division of \<open>nsprpub/pr/src/misc/prlong.c\<close> for compilers without a 64-bit type.

  A half is an unsigned 32-bit word; the result that a macro stores is its value. Negating a
  \<open>PRInt32\<close> overflows at \<open>0x80000000\<close> and then has no defined result (\<open>neg_i32\<close>); a right shift of a negative
  \<open>PRInt32\<close> fills with ones, a left shift moves the bits. The conversions to and from floating point are left out.
\<close>

subsection \<open>Values\<close>

record PRInt64 =
  ll_hi :: u32
  ll_lo :: u32

definition LL_INIT :: "u32 \<Rightarrow> u32 \<Rightarrow> PRInt64" where
  "LL_INIT hi lo = \<lparr>ll_hi = hi, ll_lo = lo\<rparr>"

definition LL_Zero :: PRInt64 where "LL_Zero = LL_INIT 0x00000000 0x00000000"

definition LL_MaxInt :: PRInt64 where "LL_MaxInt = LL_INIT 0x7fffffff 0xffffffff"

definition LL_MinInt :: PRInt64 where "LL_MinInt = LL_INIT 0x80000000 0x00000000"

definition LL_MaxUint :: PRInt64 where "LL_MaxUint = LL_INIT 0xffffffff 0xffffffff"

subsection \<open>Comparisons and bits\<close>

definition LL_IS_ZERO :: "PRInt64 \<Rightarrow> bool" where
  "LL_IS_ZERO a \<longleftrightarrow> ll_hi a = 0 \<and> ll_lo a = 0"

definition LL_EQ :: "PRInt64 \<Rightarrow> PRInt64 \<Rightarrow> bool" where
  "LL_EQ a b \<longleftrightarrow> ll_hi a = ll_hi b \<and> ll_lo a = ll_lo b"

definition LL_NE :: "PRInt64 \<Rightarrow> PRInt64 \<Rightarrow> bool" where
  "LL_NE a b \<longleftrightarrow> ll_hi a \<noteq> ll_hi b \<or> ll_lo a \<noteq> ll_lo b"

definition LL_GE_ZERO :: "PRInt64 \<Rightarrow> bool" where
  "LL_GE_ZERO a \<longleftrightarrow> drop_bit 31 (ll_hi a) = 0"

text \<open>The operator that is passed to a comparison macro.\<close>

datatype c_op = Op_lt | Op_le | Op_gt | Op_ge | Op_eq | Op_ne

fun c_rel :: "c_op \<Rightarrow> int \<Rightarrow> int \<Rightarrow> bool" where
  "c_rel Op_lt x y \<longleftrightarrow> x < y"
| "c_rel Op_le x y \<longleftrightarrow> x \<le> y"
| "c_rel Op_gt x y \<longleftrightarrow> x > y"
| "c_rel Op_ge x y \<longleftrightarrow> x \<ge> y"
| "c_rel Op_eq x y \<longleftrightarrow> x = y"
| "c_rel Op_ne x y \<longleftrightarrow> x \<noteq> y"

definition LL_CMP :: "PRInt64 \<Rightarrow> c_op \<Rightarrow> PRInt64 \<Rightarrow> bool" where
  "LL_CMP a op b = (if ll_hi a = ll_hi b then c_rel op (uint (ll_lo a)) (uint (ll_lo b))
     else c_rel op (sint (ll_hi a)) (sint (ll_hi b)))"

definition LL_UCMP :: "PRInt64 \<Rightarrow> c_op \<Rightarrow> PRInt64 \<Rightarrow> bool" where
  "LL_UCMP a op b = (if ll_hi a = ll_hi b then c_rel op (uint (ll_lo a)) (uint (ll_lo b))
     else c_rel op (uint (ll_hi a)) (uint (ll_hi b)))"

definition LL_AND :: "PRInt64 \<Rightarrow> PRInt64 \<Rightarrow> PRInt64" where
  "LL_AND a b = \<lparr>ll_hi = ll_hi a AND ll_hi b, ll_lo = ll_lo a AND ll_lo b\<rparr>"

definition LL_OR :: "PRInt64 \<Rightarrow> PRInt64 \<Rightarrow> PRInt64" where
  "LL_OR a b = \<lparr>ll_hi = ll_hi a OR ll_hi b, ll_lo = ll_lo a OR ll_lo b\<rparr>"

definition LL_XOR :: "PRInt64 \<Rightarrow> PRInt64 \<Rightarrow> PRInt64" where
  "LL_XOR a b = \<lparr>ll_hi = ll_hi a XOR ll_hi b, ll_lo = ll_lo a XOR ll_lo b\<rparr>"

definition LL_OR2 :: "PRInt64 \<Rightarrow> PRInt64 \<Rightarrow> PRInt64" where
  "LL_OR2 r a = \<lparr>ll_hi = ll_hi r OR ll_hi a, ll_lo = ll_lo r OR ll_lo a\<rparr>"

definition LL_NOT :: "PRInt64 \<Rightarrow> PRInt64" where
  "LL_NOT a = \<lparr>ll_hi = NOT (ll_hi a), ll_lo = NOT (ll_lo a)\<rparr>"

subsection \<open>Arithmetic\<close>

definition neg_i32 :: "u32 \<Rightarrow> u32 option" where
  "neg_i32 x = (if x = 0x80000000 then None else Some (- x))"

definition LL_NEG :: "PRInt64 \<Rightarrow> PRInt64 option" where
  "LL_NEG a = do {
     lo \<leftarrow> neg_i32 (ll_lo a);
     hi \<leftarrow> neg_i32 (ll_hi a);
     Some \<lparr>ll_hi = hi - (if lo \<noteq> 0 then 1 else 0), ll_lo = lo\<rparr>
   }"

definition LL_ADD :: "PRInt64 \<Rightarrow> PRInt64 \<Rightarrow> PRInt64" where
  "LL_ADD a b = (let lo = ll_lo a + ll_lo b
     in \<lparr>ll_hi = ll_hi a + ll_hi b + (if lo < ll_lo b then 1 else 0), ll_lo = lo\<rparr>)"

definition LL_SUB :: "PRInt64 \<Rightarrow> PRInt64 \<Rightarrow> PRInt64" where
  "LL_SUB a b = \<lparr>ll_hi = ll_hi a - ll_hi b - (if ll_lo a < ll_lo b then 1 else 0), ll_lo = ll_lo a - ll_lo b\<rparr>"

definition lo16 :: "u32 \<Rightarrow> u32" where
  "lo16 a = a AND 0xffff"

definition hi16 :: "u32 \<Rightarrow> u32" where
  "hi16 a = drop_bit 16 a"

definition LL_MUL32 :: "u32 \<Rightarrow> u32 \<Rightarrow> PRInt64" where
  "LL_MUL32 a b = (
     let a1 = hi16 a; a0 = lo16 a; b1 = hi16 b; b0 = lo16 b;
         y0 = a0 * b0; y1 = a0 * b1; y2 = a1 * b0; y3 = a1 * b1;
         y1a = y1 + hi16 y0;
         y1b = y1a + y2;
         y3a = (if y1b < y2 then y3 + push_bit 16 1 else y3)
     in \<lparr>ll_hi = y3a + hi16 y1b, ll_lo = push_bit 16 (lo16 y1b) + lo16 y0\<rparr>)"

definition LL_MUL :: "PRInt64 \<Rightarrow> PRInt64 \<Rightarrow> PRInt64" where
  "LL_MUL a b = (let r = LL_MUL32 (ll_lo a) (ll_lo b)
     in r\<lparr>ll_hi := ll_hi r + (ll_hi a * ll_lo b + ll_lo a * ll_hi b)\<rparr>)"

subsection \<open>Division\<close>

text \<open>One digit of the quotient: the remainder so far, the digit brought down, and the divisor,
  whose high bit is 1. The lines of \<open>norm_udivmod32\<close> that stand there once for \<open>q1\<close> and once for \<open>q0\<close>.\<close>

definition div_digit :: "u32 \<Rightarrow> u32 \<Rightarrow> u32 \<Rightarrow> (u32 \<times> u32) option" where
  "div_digit r x b = (
     let d1 = hi16 b; d0 = lo16 b in
     if d1 = 0 then None
     else let q = r div d1; m = q * d0; r1 = push_bit 16 (r mod d1) OR x;
       (q2, r2) = (if r1 < m
         then let q1 = q - 1; ra = r1 + b
           in if ra \<ge> b \<and> ra < m then (q1 - 1, ra + b) else (q1, ra)
         else (q, r1))
       in Some (q2, r2 - m))"

definition norm_udivmod32 :: "PRInt64 \<Rightarrow> u32 \<Rightarrow> (u32 \<times> u32) option" where
  "norm_udivmod32 a b = do {
     (q1, r1) \<leftarrow> div_digit (ll_hi a) (hi16 (ll_lo a)) b;
     (q0, r0) \<leftarrow> div_digit r1 (lo16 (ll_lo a)) b;
     Some (push_bit 16 q1 OR q0, r0)
   }"

text \<open>\<open>if ((t = a >> k) != 0) r -= k, a = t;\<close>\<close>

definition clz_step :: "nat \<Rightarrow> u32 \<times> nat \<Rightarrow> u32 \<times> nat" where
  "clz_step k p = (let (a, r) = p; t = drop_bit k a in if t \<noteq> 0 then (t, r - k) else (a, r))"

definition CountLeadingZeros :: "u32 \<Rightarrow> nat" where
  "CountLeadingZeros a0 = (let (a, r) = clz_step 1 (clz_step 2 (clz_step 4 (clz_step 8 (clz_step 16 (a0, 32)))))
     in if a AND 1 \<noteq> 0 then r - 1 else r)"

text \<open>The values for \<open>qp\<close> and \<open>rp\<close>; a null pointer of the caller drops the one or the other.\<close>

definition udivmod_lo :: "u32 \<Rightarrow> u32 \<Rightarrow> u32 \<Rightarrow> (PRInt64 \<times> PRInt64) option" where
  "udivmod_lo n1 n0 d = (
     if d > n1
     then let lsh = CountLeadingZeros d;
              (d', n1', n0') = (if lsh \<noteq> 0
                then (push_bit lsh d, push_bit lsh n1 OR drop_bit (32 - lsh) n0, push_bit lsh n0)
                else (d, n1, n0))
       in do {
         (q0, r) \<leftarrow> norm_udivmod32 \<lparr>ll_hi = n1', ll_lo = n0'\<rparr> d';
         Some (\<lparr>ll_hi = 0, ll_lo = q0\<rparr>, \<lparr>ll_hi = 0, ll_lo = drop_bit lsh r\<rparr>)
       }
     else if d = 0 then None
     else let lsh = CountLeadingZeros d in
       if lsh = 0
       then do {
         (q0, r) \<leftarrow> norm_udivmod32 \<lparr>ll_hi = n1 - d, ll_lo = n0\<rparr> d;
         Some (\<lparr>ll_hi = 1, ll_lo = q0\<rparr>, \<lparr>ll_hi = 0, ll_lo = drop_bit lsh r\<rparr>)
       }
       else let rsh = 32 - lsh; d' = push_bit lsh d; n2 = drop_bit rsh n1;
              n1' = push_bit lsh n1 OR drop_bit rsh n0; n0' = push_bit lsh n0
         in do {
           (q1, n1'') \<leftarrow> norm_udivmod32 \<lparr>ll_hi = n2, ll_lo = n1'\<rparr> d';
           (q0, r) \<leftarrow> norm_udivmod32 \<lparr>ll_hi = n1'', ll_lo = n0'\<rparr> d';
           Some (\<lparr>ll_hi = q1, ll_lo = q0\<rparr>, \<lparr>ll_hi = 0, ll_lo = drop_bit lsh r\<rparr>)
         })"

definition udivmod_hi :: "u32 \<Rightarrow> u32 \<Rightarrow> PRInt64 \<Rightarrow> (PRInt64 \<times> PRInt64) option" where
  "udivmod_hi n1 n0 b = (
     if ll_hi b > n1 then Some (\<lparr>ll_hi = 0, ll_lo = 0\<rparr>, \<lparr>ll_hi = n1, ll_lo = n0\<rparr>)
     else let lsh = CountLeadingZeros (ll_hi b) in
       if lsh = 0
       then let q0 = (if n1 > ll_hi b \<or> n0 \<ge> ll_lo b then 1 else 0)
         in Some (\<lparr>ll_hi = 0, ll_lo = q0\<rparr>, \<lparr>ll_hi = n1, ll_lo = n0\<rparr>)
       else let rsh = 32 - lsh;
              b' = \<lparr>ll_hi = push_bit lsh (ll_hi b) OR drop_bit rsh (ll_lo b), ll_lo = push_bit lsh (ll_lo b)\<rparr>;
              n2 = drop_bit rsh n1; n1' = push_bit lsh n1 OR drop_bit rsh n0; n0' = push_bit lsh n0
         in do {
           (q0, n1'') \<leftarrow> norm_udivmod32 \<lparr>ll_hi = n2, ll_lo = n1'\<rparr> (ll_hi b');
           let m = LL_MUL32 q0 (ll_lo b');
           let (q, m') = (if ll_hi m > n1'' \<or> ll_hi m = n1'' \<and> ll_lo m > n0' then (q0 - 1, LL_SUB m b') else (q0, m));
           let a = LL_SUB \<lparr>ll_hi = n1'', ll_lo = n0'\<rparr> m';
           Some (\<lparr>ll_hi = 0, ll_lo = q\<rparr>,
             \<lparr>ll_hi = drop_bit lsh (ll_hi a), ll_lo = push_bit rsh (ll_hi a) OR drop_bit lsh (ll_lo a)\<rparr>)
         })"

definition ll_udivmod :: "PRInt64 \<Rightarrow> PRInt64 \<Rightarrow> (PRInt64 \<times> PRInt64) option" where
  "ll_udivmod a b = (if ll_hi b = 0 then udivmod_lo (ll_hi a) (ll_lo a) (ll_lo b)
     else udivmod_hi (ll_hi a) (ll_lo a) b)"

definition LL_DIV :: "PRInt64 \<Rightarrow> PRInt64 \<Rightarrow> PRInt64 option" where
  "LL_DIV a b = do {
     let negative = sint (ll_hi a) < 0;
     a' \<leftarrow> (if negative then LL_NEG a else Some a);
     let negative' = (if sint (ll_hi b) < 0 then \<not> negative else negative);
     b' \<leftarrow> (if sint (ll_hi b) < 0 then LL_NEG b else Some b);
     (q, r) \<leftarrow> ll_udivmod a' b';
     (if negative' then LL_NEG q else Some q)
   }"

definition LL_MOD :: "PRInt64 \<Rightarrow> PRInt64 \<Rightarrow> PRInt64 option" where
  "LL_MOD a b = do {
     let negative = sint (ll_hi a) < 0;
     a' \<leftarrow> (if negative then LL_NEG a else Some a);
     b' \<leftarrow> (if sint (ll_hi b) < 0 then LL_NEG b else Some b);
     (q, r) \<leftarrow> ll_udivmod a' b';
     (if negative then LL_NEG r else Some r)
   }"

subsection \<open>Shifts and conversions\<close>

definition LL_SHL :: "PRInt64 \<Rightarrow> nat \<Rightarrow> PRInt64" where
  "LL_SHL a b = (
     if b \<noteq> 0
     then if b < 32
       then \<lparr>ll_hi = push_bit (b mod 32) (ll_hi a) OR drop_bit (32 - b) (ll_lo a), ll_lo = push_bit (b mod 32) (ll_lo a)\<rparr>
       else \<lparr>ll_hi = push_bit (b mod 32) (ll_lo a), ll_lo = 0\<rparr>
     else a)"

definition LL_ISHL :: "u32 \<Rightarrow> nat \<Rightarrow> PRInt64" where
  "LL_ISHL a b = (
     if b \<noteq> 0
     then if b < 32
       then \<lparr>ll_hi = signed_drop_bit (32 - b) a, ll_lo = push_bit (b mod 32) a\<rparr>
       else \<lparr>ll_hi = push_bit (b mod 32) a, ll_lo = 0\<rparr>
     else \<lparr>ll_hi = 0, ll_lo = a\<rparr>)"

definition LL_SHR :: "PRInt64 \<Rightarrow> nat \<Rightarrow> PRInt64" where
  "LL_SHR a b = (
     if b \<noteq> 0
     then if b < 32
       then \<lparr>ll_hi = signed_drop_bit (b mod 32) (ll_hi a), ll_lo = push_bit (32 - b) (ll_hi a) OR drop_bit (b mod 32) (ll_lo a)\<rparr>
       else \<lparr>ll_hi = signed_drop_bit 31 (ll_hi a), ll_lo = signed_drop_bit (b mod 32) (ll_hi a)\<rparr>
     else a)"

definition LL_USHR :: "PRInt64 \<Rightarrow> nat \<Rightarrow> PRInt64" where
  "LL_USHR a b = (
     if b \<noteq> 0
     then if b < 32
       then \<lparr>ll_hi = drop_bit (b mod 32) (ll_hi a), ll_lo = push_bit (32 - b) (ll_hi a) OR drop_bit (b mod 32) (ll_lo a)\<rparr>
       else \<lparr>ll_hi = 0, ll_lo = drop_bit (b mod 32) (ll_hi a)\<rparr>
     else a)"

definition LL_L2I :: "PRInt64 \<Rightarrow> int" where
  "LL_L2I l = sint (ll_lo l)"

definition LL_L2UI :: "PRInt64 \<Rightarrow> u32" where
  "LL_L2UI l = ll_lo l"

definition LL_I2L :: "u32 \<Rightarrow> PRInt64" where
  "LL_I2L i = \<lparr>ll_hi = signed_drop_bit 31 i, ll_lo = i\<rparr>"

definition LL_UI2L :: "u32 \<Rightarrow> PRInt64" where
  "LL_UI2L ui = \<lparr>ll_hi = 0, ll_lo = ui\<rparr>"

end
