(* ===== verification/Pr_Long_Arith.thy ===== *)
theory Pr_Long_Arith
  imports Pr_Long
begin

text \<open>
  The 64-bit number that two halves stand for (\<open>ll_value\<close>, a word; \<open>ll_uint\<close>, an integer), and the sums,
  products, bit operations, shifts and conversions of \<open>Pr_Long\<close> on it.
\<close>

subsection \<open>Values of the halves\<close>

definition ll_value :: "PRInt64 \<Rightarrow> u64" where
  "ll_value a = push_bit 32 (ucast (ll_hi a)) OR ucast (ll_lo a)"

definition ll_uint :: "PRInt64 \<Rightarrow> int" where
  "ll_uint a = uint (ll_hi a) * 4294967296 + uint (ll_lo a)"

lemma uint_u32_bounds: "0 \<le> uint (x :: u32)" "uint (x :: u32) < 4294967296"
  using uint_lt2p [of x] by simp_all

lemma uint_ll_value: "uint (ll_value a) = ll_uint a"
proof -
  have d: "\<not> bit (push_bit 32 (ucast (ll_hi a)) :: u64) n \<or> \<not> bit (ucast (ll_lo a) :: u64) n" for n
    by (auto simp: bit_simps dest: bit_imp_le_length)
  have "ll_value a = push_bit 32 (ucast (ll_hi a)) + ucast (ll_lo a)"
    unfolding ll_value_def by (rule disjunctive_add [symmetric]) (rule d)
  moreover have "uint (push_bit 32 (ucast (ll_hi a)) :: u64) = uint (ll_hi a) * 4294967296"
  proof -
    have "uint (push_bit 32 (ucast (ll_hi a)) :: u64) = (uint (ll_hi a) * 4294967296) mod 2 ^ 64"
      by (simp add: push_bit_eq_mult uint_word_ariths unsigned_ucast_eq take_bit_eq_mod mod_mult_left_eq)
    also have "\<dots> = uint (ll_hi a) * 4294967296" using uint_u32_bounds [of "ll_hi a"] by (intro mod_pos_pos_trivial) simp_all
    finally show ?thesis .
  qed
  moreover have "uint (ucast (ll_lo a) :: u64) = uint (ll_lo a)"
    using uint_u32_bounds [of "ll_lo a"] by (simp add: unsigned_ucast_eq take_bit_eq_mod)
  ultimately show ?thesis
    using uint_u32_bounds [of "ll_hi a"] uint_u32_bounds [of "ll_lo a"]
    by (simp add: ll_uint_def uint_word_ariths)
qed

lemma ll_value_inject: "ll_value a = ll_value b \<longleftrightarrow> a = b"
proof
  assume "ll_value a = ll_value b"
  then have "ll_uint a = ll_uint b" by (metis uint_ll_value)
  moreover note uint_u32_bounds [of "ll_lo a"] uint_u32_bounds [of "ll_lo b"]
  ultimately have e: "uint (ll_hi a) * 4294967296 + uint (ll_lo a) = uint (ll_hi b) * 4294967296 + uint (ll_lo b)"
    and b: "0 \<le> uint (ll_lo a)" "uint (ll_lo a) < 4294967296" "0 \<le> uint (ll_lo b)" "uint (ll_lo b) < 4294967296"
    by (simp_all add: ll_uint_def)
  have "h = (h * 4294967296 + l) div 4294967296" if "0 \<le> l" "l < 4294967296" for h l :: int
    using that by simp
  from this [OF b(1,2), of "uint (ll_hi a)"] this [OF b(3,4), of "uint (ll_hi b)"] e
  have "uint (ll_hi a) = uint (ll_hi b)" by simp
  moreover from this e have "uint (ll_lo a) = uint (ll_lo b)" by simp
  ultimately have "uint (ll_hi a) = uint (ll_hi b)" "uint (ll_lo a) = uint (ll_lo b)" by simp_all
  then show "a = b" by (cases a; cases b) (simp add: word_uint_eq_iff)
qed simp

lemma ll_value_eqI: "ll_uint r = x mod 18446744073709551616 \<Longrightarrow> x = uint w \<Longrightarrow> ll_value r = w"
  using uint_lt2p [of w] by (simp add: word_uint_eq_iff uint_ll_value)

lemma ll_value_of_int: "ll_uint r = x mod 18446744073709551616 \<Longrightarrow> ll_value r = word_of_int x"
  by (simp add: word_uint_eq_iff uint_ll_value uint_word_of_int)

lemma word_of_ll_uint: "ll_value a = word_of_int (ll_uint a)"
  by (simp flip: uint_ll_value)

subsection \<open>Sums and products\<close>

lemma borrow_mod:
  fixes h s :: int
  assumes "0 \<le> s" "s < 4294967296"
  shows "(h mod 4294967296) * 4294967296 + s = (h * 4294967296 + s) mod 18446744073709551616"
proof -
  have "(h * 4294967296 + s) mod (4294967296 * 4294967296) = 4294967296 * ((h * 4294967296 + s) div 4294967296 mod 4294967296) + (h * 4294967296 + s) mod 4294967296"
    by (rule zmod_zmult2_eq) simp
  then show ?thesis using assms by (simp add: mult.commute)
qed

lemma LL_ADD_value: "ll_value (LL_ADD a b) = ll_value a + ll_value b"
proof -
  define s where "s = uint (ll_lo a) + uint (ll_lo b)"
  note u = uint_u32_bounds
  have lo: "uint (ll_lo a + ll_lo b) = (if s < 4294967296 then s else s - 4294967296)"
    using u [of "ll_lo a"] u [of "ll_lo b"] uint_plus_if_size [of "ll_lo a" "ll_lo b"] by (simp add: s_def word_size)
  have carry: "ll_lo a + ll_lo b < ll_lo b \<longleftrightarrow> \<not> s < 4294967296"
    unfolding word_less_def lo using u [of "ll_lo a"] u [of "ll_lo b"] by (auto simp: s_def)
  have "ll_uint (LL_ADD a b) = (ll_uint a + ll_uint b) mod 18446744073709551616"
  proof -
    define c :: int where "c = (if s < 4294967296 then 0 else 1)"
    have hi: "uint (ll_hi (LL_ADD a b)) = (uint (ll_hi a) + uint (ll_hi b) + c) mod 4294967296"
      by (simp add: LL_ADD_def Let_def carry c_def uint_word_ariths mod_simps)
    have lo': "uint (ll_lo (LL_ADD a b)) = s - c * 4294967296"
      using lo by (simp add: LL_ADD_def Let_def c_def)
    have "0 \<le> s - c * 4294967296" "s - c * 4294967296 < 4294967296" using u [of "ll_lo (LL_ADD a b)"] lo' by simp_all
    from borrow_mod [OF this, of "uint (ll_hi a) + uint (ll_hi b) + c"]
    show ?thesis unfolding ll_uint_def hi lo' by (simp add: s_def algebra_simps)
  qed
  then have "ll_value (LL_ADD a b) = word_of_int (ll_uint a + ll_uint b)" by (rule ll_value_of_int)
  then show ?thesis by (simp add: word_of_ll_uint)
qed

lemma LL_SUB_value: "ll_value (LL_SUB a b) = ll_value a - ll_value b"
proof -
  note u = uint_u32_bounds
  define s where "s = uint (ll_lo a) - uint (ll_lo b)"
  define c :: int where "c = (if s < 0 then 1 else 0)"
  have lo: "uint (ll_lo (LL_SUB a b)) = s + c * 4294967296"
    using u [of "ll_lo a"] u [of "ll_lo b"] uint_sub_if_size [of "ll_lo a" "ll_lo b"] by (simp add: LL_SUB_def s_def c_def word_size)
  have borrow: "ll_lo a < ll_lo b \<longleftrightarrow> s < 0" by (simp add: word_less_def s_def)
  have hi: "uint (ll_hi (LL_SUB a b)) = (uint (ll_hi a) - uint (ll_hi b) - c) mod 4294967296"
    by (simp add: LL_SUB_def borrow c_def uint_word_ariths mod_simps)
  have "0 \<le> s + c * 4294967296" "s + c * 4294967296 < 4294967296" using u [of "ll_lo (LL_SUB a b)"] lo by simp_all
  from borrow_mod [OF this, of "uint (ll_hi a) - uint (ll_hi b) - c"]
  have "ll_uint (LL_SUB a b) = (ll_uint a - ll_uint b) mod 18446744073709551616"
    unfolding ll_uint_def hi lo by (simp add: s_def algebra_simps)
  then have "ll_value (LL_SUB a b) = word_of_int (ll_uint a - ll_uint b)" by (rule ll_value_of_int)
  then show ?thesis by (simp add: word_of_ll_uint)
qed

lemma LL_NEG_value:
  "LL_NEG a = (if ll_hi a = 0x80000000 \<or> ll_lo a = 0x80000000 then None else Some (LL_SUB (LL_INIT 0 0) a))"
proof -
  have "0 < x" if "x \<noteq> 0" for x :: u32 using that by (simp add: word_gt_0)
  then show ?thesis
    by (auto simp: LL_NEG_def neg_i32_def LL_SUB_def LL_INIT_def word_gt_0)
qed

lemma uint_hi16: "uint (hi16 a) = uint a div 65536"
  by (simp only: hi16_def unsigned_drop_bit_eq) (simp add: drop_bit_eq_div take_bit_int_eq_self uint_u32_bounds)

lemma uint_lo16: "uint (lo16 a) = uint a mod 65536"
proof -
  have "lo16 a = take_bit 16 a" by (simp add: lo16_def take_bit_eq_mask mask_eq_exp_minus_1)
  then show ?thesis by (simp only: unsigned_take_bit_eq) (simp add: take_bit_eq_mod)
qed

lemma uint_push16: "uint (push_bit 16 x :: u32) = uint x * 65536 mod 4294967296"
  by (simp add: push_bit_eq_mult uint_word_ariths)

lemma uint_add_u32: "uint (x + y :: u32) = (uint x + uint y) mod 4294967296"
  by (simp add: uint_word_ariths)

lemma half_bounds: "0 \<le> uint (hi16 a)" "uint (hi16 a) < 65536" "0 \<le> uint (lo16 a)" "uint (lo16 a) < 65536"
  using uint_u32_bounds [of a] by (simp_all add: uint_hi16 uint_lo16 pos_imp_zdiv_nonneg_iff)

lemma halves: "uint a = uint (hi16 a) * 65536 + uint (lo16 a)"
  by (simp add: uint_hi16 uint_lo16)

lemma half_product:
  fixes x y :: int
  assumes "0 \<le> x" "x < 65536" "0 \<le> y" "y < 65536"
  shows "0 \<le> x * y" "x * y \<le> 4294836225"
proof -
  have "x * y \<le> 65535 * 65535" using assms by (intro mult_mono) simp_all
  then show "x * y \<le> 4294836225" by simp
qed (use assms in simp)

lemma LL_MUL32_value: "ll_uint (LL_MUL32 a b) = uint a * uint b"
proof -
  define A1 A0 B1 B0 where h: "A1 = uint (hi16 a)" "A0 = uint (lo16 a)" "B1 = uint (hi16 b)" "B0 = uint (lo16 b)"
  have r: "0 \<le> A1" "A1 < 65536" "0 \<le> A0" "A0 < 65536" "0 \<le> B1" "B1 < 65536" "0 \<le> B0" "B0 < 65536"
    using half_bounds [of a] half_bounds [of b] by (simp_all add: h)
  note p = half_product [OF r(3,4,7,8)] half_product [OF r(3,4,5,6)] half_product [OF r(1,2,7,8)] half_product [OF r(1,2,5,6)]
  define Y0 Y1 Y2 Y3 where y: "Y0 = A0 * B0" "Y1 = A0 * B1" "Y2 = A1 * B0" "Y3 = A1 * B1"
  have bounds: "0 \<le> Y0" "Y0 \<le> 4294836225" "0 \<le> Y1" "Y1 \<le> 4294836225" "0 \<le> Y2" "Y2 \<le> 4294836225" "0 \<le> Y3" "Y3 \<le> 4294836225"
    using p by (simp_all add: y)
  have w: "uint (lo16 a * lo16 b) = Y0" "uint (lo16 a * hi16 b) = Y1" "uint (hi16 a * lo16 b) = Y2" "uint (hi16 a * hi16 b) = Y3"
    using p by (simp_all add: uint_word_ariths y h)
  define Z where "Z = Y1 + Y0 div 65536"
  have hi0: "0 \<le> Y0 div 65536" "Y0 div 65536 \<le> 65534"
    using bounds zdiv_mono1 [of Y0 4294836225 65536] by (simp_all add: pos_imp_zdiv_nonneg_iff)
  have Z: "0 \<le> Z" "Z < 4294967296" using bounds hi0 unfolding Z_def by linarith+
  have wZ: "uint (lo16 a * hi16 b + hi16 (lo16 a * lo16 b)) = Z"
    using Z by (simp only: uint_word_ariths(1) w uint_hi16) (simp add: Z_def)
  define c :: int where "c = (if Z + Y2 < 4294967296 then 0 else 1)"
  define V where "V = Z + Y2 - c * 4294967296"
  have V: "0 \<le> V" "V < 4294967296" using Z bounds by (simp_all add: V_def c_def)
  let ?y1b = "lo16 a * hi16 b + hi16 (lo16 a * lo16 b) + hi16 a * lo16 b"
  have wV: "uint ?y1b = V"
    using Z bounds uint_plus_if_size [of "lo16 a * hi16 b + hi16 (lo16 a * lo16 b)" "hi16 a * lo16 b"]
    by (simp add: wZ w V_def c_def word_size)
  have carry: "?y1b < hi16 a * lo16 b \<longleftrightarrow> c = 1"
    unfolding word_less_def wV w using Z bounds by (auto simp: V_def c_def)
  have c01: "c = 0 \<or> c = 1" by (simp add: c_def)
  have w3: "uint (if ?y1b < hi16 a * lo16 b then hi16 a * hi16 b + push_bit 16 1 else hi16 a * hi16 b) = Y3 + c * 65536"
    using bounds c01 unfolding carry by (auto simp: uint_word_ariths(1) w)
  have prod: "(Y3 + c * 65536 + V div 65536) * 4294967296 + (V mod 65536 * 65536 + Y0 mod 65536) = uint a * uint b"
  proof -
    have "V div 65536 * 4294967296 + V mod 65536 * 65536 = V * 65536" using div_mult_mod_eq [of V 65536] by linarith
    then have "(Y3 + c * 65536 + V div 65536) * 4294967296 + V mod 65536 * 65536 = Y3 * 4294967296 + (c * 4294967296 + V) * 65536"
      by (simp add: algebra_simps)
    also have "\<dots> = Y3 * 4294967296 + (Y1 + Y2) * 65536 + Y0 div 65536 * 65536" by (simp add: V_def Z_def algebra_simps)
    finally have "(Y3 + c * 65536 + V div 65536) * 4294967296 + (V mod 65536 * 65536 + Y0 mod 65536) = Y3 * 4294967296 + (Y1 + Y2) * 65536 + Y0"
      using div_mult_mod_eq [of Y0 65536] by linarith
    also have "\<dots> = (A1 * 65536 + A0) * (B1 * 65536 + B0)" by (simp add: y algebra_simps)
    finally show ?thesis by (simp add: halves [of a] halves [of b] flip: h)
  qed
  have lo: "uint (push_bit 16 (lo16 ?y1b) + lo16 (lo16 a * lo16 b)) = V mod 65536 * 65536 + Y0 mod 65536"
  proof -
    have "uint (push_bit 16 (lo16 ?y1b)) = V mod 65536 * 65536"
    proof -
      have "V mod 65536 * 65536 mod 4294967296 = V mod 65536 * 65536" by (rule mod_pos_pos_trivial) simp_all
      then show ?thesis by (simp only: uint_push16 uint_lo16 wV)
    qed
    moreover have "0 \<le> V mod 65536" "V mod 65536 < 65536" "0 \<le> Y0 mod 65536" "Y0 mod 65536 < 65536" by simp_all
    ultimately show ?thesis by (simp only: uint_word_ariths(1) uint_lo16 w) simp
  qed
  have "uint a * uint b < 4294967296 * 4294967296"
    using uint_u32_bounds [of a] uint_u32_bounds [of b] by (intro mult_strict_mono') simp_all
  moreover have "0 \<le> V mod 65536 * 65536 + Y0 mod 65536" by simp
  moreover define H where "H = Y3 + c * 65536 + V div 65536"
  ultimately have "H < 4294967296" using prod [folded H_def] by linarith
  then have top: "Y3 + c * 65536 + V div 65536 < 4294967296" by (simp add: H_def)
  have "0 \<le> V div 65536" using V by simp
  then have nn: "0 \<le> Y3 + c * 65536 + V div 65536" using bounds c01 by auto
  have hi: "uint ((if ?y1b < hi16 a * lo16 b then hi16 a * hi16 b + push_bit 16 1 else hi16 a * hi16 b) + hi16 ?y1b)
      = Y3 + c * 65536 + V div 65536"
  proof -
    let ?x = "if ?y1b < hi16 a * lo16 b then hi16 a * hi16 b + push_bit 16 1 else hi16 a * hi16 b"
    have "uint (?x + hi16 ?y1b) = (Y3 + c * 65536 + V div 65536) mod 4294967296"
      unfolding uint_add_u32 [of ?x "hi16 ?y1b"] w3 uint_hi16 wV ..
    then show ?thesis unfolding mod_pos_pos_trivial [OF nn top] .
  qed
  show ?thesis
    unfolding LL_MUL32_def Let_def ll_uint_def PRInt64.simps lo hi by (rule prod)
qed

lemma LL_MUL_value: "ll_value (LL_MUL a b) = ll_value a * ll_value b"
proof -
  define r where "r = LL_MUL32 (ll_lo a) (ll_lo b)"
  define k where "k = uint (ll_hi a) * uint (ll_lo b) + uint (ll_lo a) * uint (ll_hi b)"
  have "uint (ll_hi r + (ll_hi a * ll_lo b + ll_lo a * ll_hi b)) = (uint (ll_hi r) + k) mod 4294967296"
    by (simp add: uint_word_ariths k_def mod_simps)
  then have "ll_uint (LL_MUL a b) = (uint (ll_hi r) + k) mod 4294967296 * 4294967296 + uint (ll_lo r)"
    by (simp add: LL_MUL_def Let_def r_def [symmetric] ll_uint_def)
  also have "\<dots> = ((uint (ll_hi r) + k) * 4294967296 + uint (ll_lo r)) mod 18446744073709551616"
    by (rule borrow_mod) (rule uint_u32_bounds)+
  also have "(uint (ll_hi r) + k) * 4294967296 + uint (ll_lo r) = ll_uint r + k * 4294967296"
    by (simp add: ll_uint_def algebra_simps)
  also have "\<dots> = ll_uint a * ll_uint b - uint (ll_hi a) * uint (ll_hi b) * 18446744073709551616"
    by (simp add: r_def LL_MUL32_value) (simp add: ll_uint_def k_def algebra_simps)
  also have "\<dots> mod 18446744073709551616 = ll_uint a * ll_uint b mod 18446744073709551616"
    using mod_mult_self1 [of "ll_uint a * ll_uint b" "- (uint (ll_hi a) * uint (ll_hi b))" "18446744073709551616 :: int"]
    by simp
  finally have "ll_value (LL_MUL a b) = word_of_int (ll_uint a * ll_uint b)" by (rule ll_value_of_int)
  then show ?thesis by (simp add: word_of_ll_uint)
qed

subsection \<open>Bits, shifts and conversions\<close>

lemma ll_value_bit: "bit (ll_value a) n \<longleftrightarrow> (if n < 32 then bit (ll_lo a) n else bit (ll_hi a) (n - 32))"
  by (auto simp: ll_value_def bit_simps dest: bit_imp_le_length)

lemma ll_bits:
  "ll_value (LL_AND a b) = ll_value a AND ll_value b" "ll_value (LL_OR a b) = ll_value a OR ll_value b"
  "ll_value (LL_XOR a b) = ll_value a XOR ll_value b" "ll_value (LL_OR2 a b) = ll_value a OR ll_value b"
  "ll_value (LL_NOT a) = NOT (ll_value a)"
  by (rule bit_word_eqI;
      auto simp: ll_value_bit bit_simps LL_AND_def LL_OR_def LL_XOR_def LL_OR2_def LL_NOT_def)+

lemma high_bit: "bit (x :: u32) k \<Longrightarrow> k < 32"
  using bit_imp_le_length by fastforce

lemma signed_drop_64: "k < 64 \<Longrightarrow> bit (signed_drop_bit n (w :: u64)) k = bit w (min 63 (n + k))"
proof -
  assume "k < 64"
  then have "(if 64 - n \<le> k then 63 else n + k) = min 63 (n + k)" by (simp add: min_def) linarith
  then show ?thesis using \<open>k < 64\<close> by (simp add: bit_signed_drop_bit_iff)
qed

lemma signed_drop_32: "k < 32 \<Longrightarrow> bit (signed_drop_bit n (w :: u32)) k = bit w (min 31 (n + k))"
proof -
  assume "k < 32"
  then have "(if 32 - n \<le> k then 31 else n + k) = min 31 (n + k)" by (simp add: min_def) linarith
  then show ?thesis using \<open>k < 32\<close> by (simp add: bit_signed_drop_bit_iff)
qed

lemma ll_shifts:
  assumes "n < 64"
  shows "ll_value (LL_SHL a n) = push_bit n (ll_value a)" "ll_value (LL_USHR a n) = drop_bit n (ll_value a)"
    "ll_value (LL_SHR a n) = signed_drop_bit n (ll_value a)"
proof -
  show "ll_value (LL_SHL a n) = push_bit n (ll_value a)"
  proof (rule bit_word_eqI)
    fix k
    assume "k < LENGTH(64)"
    then show "bit (ll_value (LL_SHL a n)) k = bit (push_bit n (ll_value a)) k"
      using assms by (auto simp: ll_value_bit LL_SHL_def bit_simps mod_if add.commute [of n 32] dest: high_bit)
  qed
  show "ll_value (LL_USHR a n) = drop_bit n (ll_value a)"
  proof (rule bit_word_eqI)
    fix k
    assume "k < LENGTH(64)"
    then show "bit (ll_value (LL_USHR a n)) k = bit (drop_bit n (ll_value a)) k"
      using assms by (auto simp: ll_value_bit LL_USHR_def bit_simps mod_if add.commute dest: high_bit)
  qed
  show "ll_value (LL_SHR a n) = signed_drop_bit n (ll_value a)"
  proof (rule bit_word_eqI)
    fix k
    assume "k < LENGTH(64)"
    then have k: "k < 64" by simp
    consider "n = 0" | "0 < n" "n < 32" | "32 \<le> n" by linarith
    then show "bit (ll_value (LL_SHR a n)) k = bit (signed_drop_bit n (ll_value a)) k"
    proof cases
      case 1
      then show ?thesis by (simp add: LL_SHR_def)
    next
      case 2
      then have m: "n mod 32 = n" "n \<noteq> 0" by simp_all
      consider "k < 32" "n + k < 32" | "k < 32" "32 \<le> n + k" | "32 \<le> k" by linarith
      then show ?thesis
      proof cases
        case low: 1
        then have "\<not> 32 - n \<le> k" by linarith
        then show ?thesis using 2 k low by (simp add: signed_drop_64 ll_value_bit LL_SHR_def m bit_push_bit_iff bit_or_iff bit_drop_bit_eq min_def)
      next
        case mid: 2
        then have "32 - n \<le> k" "k - (32 - n) = n + k - 32" "\<not> n + k < 32" using mid 2 by linarith+
        moreover have "\<not> bit (ll_lo a) (n + k)" using mid high_bit by (metis not_less)
        ultimately show ?thesis using 2 k mid by (simp add: signed_drop_64 ll_value_bit LL_SHR_def m bit_push_bit_iff bit_or_iff bit_drop_bit_eq min_def)
      next
        case top: 3
        have "min 63 (n + k) - 32 = min 31 (n + (k - 32))" "\<not> min 63 (n + k) < 32" using top by linarith+
        then show ?thesis using 2 k top by (simp only: signed_drop_64) (simp add: signed_drop_32 ll_value_bit LL_SHR_def m)
      qed
    next
      case 3
      then have m: "n mod 32 = n - 32" "\<not> n < 32" "n \<noteq> 0" using assms by (simp_all add: mod_if)
      show ?thesis
      proof (cases "k < 32")
        case True
        have "min 63 (n + k) - 32 = min 31 (n - 32 + k)" "\<not> min 63 (n + k) < 32" using 3 by linarith+
        then show ?thesis using k True by (simp only: signed_drop_64) (simp add: signed_drop_32 ll_value_bit LL_SHR_def m)
      next
        case False
        have "min 63 (n + k) - 32 = min 31 (31 + (k - 32))" "\<not> min 63 (n + k) < 32" using 3 False by linarith+
        then show ?thesis using k False by (simp only: signed_drop_64) (simp add: signed_drop_32 ll_value_bit LL_SHR_def m)
      qed
    qed
  qed
qed

lemma ll_conversions:
  "LL_L2I l = sint (ucast (ll_value l) :: u32)" "LL_L2UI l = ucast (ll_value l)"
  "ll_value (LL_I2L i) = scast i" "ll_value (LL_UI2L i) = ucast i"
  "0 < n \<Longrightarrow> n < 64 \<Longrightarrow> ll_value (LL_ISHL i n) = push_bit n (scast i)"
proof -
  have "ucast (ll_value l) = ll_lo l" by (rule bit_word_eqI) (auto simp: bit_simps ll_value_bit)
  then show "LL_L2I l = sint (ucast (ll_value l) :: u32)" "LL_L2UI l = ucast (ll_value l)"
    by (simp_all add: LL_L2I_def LL_L2UI_def)
  show "ll_value (LL_I2L i) = scast i"
  proof (rule bit_word_eqI)
    fix k
    assume "k < LENGTH(64)"
    then have k: "k < 64" "k - 32 < 32" by simp_all
    have e: "signed_drop_bit 31 i = (if bit i 31 then - 1 else 0)" by (rule bit_word_eqI) (simp add: signed_drop_32)
    consider "k < 31" | "k = 31" | "k = 32" | "32 < k" by linarith
    then show "bit (ll_value (LL_I2L i)) k = bit (scast i :: u64) k"
      by cases (use k in \<open>simp_all add: ll_value_bit LL_I2L_def e bit_signed_iff\<close>)
  qed
  show "ll_value (LL_UI2L i) = ucast i"
    by (rule bit_word_eqI) (auto simp: bit_simps ll_value_bit LL_UI2L_def dest: high_bit)
  assume n: "0 < n" "n < 64"
  show "ll_value (LL_ISHL i n) = push_bit n (scast i)"
  proof (rule bit_word_eqI)
    fix k
    assume "k < LENGTH(64)"
    moreover from this have "\<not> n < 32 \<Longrightarrow> k - n = 31 \<Longrightarrow> k - 32 = 31" by simp
    ultimately show "bit (ll_value (LL_ISHL i n)) k = bit (push_bit n (scast i) :: u64) k"
      using n by (cases "k - n = 31")
        (auto simp: ll_value_bit LL_ISHL_def bit_simps mod_if min_def add.commute [of n 32] dest: high_bit)
  qed
qed

subsection \<open>Comparisons\<close>

lemma sint_halves:
  "sint (w :: u32) = (if uint w < 2147483648 then uint w else uint w - 4294967296)"
  "sint (v :: u64) = (if uint v < 9223372036854775808 then uint v else uint v - 18446744073709551616)"
proof -
  have m: "(x + h) mod (2 * h) - h = (if x < h then x else x - 2 * h)" if "0 \<le> x" "x < 2 * h" for x h :: int
  proof (cases "x < h")
    case False
    have "(x + h) mod (2 * h) = (x + h - 2 * h) mod (2 * h)" by (rule minus_mod_self2 [symmetric])
    then show ?thesis using that False by simp
  qed (use that in simp)
  show "sint (w :: u32) = (if uint w < 2147483648 then uint w else uint w - 4294967296)"
    using m [of "uint w" 2147483648] uint_u32_bounds [of w]
    by (simp add: sint_uint signed_take_bit_eq_take_bit_shift take_bit_eq_mod)
  show "sint (v :: u64) = (if uint v < 9223372036854775808 then uint v else uint v - 18446744073709551616)"
    using m [of "uint v" 9223372036854775808] uint_lt2p [of v]
    by (simp add: sint_uint signed_take_bit_eq_take_bit_shift take_bit_eq_mod)
qed

lemma sint_high: "sint (ll_value a) = sint (ll_hi a) * 4294967296 + uint (ll_lo a)"
proof -
  define h where "h = uint (ll_hi a)"
  have "h * 4294967296 + uint (ll_lo a) < 9223372036854775808 \<longleftrightarrow> h < 2147483648"
    using uint_u32_bounds [of "ll_lo a"] by linarith
  then show ?thesis unfolding sint_halves uint_ll_value ll_uint_def h_def by simp
qed

end
