(* ===== verification/Pr_Long_Div.thy ===== *)
theory Pr_Long_Div
  imports Pr_Long_Arith Pr_Bits
begin

text \<open>
  The division of \<open>prlong.c\<close>: one digit (\<open>div_digit\<close>), a two-half dividend by a normalised half
  (\<open>norm_udivmod32\<close>), shifting to normalise, and the two halves of \<open>ll_udivmod\<close>.
\<close>

subsection \<open>Division\<close>

lemma uint_sub_u32: "uint (x - y :: u32) = (uint x - uint y) mod 4294967296"
  by (simp add: uint_word_ariths)

lemma uint_shift_or:
  assumes "uint x * 2 ^ k < 4294967296" "uint y < 2 ^ k"
  shows "uint (push_bit k x OR y :: u32) = uint x * 2 ^ k + uint y"
proof -
  have u: "uint z = int (unat z)" for z :: u32 by simp
  have "int (unat x * 2 ^ k) < int (2 ^ 32)" "int (unat y) < int (2 ^ k)" using assms by simp_all
  then have "unat x * 2 ^ k < 2 ^ 32" "unat y < 2 ^ k" by (simp_all only: of_nat_less_iff)
  from unat_shift_or [OF this] show ?thesis by (simp only: u) simp
qed

lemma digit_identity:
  fixes R B D1 D0 Q P X :: int
  assumes "B = D1 * 65536 + D0" "R = Q * D1 + P"
  shows "R * 65536 + X = Q * B + (P * 65536 + X) - Q * D0"
  by (simp add: assms algebra_simps)

lemma div_digit_spec:
  assumes b: "2147483648 \<le> uint b" and r: "uint r < uint b" and x: "uint x < 65536"
  obtains q s where "div_digit r x b = Some (q, s)" "uint q * uint b + uint s = uint r * 65536 + uint x"
    "uint s < uint b" "uint q < 65536"
proof -
  define B R X D1 D0 where v: "B = uint b" "R = uint r" "X = uint x" "D1 = uint (hi16 b)" "D0 = uint (lo16 b)"
  have BD: "B = D1 * 65536 + D0" by (simp add: v halves [of b])
  have D: "D1 < 65536" "0 \<le> D0" "D0 < 65536" using half_bounds [of b] by (simp_all add: v)
  then have D1: "32768 \<le> D1" using b BD by (simp add: v(1))
  have R: "0 \<le> R" "R < B" "B < 4294967296" "0 \<le> X" "X < 65536"
    using r x uint_u32_bounds [of b] uint_u32_bounds [of r] by (simp_all add: v)
  define Q P where qp: "Q = R div D1" "P = R mod D1"
  have QP: "R = Q * D1 + P" "0 \<le> P" "P < D1" "0 \<le> Q" using D1 R(1) by (simp_all add: qp pos_imp_zdiv_nonneg_iff)
  have "R < 65538 * D1" using R(2) BD D D1 by linarith
  then have "Q < 65538" unfolding qp using D1 by (intro int_div_bounds) simp_all
  then have Q: "Q \<le> 65537" by simp
  define M where "M = Q * D0"
  have "M \<le> 65537 * 65535" unfolding M_def using Q QP(4) D by (intro mult_mono) simp_all
  then have M: "0 \<le> M" "M < 4294967296" using QP(4) D by (simp_all add: M_def)
  define R1 where "R1 = P * 65536 + X"
  have R1: "0 \<le> R1" "R1 < B" using QP R BD D unfolding R1_def by linarith+
  have key: "R * 65536 + X = Q * B + R1 - M" unfolding R1_def M_def by (rule digit_identity [OF BD QP(1)])
  have wq: "uint (r div hi16 b) = Q" "uint (r mod hi16 b) = P" by (simp_all add: qp v uint_div uint_mod)
  have wm: "uint (r div hi16 b * lo16 b) = M"
    using M by (simp add: uint_word_ariths wq M_def flip: v)
  have wr: "uint (push_bit 16 (r mod hi16 b) OR x) = R1"
    using uint_shift_or [of "r mod hi16 b" 16 x] QP R D by (simp add: wq R1_def flip: v)
  have D1w: "hi16 b \<noteq> 0" using D1 by (auto simp: v)
  define m r1 ra where w: "m = r div hi16 b * lo16 b" "r1 = push_bit 16 (r mod hi16 b) OR x" "ra = r1 + b"
  note wm' = wm [folded w] and wr' = wr [folded w]
  have code: "div_digit r x b = Some (if r1 < m then
      if ra \<ge> b \<and> ra < m then (r div hi16 b - 1 - 1, ra + b - m) else (r div hi16 b - 1, ra - m)
      else (r div hi16 b, r1 - m))"
    using D1w by (simp add: div_digit_def Let_def w)
  have lt: "r1 < m \<longleftrightarrow> R1 < M" by (simp add: word_less_def wm' wr')
  have "\<exists>k. 0 \<le> k \<and> 0 \<le> R1 + k * B - M \<and> R1 + k * B - M < B \<and>
    (\<exists>q s. div_digit r x b = Some (q, s) \<and> uint q = Q - k \<and> uint s = R1 + k * B - M)"
  proof (cases "R1 < M")
    case False
    then have "uint (r1 - m) = R1 - M" using R1 R M by (simp add: uint_sub_u32 wm' wr')
    then show ?thesis using False lt code wq R1 M by (intro exI [of _ 0]) simp
  next
    case True
    then have "Q \<noteq> 0" using R1(1) by (auto simp: M_def)
    then have Q1: "1 \<le> Q" using QP(4) by linarith
    then have wq1: "uint (r div hi16 b - 1) = Q - 1" using Q by (simp add: uint_sub_u32 wq)
    show ?thesis
    proof (cases "R1 + B < 4294967296")
      case big: False
      have ra: "uint ra = R1 + B - 4294967296"
      proof -
        have "(R1 + B) mod 4294967296 = (R1 + B - 4294967296) mod 4294967296" by simp
        also have "\<dots> = R1 + B - 4294967296" using big R1 R by (intro mod_pos_pos_trivial) linarith+
        finally show ?thesis unfolding w(3) uint_add_u32 wr' v(1) [symmetric] .
      qed
      then have c: "\<not> ra \<ge> b" using R1 R by (simp add: word_le_def flip: v)
      have "(R1 + B - 4294967296 - M) mod 4294967296 = (R1 + B - M) mod 4294967296"
        using minus_mod_self2 [of "R1 + B - M" 4294967296] by (simp add: algebra_simps)
      then have "uint (ra - m) = R1 + B - M" using big M True R by (simp add: uint_sub_u32 ra wm')
      then show ?thesis using True lt code wq1 c big M R by (intro exI [of _ 1]) simp
    next
      case small: True
      have ra: "uint ra = R1 + B" unfolding w(3) uint_add_u32 wr' v(1) [symmetric] using small R1 R by simp
      have c: "ra \<ge> b" "ra < m \<longleftrightarrow> R1 + B < M" using R1 by (simp_all add: word_le_def word_less_def ra wm' flip: v)
      show ?thesis
      proof (cases "R1 + B < M")
        case two: True
        have "Q \<noteq> 1" using two R1 BD D D1 by (auto simp: M_def)
        then have Q2: "2 \<le> Q" using Q1 by linarith
        then have wq2: "uint (r div hi16 b - 1 - 1) = Q - 2" using Q unfolding uint_sub_u32 [of "r div hi16 b - 1"] wq1 by simp
        have "uint (ra + b - m) = ((R1 + B + B) - M) mod 4294967296"
          by (simp add: uint_sub_u32 uint_add_u32 ra wm' mod_diff_left_eq flip: v)
        also have "\<dots> = R1 + 2 * B - M" using two M b R R1 by (simp add: v)
        finally have "uint (ra + b - m) = R1 + 2 * B - M" .
        moreover have "0 \<le> R1 + 2 * B - M" "R1 + 2 * B - M < B" using two M b R1 by (simp_all add: v)
        ultimately show ?thesis using True lt code wq2 c two by (intro exI [of _ 2]) simp
      next
        case one: False
        then have "uint (ra - m) = R1 + B - M" using small True M R by (simp add: uint_sub_u32 ra wm')
        then show ?thesis using True lt code wq1 c one by (intro exI [of _ 1]) simp
      qed
    qed
  qed
  then obtain k q s where k: "0 \<le> R1 + k * B - M" "R1 + k * B - M < B"
    "div_digit r x b = Some (q, s)" "uint q = Q - k" "uint s = R1 + k * B - M" by blast
  have id: "uint q * B + uint s = R * 65536 + X" using key by (simp add: k(4,5) algebra_simps)
  have "uint q * B \<le> R * 65536 + X" using id k by linarith
  also have "\<dots> < 65536 * B" using R by linarith
  finally have "uint q < 65536" using R b by simp
  show ?thesis
    by (rule that [OF k(3)]) (use id k \<open>uint q < 65536\<close> in \<open>simp_all add: v\<close>)
qed


lemma norm_udivmod32_spec:
  assumes b: "2147483648 \<le> uint b" and a: "uint (ll_hi a) < uint b"
  obtains q r where "norm_udivmod32 a b = Some (q, r)" "uint q * uint b + uint r = ll_uint a" "uint r < uint b"
proof -
  have x: "uint (hi16 (ll_lo a)) < 65536" "uint (lo16 (ll_lo a)) < 65536" by (rule half_bounds)+
  obtain q1 r1 where 1: "div_digit (ll_hi a) (hi16 (ll_lo a)) b = Some (q1, r1)"
    "uint q1 * uint b + uint r1 = uint (ll_hi a) * 65536 + uint (hi16 (ll_lo a))" "uint r1 < uint b" "uint q1 < 65536"
    by (rule div_digit_spec [OF b a x(1)])
  obtain q0 r0 where 0: "div_digit r1 (lo16 (ll_lo a)) b = Some (q0, r0)"
    "uint q0 * uint b + uint r0 = uint r1 * 65536 + uint (lo16 (ll_lo a))" "uint r0 < uint b" "uint q0 < 65536"
    by (rule div_digit_spec [OF b 1(3) x(2)])
  have q: "uint (push_bit 16 q1 OR q0) = uint q1 * 65536 + uint q0"
    using uint_shift_or [of q1 16 q0] 1(4) 0(4) by simp
  show ?thesis
  proof (rule that)
    show "norm_udivmod32 a b = Some (push_bit 16 q1 OR q0, r0)" by (simp add: norm_udivmod32_def 0 1)
    have "uint (push_bit 16 q1 OR q0) * uint b + uint r0 = (uint q1 * uint b) * 65536 + (uint q0 * uint b + uint r0)"
      by (simp add: q algebra_simps)
    also have "\<dots> = (uint q1 * uint b + uint r1) * 65536 + uint (lo16 (ll_lo a))" unfolding 0(2) by (simp add: algebra_simps)
    also have "\<dots> = ll_uint a" unfolding 1(2) by (simp add: ll_uint_def halves [of "ll_lo a"] algebra_simps)
    finally show "uint (push_bit 16 q1 OR q0) * uint b + uint r0 = ll_uint a" .
  qed (rule 0(3))
qed

text \<open>\<open>CountLeadingZeros\<close> goes the steps of the logarithm, counting down from 32.\<close>

lemma clz_step_log2: "clz_step k (a, 32 - l) = (let (l', a') = log2_step k (l, a) in (a', 32 - l'))"
  by (simp add: clz_step_def log2_step_def Let_def)

lemma CountLeadingZeros_log2:
  assumes "n \<noteq> 0"
  shows "CountLeadingZeros n = 31 - PR_FloorLog2 n"
proof -
  obtain l a where f: "fold log2_step [16, 8, 4, 2] (0, n) = (l, a)" by fastforce
  obtain l' a' where g: "log2_step 1 (l, a) = (l', a')" by fastforce
  have "log2_rel 0 (unat n) 2 (l, a)" using log2_fold [OF assms, of 0] f by (simp only:)
  then have "log2_rel 0 (unat n) 1 (l', a')" using log2_step_rel [of 0 "unat n" 1 "(l, a)"] g by (simp add: numeral_2_eq_2)
  then have a': "a' = 1" by (auto simp: log2_rel_def word_unat_eq_iff)
  have "clz_step 1 (clz_step 2 (clz_step 4 (clz_step 8 (clz_step 16 (n, 32 - 0))))) = (a', 32 - l')"
  proof -
    obtain l1 n1 where 1: "log2_step 16 (0, n) = (l1, n1)" by fastforce
    obtain l2 n2 where 2: "log2_step 8 (l1, n1) = (l2, n2)" by fastforce
    obtain l3 n3 where 3: "log2_step 4 (l2, n2) = (l3, n3)" by fastforce
    have 4: "log2_step 2 (l3, n3) = (l, a)" using f 1 2 3 by simp
    show ?thesis by (simp only: clz_step_log2 1 2 3 4 g Let_def prod.case)
  qed
  then have c: "CountLeadingZeros n = 32 - l' - 1" by (simp add: CountLeadingZeros_def a')
  have "PR_FloorLog2 n = l'" using f g by (simp add: PR_FloorLog2_def log2_step_def split: if_splits)
  then show ?thesis using c by simp
qed

lemma normalised:
  assumes "n \<noteq> 0"
  shows "CountLeadingZeros n < 32" "2147483648 \<le> uint n * 2 ^ CountLeadingZeros n" "uint n * 2 ^ CountLeadingZeros n < 4294967296"
proof -
  define k where "k = PR_FloorLog2 n"
  have k: "unat n div 2 ^ k = 1" unfolding k_def by (rule FloorLog2_div [OF assms])
  then have lo: "2 ^ k \<le> unat n" by (metis div_less not_less zero_neq_one)
  have hi: "unat n < 2 ^ k * 2" 
  proof -
    have "unat n mod 2 ^ k < 2 ^ k" by simp
    moreover have "2 ^ k + unat n mod 2 ^ k = unat n" using div_mult_mod_eq [of "unat n" "2 ^ k"] by (simp add: k)
    ultimately show ?thesis by linarith
  qed
  have "(2 :: nat) ^ k < 2 ^ 32" using lo unat_u32_less [of n] by simp
  then have k32: "k < 32" by (rule power_less_imp_less_exp [rotated]) simp
  have c: "CountLeadingZeros n = 31 - k" using CountLeadingZeros_log2 [OF assms] by (simp add: k_def)
  then show "CountLeadingZeros n < 32" by simp
  have p: "(2 :: nat) ^ k * 2 ^ (31 - k) = 2147483648" using k32 by (simp flip: power_add)
  have "2147483648 \<le> unat n * 2 ^ (31 - k)" using mult_le_mono1 [OF lo, of "2 ^ (31 - k)"] p by simp
  then have "int 2147483648 \<le> int (unat n * 2 ^ (31 - k))" by (simp only: of_nat_le_iff)
  then show "2147483648 \<le> uint n * 2 ^ CountLeadingZeros n" by (simp add: c)
  have "unat n * 2 ^ (31 - k) < 2 ^ k * 2 * 2 ^ (31 - k)" using hi by (intro mult_less_mono1) simp_all
  also have "\<dots> = 4294967296" using p by simp
  finally have "int (unat n * 2 ^ (31 - k)) < int 4294967296" by (simp only: of_nat_less_iff)
  then show "uint n * 2 ^ CountLeadingZeros n < 4294967296" by (simp add: c)
qed

text \<open>Shifting a number of two or three halves.\<close>

lemma pow_split: "l \<le> 32 \<Longrightarrow> (2 :: int) ^ l * 2 ^ (32 - l) = 4294967296"
  by (simp flip: power_add)

lemma uint_push_u32: "uint (push_bit l x :: u32) = uint x * 2 ^ l mod 4294967296"
  by (simp only: unsigned_push_bit_eq) (simp add: push_bit_eq_mult take_bit_eq_mod)

lemma uint_drop_u32: "uint (drop_bit l x :: u32) = uint x div 2 ^ l"
proof -
  have "int (unat (drop_bit l x)) = int (unat x div 2 ^ l)" by (simp only: unat_drop_bit_div)
  then show ?thesis by (simp add: zdiv_int)
qed

lemma shift_out:
  assumes "l \<le> 32"
  shows "uint x * 2 ^ l = uint (drop_bit (32 - l) x) * 4294967296 + uint (push_bit l x :: u32)"
proof -
  define P P' :: int where "P = 2 ^ l" and "P' = 2 ^ (32 - l)"
  have p: "P * P' = 4294967296" "0 < P" "0 < P'" using pow_split [OF assms] by (simp_all add: P_def P'_def)
  have m: "uint x * P mod (P' * P) = uint x mod P' * P" by (simp add: mod_mult_mult2)
  have "uint x * P = (uint x div P' * P' + uint x mod P') * P" by simp
  also have "\<dots> = uint x div P' * (P * P') + uint x mod P' * P"
  proof -
    have "(a * P' + b) * P = a * (P * P') + b * P" for a b by (simp add: algebra_simps)
    then show ?thesis .
  qed
  also have "\<dots> = uint x div P' * 4294967296 + uint x * P mod 4294967296" using m p by (simp add: mult.commute [of P'])
  finally show ?thesis by (simp add: uint_push_u32 uint_drop_u32 P_def P'_def)
qed

lemma shift_in:
  assumes "l \<le> 32"
  shows "uint (push_bit l x OR drop_bit (32 - l) y :: u32) = uint (push_bit l x) + uint (drop_bit (32 - l) y)"
proof -
  have "\<not> bit (push_bit l x) n \<or> \<not> bit (drop_bit (32 - l) y) n" for n
    using assms by (auto simp: bit_simps dest: bit_imp_le_length)
  then have "push_bit l x OR drop_bit (32 - l) y = push_bit l x + drop_bit (32 - l) y" by (simp add: disjunctive_add)
  moreover have "uint (push_bit l x) + uint (drop_bit (32 - l) y) < 4294967296"
  proof -
    define P P' :: int where "P = 2 ^ l" and "P' = 2 ^ (32 - l)"
    have p: "P * P' = 4294967296" "0 < P" "0 < P'" using pow_split [OF assms] by (simp_all add: P_def P'_def)
    have "uint x * P mod (P' * P) = uint x mod P' * P" by (simp add: mod_mult_mult2)
    then have x: "uint (push_bit l x) = uint x mod P' * P"
      unfolding uint_push_u32 P_def [symmetric] using p(1) by (simp add: mult.commute [of P'])
    have "uint x mod P' \<le> P' - 1" using pos_mod_bound [OF p(3), of "uint x"] by simp
    then have "uint x mod P' * P \<le> (P' - 1) * P" using p(2) by (intro mult_right_mono) simp_all
    moreover have "uint (drop_bit (32 - l) y) < P"
      unfolding uint_drop_u32 P'_def [symmetric] using p uint_u32_bounds [of y] by (intro int_div_bounds) simp_all
    ultimately show ?thesis using p x by (simp add: algebra_simps)
  qed
  ultimately show ?thesis by (simp add: uint_add_u32)
qed

lemma shift_three:
  assumes "l \<le> 32"
  shows "(uint n1 * 4294967296 + uint n0) * 2 ^ l
    = (uint (drop_bit (32 - l) n1) * 4294967296 + uint (push_bit l n1 OR drop_bit (32 - l) n0 :: u32)) * 4294967296 + uint (push_bit l n0 :: u32)"
  unfolding shift_in [OF assms] distrib_right mult.assoc
  using shift_out [OF assms, of n1] shift_out [OF assms, of n0]
  by (simp add: algebra_simps)

lemma shift_back:
  assumes "l \<le> 32"
  shows "ll_uint \<lparr>ll_hi = drop_bit l (ll_hi a), ll_lo = push_bit (32 - l) (ll_hi a) OR drop_bit l (ll_lo a)\<rparr> = ll_uint a div 2 ^ l"
proof -
  have l: "32 - l \<le> 32" "32 - (32 - l) = l" using assms by simp_all
  define P P' :: int where "P = 2 ^ l" and "P' = 2 ^ (32 - l)"
  have p: "P * P' = 4294967296" "0 < P" using pow_split [OF assms] by (simp_all add: P_def P'_def)
  have "ll_uint \<lparr>ll_hi = drop_bit l (ll_hi a), ll_lo = push_bit (32 - l) (ll_hi a) OR drop_bit l (ll_lo a)\<rparr>
    = uint (ll_hi a) * P' + uint (drop_bit l (ll_lo a))"
    using shift_in [OF l(1), of "ll_hi a" "ll_lo a"] shift_out [OF l(1), of "ll_hi a"] by (simp add: ll_uint_def l(2) P'_def)
  also have "\<dots> = (uint (ll_hi a) * P' * P + uint (ll_lo a)) div P"
    using p by (simp add: uint_drop_u32 P_def)
  also have "uint (ll_hi a) * P' * P + uint (ll_lo a) = ll_uint a" using p by (simp add: ll_uint_def mult.assoc mult.commute [of P'])
  finally show ?thesis by (simp add: P_def)
qed

lemma scaled_division:
  fixes q d r N P :: int
  assumes "q * (d * P) + r = N * P" "0 \<le> r" "r < d * P" "0 < P"
  shows "q * d + r div P = N" "r div P < d" "0 \<le> r div P"
proof -
  have "r = (N - q * d) * P" using assms(1) by (simp add: algebra_simps)
  then have e: "r div P = N - q * d" using assms(4) by simp
  then show "q * d + r div P = N" by simp
  show "r div P < d" using assms(3,4) by (intro int_div_bounds)
  show "0 \<le> r div P" using assms(2,4) by (simp add: pos_imp_zdiv_nonneg_iff)
qed

lemma norm_divisor:
  assumes "d \<noteq> 0"
  shows "uint (push_bit (CountLeadingZeros d) d) = uint d * 2 ^ CountLeadingZeros d"
    "2147483648 \<le> uint (push_bit (CountLeadingZeros d) d)"
proof -
  note n = normalised [OF assms]
  show e: "uint (push_bit (CountLeadingZeros d) d) = uint d * 2 ^ CountLeadingZeros d"
    unfolding uint_push_u32 using n uint_u32_bounds [of d] by (intro mod_pos_pos_trivial) simp_all
  show "2147483648 \<le> uint (push_bit (CountLeadingZeros d) d)" unfolding e by (rule n(2))
qed

lemma ll_uint_simps [simp]: "ll_uint \<lparr>ll_hi = h, ll_lo = l\<rparr> = uint h * 4294967296 + uint l"
  by (simp add: ll_uint_def)

lemma ll_uint_bounds: "0 \<le> ll_uint a" "ll_uint a < 18446744073709551616"
  using uint_lt2p [of "ll_value a"] by (simp_all add: uint_ll_value [symmetric])

text \<open>The dividend without its shift, when the divisor has one half.\<close>

lemma udivmod_lo_spec:
  assumes d: "d \<noteq> 0"
  obtains q r where "udivmod_lo n1 n0 d = Some (q, r)"
    "ll_uint q * uint d + ll_uint r = uint n1 * 4294967296 + uint n0" "ll_uint r < uint d"
proof -
  define N where "N = uint n1 * 4294967296 + uint n0"
  define l where "l = CountLeadingZeros d"
  have l: "l < 32" using normalised(1) [OF d] by (simp add: l_def)
  then have l32: "l \<le> 32" by simp
  define D where "D = push_bit l d"
  have D: "uint D = uint d * 2 ^ l" "2147483648 \<le> uint D" using norm_divisor [OF d] by (simp_all add: D_def l_def)
  define m2 m1 m0 where m: "m2 = drop_bit (32 - l) n1" "m1 = push_bit l n1 OR drop_bit (32 - l) n0" "m0 = push_bit l n0"
  have N3: "N * 2 ^ l = (uint m2 * 4294967296 + uint m1) * 4294967296 + uint m0"
    unfolding N_def m by (rule shift_three [OF l32])
  have P: "0 < (2 :: int) ^ l" by simp
  show ?thesis
  proof (cases "d > n1")
    case True
    have m2: "uint m2 = 0"
    proof -
      have "uint n1 < uint d" using True by (simp add: word_less_def)
      then have "uint n1 * 2 ^ l < uint D" unfolding D(1) using P by (rule mult_strict_right_mono)
      then have "uint n1 * 2 ^ l < 4294967296" using uint_u32_bounds [of D] by simp
      then show ?thesis using shift_out [OF l32, of n1] uint_u32_bounds [of m2] uint_u32_bounds [of "push_bit l n1"]
        unfolding m(1) by linarith
    qed
    have ND: "N < uint d * 4294967296" using True uint_u32_bounds [of n0] unfolding N_def by (simp add: word_less_def)
    then have "N * 2 ^ l < uint d * 4294967296 * 2 ^ l" using P by (rule mult_strict_right_mono)
    moreover have "uint d * 4294967296 * 2 ^ l = uint D * 4294967296" by (simp add: D(1))
    moreover have "N * 2 ^ l = uint m1 * 4294967296 + uint m0" using N3 m2 by simp
    ultimately have "uint m1 < uint D" using uint_u32_bounds [of m0] by linarith
    then have "uint (ll_hi \<lparr>ll_hi = m1, ll_lo = m0\<rparr>) < uint D" by simp
    from norm_udivmod32_spec [OF D(2) this] obtain q r where q: "norm_udivmod32 \<lparr>ll_hi = m1, ll_lo = m0\<rparr> D = Some (q, r)"
      "uint q * uint D + uint r = uint m1 * 4294967296 + uint m0" "uint r < uint D" by auto
    have e: "uint q * (uint d * 2 ^ l) + uint r = N * 2 ^ l" using q(2) N3 m2 D(1) by simp
    note s = scaled_division [OF e uint_u32_bounds(1) _ P]
    have r: "udivmod_lo n1 n0 d = Some (\<lparr>ll_hi = 0, ll_lo = q\<rparr>, \<lparr>ll_hi = 0, ll_lo = drop_bit l r\<rparr>)"
    proof (cases "l = 0")
      case True
      then have "m1 = n1" "m0 = n0" "D = d" using l by (auto simp: m D_def word_uint_eq_iff uint_drop_u32 uint_u32_bounds shift_in)
      then show ?thesis using \<open>d > n1\<close> q(1) True by (simp add: udivmod_lo_def Let_def l_def [symmetric])
    next
      case False
      then show ?thesis using \<open>d > n1\<close> q(1) by (simp add: udivmod_lo_def Let_def l_def [symmetric] m [symmetric] D_def [symmetric])
    qed
    show ?thesis
      by (rule that [OF r]) (use s q(3) D(1) in \<open>simp_all add: uint_drop_u32 flip: N_def\<close>)
  next
    case False
    then have dn: "uint d \<le> uint n1" by (simp add: word_less_def)
    show ?thesis
    proof (cases "l = 0")
      case True
      then have Dd: "2147483648 \<le> uint d" using D by simp
      have s: "uint (n1 - d) = uint n1 - uint d" 
        unfolding uint_sub_u32 by (rule mod_pos_pos_trivial) (use dn uint_u32_bounds [of n1] uint_u32_bounds [of d] in linarith)+
      have "uint (ll_hi \<lparr>ll_hi = n1 - d, ll_lo = n0\<rparr>) < uint d" using s Dd uint_u32_bounds [of n1] by simp
      from norm_udivmod32_spec [OF Dd this] obtain q r where q: "norm_udivmod32 \<lparr>ll_hi = n1 - d, ll_lo = n0\<rparr> d = Some (q, r)"
        "uint q * uint d + uint r = uint (n1 - d) * 4294967296 + uint n0" "uint r < uint d" by auto
      have r: "udivmod_lo n1 n0 d = Some (\<lparr>ll_hi = 1, ll_lo = q\<rparr>, \<lparr>ll_hi = 0, ll_lo = drop_bit l r\<rparr>)"
        using False d q(1) True by (simp add: udivmod_lo_def Let_def l_def [symmetric])
      show ?thesis
        by (rule that [OF r]) (use q True s in \<open>simp_all add: N_def algebra_simps\<close>)
    next
      case nz: False
      have "uint m2 < 2 ^ l"
        unfolding m uint_drop_u32 using pow_split [OF l32] uint_u32_bounds [of n1] by (intro int_div_bounds) simp_all
      also have "(2 :: int) ^ l \<le> 2 ^ 31" using l by (intro power_increasing) simp_all
      finally have "uint (ll_hi \<lparr>ll_hi = m2, ll_lo = m1\<rparr>) < uint D" using D(2) by simp
      from norm_udivmod32_spec [OF D(2) this] obtain q1 r1 where q1: "norm_udivmod32 \<lparr>ll_hi = m2, ll_lo = m1\<rparr> D = Some (q1, r1)"
        "uint q1 * uint D + uint r1 = uint m2 * 4294967296 + uint m1" "uint r1 < uint D" by auto
      from q1(3) have "uint (ll_hi \<lparr>ll_hi = r1, ll_lo = m0\<rparr>) < uint D" by simp
      from norm_udivmod32_spec [OF D(2) this] obtain q0 r0 where q0: "norm_udivmod32 \<lparr>ll_hi = r1, ll_lo = m0\<rparr> D = Some (q0, r0)"
        "uint q0 * uint D + uint r0 = uint r1 * 4294967296 + uint m0" "uint r0 < uint D" by auto
      define Q where "Q = uint q1 * 4294967296 + uint q0"
      have "Q * uint D + uint r0 = uint q1 * uint D * 4294967296 + (uint q0 * uint D + uint r0)" by (simp add: Q_def algebra_simps)
      also have "\<dots> = (uint q1 * uint D + uint r1) * 4294967296 + uint m0" unfolding q0(2) by (simp add: algebra_simps)
      also have "\<dots> = N * 2 ^ l" unfolding q1(2) N3 ..
      finally have e: "Q * (uint d * 2 ^ l) + uint r0 = N * 2 ^ l" by (simp add: D(1))
      note s = scaled_division [OF e uint_u32_bounds(1) _ P]
      have r: "udivmod_lo n1 n0 d = Some (\<lparr>ll_hi = q1, ll_lo = q0\<rparr>, \<lparr>ll_hi = 0, ll_lo = drop_bit l r0\<rparr>)"
        using False d nz q1(1) q0(1)
        by (simp add: udivmod_lo_def Let_def l_def [symmetric] m [symmetric] D_def [symmetric])
      show ?thesis
        by (rule that [OF r]) (use s q0(3) D(1) in \<open>simp_all add: uint_drop_u32 Q_def flip: N_def\<close>)
    qed
  qed
qed

lemma digit_estimate:
  fixes q h m l' :: int
  assumes "q * h \<le> m" "m < 2 ^ l * 4294967296" "2147483648 \<le> h" "l \<le> 31" "0 \<le> q" "0 \<le> l'" "l' < 4294967296"
    and "l = 31 \<Longrightarrow> l' \<le> 2147483648" and "q < 4294967296"
  shows "q * l' \<le> h * 4294967296"
proof (cases "l = 31")
  case True
  have "q * l' \<le> 4294967296 * 2147483648" using assms True by (intro mult_mono) simp_all
  then show ?thesis using assms(3) by simp
next
  case False
  then have "(2 :: int) ^ l \<le> 2 ^ 30" using assms(4) by (intro power_increasing) simp_all
  then have "m < 4611686018427387904" using assms(2) by simp
  moreover have "q * 2147483648 \<le> q * h" using assms(3,5) by (intro mult_left_mono) simp_all
  ultimately have "q < 2147483648" using assms(1) by linarith
  then have "q * l' \<le> h * l'" using assms(3,6) by (intro mult_right_mono) simp_all
  also have "\<dots> \<le> h * 4294967296" using assms(3,7) by (intro mult_left_mono) simp_all
  finally show ?thesis .
qed

lemma low_half_shifted:
  assumes "l = 31"
  shows "uint (push_bit l x :: u32) \<le> 2147483648"
proof -
  have "uint x * 2147483648 mod 4294967296 = uint x mod 2 * 2147483648"
    using mod_mult_mult2 [of "uint x" 2147483648 2] by simp
  moreover have "uint x mod 2 \<le> 1" by simp
  ultimately show ?thesis unfolding uint_push_u32 assms by simp
qed

lemma LL_SUB_uint: "ll_uint (LL_SUB a b) = (ll_uint a - ll_uint b) mod 18446744073709551616"
proof -
  have "ll_uint (LL_SUB a b) = uint (ll_value a - ll_value b)" by (simp flip: uint_ll_value add: LL_SUB_value)
  then show ?thesis by (simp add: uint_word_ariths uint_ll_value)
qed

lemma udivmod_hi_spec:
  assumes d: "ll_hi b \<noteq> 0"
  obtains q r where "udivmod_hi n1 n0 b = Some (q, r)"
    "ll_uint q = (uint n1 * 4294967296 + uint n0) div ll_uint b"
    "ll_uint r = (if 2147483648 \<le> uint (ll_hi b) then uint n1 * 4294967296 + uint n0
       else (uint n1 * 4294967296 + uint n0) mod ll_uint b)"
proof -
  define N where "N = uint n1 * 4294967296 + uint n0"
  define h where "h = ll_hi b"
  define D where "D = ll_uint b"
  have h: "h \<noteq> 0" using d by (simp add: h_def)
  have h0: "0 < uint h" 
  proof -
    have "uint h \<noteq> 0" using h by (simp add: word_uint_eq_iff)
    then show ?thesis using uint_u32_bounds(1) [of h] by linarith
  qed
  have Dh: "D = uint h * 4294967296 + uint (ll_lo b)" by (simp add: D_def ll_uint_def h_def)
  define l where "l = CountLeadingZeros h"
  have l: "l < 32" using normalised(1) [OF h] by (simp add: l_def)
  then have l32: "l \<le> 32" by simp
  have quot: "q = N div D \<and> r = N mod D" if "q * D + r = N" "0 \<le> r" "r < D" for q r
    using that by (auto simp: mult.commute [of q])
  show ?thesis
  proof (cases "h > n1")
    case True
    have "N < D" using True uint_u32_bounds [of n0] uint_u32_bounds [of "ll_lo b"] unfolding N_def Dh word_less_def by linarith
    moreover have "0 \<le> N" using uint_u32_bounds [of n0] uint_u32_bounds [of n1] by (simp add: N_def)
    ultimately have z: "N div D = 0" "N mod D = N" by simp_all
    have r: "udivmod_hi n1 n0 b = Some (\<lparr>ll_hi = 0, ll_lo = 0\<rparr>, \<lparr>ll_hi = n1, ll_lo = n0\<rparr>)"
      using True by (simp add: udivmod_hi_def h_def)
    show ?thesis by (rule that [OF r]) (use z in \<open>simp_all flip: N_def D_def\<close>)
  next
    case False
    then have hn: "uint h \<le> uint n1" by (simp add: word_less_def)
    have "2147483648 \<le> uint h \<longleftrightarrow> l = 0"
    proof
      assume "2147483648 \<le> uint h"
      show "l = 0"
      proof (rule ccontr)
        assume "l \<noteq> 0"
        then have "(2 :: int) ^ 1 \<le> 2 ^ l" by (intro power_increasing) simp_all
        then have "2147483648 * 2 \<le> uint h * 2 ^ l" using \<open>2147483648 \<le> uint h\<close> by (intro mult_mono) simp_all
        then show False using normalised(3) [OF h] by (simp add: l_def)
      qed
    qed (use normalised(2) [OF h] in \<open>simp add: l_def\<close>)
    note top = this
    show ?thesis
    proof (cases "l = 0")
      case True
      define q0 :: u32 where "q0 = (if n1 > h \<or> n0 \<ge> ll_lo b then 1 else 0)"
      have r: "udivmod_hi n1 n0 b = Some (\<lparr>ll_hi = 0, ll_lo = q0\<rparr>, \<lparr>ll_hi = n1, ll_lo = n0\<rparr>)"
        using False True by (simp add: udivmod_hi_def Let_def q0_def h_def l_def)
      have ge: "D \<le> N \<longleftrightarrow> n1 > h \<or> n0 \<ge> ll_lo b"
        using hn uint_u32_bounds [of n0] uint_u32_bounds [of "ll_lo b"] unfolding N_def Dh word_less_def word_le_def by linarith
      have "uint q0 * D \<le> N" "N < uint q0 * D + D"
      proof -
        have "2147483648 \<le> uint h" using top True by blast
        then have "N < D + D"
          using uint_u32_bounds [of n0] uint_u32_bounds [of "ll_lo b"] uint_u32_bounds [of n1] unfolding N_def Dh by linarith
        moreover have "0 \<le> N" using uint_u32_bounds [of n0] uint_u32_bounds [of n1] by (simp add: N_def)
        ultimately show "uint q0 * D \<le> N" "N < uint q0 * D + D" using ge by (auto simp: q0_def)
      qed
      then have "uint q0 = N div D" using quot [of "uint q0" "N - uint q0 * D"] by simp
      then show ?thesis by (intro that [OF r]) (use top True in \<open>simp_all add: h_def flip: N_def D_def\<close>)
    next
      case nz: False
      define b' where "b' = \<lparr>ll_hi = push_bit l h OR drop_bit (32 - l) (ll_lo b), ll_lo = push_bit l (ll_lo b)\<rparr>"
      define m2 m1 m0 where m: "m2 = drop_bit (32 - l) n1" "m1 = push_bit l n1 OR drop_bit (32 - l) n0" "m0 = push_bit l n0"
      have N3: "N * 2 ^ l = (uint m2 * 4294967296 + uint m1) * 4294967296 + uint m0"
        unfolding N_def m by (rule shift_three [OF l32])
      have "uint (drop_bit (32 - l) h) = 0"
        using shift_out [OF l32, of h] normalised(3) [OF h] uint_u32_bounds [of "push_bit l h"] uint_u32_bounds [of "drop_bit (32 - l) h"]
        unfolding l_def [symmetric] by linarith
      then have D': "ll_uint b' = D * 2 ^ l"
        unfolding Dh b'_def ll_uint_simps shift_three [OF l32, of h "ll_lo b"] by simp
      have bh: "2147483648 \<le> uint (ll_hi b')"
      proof -
        have "uint (ll_hi b') = uint (push_bit l h) + uint (drop_bit (32 - l) (ll_lo b))" by (simp only: b'_def shift_in [OF l32] PRInt64.simps)
        then show ?thesis using norm_divisor(2) [OF h, folded l_def] uint_u32_bounds [of "drop_bit (32 - l) (ll_lo b)"] by linarith
      qed
      have m2: "uint m2 < 2 ^ l"
        unfolding m uint_drop_u32 using pow_split [OF l32] uint_u32_bounds [of n1] by (intro int_div_bounds) simp_all
      also have l31: "(2 :: int) ^ l \<le> 2 ^ 31" using l by (intro power_increasing) simp_all
      finally have "uint (ll_hi \<lparr>ll_hi = m2, ll_lo = m1\<rparr>) < uint (ll_hi b')" using bh by simp
      from norm_udivmod32_spec [OF bh this] obtain q p where q: "norm_udivmod32 \<lparr>ll_hi = m2, ll_lo = m1\<rparr> (ll_hi b') = Some (q, p)"
        "uint q * uint (ll_hi b') + uint p = uint m2 * 4294967296 + uint m1" "uint p < uint (ll_hi b')" by auto
      define mm where "mm = LL_MUL32 q (ll_lo b')"
      define W M where "W = ll_uint \<lparr>ll_hi = p, ll_lo = m0\<rparr>" and "M = ll_uint mm"
      have M: "M = uint q * uint (ll_lo b')" by (simp add: M_def mm_def LL_MUL32_value)
      have D2: "D * 2 ^ l = uint (ll_hi b') * 4294967296 + uint (ll_lo b')" unfolding D' [symmetric] ll_uint_def ..
      have id: "N * 2 ^ l = uint q * (D * 2 ^ l) + W - M"
        unfolding N3 q(2) [symmetric] D2 M W_def by (simp add: algebra_simps)
      have W: "0 \<le> W" "W < D * 2 ^ l"
      proof -
        show "0 \<le> W" unfolding W_def by (rule ll_uint_bounds)
        show "W < D * 2 ^ l" unfolding D2 W_def ll_uint_simps
          using q(3) uint_u32_bounds [of m0] uint_u32_bounds [of "ll_lo b'"] by linarith
      qed
      have "uint q * uint (ll_lo b') \<le> uint (ll_hi b') * 4294967296"
      proof (rule digit_estimate)
        show "uint q * uint (ll_hi b') \<le> uint m2 * 4294967296 + uint m1" using q(2) uint_u32_bounds [of p] by linarith
        have "uint m2 \<le> 2 ^ l - 1" using m2 by simp
        then have "uint m2 * 4294967296 \<le> (2 ^ l - 1) * 4294967296" by (rule mult_right_mono) simp
        then show "uint m2 * 4294967296 + uint m1 < 2 ^ l * 4294967296" using uint_u32_bounds [of m1] by (simp add: algebra_simps)
        show "l = 31 \<Longrightarrow> uint (ll_lo b') \<le> 2147483648" by (simp add: b'_def low_half_shifted del: push_bit_numeral)
      qed (use bh l uint_u32_bounds in simp_all)
      then have MD: "M \<le> D * 2 ^ l" using uint_u32_bounds [of "ll_lo b'"] unfolding M D2 by linarith
      have K: "0 \<le> M" "M < 18446744073709551616" "D * 2 ^ l < 18446744073709551616"
        using ll_uint_bounds [of mm] ll_uint_bounds [of b'] by (simp_all add: M_def D')
      have test: "(ll_hi mm > p \<or> ll_hi mm = p \<and> ll_lo mm > m0) \<longleftrightarrow> W < M"
        using uint_u32_bounds [of m0] uint_u32_bounds [of "ll_lo mm"]
        unfolding W_def M_def ll_uint_def word_less_def word_uint_eq_iff PRInt64.simps by linarith
      define q' where "q' = (if W < M then q - 1 else q)"
      define a where "a = LL_SUB \<lparr>ll_hi = p, ll_lo = m0\<rparr> (if W < M then LL_SUB mm b' else mm)"
      have a: "ll_uint a = (if W < M then W - M + D * 2 ^ l else W - M)" and q': "uint q' = (if W < M then uint q - 1 else uint q)"
      proof -
        show "ll_uint a = (if W < M then W - M + D * 2 ^ l else W - M)"
        proof (cases "W < M")
          case True
          have "ll_uint a = (W - (M - D * 2 ^ l)) mod 18446744073709551616"
            using True by (simp add: a_def LL_SUB_uint W_def M_def D' mod_diff_right_eq del: ll_uint_simps)
          also have "\<dots> = W - (M - D * 2 ^ l)" using True MD W K by (intro mod_pos_pos_trivial) linarith+
          finally show ?thesis using True by simp
        next
          case False
          have "ll_uint a = (W - M) mod 18446744073709551616" using False by (simp add: a_def LL_SUB_uint W_def M_def del: ll_uint_simps)
          also have "\<dots> = W - M" using False W K by (intro mod_pos_pos_trivial) linarith+
          finally show ?thesis using False by simp
        qed
        have "uint q \<noteq> 0" if "W < M" using that W by (auto simp: M)
        then have "(uint q - 1) mod 4294967296 = uint q - 1" if "W < M"
        proof -
          have "uint q \<noteq> 0" using that \<open>W < M \<Longrightarrow> uint q \<noteq> 0\<close> by blast
          then show ?thesis using uint_u32_bounds [of q] by (intro mod_pos_pos_trivial) linarith+
        qed
        then show "uint q' = (if W < M then uint q - 1 else uint q)" by (simp add: q'_def uint_sub_u32)
      qed
      have e: "uint q' * (D * 2 ^ l) + ll_uint a = N * 2 ^ l" using id by (simp add: a q' algebra_simps)
      have ab: "0 \<le> ll_uint a" "ll_uint a < D * 2 ^ l" using a W MD K(1) by (auto simp: ll_uint_bounds)
      note s = scaled_division [OF e ab, simplified]
      define r where "r = \<lparr>ll_hi = drop_bit l (ll_hi a), ll_lo = push_bit (32 - l) (ll_hi a) OR drop_bit l (ll_lo a)\<rparr>"
      have rv: "ll_uint r = ll_uint a div 2 ^ l" unfolding r_def by (rule shift_back [OF l32])
      have "udivmod_hi n1 n0 b = do {
           (q0, n1'') \<leftarrow> norm_udivmod32 \<lparr>ll_hi = m2, ll_lo = m1\<rparr> (ll_hi b');
           let mm = LL_MUL32 q0 (ll_lo b');
           let (q, m') = (if ll_hi mm > n1'' \<or> ll_hi mm = n1'' \<and> ll_lo mm > m0 then (q0 - 1, LL_SUB mm b') else (q0, mm));
           let a = LL_SUB \<lparr>ll_hi = n1'', ll_lo = m0\<rparr> m';
           Some (\<lparr>ll_hi = 0, ll_lo = q\<rparr>, \<lparr>ll_hi = drop_bit l (ll_hi a), ll_lo = push_bit (32 - l) (ll_hi a) OR drop_bit l (ll_lo a)\<rparr>)
         }"
        using False nz unfolding udivmod_hi_def Let_def h_def [symmetric] l_def [symmetric] m [symmetric] b'_def [symmetric] by simp
      also have "\<dots> = Some (\<lparr>ll_hi = 0, ll_lo = q'\<rparr>, r)"
        unfolding q(1) bind.bind_lunit prod.case Let_def mm_def [symmetric] test by (simp add: q'_def a_def r_def)
      finally have code: "udivmod_hi n1 n0 b = Some (\<lparr>ll_hi = 0, ll_lo = q'\<rparr>, r)" .
      show ?thesis
        by (rule that [OF code])
          (use quot [OF s(1) s(3) s(2)] top nz in \<open>simp_all add: rv h_def flip: N_def D_def\<close>)
    qed
  qed
qed

end
