(* ===== verification/Pr_Long_Spec.thy ===== *)
theory Pr_Long_Spec
  imports Pr_Long_Div "HOL-Library.Signed_Division"
begin

text \<open>
  Comparisons, signed division, and the properties of the 64-bit arithmetic.
\<close>

lemma c_rel_halves:
  fixes x y l m :: int
  assumes "0 \<le> l" "l < 4294967296" "0 \<le> m" "m < 4294967296"
  shows "c_rel op (x * 4294967296 + l) (y * 4294967296 + m) = (if x = y then c_rel op l m else c_rel op x y)"
proof (cases "x = y")
  case True
  then show ?thesis by (cases op) simp_all
next
  case False
  define X Y where "X = x * 4294967296 + l" and "Y = y * 4294967296 + m"
  have "X < Y \<longleftrightarrow> x < y" "Y < X \<longleftrightarrow> y < x" using False assms unfolding X_def Y_def by linarith+
  moreover from this have "X \<noteq> Y" using False by (metis less_irrefl linorder_neqE)
  ultimately show ?thesis using False unfolding X_def [symmetric] Y_def [symmetric] by (cases op) (auto simp: le_less)
qed

lemma ll_comparisons:
  "LL_CMP a op b \<longleftrightarrow> c_rel op (sint (ll_value a)) (sint (ll_value b))"
  "LL_UCMP a op b \<longleftrightarrow> c_rel op (uint (ll_value a)) (uint (ll_value b))"
  "LL_EQ a b \<longleftrightarrow> ll_value a = ll_value b" "LL_NE a b \<longleftrightarrow> ll_value a \<noteq> ll_value b"
  "LL_IS_ZERO a \<longleftrightarrow> ll_value a = 0" "LL_GE_ZERO a \<longleftrightarrow> 0 \<le> sint (ll_value a)"
proof -
  have inj: "sint x = sint y \<longleftrightarrow> x = y" "uint x = uint y \<longleftrightarrow> x = y" for x y :: u32
  proof -
    show "uint x = uint y \<longleftrightarrow> x = y" by (simp add: word_uint_eq_iff)
    have "x = y" if "sint x = sint y" using arg_cong [OF that, of "word_of_int :: int \<Rightarrow> u32"] by simp
    then show "sint x = sint y \<longleftrightarrow> x = y" by blast
  qed
  show "LL_CMP a op b \<longleftrightarrow> c_rel op (sint (ll_value a)) (sint (ll_value b))"
    unfolding sint_high c_rel_halves [OF uint_u32_bounds uint_u32_bounds] LL_CMP_def inj ..
  show "LL_UCMP a op b \<longleftrightarrow> c_rel op (uint (ll_value a)) (uint (ll_value b))"
    unfolding uint_ll_value ll_uint_def c_rel_halves [OF uint_u32_bounds uint_u32_bounds] LL_UCMP_def inj ..
  show eq: "LL_EQ a b \<longleftrightarrow> ll_value a = ll_value b" and "LL_NE a b \<longleftrightarrow> ll_value a \<noteq> ll_value b"
    unfolding ll_value_inject LL_EQ_def LL_NE_def by (cases a; cases b; simp)+
  have z: "ll_value \<lparr>ll_hi = 0, ll_lo = 0\<rparr> = 0" by (simp add: ll_value_def)
  show "LL_IS_ZERO a \<longleftrightarrow> ll_value a = 0"
    unfolding z [symmetric] ll_value_inject LL_IS_ZERO_def by (cases a) simp
  have "drop_bit 31 (ll_hi a) = 0 \<longleftrightarrow> uint (ll_hi a) < 2147483648"
  proof -
    have "drop_bit 31 (ll_hi a) = 0 \<longleftrightarrow> uint (ll_hi a) div 2147483648 = 0"
      by (simp add: word_uint_eq_iff uint_drop_u32)
    then show ?thesis using uint_u32_bounds [of "ll_hi a"] by (auto simp: div_eq_0_iff zdiv_eq_0_iff)
  qed
  then show "LL_GE_ZERO a \<longleftrightarrow> 0 \<le> sint (ll_value a)"
    unfolding LL_GE_ZERO_def sint_high sint_halves(1) [of "ll_hi a"]
    using uint_u32_bounds [of "ll_hi a"] uint_u32_bounds [of "ll_lo a"] by (cases "uint (ll_hi a) < 2147483648") auto
qed

subsection \<open>Signs\<close>

definition negatable :: "PRInt64 \<Rightarrow> bool" where
  "negatable a \<longleftrightarrow> ll_hi a \<noteq> 0x80000000 \<and> ll_lo a \<noteq> 0x80000000"

lemma LL_NEG_spec:
  "LL_NEG a = None \<longleftrightarrow> \<not> negatable a"
  "LL_NEG a = Some r \<Longrightarrow> ll_value r = - ll_value a"
proof -
  show "LL_NEG a = None \<longleftrightarrow> \<not> negatable a" by (auto simp: LL_NEG_value negatable_def)
  have "ll_value (LL_INIT 0 0) = 0" by (simp add: LL_INIT_def ll_value_def)
  then show "LL_NEG a = Some r \<Longrightarrow> ll_value r = - ll_value a"
    by (auto simp: LL_NEG_value LL_SUB_value split: if_splits)
qed

lemma ll_udivmod_spec:
  assumes b: "ll_value b \<noteq> 0"
  shows "\<exists>q r. ll_udivmod a b = Some (q, r) \<and> ll_value q = ll_value a div ll_value b \<and>
    ll_value r = (if 9223372036854775808 \<le> ll_value b then ll_value a else ll_value a mod ll_value b)"
proof -
  have a: "uint (ll_hi a) * 4294967296 + uint (ll_lo a) = ll_uint a" by (simp add: ll_uint_def)
  have top: "9223372036854775808 \<le> ll_value b \<longleftrightarrow> 2147483648 \<le> uint (ll_hi b)"
  proof -
    have "9223372036854775808 \<le> ll_value b \<longleftrightarrow> 9223372036854775808 \<le> ll_uint b" by (simp add: word_le_def uint_ll_value)
    then show ?thesis using uint_u32_bounds [of "ll_lo b"] unfolding ll_uint_def by linarith
  qed
  have fin: ?thesis if r: "ll_udivmod a b = Some (q, r)" "ll_uint q = ll_uint a div ll_uint b"
    "ll_uint r = (if 2147483648 \<le> uint (ll_hi b) then ll_uint a else ll_uint a mod ll_uint b)" for q r
  proof (intro exI conjI)
    show "ll_udivmod a b = Some (q, r)" by (rule r(1))
    show "ll_value q = ll_value a div ll_value b" using r(2) by (simp add: word_uint_eq_iff uint_div uint_ll_value)
    show "ll_value r = (if 9223372036854775808 \<le> ll_value b then ll_value a else ll_value a mod ll_value b)"
      using r(3) unfolding top by (simp add: word_uint_eq_iff uint_mod uint_ll_value)
  qed
  show ?thesis
  proof (cases "ll_hi b = 0")
    case True
    then have bl: "ll_uint b = uint (ll_lo b)" by (simp add: ll_uint_def)
    have "ll_lo b \<noteq> 0" using b True by (auto simp: ll_value_def)
    then obtain q r where r: "udivmod_lo (ll_hi a) (ll_lo a) (ll_lo b) = Some (q, r)"
      "ll_uint q * uint (ll_lo b) + ll_uint r = uint (ll_hi a) * 4294967296 + uint (ll_lo a)" "ll_uint r < uint (ll_lo b)"
      by (rule udivmod_lo_spec)
    have "ll_uint a = ll_uint r + ll_uint q * ll_uint b" using r(2) a bl by simp
    moreover have "0 \<le> ll_uint r" by (rule ll_uint_bounds)
    ultimately have "ll_uint q = ll_uint a div ll_uint b" "ll_uint r = ll_uint a mod ll_uint b" using r(3) bl by simp_all
    then show ?thesis by (intro fin [of q r]) (use r(1) True in \<open>simp_all add: ll_udivmod_def\<close>)
  next
    case False
    obtain q r where "udivmod_hi (ll_hi a) (ll_lo a) b = Some (q, r)"
      "ll_uint q = (uint (ll_hi a) * 4294967296 + uint (ll_lo a)) div ll_uint b"
      "ll_uint r = (if 2147483648 \<le> uint (ll_hi b) then uint (ll_hi a) * 4294967296 + uint (ll_lo a)
         else (uint (ll_hi a) * 4294967296 + uint (ll_lo a)) mod ll_uint b)"
      by (rule udivmod_hi_spec [OF False])
    then show ?thesis unfolding a by (intro fin [of q r]) (use False in \<open>simp_all add: ll_udivmod_def\<close>)
  qed
qed

lemma sign_bit: "sint (ll_hi a) < 0 \<longleftrightarrow> sint (ll_value a) < 0"
  using uint_u32_bounds [of "ll_lo a"] unfolding sint_high by linarith

lemma uint_minus_u64: "x \<noteq> 0 \<Longrightarrow> uint (- x :: u64) = 18446744073709551616 - uint x"
  using uint_lt2p [of x] by (simp add: uint_word_ariths zmod_zminus1_eq_if word_uint_eq_iff)

lemma absolute:
  assumes "sint (ll_value a) < 0 \<Longrightarrow> negatable a"
  obtains a' where "(if sint (ll_hi a) < 0 then LL_NEG a else Some a) = Some a'" "ll_uint a' = \<bar>sint (ll_value a)\<bar>"
    "\<bar>sint (ll_value a)\<bar> < 9223372036854775808"
proof (cases "sint (ll_value a) < 0")
  case True
  then have n: "negatable a" by (rule assms)
  then obtain a' where a': "LL_NEG a = Some a'" using LL_NEG_spec(1) [of a] by (cases "LL_NEG a") auto
  have z: "ll_value a \<noteq> 0" using True by auto
  have A: "sint (ll_value a) = ll_uint a - 18446744073709551616"
    using True ll_uint_bounds(1) [of a] by (simp add: sint_halves(2) uint_ll_value split: if_splits)
  have "ll_uint a' = 18446744073709551616 - ll_uint a"
    using LL_NEG_spec(2) [OF a'] uint_minus_u64 [OF z] by (simp flip: uint_ll_value)
  moreover have "- 9223372036854775808 < sint (ll_value a)"
  proof -
    have "uint (ll_hi a) \<noteq> 2147483648" using n by (simp add: negatable_def word_uint_eq_iff)
    then have "uint (ll_hi a) - 4294967296 \<noteq> - 2147483648" by simp
    moreover have "sint (ll_hi a) = uint (ll_hi a) \<or> sint (ll_hi a) = uint (ll_hi a) - 4294967296 \<and> 2147483648 \<le> uint (ll_hi a)"
      by (simp add: sint_halves(1))
    ultimately have "- 2147483648 < sint (ll_hi a)" using uint_u32_bounds [of "ll_hi a"] by linarith
    then show ?thesis unfolding sint_high using uint_u32_bounds [of "ll_lo a"] by linarith
  qed
  moreover have "\<bar>sint (ll_value a)\<bar> = 18446744073709551616 - ll_uint a" using A True by linarith
  ultimately show ?thesis using a' A True ll_uint_bounds(1) [of a] by (intro that [of a']) (simp_all add: sign_bit)
next
  case False
  have n: "0 \<le> ll_uint a" by (rule ll_uint_bounds)
  have A: "sint (ll_value a) = ll_uint a" "ll_uint a < 9223372036854775808"
    using False ll_uint_bounds(2) [of a] by (auto simp: sint_halves(2) uint_ll_value split: if_splits)
  then have "\<bar>sint (ll_value a)\<bar> = ll_uint a" using n by simp
  then show ?thesis using False A(2) by (intro that [of a]) (simp_all add: sign_bit)
qed

lemma signed_back:
  assumes "ll_uint q < 9223372036854775808" "neg \<Longrightarrow> ll_uint q mod 4294967296 \<noteq> 2147483648"
  obtains r where "(if neg then LL_NEG q else Some q) = Some r" "sint (ll_value r) = (if neg then - ll_uint q else ll_uint q)"
proof (cases neg)
  case True
  have hi: "uint (ll_hi q) < 2147483648" using assms(1) uint_u32_bounds [of "ll_lo q"] unfolding ll_uint_def by linarith
  have lo: "ll_uint q mod 4294967296 = uint (ll_lo q)" using uint_u32_bounds [of "ll_lo q"] by (simp add: ll_uint_def)
  have "negatable q" using hi lo assms(2) [OF True] by (auto simp: negatable_def)
  then obtain r where r: "LL_NEG q = Some r" using LL_NEG_spec(1) [of q] by (cases "LL_NEG q") auto
  have v: "ll_value r = - ll_value q" by (rule LL_NEG_spec(2) [OF r])
  have "sint (ll_value r) = - ll_uint q"
  proof (cases "ll_value q = 0")
    case z: False
    have "ll_uint q \<noteq> 0" using z by (simp add: word_uint_eq_iff uint_ll_value)
    then have "0 < ll_uint q" using ll_uint_bounds(1) [of q] by linarith
    then show ?thesis using uint_minus_u64 [OF z] assms(1) by (simp add: v sint_halves(2) uint_ll_value)
  qed (use v in \<open>simp flip: uint_ll_value\<close>)
  then show ?thesis using r True by (intro that [of r]) simp_all
next
  case False
  then show ?thesis using assms(1) by (intro that [of q]) (simp_all add: sint_halves(2) uint_ll_value)
qed


lemma signed_division:
  assumes b: "ll_value b \<noteq> 0"
    and na: "sint (ll_value a) < 0 \<Longrightarrow> negatable a" and nb: "sint (ll_value b) < 0 \<Longrightarrow> negatable b"
    and nq: "\<bar>sint (ll_value a)\<bar> div \<bar>sint (ll_value b)\<bar> mod 4294967296 \<noteq> 2147483648"
    and nr: "\<bar>sint (ll_value a)\<bar> mod \<bar>sint (ll_value b)\<bar> mod 4294967296 \<noteq> 2147483648"
  shows "\<exists>q r. LL_DIV a b = Some q \<and> LL_MOD a b = Some r \<and>
    sint (ll_value q) = sint (ll_value a) sdiv sint (ll_value b) \<and> sint (ll_value r) = sint (ll_value a) smod sint (ll_value b)"
proof -
  define A B where "A = sint (ll_value a)" and "B = sint (ll_value b)"
  have B0: "B \<noteq> 0" using b unfolding B_def by (metis signed_0 signed_word_eqI)
  obtain a' where a': "(if sint (ll_hi a) < 0 then LL_NEG a else Some a) = Some a'" "ll_uint a' = \<bar>A\<bar>" "\<bar>A\<bar> < 9223372036854775808"
    unfolding A_def by (rule absolute [OF na])
  obtain b' where b': "(if sint (ll_hi b) < 0 then LL_NEG b else Some b) = Some b'" "ll_uint b' = \<bar>B\<bar>" "\<bar>B\<bar> < 9223372036854775808"
    unfolding B_def by (rule absolute [OF nb])
  have bv: "ll_value b' \<noteq> 0" using b'(2) B0 by (auto simp: word_uint_eq_iff uint_ll_value)
  have small: "\<not> 9223372036854775808 \<le> ll_value b'" using b'(2,3) by (simp add: word_le_def uint_ll_value)
  obtain q r where qr: "ll_udivmod a' b' = Some (q, r)" "ll_value q = ll_value a' div ll_value b'" "ll_value r = ll_value a' mod ll_value b'"
    using ll_udivmod_spec [OF bv, of a'] small by auto
  have q: "ll_uint q = \<bar>A\<bar> div \<bar>B\<bar>" and r: "ll_uint r = \<bar>A\<bar> mod \<bar>B\<bar>"
    using qr(2,3) by (simp_all flip: uint_ll_value a'(2) b'(2) add: uint_div uint_mod)
  have lt: "\<bar>A\<bar> div \<bar>B\<bar> < 9223372036854775808" "\<bar>A\<bar> mod \<bar>B\<bar> < 9223372036854775808"
  proof -
    have "\<bar>A\<bar> div \<bar>B\<bar> \<le> \<bar>A\<bar> div 1" using B0 by (intro zdiv_mono2) simp_all
    then show "\<bar>A\<bar> div \<bar>B\<bar> < 9223372036854775808" using a'(3) by simp
    have "\<bar>A\<bar> mod \<bar>B\<bar> < \<bar>B\<bar>" using B0 by (intro pos_mod_bound) simp
    then show "\<bar>A\<bar> mod \<bar>B\<bar> < 9223372036854775808" using b'(3) by linarith
  qed
  define neg where "neg = ((A < 0) \<noteq> (B < 0))"
  obtain q2 where q2: "(if neg then LL_NEG q else Some q) = Some q2" "sint (ll_value q2) = (if neg then - ll_uint q else ll_uint q)"
    by (rule signed_back [of q neg]) (use lt nq in \<open>simp_all add: q A_def B_def\<close>)
  obtain r2 where r2: "(if A < 0 then LL_NEG r else Some r) = Some r2" "sint (ll_value r2) = (if A < 0 then - ll_uint r else ll_uint r)"
    by (rule signed_back [of r "A < 0"]) (use lt nr in \<open>simp_all add: r A_def B_def\<close>)
  have sg: "sint (ll_hi a) < 0 \<longleftrightarrow> A < 0" "sint (ll_hi b) < 0 \<longleftrightarrow> B < 0" by (simp_all add: sign_bit A_def B_def)
  note a'' = a'(1) [unfolded sg] and b'' = b'(1) [unfolded sg]
  have n: "(if B < 0 then \<not> A < 0 else A < 0) = neg" by (auto simp: neg_def)
  show ?thesis
  proof (intro exI conjI)
    show "LL_DIV a b = Some q2"
      unfolding LL_DIV_def Let_def sg a'' b'' bind.bind_lunit qr(1) prod.case n by (rule q2(1))
    show "LL_MOD a b = Some r2"
      unfolding LL_MOD_def Let_def sg a'' b'' bind.bind_lunit qr(1) prod.case by (rule r2(1))
    show "sint (ll_value q2) = sint (ll_value a) sdiv sint (ll_value b)"
      unfolding q2(2) q A_def [symmetric] B_def [symmetric] signed_divide_int_def neg_def by (auto simp: sgn_if)
    have "\<bar>A\<bar> mod \<bar>B\<bar> * sgn A = A smod B"
      by (simp add: signed_modulo_int_def mult.commute)
    then show "sint (ll_value r2) = sint (ll_value a) smod sint (ll_value b)"
      unfolding r2(2) r A_def [symmetric] B_def [symmetric] by (auto simp: sgn_if split: if_splits)
  qed
qed

subsection \<open>The macros' properties\<close>

lemma LL_MUL32_word: "ll_value (LL_MUL32 x y) = ucast x * ucast y"
proof -
  have "uint (ucast z :: u64) = uint z" for z :: u32
    using uint_u32_bounds [of z] by (simp add: unsigned_ucast_eq take_bit_eq_mod)
  then have "uint (ucast x * ucast y :: u64) = uint x * uint y mod 18446744073709551616" by (simp add: uint_word_ariths)
  also have "\<dots> = uint x * uint y"
    using ll_uint_bounds [of "LL_MUL32 x y"] unfolding LL_MUL32_value by (rule mod_pos_pos_trivial)
  finally show ?thesis by (simp add: word_uint_eq_iff uint_ll_value LL_MUL32_value)
qed

lemma LL_NEG_word: "map_option ll_value (LL_NEG a) = (if negatable a then Some (- ll_value a) else None)"
  using LL_NEG_spec [of a] by (cases "LL_NEG a") auto

text \<open>C38: On the halves of 64-bit numbers, the macros add, subtract, multiply, negate, combine bits and
  compare as the machine would on the numbers: with wrap-around at 64 bits, and with the sign where the macro is the signed one.
  Only \<open>LL_NEG\<close> has no defined result for some numbers, those with a half equal to \<open>0x80000000\<close>.\<close>

theorem ll_arithmetic:
  "ll_value (LL_ADD a b) = ll_value a + ll_value b \<and> ll_value (LL_SUB a b) = ll_value a - ll_value b \<and>
   ll_value (LL_MUL a b) = ll_value a * ll_value b \<and> ll_value (LL_MUL32 x y) = ucast x * ucast y \<and>
   map_option ll_value (LL_NEG a) = (if negatable a then Some (- ll_value a) else None) \<and>
   ll_value (LL_AND a b) = ll_value a AND ll_value b \<and> ll_value (LL_OR a b) = ll_value a OR ll_value b \<and>
   ll_value (LL_XOR a b) = ll_value a XOR ll_value b \<and> ll_value (LL_NOT a) = NOT (ll_value a) \<and>
   (LL_CMP a op b \<longleftrightarrow> c_rel op (sint (ll_value a)) (sint (ll_value b))) \<and>
   (LL_UCMP a op b \<longleftrightarrow> c_rel op (uint (ll_value a)) (uint (ll_value b))) \<and>
   (LL_EQ a b \<longleftrightarrow> ll_value a = ll_value b) \<and> (LL_NE a b \<longleftrightarrow> ll_value a \<noteq> ll_value b) \<and>
   (LL_IS_ZERO a \<longleftrightarrow> ll_value a = 0) \<and> (LL_GE_ZERO a \<longleftrightarrow> 0 \<le> sint (ll_value a))"
  by (intro conjI LL_ADD_value LL_SUB_value LL_MUL_value LL_MUL32_word LL_NEG_word ll_bits ll_comparisons)

text \<open>The shifts by less than 64 and the conversions compute what the machine would on the
  numbers, but that \<open>LL_ISHL\<close> by 0 loses the sign, and that \<open>LL_SHL\<close> by 64 shifts by 32 only.\<close>

lemma ll_shift:
  assumes "n < 64"
  shows "ll_value (LL_SHL a n) = push_bit n (ll_value a) \<and> ll_value (LL_USHR a n) = drop_bit n (ll_value a) \<and>
    ll_value (LL_SHR a n) = signed_drop_bit n (ll_value a) \<and>
    ll_value (LL_ISHL i n) = (if n = 0 then ucast i else push_bit n (scast i)) \<and>
    ll_value (LL_SHL a 64) = push_bit 32 (ll_value a) \<and>
    ll_value (LL_I2L i) = scast i \<and> ll_value (LL_UI2L i) = ucast i \<and>
    LL_L2UI a = ucast (ll_value a) \<and> LL_L2I a = sint (ucast (ll_value a) :: u32)"
proof -
  have "ll_value (LL_ISHL i n) = (if n = 0 then ucast i else push_bit n (scast i))"
    using ll_conversions(4) [of i] ll_conversions(5) [of n i] assms by (cases "n = 0") (simp_all add: LL_ISHL_def LL_UI2L_def)
  moreover have "ll_value (LL_SHL a 64) = push_bit 32 (ll_value a)"
    by (rule bit_word_eqI) (auto simp: ll_value_bit LL_SHL_def bit_simps dest: high_bit)
  ultimately show ?thesis using ll_shifts [OF assms, of a] ll_conversions(1-4) by blast
qed

lemma ll_shift_witness:
  "ll_value (LL_SHR \<lparr>ll_hi = 0x80000000, ll_lo = 5\<rparr> 33) = 0xFFFFFFFFC0000000 \<and>
   ll_value (LL_ISHL 0xFFFFFFFF 0) = 0xFFFFFFFF \<and> ll_value (LL_SHL \<lparr>ll_hi = 0, ll_lo = 1\<rparr> 64) = 0x100000000"
proof -
  have "signed_drop_bit 33 (ll_value \<lparr>ll_hi = 0x80000000, ll_lo = 5\<rparr>) = 0xFFFFFFFFC0000000"
    "push_bit 32 (ll_value \<lparr>ll_hi = 0, ll_lo = 1\<rparr>) = 0x100000000" by code_simp+
  then show ?thesis
    using ll_shift [where n = 33 and a = "\<lparr>ll_hi = 0x80000000, ll_lo = 5\<rparr>"]
      ll_shift [where n = 0 and i = "0xFFFFFFFF" and a = "\<lparr>ll_hi = 0, ll_lo = 1\<rparr>"]
    by simp
qed

text \<open>C13: \<open>ll_udivmod\<close> by a divisor other than zero returns, and divides: the digit estimates are corrected
  often enough, nothing wraps around. The quotient is always the right one; the remainder is unless the divisor is \<open>2 ^ 63\<close> or
  more: then what it gives for the remainder is the dividend, also where the quotient is 1.\<close>

theorem ll_unsigned_division:
  assumes "ll_value b \<noteq> 0"
  shows "\<exists>q r. ll_udivmod a b = Some (q, r) \<and> ll_value q = ll_value a div ll_value b \<and>
    ll_value r = (if 0x8000000000000000 \<le> ll_value b then ll_value a else ll_value a mod ll_value b)"
  using ll_udivmod_spec [OF assms, of a] by simp

theorem ll_unsigned_division_witness:
  "\<exists>q r. ll_udivmod LL_MaxUint LL_MinInt = Some (q, r) \<and> ll_value q = 1 \<and> ll_value r = 0xFFFFFFFFFFFFFFFF"
proof -
  have "ll_value LL_MinInt = 0x8000000000000000" "ll_value LL_MaxUint = 0xFFFFFFFFFFFFFFFF" by code_simp+
  then show ?thesis using ll_unsigned_division [of LL_MinInt LL_MaxUint] by simp
qed

text \<open>C15: \<open>LL_DIV\<close> and \<open>LL_MOD\<close> give the quotient and the remainder of C, rounded towards zero and
  with the sign of the dividend, where the negations they make are defined.\<close>

theorem ll_signed_division:
  assumes "ll_value b \<noteq> 0"
    and "sint (ll_value a) < 0 \<Longrightarrow> negatable a" and "sint (ll_value b) < 0 \<Longrightarrow> negatable b"
    and "\<bar>sint (ll_value a)\<bar> div \<bar>sint (ll_value b)\<bar> mod 4294967296 \<noteq> 2147483648"
    and "\<bar>sint (ll_value a)\<bar> mod \<bar>sint (ll_value b)\<bar> mod 4294967296 \<noteq> 2147483648"
  shows "\<exists>q r. LL_DIV a b = Some q \<and> LL_MOD a b = Some r \<and>
    sint (ll_value q) = sint (ll_value a) sdiv sint (ll_value b) \<and> sint (ll_value r) = sint (ll_value a) smod sint (ll_value b)"
  by (rule signed_division [OF assms])

theorem ll_signed_division_witness:
  "\<exists>q r. LL_DIV (LL_I2L (- 100)) (LL_I2L 7) = Some q \<and> LL_MOD (LL_I2L (- 100)) (LL_I2L 7) = Some r \<and>
    sint (ll_value q) = - 14 \<and> sint (ll_value r) = - 2"
proof -
  have v: "sint (ll_value (LL_I2L (- 100))) = - 100" "sint (ll_value (LL_I2L 7)) = 7" "ll_value (LL_I2L 7) \<noteq> 0"
    "negatable (LL_I2L (- 100))" by code_simp+
  from ll_signed_division [of "LL_I2L 7" "LL_I2L (- 100)"] show ?thesis by (simp add: v)
qed

end
