(* ===== verification/Nss_Utf8.thy ===== *)
theory Nss_Utf8
  imports Kz_Prelude
begin

text \<open>
  The conversions between UTF-8 and UCS-4, UTF-16 and ISO 8859-1 of \<open>security/nss/lib/util/utf8.c\<close>, in network byte order
  as the file is compiled. Buffers are lists of bytes, indices and lengths \<open>unsigned int\<close> that wrap. A conversion is
  given the value at \<open>outBufLen\<close> and returns its result, the output buffer and the value at \<open>outBufLen\<close>. The
  expressions on bytes are masked so that no bit leaves the byte, which makes 8-bit words exact. \<open>PORT_Assert\<close> is nothing,
  as in a release build.
\<close>

definition BAD_UTF8 :: u32 where
  "BAD_UTF8 = - 1"

text \<open>The assignments \<open>outBuf[len+0] = b0; outBuf[len+1] = b1; ...\<close>, the index computed in 32 bits.\<close>

primrec put_at :: "u8 list \<Rightarrow> u32 \<Rightarrow> u8 list \<Rightarrow> u8 list option" where
  "put_at outBuf len [] = Some outBuf"
| "put_at outBuf len (b # bs) = do { out1 \<leftarrow> wr outBuf (unat len) b; put_at out1 (len + 1) bs }"

subsection \<open>Reading a character\<close>

text \<open>The loop over the trailing bytes: \<open>Some None\<close> is the early return of \<open>BAD_UTF8\<close>.\<close>

primrec trail :: "nat \<Rightarrow> u32 \<Rightarrow> u32 \<Rightarrow> u8 list \<Rightarrow> u32 \<Rightarrow> (u32 \<times> u32) option option" where
  "trail 0 result i inBuf inBufLen = Some (Some (result, i))"
| "trail (Suc bytes_left) result i inBuf inBufLen = (if i \<ge> inBufLen then Some None else do {
     b \<leftarrow> rd inBuf (unat i);
     if b AND 0xC0 \<noteq> 0x80 then Some None
     else trail bytes_left (push_bit 6 result OR ucast (b AND 0x3F)) (i + 1) inBuf inBufLen })"

text \<open>What the leading byte gives: the bits of the result in it, the number of trailing bytes and the least
  code of that length.\<close>

definition lead :: "u8 \<Rightarrow> (u32 \<times> nat \<times> u32) option" where
  "lead b =
     (if b AND 0x80 = 0x00 then Some (ucast b, 0, 0)
      else if b AND 0xE0 = 0xC0 then Some (ucast (b AND 0x1F), 1, 0x80)
      else if b AND 0xF0 = 0xE0 then Some (ucast (b AND 0x0F), 2, 0x800)
      else if b AND 0xF8 = 0xF0 then Some (ucast (b AND 0x07), 3, 0x10000)
      else None)"

definition sec_port_read_utf8 :: "u32 \<Rightarrow> u8 list \<Rightarrow> u32 \<Rightarrow> (u32 \<times> u32) option" where
  "sec_port_read_utf8 index inBuf inBufLen = do {
     b \<leftarrow> rd inBuf (unat index);
     case lead b of
       None \<Rightarrow> Some (BAD_UTF8, index)
     | Some (result, bytes_left, min_value) \<Rightarrow> do {
         r \<leftarrow> trail bytes_left result (index + 1) inBuf inBufLen;
         case r of
           None \<Rightarrow> Some (BAD_UTF8, index)
         | Some (result, i) \<Rightarrow>
             if result < min_value \<or> result AND 0xFFFFF800 = 0xD800 \<or> result > 0x10FFFF then Some (BAD_UTF8, index)
             else Some (result, i) } }"

subsection \<open>UCS-4\<close>

text \<open>The first pass to Unicode, which looks at leading bytes only: \<open>Some None\<close> is the early \<open>PR_FALSE\<close>.\<close>

partial_function (option) ucs4_measure :: "u8 list \<Rightarrow> u32 \<Rightarrow> u32 \<Rightarrow> u32 \<Rightarrow> u32 option option" where
  "ucs4_measure inBuf inBufLen i len = (if i < inBufLen then do {
     b \<leftarrow> rd inBuf (unat i);
     if b AND 0x80 = 0x00 then ucs4_measure inBuf inBufLen (i + 1) (len + 4)
     else if b AND 0xE0 = 0xC0 then ucs4_measure inBuf inBufLen (i + 2) (len + 4)
     else if b AND 0xF0 = 0xE0 then ucs4_measure inBuf inBufLen (i + 3) (len + 4)
     else if b AND 0xF8 = 0xF0 then ucs4_measure inBuf inBufLen (i + 4) (len + 4)
     else Some None } else Some (Some len))"

text \<open>The second pass. The length is given back with the buffer; it is stored at the end only.\<close>

partial_function (option) ucs4_from_utf8 :: "u8 list \<Rightarrow> u32 \<Rightarrow> u8 list \<Rightarrow> u32 \<Rightarrow> u32 \<Rightarrow> (bool \<times> u8 list \<times> u32) option" where
  "ucs4_from_utf8 inBuf inBufLen outBuf i len = (if i < inBufLen then do {
     (ucs4, i1) \<leftarrow> sec_port_read_utf8 i inBuf inBufLen;
     if ucs4 = BAD_UTF8 then Some (False, outBuf, len)
     else do {
       out1 \<leftarrow> put_at outBuf len [0x00, ucast (drop_bit 16 ucs4), ucast (drop_bit 8 ucs4), ucast ucs4];
       ucs4_from_utf8 inBuf inBufLen out1 i1 (len + 4) } } else Some (True, outBuf, len))"

text \<open>The first pass from UCS-4, over whole units.\<close>

partial_function (option) utf8_measure :: "u8 list \<Rightarrow> u32 \<Rightarrow> u32 \<Rightarrow> u32 \<Rightarrow> u32 option option" where
  "utf8_measure inBuf inBufLen i len = (if i < inBufLen then do {
     b0 \<leftarrow> rd inBuf (unat i); b1 \<leftarrow> rd inBuf (unat (i + 1)); b2 \<leftarrow> rd inBuf (unat (i + 2)); b3 \<leftarrow> rd inBuf (unat (i + 3));
     if b0 > 0x00 \<or> b1 > 0x10 then Some None
     else utf8_measure inBuf inBufLen (i + 4)
       (len + (if b1 \<ge> 0x01 then 4 else if b2 \<ge> 0x08 then 3 else if b2 > 0x00 \<or> b3 \<ge> 0x80 then 2 else 1)) }
   else Some (Some len))"

text \<open>The bytes written for the last three bytes of a code.\<close>

definition utf8_bytes :: "u8 \<Rightarrow> u8 \<Rightarrow> u8 \<Rightarrow> u8 list" where
  "utf8_bytes b1 b2 b3 =
     (if b1 \<ge> 0x01 then
        [0xF0 OR drop_bit 2 (b1 AND 0x1C),
         0x80 OR push_bit 4 (b1 AND 0x03) OR drop_bit 4 (b2 AND 0xF0),
         0x80 OR push_bit 2 (b2 AND 0x0F) OR drop_bit 6 (b3 AND 0xC0),
         0x80 OR (b3 AND 0x3F)]
      else if b2 \<ge> 0x08 then
        [0xE0 OR drop_bit 4 (b2 AND 0xF0),
         0x80 OR push_bit 2 (b2 AND 0x0F) OR drop_bit 6 (b3 AND 0xC0),
         0x80 OR (b3 AND 0x3F)]
      else if b2 > 0x00 \<or> b3 \<ge> 0x80 then
        [0xC0 OR push_bit 2 (b2 AND 0x07) OR drop_bit 6 (b3 AND 0xC0),
         0x80 OR (b3 AND 0x3F)]
      else [b3 AND 0x7F])"

partial_function (option) utf8_from_ucs4 :: "u8 list \<Rightarrow> u32 \<Rightarrow> u8 list \<Rightarrow> u32 \<Rightarrow> u32 \<Rightarrow> (u8 list \<times> u32) option" where
  "utf8_from_ucs4 inBuf inBufLen outBuf i len = (if i < inBufLen then do {
     b1 \<leftarrow> rd inBuf (unat (i + 1)); b2 \<leftarrow> rd inBuf (unat (i + 2)); b3 \<leftarrow> rd inBuf (unat (i + 3));
     out1 \<leftarrow> put_at outBuf len (utf8_bytes b1 b2 b3);
     utf8_from_ucs4 inBuf inBufLen out1 (i + 4) (len + of_nat (length (utf8_bytes b1 b2 b3))) }
   else Some (outBuf, len))"

definition sec_port_ucs4_utf8_conversion_function ::
  "bool \<Rightarrow> u8 list \<Rightarrow> u32 \<Rightarrow> u8 list \<Rightarrow> u32 \<Rightarrow> u32 \<Rightarrow> (bool \<times> u8 list \<times> u32) option" where
  "sec_port_ucs4_utf8_conversion_function toUnicode inBuf inBufLen outBuf maxOutBufLen outBufLen =
     (if toUnicode then do {
        m \<leftarrow> ucs4_measure inBuf inBufLen 0 0;
        case m of
          None \<Rightarrow> Some (False, outBuf, outBufLen)
        | Some len \<Rightarrow> if len > maxOutBufLen then Some (False, outBuf, len)
            else do {
              (ok, out1, len) \<leftarrow> ucs4_from_utf8 inBuf inBufLen outBuf 0 0;
              Some (ok, out1, if ok then len else outBufLen) } }
      else if inBufLen mod 4 \<noteq> 0 then Some (False, outBuf, 0)
      else do {
        m \<leftarrow> utf8_measure inBuf inBufLen 0 0;
        case m of
          None \<Rightarrow> Some (False, outBuf, 0)
        | Some len \<Rightarrow> if len > maxOutBufLen then Some (False, outBuf, len)
            else do { (out1, len) \<leftarrow> utf8_from_ucs4 inBuf inBufLen outBuf 0 0; Some (True, out1, len) } })"

subsection \<open>UTF-16\<close>

partial_function (option) ucs2_measure :: "u8 list \<Rightarrow> u32 \<Rightarrow> u32 \<Rightarrow> u32 \<Rightarrow> u32 option option" where
  "ucs2_measure inBuf inBufLen i len = (if i < inBufLen then do {
     b \<leftarrow> rd inBuf (unat i);
     if b AND 0x80 = 0x00 then ucs2_measure inBuf inBufLen (i + 1) (len + 2)
     else if b AND 0xE0 = 0xC0 then ucs2_measure inBuf inBufLen (i + 2) (len + 2)
     else if b AND 0xF0 = 0xE0 then ucs2_measure inBuf inBufLen (i + 3) (len + 2)
     else if b AND 0xF8 = 0xF0 then ucs2_measure inBuf inBufLen (i + 4) (len + 4)
     else Some None } else Some (Some len))"

definition ucs2_bytes :: "u32 \<Rightarrow> u8 list" where
  "ucs2_bytes ucs4 =
     (if ucs4 < 0x10000 then [ucast (drop_bit 8 ucs4), ucast ucs4]
      else let u = ucs4 - 0x10000 in
        [ucast (0xD8 OR (drop_bit 18 u AND 0x3)), ucast (drop_bit 10 u), ucast (0xDC OR (drop_bit 8 u AND 0x3)), ucast u])"

partial_function (option) ucs2_from_utf8 :: "u8 list \<Rightarrow> u32 \<Rightarrow> u8 list \<Rightarrow> u32 \<Rightarrow> u32 \<Rightarrow> (bool \<times> u8 list \<times> u32) option" where
  "ucs2_from_utf8 inBuf inBufLen outBuf i len = (if i < inBufLen then do {
     (ucs4, i1) \<leftarrow> sec_port_read_utf8 i inBuf inBufLen;
     if ucs4 = BAD_UTF8 then Some (False, outBuf, len)
     else do {
       out1 \<leftarrow> put_at outBuf len (ucs2_bytes ucs4);
       ucs2_from_utf8 inBuf inBufLen out1 i1 (len + of_nat (length (ucs2_bytes ucs4))) } } else Some (True, outBuf, len))"

text \<open>The first pass from UTF-16, as written: its first test looks at the high byte twice, its test for a surrogate
  masks with \<open>0xDC\<close>, and it reads the byte after the pair before it asks whether there is one.\<close>

partial_function (option) utf16_measure :: "u8 list \<Rightarrow> u32 \<Rightarrow> u32 \<Rightarrow> u32 \<Rightarrow> u32 option option" where
  "utf16_measure inBuf inBufLen i len = (if i < inBufLen then do {
     h \<leftarrow> rd inBuf (unat i);
     if h = 0x00 \<and> h AND 0x80 = 0x00 then utf16_measure inBuf inBufLen (i + 2) (len + 1)
     else if h < 0x08 then utf16_measure inBuf inBufLen (i + 2) (len + 2)
     else if h AND 0xDC = 0xD8 then do {
       h2 \<leftarrow> rd inBuf (unat (i + 2));
       if h2 AND 0xDC = 0xDC \<and> inBufLen - i > 2 then utf16_measure inBuf inBufLen (i + 2 + 2) (len + 4)
       else Some None }
     else utf16_measure inBuf inBufLen (i + 2) (len + 3) } else Some (Some len))"

text \<open>The four bytes for a surrogate pair; \<open>abcde\<close> is an \<open>int\<close> of at most 16.\<close>

definition pair_bytes :: "u8 \<Rightarrow> u8 \<Rightarrow> u8 \<Rightarrow> u8 \<Rightarrow> u8 list" where
  "pair_bytes h l h2 l2 =
     (let BCDE = push_bit 2 (h AND 0x03) OR drop_bit 6 (l AND 0xC0); abcde = BCDE + 1 in
      [0xF0 OR drop_bit 2 (abcde AND 0x1C),
       0x80 OR push_bit 4 (abcde AND 0x03) OR drop_bit 2 (l AND 0x3C),
       0x80 OR push_bit 4 (l AND 0x03) OR push_bit 2 (h2 AND 0x03) OR drop_bit 6 (l2 AND 0xC0),
       0x80 OR (l2 AND 0x3F)])"

partial_function (option) utf8_from_utf16 :: "u8 list \<Rightarrow> u32 \<Rightarrow> u8 list \<Rightarrow> u32 \<Rightarrow> u32 \<Rightarrow> (u8 list \<times> u32) option" where
  "utf8_from_utf16 inBuf inBufLen outBuf i len = (if i < inBufLen then do {
     h \<leftarrow> rd inBuf (unat i);
     l \<leftarrow> rd inBuf (unat (i + 1));
     if h = 0x00 \<and> l AND 0x80 = 0x00 then do {
       out1 \<leftarrow> put_at outBuf len [l AND 0x7F];
       utf8_from_utf16 inBuf inBufLen out1 (i + 2) (len + 1) }
     else if h < 0x08 then do {
       out1 \<leftarrow> put_at outBuf len [0xC0 OR push_bit 2 (h AND 0x07) OR drop_bit 6 (l AND 0xC0), 0x80 OR (l AND 0x3F)];
       utf8_from_utf16 inBuf inBufLen out1 (i + 2) (len + 2) }
     else if h AND 0xDC = 0xD8 then do {
       h2 \<leftarrow> rd inBuf (unat (i + 2));
       l2 \<leftarrow> rd inBuf (unat (i + 2 + 1));
       out1 \<leftarrow> put_at outBuf len (pair_bytes h l h2 l2);
       utf8_from_utf16 inBuf inBufLen out1 (i + 2 + 2) (len + 4) }
     else do {
       out1 \<leftarrow> put_at outBuf len [0xE0 OR drop_bit 4 (h AND 0xF0),
         0x80 OR push_bit 2 (h AND 0x0F) OR drop_bit 6 (l AND 0xC0), 0x80 OR (l AND 0x3F)];
       utf8_from_utf16 inBuf inBufLen out1 (i + 2) (len + 3) } } else Some (outBuf, len))"

definition sec_port_ucs2_utf8_conversion_function ::
  "bool \<Rightarrow> u8 list \<Rightarrow> u32 \<Rightarrow> u8 list \<Rightarrow> u32 \<Rightarrow> u32 \<Rightarrow> (bool \<times> u8 list \<times> u32) option" where
  "sec_port_ucs2_utf8_conversion_function toUnicode inBuf inBufLen outBuf maxOutBufLen outBufLen =
     (if toUnicode then do {
        m \<leftarrow> ucs2_measure inBuf inBufLen 0 0;
        case m of
          None \<Rightarrow> Some (False, outBuf, outBufLen)
        | Some len \<Rightarrow> if len > maxOutBufLen then Some (False, outBuf, len)
            else do {
              (ok, out1, len) \<leftarrow> ucs2_from_utf8 inBuf inBufLen outBuf 0 0;
              Some (ok, out1, if ok then len else outBufLen) } }
      else if inBufLen mod 2 \<noteq> 0 then Some (False, outBuf, 0)
      else do {
        m \<leftarrow> utf16_measure inBuf inBufLen 0 0;
        case m of
          None \<Rightarrow> Some (False, outBuf, outBufLen)
        | Some len \<Rightarrow> if len > maxOutBufLen then Some (False, outBuf, len)
            else do { (out1, len) \<leftarrow> utf8_from_utf16 inBuf inBufLen outBuf 0 0; Some (True, out1, len) } })"

subsection \<open>ISO 8859-1\<close>

partial_function (option) latin1_measure :: "u8 list \<Rightarrow> u32 \<Rightarrow> u32 \<Rightarrow> u32 \<Rightarrow> u32 option" where
  "latin1_measure inBuf inBufLen i len = (if i < inBufLen then do {
     b \<leftarrow> rd inBuf (unat i);
     latin1_measure inBuf inBufLen (i + 1) (if b AND 0x80 = 0x00 then len + 1 else len + 2) } else Some len)"

partial_function (option) utf8_from_latin1 :: "u8 list \<Rightarrow> u32 \<Rightarrow> u8 list \<Rightarrow> u32 \<Rightarrow> u32 \<Rightarrow> (u8 list \<times> u32) option" where
  "utf8_from_latin1 inBuf inBufLen outBuf i len = (if i < inBufLen then do {
     b \<leftarrow> rd inBuf (unat i);
     if b AND 0x80 = 0x00 then do {
       out1 \<leftarrow> put_at outBuf len [b];
       utf8_from_latin1 inBuf inBufLen out1 (i + 1) (len + 1) }
     else do {
       out1 \<leftarrow> put_at outBuf len [0xC0 OR drop_bit 6 (b AND 0xC0), 0x80 OR (b AND 0x3F)];
       utf8_from_latin1 inBuf inBufLen out1 (i + 1) (len + 2) } } else Some (outBuf, len))"

definition sec_port_iso88591_utf8_conversion_function ::
  "u8 list \<Rightarrow> u32 \<Rightarrow> u8 list \<Rightarrow> u32 \<Rightarrow> u32 \<Rightarrow> (bool \<times> u8 list \<times> u32) option" where
  "sec_port_iso88591_utf8_conversion_function inBuf inBufLen outBuf maxOutBufLen outBufLen = do {
     len \<leftarrow> latin1_measure inBuf inBufLen 0 0;
     if len > maxOutBufLen then Some (False, outBuf, len)
     else do { (out1, len) \<leftarrow> utf8_from_latin1 inBuf inBufLen outBuf 0 0; Some (True, out1, len) } }"

end
