(* ===== verification/Nss_Utf8_Char.thy ===== *)
theory Nss_Utf8_Char
  imports Nss_Utf8
begin

text \<open>
  The encoding form UTF-8 (\<open>utf8\<close>, for the codes that are \<open>scalar\<close> values), the reading of one character from a list
  (\<open>char_of\<close>), which is its inverse, and the proof that \<open>sec_port_read_utf8\<close> reads as \<open>char_of\<close> does.
\<close>

subsection \<open>Leading and trailing bytes\<close>

lemma lead_tests:
  fixes b :: u8
  shows "b AND 0x80 = 0 \<longleftrightarrow> unat b < 128" "b AND 0xE0 = 0xC0 \<longleftrightarrow> 192 \<le> unat b \<and> unat b < 224"
    "b AND 0xF0 = 0xE0 \<longleftrightarrow> 224 \<le> unat b \<and> unat b < 240" "b AND 0xF8 = 0xF0 \<longleftrightarrow> 240 \<le> unat b \<and> unat b < 248"
    "b AND 0xC0 = 0x80 \<longleftrightarrow> 128 \<le> unat b \<and> unat b < 192"
proof -
  have c: "push_bit 7 (- 1) = (0x80 :: u8)" "push_bit 7 0 = (0 :: u8)" "push_bit 5 (- 1) = (0xE0 :: u8)" "push_bit 5 6 = (0xC0 :: u8)"
    "push_bit 4 (- 1) = (0xF0 :: u8)" "push_bit 4 14 = (0xE0 :: u8)" "push_bit 3 (- 1) = (0xF8 :: u8)" "push_bit 3 30 = (0xF0 :: u8)"
    "push_bit 6 (- 1) = (0xC0 :: u8)" "push_bit 6 2 = (0x80 :: u8)" by code_simp+
  have "b AND 0x80 = 0 \<longleftrightarrow> unat b div 128 = 0" "b AND 0xE0 = 0xC0 \<longleftrightarrow> unat b div 32 = 6"
    "b AND 0xF0 = 0xE0 \<longleftrightarrow> unat b div 16 = 14" "b AND 0xF8 = 0xF0 \<longleftrightarrow> unat b div 8 = 30" "b AND 0xC0 = 0x80 \<longleftrightarrow> unat b div 64 = 2"
    using high_bits [where k = 7 and m = 0 and b = b] high_bits [where k = 5 and m = 6 and b = b]
      high_bits [where k = 4 and m = 14 and b = b] high_bits [where k = 3 and m = 30 and b = b]
      high_bits [where k = 6 and m = 2 and b = b]
    unfolding c by simp_all
  then show "b AND 0x80 = 0 \<longleftrightarrow> unat b < 128" "b AND 0xE0 = 0xC0 \<longleftrightarrow> 192 \<le> unat b \<and> unat b < 224"
    "b AND 0xF0 = 0xE0 \<longleftrightarrow> 224 \<le> unat b \<and> unat b < 240" "b AND 0xF8 = 0xF0 \<longleftrightarrow> 240 \<le> unat b \<and> unat b < 248"
    "b AND 0xC0 = 0x80 \<longleftrightarrow> 128 \<le> unat b \<and> unat b < 192" by (simp_all add: div_interval)
qed

lemma unat_masked_u8:
  fixes b :: u8
  shows "unat (b AND 0x1F) = unat b mod 32" "unat (b AND 0x0F) = unat b mod 16" "unat (b AND 0x07) = unat b mod 8"
    "unat (b AND 0x3F) = unat b mod 64" "unat (b AND 0x7F) = unat b mod 128" "unat (b AND 0x03) = unat b mod 4"
  using unat_and_mask [of b 5] unat_and_mask [of b 4] unat_and_mask [of b 3] unat_and_mask [of b 6] unat_and_mask [of b 7] unat_and_mask [of b 2]
  by (simp_all add: mask_eq_exp_minus_1)

lemma surrogate_test: "(w :: u32) AND 0xFFFFF800 = 0xD800 \<longleftrightarrow> 0xD800 \<le> unat w \<and> unat w < 0xE000"
proof -
  have "push_bit 11 (- 1) = (0xFFFFF800 :: u32)" "push_bit 11 27 = (0xD800 :: u32)" by code_simp+
  then have "w AND 0xFFFFF800 = 0xD800 \<longleftrightarrow> unat w div 2048 = 27"
    using high_bits [where k = 11 and m = 27 and b = w] by simp
  then show ?thesis by (simp add: div_interval)
qed

subsection \<open>The encoding forms of Unicode\<close>

definition scalar :: "nat \<Rightarrow> bool" where
  "scalar c \<longleftrightarrow> c < 0xD800 \<or> 0xE000 \<le> c \<and> c \<le> 0x10FFFF"

definition utf8 :: "nat \<Rightarrow> u8 list" where
  "utf8 c =
     (if c < 0x80 then [of_nat c]
      else if c < 0x800 then [of_nat (0xC0 + c div 64), of_nat (0x80 + c mod 64)]
      else if c < 0x10000 then [of_nat (0xE0 + c div 4096), of_nat (0x80 + c div 64 mod 64), of_nat (0x80 + c mod 64)]
      else [of_nat (0xF0 + c div 262144), of_nat (0x80 + c div 4096 mod 64), of_nat (0x80 + c div 64 mod 64), of_nat (0x80 + c mod 64)])"

definition cont :: "u8 \<Rightarrow> bool" where
  "cont b \<longleftrightarrow> 128 \<le> unat b \<and> unat b < 192"

fun char_of :: "u8 list \<Rightarrow> (nat \<times> nat) option" where
  "char_of [] = None"
| "char_of (b0 # r) =
     (if unat b0 < 128 then Some (unat b0, 1)
      else if unat b0 < 192 then None
      else if unat b0 < 224 then (case r of
          b1 # _ \<Rightarrow> let c = (unat b0 - 192) * 64 + (unat b1 - 128) in if cont b1 \<and> 0x80 \<le> c then Some (c, 2) else None
        | _ \<Rightarrow> None)
      else if unat b0 < 240 then (case r of
          b1 # b2 # _ \<Rightarrow> let c = ((unat b0 - 224) * 64 + (unat b1 - 128)) * 64 + (unat b2 - 128) in
            if cont b1 \<and> cont b2 \<and> 0x800 \<le> c \<and> scalar c then Some (c, 3) else None
        | _ \<Rightarrow> None)
      else if unat b0 < 248 then (case r of
          b1 # b2 # b3 # _ \<Rightarrow>
            let c = (((unat b0 - 240) * 64 + (unat b1 - 128)) * 64 + (unat b2 - 128)) * 64 + (unat b3 - 128) in
            if cont b1 \<and> cont b2 \<and> cont b3 \<and> 0x10000 \<le> c \<and> scalar c then Some (c, 4) else None
        | _ \<Rightarrow> None)
      else None)"

lemma digit64:
  assumes "t < 64" "c = a * 64 + t"
  shows "c div 64 = a" "c mod 64 = (t :: nat)"
  using assms by simp_all

lemma char_of_utf8:
  assumes "scalar c"
  shows "char_of (utf8 c @ r) = Some (c, length (utf8 c))"
proof -
  consider "c < 0x80" | "0x80 \<le> c" "c < 0x800" | "0x800 \<le> c" "c < 0x10000" | "0x10000 \<le> c" "c \<le> 0x10FFFF"
    using assms unfolding scalar_def by linarith
  then show ?thesis
  proof cases
    case 1
    then show ?thesis by (simp add: utf8_def unat_of_nat_u8)
  next
    case 2
    define p q where "p = c div 64" and "q = c mod 64"
    have "p < 32" "q < 64" "p * 64 + q = c" using 2 by (auto simp: p_def q_def less_mult_imp_div_less)
    then show ?thesis using 2
      by (simp add: utf8_def unat_of_nat_u8 cont_def Let_def flip: p_def q_def del: of_nat_add)
  next
    case 3
    define p q t where "p = c div 4096" and "q = c div 64 mod 64" and "t = c mod 64"
    have "p < 16" "q < 64" "t < 64" using 3 by (auto simp: p_def q_def t_def less_mult_imp_div_less)
    moreover have "(p * 64 + q) * 64 + t = c"
      using div_mult_mod_eq [of c 64] div_mult_mod_eq [of "c div 64" 64] unfolding p_def q_def t_def
      by (simp add: div_mult2_eq [symmetric])
    ultimately show ?thesis using 3 assms
      by (simp add: utf8_def unat_of_nat_u8 cont_def Let_def flip: p_def q_def t_def del: of_nat_add)
  next
    case 4
    define p q t u where "p = c div 262144" and "q = c div 4096 mod 64" and "t = c div 64 mod 64" and "u = c mod 64"
    have "p < 8" "q < 64" "t < 64" "u < 64" using 4 by (auto simp: p_def q_def t_def u_def less_mult_imp_div_less)
    moreover have "((p * 64 + q) * 64 + t) * 64 + u = c"
      using div_mult_mod_eq [of c 64] div_mult_mod_eq [of "c div 64" 64] div_mult_mod_eq [of "c div 4096" 64]
      unfolding p_def q_def t_def u_def by (simp add: div_mult2_eq [symmetric])
    ultimately show ?thesis using 4 assms
      by (simp add: utf8_def unat_of_nat_u8 cont_def Let_def flip: p_def q_def t_def u_def del: of_nat_add)
  qed
qed

lemma cont_byte: "cont b \<Longrightarrow> (of_nat (0x80 + (unat b - 128)) :: u8) = b" "cont b \<Longrightarrow> unat b - 128 < 64"
  by (auto simp: cont_def)

lemma utf8_of_char:
  assumes "char_of bs = Some (c, k)"
  shows "\<exists>r. bs = utf8 c @ r \<and> scalar c \<and> k = length (utf8 c)"
proof (cases bs)
  case (Cons b0 r)
  show ?thesis
  proof (cases "unat b0 < 128")
    case True
    then show ?thesis using assms Cons by (auto simp: utf8_def scalar_def)
  next
    case False
    consider b1 r1 where "unat b0 \<ge> 192" "unat b0 < 224" "r = b1 # r1" "cont b1" "c = (unat b0 - 192) * 64 + (unat b1 - 128)" "0x80 \<le> c" "k = 2"
      | b1 b2 r1 where "unat b0 \<ge> 224" "unat b0 < 240" "r = b1 # b2 # r1" "cont b1" "cont b2"
        "c = ((unat b0 - 224) * 64 + (unat b1 - 128)) * 64 + (unat b2 - 128)" "0x800 \<le> c" "scalar c" "k = 3"
      | b1 b2 b3 r1 where "unat b0 \<ge> 240" "unat b0 < 248" "r = b1 # b2 # b3 # r1" "cont b1" "cont b2" "cont b3"
        "c = (((unat b0 - 240) * 64 + (unat b1 - 128)) * 64 + (unat b2 - 128)) * 64 + (unat b3 - 128)" "0x10000 \<le> c" "scalar c" "k = 4"
      using assms Cons False by (auto simp: Let_def split: if_splits list.splits)
    then show ?thesis
    proof cases
      case (1 b1 r1)
      define p q where "p = unat b0 - 192" and "q = unat b1 - 128"
      have pq: "p < 32" "q < 64" "of_nat (192 + p) = b0" "of_nat (128 + q) = b1" "c = p * 64 + q"
        using 1 cont_byte [of b1] by (simp_all add: p_def q_def)
      have d: "c div 64 = p" "c mod 64 = q" using pq by simp_all
      have "c < 2048" using pq by linarith
      then have "utf8 c = [b0, b1]" using 1(6) unfolding utf8_def d by (simp only: pq) simp
      then show ?thesis using 1 Cons \<open>c < 2048\<close> by (simp add: scalar_def)
    next
      case (2 b1 b2 r1)
      define p q t where "p = unat b0 - 224" and "q = unat b1 - 128" and "t = unat b2 - 128"
      have pq: "p < 16" "q < 64" "t < 64" "of_nat (224 + p) = b0" "of_nat (128 + q) = b1" "of_nat (128 + t) = b2" "c = (p * 64 + q) * 64 + t"
        using 2 cont_byte [of b1] cont_byte [of b2] by (simp_all add: p_def q_def t_def)
      note d = digit64 [OF pq(3,7)]
      have d': "c div 4096 = p" "c div 64 mod 64 = q" using digit64 [OF pq(2) d(1)] div_mult2_eq [of c 64 64] by simp_all
      have "p * 64 + q < 1024" using pq by linarith
      then have "c < 65536" using pq by simp
      then have "utf8 c = [b0, b1, b2]" using 2(7) unfolding utf8_def d' d(2) by (simp only: pq) simp
      then show ?thesis using 2 Cons by simp
    next
      case (3 b1 b2 b3 r1)
      define p q t u where "p = unat b0 - 240" and "q = unat b1 - 128" and "t = unat b2 - 128" and "u = unat b3 - 128"
      have pq: "p < 8" "q < 64" "t < 64" "u < 64" "of_nat (240 + p) = b0" "of_nat (128 + q) = b1" "of_nat (128 + t) = b2"
        "of_nat (128 + u) = b3" "c = ((p * 64 + q) * 64 + t) * 64 + u"
        using 3(1,2,4-7) cont_byte [of b1] cont_byte [of b2] cont_byte [of b3] unfolding p_def q_def t_def u_def
        by (simp_all only:) simp_all
      note d = digit64 [OF pq(4,9)]
      have e: "c div 4096 = p * 64 + q" "c div 64 mod 64 = t" using digit64 [OF pq(3) d(1)] div_mult2_eq [of c 64 64] by simp_all
      have d': "c div 262144 = p" "c div 4096 mod 64 = q" using digit64 [OF pq(2) e(1)] div_mult2_eq [of c 4096 64] by simp_all
      have "utf8 c = [b0, b1, b2, b3]" using 3(8) unfolding utf8_def d' e(2) d(2) by (simp only: pq) simp
      then show ?thesis using 3 Cons by simp
    qed
  qed
qed (use assms in simp)


subsection \<open>The reader\<close>

text \<open>The bytes still to be read, from index \<open>i\<close>.\<close>

definition ahead :: "u8 list \<Rightarrow> u32 \<Rightarrow> u32 \<Rightarrow> u8 list \<Rightarrow> bool" where
  "ahead s n i bs \<longleftrightarrow> unat n \<le> length s \<and> unat i \<le> unat n \<and> bs = drop (unat i) (take (unat n) s)"

lemma ahead_start: "unat n \<le> length s \<Longrightarrow> ahead s n 0 (take (unat n) s)"
  by (simp add: ahead_def)

lemma ahead_Nil: "ahead s n i [] \<Longrightarrow> \<not> i < n"
  by (auto simp: ahead_def word_less_nat_alt)

lemma ahead_length: "ahead s n i bs \<Longrightarrow> unat i + length bs = unat n"
  by (auto simp: ahead_def)

lemma ahead_Cons:
  assumes "ahead s n i (b # bs)"
  shows "i < n" "rd s (unat i) = Some b" "ahead s n (i + 1) bs"
proof -
  have l: "unat i + Suc (length bs) = unat n" using ahead_length [OF assms] by simp
  have "unat (i + 1) = Suc (unat i)" using l unat_u32_less [of n] by (simp add: unat_word_ariths)
  moreover have d: "b # bs = drop (unat i) (take (unat n) s)" "unat n \<le> length s" using assms by (simp_all add: ahead_def)
  moreover have "bs = drop (Suc (unat i)) (take (unat n) s)" using d(1) by (metis drop_Suc list.sel(3) tl_drop)
  ultimately show "ahead s n (i + 1) bs" using l by (simp add: ahead_def)
  have "take (unat n) s ! unat i = b" using d(1) by (metis hd_drop_conv_nth length_drop length_greater_0_conv list.discI list.sel(1) zero_less_diff)
  then show "rd s (unat i) = Some b" using l d by (simp add: rd_def)
  show "i < n" using l by (simp add: word_less_nat_alt)
qed

lemma ahead_append: "ahead s n i (as @ bs) \<Longrightarrow> ahead s n (i + of_nat (length as)) bs"
proof (induction as arbitrary: i)
  case (Cons a as)
  have "ahead s n (i + 1) (as @ bs)" using Cons.prems ahead_Cons(3) by simp
  then show ?case using Cons.IH [of "i + 1"] by (simp add: add.assoc)
qed simp

lemma trail_Nil: "ahead s n i [] \<Longrightarrow> trail (Suc k) r i s n = Some None"
  by (auto dest: ahead_Nil)

lemma trail_Cons:
  assumes "ahead s n i (b # bs)" and "unat r < 2 ^ 26"
  shows "trail (Suc k) r i s n = (if cont b then trail k (of_nat (unat r * 64 + (unat b - 128))) (i + 1) s n else Some None)"
proof -
  note a = ahead_Cons [OF assms(1)]
  have "unat (push_bit 6 r OR ucast (b AND 0x3F)) = unat r * 64 + unat b mod 64"
    using unat_shift_or [of r 6 "ucast (b AND 0x3F)"] assms(2) by (simp add: unat_masked_u8)
  moreover have "unat b mod 64 = unat b - 128" if "cont b"
  proof -
    have "unat b = unat b - 128 + 2 * 64" "unat b - 128 < 64" using that by (auto simp: cont_def)
    then show ?thesis by (metis mod_less mod_mult_self1)
  qed
  ultimately have "cont b \<Longrightarrow> push_bit 6 r OR ucast (b AND 0x3F) = of_nat (unat r * 64 + (unat b - 128))"
    by (metis of_nat_u32)
  moreover have "\<not> n \<le> i" using a(1) by simp
  ultimately show ?thesis using a by (simp add: lead_tests cont_def)
qed

lemma of_nat_tests:
  assumes "k < 2 ^ 32"
  shows "(of_nat k :: u32) < 0x80 \<longleftrightarrow> k < 0x80" "(of_nat k :: u32) < 0x800 \<longleftrightarrow> k < 0x800" "(of_nat k :: u32) < 0x10000 \<longleftrightarrow> k < 0x10000"
    "of_nat k AND (0xFFFFF800 :: u32) = 0xD800 \<longleftrightarrow> 0xD800 \<le> k \<and> k < 0xE000" "0x10FFFF < (of_nat k :: u32) \<longleftrightarrow> 0x10FFFF < k"
  using unat_of_nat_u32 [OF assms] unfolding surrogate_test by (simp_all add: word_less_nat_alt)

fun joined :: "nat \<Rightarrow> u8 list \<Rightarrow> nat" where
  "joined v [] = v"
| "joined v (b # bs) = joined (v * 64 + (unat b - 128)) bs"

lemma joined_step: "(v + 1) * 64 ^ Suc k \<le> m \<Longrightarrow> cont b \<Longrightarrow> (v * 64 + (unat b - 128) + 1) * 64 ^ k \<le> m"
proof -
  assume v: "(v + 1) * 64 ^ Suc k \<le> m" and "cont b"
  then have "v * 64 + (unat b - 128) + 1 \<le> (v + 1) * 64" by (auto simp: cont_def)
  then have "(v * 64 + (unat b - 128) + 1) * 64 ^ k \<le> (v + 1) * 64 * 64 ^ k" by (rule mult_le_mono1)
  then show ?thesis using v by (simp add: algebra_simps)
qed

lemma joined_bound: "list_all cont bs \<Longrightarrow> (v + 1) * 64 ^ length bs \<le> m \<Longrightarrow> joined v bs < m"
proof (induction bs arbitrary: v)
  case (Cons b bs)
  then show ?case using joined_step [of v "length bs" m b] by simp
qed simp

lemma trail_spec:
  assumes "ahead s n i bs" "(v + 1) * 64 ^ k \<le> 2 ^ 32"
  shows "trail k (of_nat v) i s n = Some (if k \<le> length bs \<and> list_all cont (take k bs)
    then Some (of_nat (joined v (take k bs)), i + of_nat k) else None)"
  using assms
proof (induction k arbitrary: v i bs)
  case (Suc k)
  show ?case
  proof (cases bs)
    case Nil
    then show ?thesis using Suc.prems trail_Nil by simp
  next
    case (Cons b r)
    have p: "(1 :: nat) \<le> 64 ^ k" by simp
    have "(v + 1) * 64 * 1 \<le> (v + 1) * 64 * 64 ^ k" by (rule mult_le_mono2 [OF p])
    then have "(v + 1) * 64 \<le> 2 ^ 32" using Suc.prems(2) unfolding power_Suc mult.assoc [symmetric] by linarith
    then have v: "v < 2 ^ 26" by simp
    then have u: "unat (of_nat v :: u32) = v" by (intro unat_of_nat_u32) simp
    have r: "ahead s n (i + 1) r" using Suc.prems(1) ahead_Cons(3) Cons by blast
    have t: "trail (Suc k) (of_nat v) i s n = (if cont b then trail k (of_nat (v * 64 + (unat b - 128))) (i + 1) s n else Some None)"
      using trail_Cons [of s n i b r "of_nat v" k] Suc.prems(1) Cons unfolding u using v by blast
    show ?thesis
    proof (cases "cont b")
      case True
      show ?thesis using Suc.IH [OF r joined_step [OF Suc.prems(2) True]] True by (simp add: t Cons add.assoc del: trail.simps)
    next
      case False
      then show ?thesis by (simp add: t Cons del: trail.simps)
    qed
  qed
qed simp

lemma read_from:
  assumes a: "ahead s n i (b0 # r)" and v: "(v + 1) * 64 ^ k \<le> 2 ^ 32"
    and st: "lead b0 = Some (of_nat v, k, of_nat m)" and m: "m < 2 ^ 32"
  shows "sec_port_read_utf8 i s n = Some (if k \<le> length r \<and> list_all cont (take k r) \<and> m \<le> joined v (take k r) \<and> scalar (joined v (take k r))
    then (of_nat (joined v (take k r)), i + of_nat (Suc k)) else (BAD_UTF8, i))"
proof -
  note a0 = ahead_Cons [OF a]
  define x where "x = joined v (take k r)"
  have e: "sec_port_read_utf8 i s n = (case if k \<le> length r \<and> list_all cont (take k r)
      then Some (of_nat x, i + 1 + of_nat k) else None of
      None \<Rightarrow> Some (BAD_UTF8, i) | Some (result, i') \<Rightarrow>
             if result < of_nat m \<or> result AND 0xFFFFF800 = 0xD800 \<or> result > 0x10FFFF then Some (BAD_UTF8, i)
             else Some (result, i'))"
    unfolding sec_port_read_utf8_def a0(2) bind.bind_lunit Let_def st option.case prod.case trail_spec [OF a0(3) v] x_def ..
  show ?thesis
  proof (cases "k \<le> length r \<and> list_all cont (take k r)")
    case True
    then have "x < 2 ^ 32" using joined_bound [of "take k r" v "2 ^ 32"] v by (simp add: x_def)
    moreover from this have "(of_nat x :: u32) < of_nat m \<longleftrightarrow> x < m" using m by (simp add: word_less_nat_alt unat_of_nat_u32)
    ultimately show ?thesis using True of_nat_tests [of x] unfolding e x_def [symmetric] scalar_def
      by (simp add: add.assoc not_less)
  qed (use e in auto)
qed

lemma lead_byte:
  "unat b < 128 \<Longrightarrow> lead b = Some (of_nat (unat b), 0, of_nat 0)"
  "128 \<le> unat b \<Longrightarrow> unat b < 192 \<Longrightarrow> lead b = None"
  "192 \<le> unat b \<Longrightarrow> unat b < 224 \<Longrightarrow> lead b = Some (of_nat (unat b - 192), 1, of_nat 0x80)"
  "224 \<le> unat b \<Longrightarrow> unat b < 240 \<Longrightarrow> lead b = Some (of_nat (unat b - 224), 2, of_nat 0x800)"
  "240 \<le> unat b \<Longrightarrow> unat b < 248 \<Longrightarrow> lead b = Some (of_nat (unat b - 240), 3, of_nat 0x10000)"
  "248 \<le> unat b \<Longrightarrow> lead b = None"
proof -
  have v: "(ucast b :: u32) = of_nat (unat b)" "(ucast (b AND 0x1F) :: u32) = of_nat (unat b mod 32)"
    "(ucast (b AND 0x0F) :: u32) = of_nat (unat b mod 16)" "(ucast (b AND 0x07) :: u32) = of_nat (unat b mod 8)"
    by (simp_all only: word_unat_eq_iff unat_ucast_8_32 unat_masked_u8) (use unat_u8_less [of b] in \<open>simp_all add: unat_of_nat\<close>)
  have m: "k \<le> unat b \<Longrightarrow> unat b < k + n \<Longrightarrow> k mod n = 0 \<Longrightarrow> unat b mod n = unat b - k" for k n
    by (metis add_diff_inverse_nat add_0 le_add_diff_inverse mod_add_left_eq mod_less nat_add_left_cancel_less not_less)
  show "unat b < 128 \<Longrightarrow> lead b = Some (of_nat (unat b), 0, of_nat 0)" by (simp add: lead_def lead_tests)
  show "192 \<le> unat b \<Longrightarrow> unat b < 224 \<Longrightarrow> lead b = Some (of_nat (unat b - 192), 1, of_nat 0x80)"
    using m [of 192 32] by (simp add: lead_def lead_tests v(2))
  show "224 \<le> unat b \<Longrightarrow> unat b < 240 \<Longrightarrow> lead b = Some (of_nat (unat b - 224), 2, of_nat 0x800)"
    using m [of 224 16] by (simp add: lead_def lead_tests v(3))
  show "240 \<le> unat b \<Longrightarrow> unat b < 248 \<Longrightarrow> lead b = Some (of_nat (unat b - 240), 3, of_nat 0x10000)"
    using m [of 240 8] by (simp add: lead_def lead_tests v(4))
qed (simp_all add: lead_def lead_tests)

lemma read_char:
  assumes a: "ahead s n i bs" and ne: "bs \<noteq> []"
  shows "sec_port_read_utf8 i s n = Some (case char_of bs of None \<Rightarrow> (BAD_UTF8, i) | Some (c, k) \<Rightarrow> (of_nat c, i + of_nat k))"
proof -
  obtain b0 r where bs: "bs = b0 # r" using ne by (cases bs) auto
  note a0 = a [unfolded bs]
  have l: "i < n" "rd s (unat i) = Some b0" by (rule ahead_Cons [OF a0])+
  have b0: "unat b0 < 256" by (rule unat_u8_less)
  consider "unat b0 < 128" | "128 \<le> unat b0" "unat b0 < 192" | "248 \<le> unat b0" | "192 \<le> unat b0" "unat b0 < 224"
    | "224 \<le> unat b0" "unat b0 < 240" | "240 \<le> unat b0" "unat b0 < 248" by linarith
  then show ?thesis
  proof cases
    case 1
    then show ?thesis using read_from [OF a0 _ lead_byte(1) [OF 1]] by (simp add: bs scalar_def)
  next
    case 4
    have "(unat b0 - 192) * 64 \<le> 32 * 64" using 4 by (intro mult_le_mono1) simp
    then have "cont x \<Longrightarrow> (unat b0 - 192) * 64 + (unat x - 128) < 55296" for x by (auto simp: cont_def)
    then show ?thesis using 4 read_from [OF a0 _ lead_byte(3) [OF 4]]
      by (simp add: bs Let_def scalar_def split: list.split)
  next
    case 5
    have v: "(unat b0 - 224 + 1) * 64 ^ 2 \<le> 2 ^ 32" and m: "(0x800 :: nat) < 2 ^ 32" using 5 by simp_all
    show ?thesis using 5 read_from [OF a0 v lead_byte(4) [OF 5] m]
      by (simp add: bs Let_def numeral_2_eq_2 numeral_3_eq_3 split: list.split)
  next
    case 6
    have v: "(unat b0 - 240 + 1) * 64 ^ 3 \<le> 2 ^ 32" and m: "(0x10000 :: nat) < 2 ^ 32" using 6 by simp_all
    show ?thesis using 6 read_from [OF a0 v lead_byte(5) [OF 6] m]
      by (simp add: bs Let_def numeral_2_eq_2 numeral_3_eq_3 split: list.split)
  qed (use l in \<open>auto simp: sec_port_read_utf8_def bs lead_byte\<close>)
qed

subsection \<open>Writing\<close>

lemma put_at_append:
  assumes "length pre = unat len" "unat len + length bs < 2 ^ 32"
  shows "put_at (pre @ rest) len bs = (if length bs \<le> length rest then Some (pre @ bs @ drop (length bs) rest) else None)"
  using assms
proof (induction bs arbitrary: pre rest len)
  case (Cons b bs)
  show ?case
  proof (cases rest)
    case Nil
    then show ?thesis using Cons.prems by (simp add: wr_def)
  next
    case (Cons r rs)
    have u: "unat (len + 1) = Suc (unat len)" using Cons.prems by (simp add: unat_word_ariths)
    have w: "wr (pre @ r # rs) (unat len) b = Some ((pre @ [b]) @ rs)" using Cons.prems by (simp add: wr_def flip: Cons.prems(1))
    have "put_at ((pre @ [b]) @ rs) (len + 1) bs = (if length bs \<le> length rs then Some ((pre @ [b]) @ bs @ drop (length bs) rs) else None)"
      by (rule Cons.IH) (use u Cons.prems in simp_all)
    then show ?thesis using w by (simp add: Cons)
  qed
qed simp

lemma utf8_length: "1 \<le> length (utf8 c)" "length (utf8 c) \<le> 4"
  by (simp_all add: utf8_def)

text \<open>Every list of bytes is a text in UTF-8 followed by nothing, or by bytes that begin no character.\<close>

lemma split_text:
  obtains cs bad where "\<forall>c\<in>set cs. scalar c" "bs = concat (map utf8 cs) @ bad" "bad = [] \<or> char_of bad = None"
proof (induction "length bs" arbitrary: bs thesis rule: less_induct)
  case less
  show ?case
  proof (cases "char_of bs")
    case None
    then show ?thesis using less.prems [of "[]" bs] by simp
  next
    case (Some ck)
    obtain c k where ck: "ck = (c, k)" by (cases ck)
    obtain r where r: "bs = utf8 c @ r" "scalar c" using utf8_of_char Some ck by blast
    have "length r < length bs" using r utf8_length(1) [of c] by (simp add: Suc_le_eq)
    then obtain cs bad where "\<forall>c\<in>set cs. scalar c" "r = concat (map utf8 cs) @ bad" "bad = [] \<or> char_of bad = None"
      using less.hyps by blast
    then show ?thesis using less.prems [of "c # cs" bad] r by simp
  qed
qed

definition well_formed :: "u8 list \<Rightarrow> bool" where
  "well_formed bs \<longleftrightarrow> (\<exists>cs. (\<forall>c\<in>set cs. scalar c) \<and> bs = concat (map utf8 cs))"

lemma utf8_nonempty: "utf8 c \<noteq> []"
  using utf8_length(1) [of c] by auto

lemma text_prefix:
  assumes "\<forall>c\<in>set cs. scalar c" "\<forall>c\<in>set ds. scalar c" "concat (map utf8 cs) @ bad = concat (map utf8 ds)" "bad = [] \<or> char_of bad = None"
  shows "cs = ds \<and> bad = []"
  using assms
proof (induction cs arbitrary: ds)
  case Nil
  show ?case
  proof (cases ds)
    case (Cons d ds')
    then have b: "bad = utf8 d @ concat (map utf8 ds')" using Nil.prems(3) by simp
    have "char_of bad = Some (d, length (utf8 d))" unfolding b using Nil.prems(2) Cons by (intro char_of_utf8) simp
    then show ?thesis using Nil.prems(4) b utf8_nonempty [of d] by simp
  qed (use Nil in simp)
next
  case (Cons c cs)
  have 1: "char_of (concat (map utf8 (c # cs)) @ bad) = Some (c, length (utf8 c))"
    using Cons.prems(1) char_of_utf8 [of c "concat (map utf8 cs) @ bad"] by simp
  show ?case
  proof (cases ds)
    case Nil
    then show ?thesis using Cons.prems utf8_nonempty [of c] by simp
  next
    case (Cons d ds')
    then have "char_of (concat (map utf8 ds)) = Some (d, length (utf8 d))"
      using Cons.prems(2) char_of_utf8 [of d "concat (map utf8 ds')"] by simp
    then have "c = d" using 1 Cons.prems(3) by simp
    then show ?thesis using Cons.IH [of ds'] Cons.prems Cons by simp
  qed
qed

text \<open>A text is read in one way only.\<close>

lemma utf8_unique:
  "\<forall>c\<in>set cs. scalar c \<Longrightarrow> \<forall>c\<in>set ds. scalar c \<Longrightarrow> concat (map utf8 cs) = concat (map utf8 ds) \<Longrightarrow> cs = ds"
  using text_prefix [of cs ds "[]"] by simp

lemma lead_utf8:
  assumes "scalar c"
  shows "\<exists>b r v m. utf8 c = b # r \<and> lead b = Some (v, length r, m)"
proof -
  consider "c < 0x80" | "0x80 \<le> c" "c < 0x800" | "0x800 \<le> c" "c < 0x10000" | "0x10000 \<le> c" "c \<le> 0x10FFFF"
    using assms unfolding scalar_def by linarith
  then show ?thesis
  proof cases
    case 1
    then show ?thesis using lead_byte(1) [of "of_nat c"] by (simp add: utf8_def unat_of_nat_u8)
  next
    case 2
    then have "c div 64 < 32" by (simp add: less_mult_imp_div_less)
    then show ?thesis using 2 lead_byte(3) [of "of_nat (0xC0 + c div 64)"]
      by (simp add: utf8_def unat_of_nat_u8 del: of_nat_add)
  next
    case 3
    then have "c div 4096 < 16" by (simp add: less_mult_imp_div_less)
    then show ?thesis using 3 lead_byte(4) [of "of_nat (0xE0 + c div 4096)"]
      by (simp add: utf8_def unat_of_nat_u8 numeral_2_eq_2 del: of_nat_add)
  next
    case 4
    then have "c div 262144 < 8" by (simp add: less_mult_imp_div_less)
    then show ?thesis using 4 lead_byte(5) [of "of_nat (0xF0 + c div 262144)"]
      by (simp add: utf8_def unat_of_nat_u8 numeral_3_eq_3 del: of_nat_add)
  qed
qed

end
