(* ===== verification/Nss_Utf8_Decode.thy ===== *)
theory Nss_Utf8_Decode
  imports Nss_Utf8_Char
begin

text \<open>
  The conversions from UTF-8. Both of \<open>utf8.c\<close> make two passes, one that measures by leading bytes and one that converts; the
  locale \<open>from_utf8\<close> states what one step of each pass does and proves what the conversion does with any
  input; it is interpreted on the conversions to UCS-4 and to UTF-16.
\<close>

locale from_utf8 =
  fixes enc :: "nat \<Rightarrow> u8 list"
    and measure_pass :: "u8 list \<Rightarrow> u32 \<Rightarrow> u32 \<Rightarrow> u32 \<Rightarrow> u32 option option"
    and step :: "nat \<Rightarrow> nat"
    and convert :: "u8 list \<Rightarrow> u32 \<Rightarrow> u8 list \<Rightarrow> u32 \<Rightarrow> u32 \<Rightarrow> (bool \<times> u8 list \<times> u32) option"
    and conv :: "u8 list \<Rightarrow> u32 \<Rightarrow> u8 list \<Rightarrow> u32 \<Rightarrow> u32 \<Rightarrow> (bool \<times> u8 list \<times> u32) option"
  assumes enc_length: "scalar c \<Longrightarrow> length (enc c) = step (length (utf8 c) - 1)"
    and step_bound: "step k \<le> 4"
    and measure_end: "\<not> i < n \<Longrightarrow> measure_pass s n i len = Some (Some len)"
    and measure_bad: "i < n \<Longrightarrow> rd s (unat i) = Some b \<Longrightarrow> lead b = None \<Longrightarrow> measure_pass s n i len = Some None"
    and measure_step: "i < n \<Longrightarrow> rd s (unat i) = Some b \<Longrightarrow> lead b = Some (v, k, m) \<Longrightarrow>
      measure_pass s n i len = measure_pass s n (i + of_nat (Suc k)) (len + of_nat (step k))"
    and convert_end: "\<not> i < n \<Longrightarrow> convert s n out i len = Some (True, out, len)"
    and convert_bad: "i < n \<Longrightarrow> sec_port_read_utf8 i s n = Some (BAD_UTF8, j) \<Longrightarrow> convert s n out i len = Some (False, out, len)"
    and convert_char: "i < n \<Longrightarrow> sec_port_read_utf8 i s n = Some (of_nat c, j) \<Longrightarrow> scalar c \<Longrightarrow>
      convert s n out i len = do { out1 \<leftarrow> put_at out len (enc c); convert s n out1 j (len + of_nat (length (enc c))) }"
    and conv_passes: "conv s n out maxlen obl = do {
        m \<leftarrow> measure_pass s n 0 0;
        case m of
          None \<Rightarrow> Some (False, out, obl)
        | Some len \<Rightarrow> if len > maxlen then Some (False, out, len)
            else do {
              (ok, out1, len) \<leftarrow> convert s n out 0 0;
              Some (ok, out1, if ok then len else obl) } }"
begin

lemma enc_bound: "scalar c \<Longrightarrow> length (enc c) \<le> 4 * length (utf8 c)"
  using enc_length [of c] step_bound [of "length (utf8 c) - 1"] utf8_length(1) [of c] by linarith

lemma text_bound: "\<forall>c\<in>set cs. scalar c \<Longrightarrow> length (concat (map enc cs)) \<le> 4 * length (concat (map utf8 cs))"
proof (induction cs)
  case (Cons c cs)
  then show ?case using enc_bound [of c] by simp
qed simp

lemma measure_text:
  assumes "\<forall>c\<in>set cs. scalar c" "ahead s n i (concat (map utf8 cs) @ bad)"
  shows "measure_pass s n i len = measure_pass s n (i + of_nat (length (concat (map utf8 cs)))) (len + of_nat (length (concat (map enc cs))))"
  using assms
proof (induction cs arbitrary: i len)
  case (Cons c cs)
  obtain b r v m where l: "utf8 c = b # r" "lead b = Some (v, length r, m)" using lead_utf8 [of c] Cons.prems by auto
  have a: "ahead s n i (b # r @ concat (map utf8 cs) @ bad)" using Cons.prems l(1) by simp
  have "ahead s n (i + of_nat (length (utf8 c))) (concat (map utf8 cs) @ bad)"
    by (rule ahead_append) (use Cons.prems in simp)
  from Cons.IH [OF _ this]
  have "measure_pass s n (i + of_nat (length (utf8 c))) (len + of_nat (length (enc c))) =
    measure_pass s n (i + of_nat (length (utf8 c)) + of_nat (length (concat (map utf8 cs))))
      (len + of_nat (length (enc c)) + of_nat (length (concat (map enc cs))))" using Cons.prems by simp
  moreover have "measure_pass s n i len = measure_pass s n (i + of_nat (length (utf8 c))) (len + of_nat (length (enc c)))"
    using measure_step [OF ahead_Cons(1,2) [OF a] l(2), of len] enc_length [of c] Cons.prems l(1) by simp
  ultimately show ?case by (simp add: algebra_simps)
qed simp

text \<open>What comes after the text is measured in some way, and the measure does not get less.\<close>

lemma lead_trail: "lead b = Some (v, k, m) \<Longrightarrow> k \<le> 3"
  by (auto simp: lead_def split: if_splits)

lemma measure_rest:
  assumes "unat n \<le> length s" "unat n + 4 < 2 ^ 32" "unat i \<le> unat n + 4" "unat len + 4 * (unat n - unat i) < 2 ^ 32"
  shows "measure_pass s n i len = Some None \<or> (\<exists>L. measure_pass s n i len = Some (Some L) \<and> len \<le> L)"
  using assms
proof (induction "unat n - unat i" arbitrary: i len rule: less_induct)
  case less
  show ?case
  proof (cases "i < n")
    case False
    then show ?thesis using measure_end by simp
  next
    case True
    then have i: "unat i < unat n" by (simp add: word_less_nat_alt)
    then obtain b where b: "rd s (unat i) = Some b" using less.prems by (simp add: rd_def)
    show ?thesis
    proof (cases "lead b")
      case None
      then show ?thesis using measure_bad [OF True b] by simp
    next
      case (Some t)
      then obtain v k m where l: "lead b = Some (v, k, m)" by (cases t) auto
      have k: "k \<le> 3" by (rule lead_trail [OF l])
      have u: "unat (i + of_nat (Suc k)) = unat i + Suc k"
        using i k less.prems by (simp add: unat_word_ariths unat_of_nat)
      have "4 * (unat n - unat i) \<ge> 4 * (unat n - (unat i + Suc k)) + 4" using i by simp
      then have bound: "unat len + step k + 4 * (unat n - (unat i + Suc k)) < 2 ^ 32" "unat len + step k < 2 ^ 32"
        using less.prems(4) step_bound [of k] by linarith+
      then have ul: "unat (len + of_nat (step k)) = unat len + step k" by (simp add: unat_word_ariths unat_of_nat)
      have "measure_pass s n (i + of_nat (Suc k)) (len + of_nat (step k)) = Some None \<or>
        (\<exists>L. measure_pass s n (i + of_nat (Suc k)) (len + of_nat (step k)) = Some (Some L) \<and> len + of_nat (step k) \<le> L)"
        by (rule less.hyps) (use less.prems i k u ul bound in simp_all)
      moreover have "len \<le> len + of_nat (step k)" using ul by (simp add: word_le_nat_alt)
      ultimately show ?thesis using measure_step [OF True b l, of len] order_trans by metis
    qed
  qed
qed

lemma convert_text:
  assumes "\<forall>c\<in>set cs. scalar c" "ahead s n i (concat (map utf8 cs) @ bad)" "bad = [] \<or> char_of bad = None"
    and "length pre = unat len" "unat len + length (concat (map enc cs)) < 2 ^ 32" "length (concat (map enc cs)) \<le> length rest"
  shows "convert s n (pre @ rest) i len = Some (bad = [], pre @ concat (map enc cs) @ drop (length (concat (map enc cs))) rest,
    len + of_nat (length (concat (map enc cs))))"
  using assms
proof (induction cs arbitrary: i len pre rest)
  case Nil
  show ?case
  proof (cases bad)
    case Nil
    then show ?thesis using convert_end ahead_Nil Nil.prems by simp
  next
    case (Cons b bs)
    then have "i < n" using Nil.prems ahead_Cons(1) by simp
    moreover have "sec_port_read_utf8 i s n = Some (BAD_UTF8, i)" using read_char [of s n i bad] Nil.prems Cons by simp
    ultimately show ?thesis using convert_bad Cons by simp
  qed
next
  case (Cons c cs)
  define r where "r = concat (map utf8 cs) @ bad"
  have a: "ahead s n i (utf8 c @ r)" using Cons.prems by (simp add: r_def)
  have i: "i < n" using a utf8_nonempty [of c] ahead_Cons(1) by (cases "utf8 c") auto
  have rd: "sec_port_read_utf8 i s n = Some (of_nat c, i + of_nat (length (utf8 c)))"
    using read_char [OF a] char_of_utf8 [of c r] Cons.prems utf8_nonempty [of c] by simp
  have u: "unat (len + of_nat (length (enc c))) = unat len + length (enc c)"
    using Cons.prems by (simp add: unat_word_ariths unat_of_nat)
  have p: "put_at (pre @ rest) len (enc c) = Some ((pre @ enc c) @ drop (length (enc c)) rest)"
    using Cons.prems by (simp add: put_at_append)
  have "convert s n ((pre @ enc c) @ drop (length (enc c)) rest) (i + of_nat (length (utf8 c))) (len + of_nat (length (enc c))) =
    Some (bad = [], (pre @ enc c) @ concat (map enc cs) @ drop (length (concat (map enc cs))) (drop (length (enc c)) rest),
      len + of_nat (length (enc c)) + of_nat (length (concat (map enc cs))))"
    by (rule Cons.IH) (use Cons.prems u ahead_append [OF a] in \<open>simp_all add: r_def\<close>)
  then show ?case using convert_char [OF i rd, of "pre @ rest" len] Cons.prems p by (simp add: add.assoc add.commute)
qed

lemma conv_spec:
  assumes n: "unat n \<le> length s" "4 * unat n < 2 ^ 32 - 16" and m: "unat maxlen \<le> length out"
    and t: "\<forall>c\<in>set cs. scalar c" "take (unat n) s = concat (map utf8 cs) @ bad" "bad = [] \<or> char_of bad = None"
  defines "E \<equiv> concat (map enc cs)"
  shows "bad = [] \<Longrightarrow> conv s n out maxlen obl =
      Some (if length E \<le> unat maxlen then (True, E @ drop (length E) out, of_nat (length E)) else (False, out, of_nat (length E)))"
    and "bad \<noteq> [] \<Longrightarrow> \<exists>out' l. conv s n out maxlen obl = Some (False, out', l) \<and> length out' = length out"
proof -
  have a: "ahead s n 0 (concat (map utf8 cs) @ bad)" using ahead_start [OF n(1)] t(2) by simp
  define i where "i = (of_nat (length (concat (map utf8 cs))) :: u32)"
  have len: "length (concat (map utf8 cs)) \<le> unat n"
  proof -
    have "length (take (unat n) s) = unat n" using n(1) by simp
    then show ?thesis unfolding t(2) by simp
  qed
  have ui: "unat i = length (concat (map utf8 cs))" unfolding i_def by (rule unat_of_nat_u32) (use len n in linarith)
  have E: "length E \<le> 4 * length (concat (map utf8 cs))" unfolding E_def by (rule text_bound [OF t(1)])
  have uE: "unat (of_nat (length E) :: u32) = length E" by (rule unat_of_nat_u32) (use E len n in linarith)
  have M: "measure_pass s n 0 0 = measure_pass s n i (of_nat (length E))"
    using measure_text [OF t(1) a, of 0] by (simp add: i_def E_def)
  have C: "convert s n out 0 0 = Some (bad = [], E @ drop (length E) out, of_nat (length E))" if "length E \<le> length out"
    using convert_text [OF t(1) a t(3), of "[]" 0 out] that E len n by (simp add: E_def)
  show "conv s n out maxlen obl =
      Some (if length E \<le> unat maxlen then (True, E @ drop (length E) out, of_nat (length E)) else (False, out, of_nat (length E)))"
    if "bad = []"
  proof -
    have "\<not> i < n" using that t(2) ui n(1) by (metis append_Nil2 length_take min.absorb2 less_irrefl word_less_nat_alt)
    then have "measure_pass s n 0 0 = Some (Some (of_nat (length E)))" using M measure_end by simp
    then show ?thesis unfolding conv_passes using C m that uE by (simp add: word_less_nat_alt not_less)
  qed
  show "\<exists>out' l. conv s n out maxlen obl = Some (False, out', l) \<and> length out' = length out" if b: "bad \<noteq> []"
  proof -
    have "measure_pass s n i (of_nat (length E)) = Some None \<or> (\<exists>L. measure_pass s n i (of_nat (length E)) = Some (Some L) \<and> of_nat (length E) \<le> L)"
      by (rule measure_rest) (use n ui len uE E in linarith)+
    then consider "measure_pass s n 0 0 = Some None" | L where "measure_pass s n 0 0 = Some (Some L)" "of_nat (length E) \<le> L"
      unfolding M by blast
    then show ?thesis
    proof cases
      case (2 L)
      show ?thesis
      proof (cases "L > maxlen")
        case False
        then have "length E \<le> unat maxlen" using 2(2) uE by (simp add: word_le_nat_alt word_less_nat_alt)
        then show ?thesis unfolding conv_passes using 2 C m b False by simp
      qed (simp add: conv_passes 2)
    qed (simp add: conv_passes)
  qed
qed

end

subsection \<open>UCS-4 and UTF-16\<close>

definition be32 :: "nat \<Rightarrow> u8 list" where
  "be32 c = [0, of_nat (c div 65536), of_nat (c div 256), of_nat c]"

definition utf16 :: "nat \<Rightarrow> u8 list" where
  "utf16 c =
     (if c < 0x10000 then [of_nat (c div 256), of_nat c]
      else let u = c - 0x10000 in
        [of_nat (0xD8 + u div 262144), of_nat (u div 1024), of_nat (0xDC + u div 256 mod 4), of_nat u])"

lemma ucast_drop: "(ucast (drop_bit k (w :: u32)) :: u8) = of_nat (unat w div 2 ^ k)"
proof -
  have "unat (ucast (drop_bit k w) :: u8) = unat (of_nat (unat w div 2 ^ k) :: u8)"
    by (simp only: unsigned_ucast_eq unat_drop_bit_eq unat_of_nat) (simp add: take_bit_eq_mod drop_bit_eq_div)
  then show ?thesis by (simp only: word_unat_eq_iff)
qed

lemma ucast_u8: "(ucast (w :: u32) :: u8) = of_nat (unat w)"
  using ucast_drop [of 0 w] by simp

lemma be32_bytes: "scalar c \<Longrightarrow> [0, ucast (drop_bit 16 (of_nat c :: u32)), ucast (drop_bit 8 (of_nat c :: u32)), ucast (of_nat c :: u32)] = be32 c"
proof -
  assume "scalar c"
  then have c: "unat (of_nat c :: u32) = c" by (intro unat_of_nat_u32) (auto simp: scalar_def)
  show ?thesis unfolding ucast_drop unfolding ucast_u8 c be32_def by simp
qed

lemma ucs2_bytes_utf16:
  assumes "scalar c"
  shows "ucs2_bytes (of_nat c) = utf16 c"
proof -
  have c: "unat (of_nat c :: u32) = c" by (rule unat_of_nat_u32) (use assms in \<open>auto simp: scalar_def\<close>)
  show ?thesis
  proof (cases "c < 0x10000")
    case True
    then have "(of_nat c :: u32) < 0x10000" using c by (simp add: word_less_nat_alt)
    then have "ucs2_bytes (of_nat c) = [ucast (drop_bit 8 (of_nat c :: u32)), ucast (of_nat c :: u32)]" by (simp add: ucs2_bytes_def)
    then show ?thesis using True unfolding ucast_drop unfolding ucast_u8 c by (simp add: utf16_def)
  next
    case False
    define u where "u = (of_nat c :: u32) - 0x10000"
    have l: "\<not> (of_nat c :: u32) < 0x10000" using False c by (simp add: word_less_nat_alt)
    then have u: "unat u = c - 0x10000" unfolding u_def using c by (simp add: unat_sub word_le_nat_alt not_less)
    have m: "(0x3 :: u32) = mask 2" by (simp add: mask_eq_exp_minus_1)
    have o: "unat (push_bit 2 x OR (drop_bit k u AND 0x3) :: u32) = unat x * 4 + (c - 0x10000) div 2 ^ k mod 4" if "unat x < 64" for k x
    proof -
      have a: "unat (drop_bit k u AND 0x3) = (c - 0x10000) div 2 ^ k mod 4"
        unfolding m unat_and_mask unat_drop_bit_div u by simp
      show ?thesis using unat_shift_or [of x 2 "drop_bit k u AND 0x3"] that unfolding a by simp
    qed
    have "push_bit 2 54 = (0xD8 :: u32)" "push_bit 2 55 = (0xDC :: u32)" by code_simp+
    then have d: "(ucast (0xD8 OR (drop_bit 18 u AND 0x3)) :: u8) = of_nat (0xD8 + (c - 0x10000) div 2 ^ 18 mod 4)"
      "(ucast (0xDC OR (drop_bit 8 u AND 0x3)) :: u8) = of_nat (0xDC + (c - 0x10000) div 2 ^ 8 mod 4)"
      using o [of 54 18] o [of 55 8] by (simp_all only: ucast_u8) simp_all
    have "c - 0x10000 < 4 * 2 ^ 18" using assms by (auto simp: scalar_def)
    then have "(c - 0x10000) div 2 ^ 18 mod 4 = (c - 0x10000) div 2 ^ 18" by (simp add: less_mult_imp_div_less)
    then show ?thesis using l False unfolding ucs2_bytes_def utf16_def Let_def u_def [symmetric] d ucast_drop
      unfolding ucast_u8 u by simp
  qed
qed

lemma lead_chain:
  "lead b = None \<longleftrightarrow> b AND 0x80 \<noteq> 0 \<and> b AND 0xE0 \<noteq> 0xC0 \<and> b AND 0xF0 \<noteq> 0xE0 \<and> b AND 0xF8 \<noteq> 0xF0"
  by (simp add: lead_def)

lemma of_nat_not_bad: "scalar c \<Longrightarrow> (of_nat c :: u32) \<noteq> BAD_UTF8"
proof
  assume c: "scalar c" "(of_nat c :: u32) = BAD_UTF8"
  have "unat (of_nat c :: u32) = c" by (rule unat_of_nat_u32) (use c in \<open>auto simp: scalar_def\<close>)
  moreover have "unat BAD_UTF8 = 2 ^ 32 - 1" by (simp add: BAD_UTF8_def unsigned_minus_1_eq_mask mask_eq_exp_minus_1)
  ultimately show False using c by (simp add: scalar_def)
qed

interpretation ucs4: from_utf8 be32 ucs4_measure "\<lambda>k. 4" ucs4_from_utf8 "sec_port_ucs4_utf8_conversion_function True"
proof
  show "length (be32 c) = 4" for c by (simp add: be32_def)
  show "ucs4_measure s n i len = Some (Some len)" if "\<not> i < n" for s n i len using that by (simp add: ucs4_measure.simps)
  show "ucs4_measure s n i len = Some None" if "i < n" "rd s (unat i) = Some b" "lead b = None" for s n i len b
    using that by (simp add: ucs4_measure.simps [of s n i] lead_chain)
  show "ucs4_measure s n i len = ucs4_measure s n (i + of_nat (Suc k)) (len + of_nat 4)"
    if "i < n" "rd s (unat i) = Some b" "lead b = Some (v, k, m)" for s n i len b v k m
    using that by (auto simp: ucs4_measure.simps [of s n i] lead_def add.commute split: if_splits)
  show "ucs4_from_utf8 s n out i len = Some (True, out, len)" if "\<not> i < n" for s n i len out using that by (simp add: ucs4_from_utf8.simps)
  show "ucs4_from_utf8 s n out i len = Some (False, out, len)" if "i < n" "sec_port_read_utf8 i s n = Some (BAD_UTF8, j)" for s n i len out j
    using that by (simp add: ucs4_from_utf8.simps [of s n out i])
  show "ucs4_from_utf8 s n out i len = do { out1 \<leftarrow> put_at out len (be32 c); ucs4_from_utf8 s n out1 j (len + of_nat (length (be32 c))) }"
    if "i < n" "sec_port_read_utf8 i s n = Some (of_nat c, j)" "scalar c" for s n i len out j c
    using that by (simp add: ucs4_from_utf8.simps [of s n out i] of_nat_not_bad be32_bytes) (simp add: be32_def)
qed (simp_all add: sec_port_ucs4_utf8_conversion_function_def)

interpretation utf16: from_utf8 utf16 ucs2_measure "\<lambda>k. if k = 3 then 4 else 2" ucs2_from_utf8 "sec_port_ucs2_utf8_conversion_function True"
proof
  show "length (utf16 c) = (if length (utf8 c) - 1 = 3 then 4 else 2)" for c by (simp add: utf16_def utf8_def Let_def)
  show "ucs2_measure s n i len = Some (Some len)" if "\<not> i < n" for s n i len using that by (simp add: ucs2_measure.simps)
  show "ucs2_measure s n i len = Some None" if "i < n" "rd s (unat i) = Some b" "lead b = None" for s n i len b
    using that by (simp add: ucs2_measure.simps [of s n i] lead_chain)
  show "ucs2_measure s n i len = ucs2_measure s n (i + of_nat (Suc k)) (len + of_nat (if k = 3 then 4 else 2))"
    if "i < n" "rd s (unat i) = Some b" "lead b = Some (v, k, m)" for s n i len b v k m
    using that by (auto simp: ucs2_measure.simps [of s n i] lead_def add.commute split: if_splits)
  show "ucs2_from_utf8 s n out i len = Some (True, out, len)" if "\<not> i < n" for s n i len out using that by (simp add: ucs2_from_utf8.simps)
  show "ucs2_from_utf8 s n out i len = Some (False, out, len)" if "i < n" "sec_port_read_utf8 i s n = Some (BAD_UTF8, j)" for s n i len out j
    using that by (simp add: ucs2_from_utf8.simps [of s n out i])
  show "ucs2_from_utf8 s n out i len = do { out1 \<leftarrow> put_at out len (utf16 c); ucs2_from_utf8 s n out1 j (len + of_nat (length (utf16 c))) }"
    if "i < n" "sec_port_read_utf8 i s n = Some (of_nat c, j)" "scalar c" for s n i len out j c
    using that by (simp add: ucs2_from_utf8.simps [of s n out i] of_nat_not_bad ucs2_bytes_utf16)
qed (simp_all add: sec_port_ucs2_utf8_conversion_function_def)

end
