(* ===== verification/Nss_Utf8_Encode.thy ===== *)
theory Nss_Utf8_Encode
  imports Nss_Utf8_Decode
begin

text \<open>
  The conversions to UTF-8, from UCS-4, UTF-16 and ISO 8859-1: a pass that adds up the lengths and a pass that writes, over the
  characters of the input. The locale \<open>to_utf8\<close> has the steps as its laws, with the length that the first pass
  takes for a character (\<open>width\<close>) apart from the length that the second writes.
\<close>

locale to_utf8 =
  fixes enc :: "nat \<Rightarrow> u8 list" and good :: "nat \<Rightarrow> bool" and width :: "nat \<Rightarrow> nat"
    and measure_pass :: "u8 list \<Rightarrow> u32 \<Rightarrow> u32 \<Rightarrow> u32 \<Rightarrow> u32 option option"
    and convert :: "u8 list \<Rightarrow> u32 \<Rightarrow> u8 list \<Rightarrow> u32 \<Rightarrow> u32 \<Rightarrow> (u8 list \<times> u32) option"
  assumes enc_nonempty: "good c \<Longrightarrow> enc c \<noteq> []"
    and width_bound: "good c \<Longrightarrow> width c \<le> length (utf8 c)"
    and measure_end: "\<not> i < n \<Longrightarrow> measure_pass s n i len = Some (Some len)"
    and measure_char: "good c \<Longrightarrow> ahead s n i (enc c @ r) \<Longrightarrow>
      measure_pass s n i len = measure_pass s n (i + of_nat (length (enc c))) (len + of_nat (width c))"
    and convert_end: "\<not> i < n \<Longrightarrow> convert s n out i len = Some (out, len)"
    and convert_char: "good c \<Longrightarrow> ahead s n i (enc c @ r) \<Longrightarrow> convert s n out i len =
      do { out1 \<leftarrow> put_at out len (utf8 c); convert s n out1 (i + of_nat (length (enc c))) (len + of_nat (length (utf8 c))) }"
begin

lemma measure_spec:
  assumes "\<forall>c\<in>set cs. good c" "ahead s n i (concat (map enc cs))"
  shows "measure_pass s n i len = Some (Some (len + of_nat (sum_list (map width cs))))"
  using assms
proof (induction cs arbitrary: i len)
  case Nil
  then show ?case using measure_end ahead_Nil by simp
next
  case (Cons c cs)
  have a: "ahead s n i (enc c @ concat (map enc cs))" using Cons.prems by simp
  show ?case using measure_char [OF _ a, of len] Cons.IH [OF _ ahead_append [OF a]] Cons.prems by (simp add: add.assoc)
qed

lemma convert_spec:
  assumes "\<forall>c\<in>set cs. good c" "ahead s n i (concat (map enc cs))"
    and "length pre = unat len" "unat len + length (concat (map utf8 cs)) < 2 ^ 32"
  shows "convert s n (pre @ rest) i len = (if length (concat (map utf8 cs)) \<le> length rest
    then Some (pre @ concat (map utf8 cs) @ drop (length (concat (map utf8 cs))) rest, len + of_nat (length (concat (map utf8 cs)))) else None)"
  using assms
proof (induction cs arbitrary: i len pre rest)
  case Nil
  then show ?case using convert_end ahead_Nil by simp
next
  case (Cons c cs)
  have a: "ahead s n i (enc c @ concat (map enc cs))" using Cons.prems by simp
  have u: "unat (len + of_nat (length (utf8 c))) = unat len + length (utf8 c)"
    using Cons.prems by (simp add: unat_word_ariths unat_of_nat)
  have p: "put_at (pre @ rest) len (utf8 c) = (if length (utf8 c) \<le> length rest then Some ((pre @ utf8 c) @ drop (length (utf8 c)) rest) else None)"
    using Cons.prems by (simp add: put_at_append)
  have "convert s n ((pre @ utf8 c) @ drop (length (utf8 c)) rest) (i + of_nat (length (enc c))) (len + of_nat (length (utf8 c))) =
    (if length (concat (map utf8 cs)) \<le> length (drop (length (utf8 c)) rest)
     then Some ((pre @ utf8 c) @ concat (map utf8 cs) @ drop (length (concat (map utf8 cs))) (drop (length (utf8 c)) rest),
      len + of_nat (length (utf8 c)) + of_nat (length (concat (map utf8 cs)))) else None)" if "length (utf8 c) \<le> length rest"
    by (rule Cons.IH) (use Cons.prems u that ahead_append [OF a] in simp_all)
  then show ?case using convert_char [OF _ a, of "pre @ rest" len] Cons.prems p
    by (cases "length (utf8 c) \<le> length rest") (auto simp: add.assoc add.commute)
qed

lemma output_bound: "\<forall>c\<in>set cs. good c \<Longrightarrow> length (concat (map utf8 cs)) \<le> 4 * length (concat (map enc cs))"
proof (induction cs)
  case (Cons c cs)
  have "length (utf8 c) \<le> 4 * length (enc c)"
    using Cons.prems enc_nonempty [of c] utf8_length(2) [of c] by (cases "enc c") simp_all
  then show ?case using Cons by simp
qed simp

lemma measure_bound: "\<forall>c\<in>set cs. good c \<Longrightarrow> sum_list (map width cs) \<le> length (concat (map utf8 cs))"
proof (induction cs)
  case (Cons c cs)
  then show ?case using width_bound [of c] by simp
qed simp

text \<open>Both passes over an input of good characters.\<close>

lemma passes:
  assumes t: "\<forall>c\<in>set cs. good c" "take (unat n) s = concat (map enc cs)" and n: "unat n \<le> length s" "4 * unat n < 2 ^ 32"
  defines "E \<equiv> concat (map utf8 cs)" and "W \<equiv> sum_list (map width cs)"
  shows "measure_pass s n 0 0 = Some (Some (of_nat W))" "unat (of_nat W :: u32) = W" "W \<le> length E" "unat (of_nat (length E) :: u32) = length E"
    "convert s n out 0 0 = (if length E \<le> length out then Some (E @ drop (length E) out, of_nat (length E)) else None)"
proof -
  have a: "ahead s n 0 (concat (map enc cs))" using ahead_start [OF n(1)] t(2) by simp
  have l: "length (concat (map enc cs)) = unat n" using n(1) arg_cong [OF t(2), of length] by simp
  have b: "length E \<le> 4 * unat n" "W \<le> length E" using output_bound [OF t(1)] measure_bound [OF t(1)] l by (simp_all add: E_def W_def)
  show "W \<le> length E" by (rule b)
  show "unat (of_nat W :: u32) = W" "unat (of_nat (length E) :: u32) = length E" by (rule unat_of_nat_u32; use b n in linarith)+
  show "measure_pass s n 0 0 = Some (Some (of_nat W))" using measure_spec [OF t(1) a, of 0] by (simp add: W_def)
  show "convert s n out 0 0 = (if length E \<le> length out then Some (E @ drop (length E) out, of_nat (length E)) else None)"
    using convert_spec [OF t(1) a, of "[]" 0 out] b n by (simp add: E_def)
qed

end

subsection \<open>Bytes put together\<close>

lemma unat_shift_or8:
  fixes x y :: u8
  assumes "unat x * 2 ^ k < 256" and "unat y < 2 ^ k" and "k < 8"
  shows "unat (push_bit k x OR y) = unat x * 2 ^ k + unat y"
proof -
  have y: "take_bit k y = y" using assms(2) by (simp add: word_unat_eq_iff unsigned_take_bit_eq take_bit_nat_eq_self)
  have "\<not> bit (push_bit k x) n \<or> \<not> bit y n" for n by (subst y [symmetric]) (simp add: bit_simps)
  then have "push_bit k x OR y = push_bit k x + y" by (simp add: disjunctive_add)
  moreover have "unat (push_bit k x) = unat x * 2 ^ k"
    using assms(1) by (simp only: unsigned_push_bit_eq) (simp add: push_bit_eq_mult take_bit_nat_eq_self)
  moreover have "unat x * 2 ^ k + unat y < 256"
  proof -
    obtain q where q: "(256 :: nat) = q * 2 ^ k"
      using power_add [of "2 :: nat" "8 - k" k] assms(3) by simp
    then have "unat x < q" using assms(1) by (simp only: mult_less_cancel2)
    then have "(unat x + 1) * 2 ^ k \<le> q * 2 ^ k" by (intro mult_le_mono1) simp
    with assms(2) q show ?thesis by simp
  qed
  ultimately show ?thesis by (simp add: unat_word_ariths)
qed

lemma drop_masked: "drop_bit k (b AND push_bit k (mask j)) = drop_bit k (b :: u8) AND mask j" if "j + k \<le> 8"
  by (rule bit_word_eqI) (use that in \<open>auto simp: bit_simps\<close>)

lemma unat_drop_masked: "j + k \<le> 8 \<Longrightarrow> unat (drop_bit k (b AND push_bit k (mask j)) :: u8) = unat b div 2 ^ k mod 2 ^ j"
  by (simp only: drop_masked unat_and_mask unat_drop_bit_eq) (simp add: drop_bit_eq_div)

lemma byte_parts:
  fixes b :: u8
  shows "unat (drop_bit 4 (b AND 0xF0)) = unat b div 16" "unat (drop_bit 6 (b AND 0xC0)) = unat b div 64"
    "unat (drop_bit 2 (b AND 0x1C)) = unat b div 4 mod 8" "unat (drop_bit 2 (b AND 0x3C)) = unat b div 4 mod 16"
proof -
  have m: "push_bit 4 (mask 4) = (0xF0 :: u8)" "push_bit 6 (mask 2) = (0xC0 :: u8)" "push_bit 2 (mask 3) = (0x1C :: u8)"
    "push_bit 2 (mask 4) = (0x3C :: u8)" by code_simp+
  have "unat b div 16 < 16" "unat b div 64 < 4" using unat_u8_less [of b] by (simp_all add: less_mult_imp_div_less)
  then show "unat (drop_bit 4 (b AND 0xF0)) = unat b div 16" "unat (drop_bit 6 (b AND 0xC0)) = unat b div 64"
    "unat (drop_bit 2 (b AND 0x1C)) = unat b div 4 mod 8" "unat (drop_bit 2 (b AND 0x3C)) = unat b div 4 mod 16"
    using unat_drop_masked [of 4 4 b] unat_drop_masked [of 2 6 b] unat_drop_masked [of 3 2 b] unat_drop_masked [of 4 2 b]
    unfolding m by simp_all
qed

text \<open>A marker with the bits of a code under it.\<close>

lemma marked:
  fixes x :: u8
  shows "unat x < 64 \<Longrightarrow> unat (0x80 OR x) = 128 + unat x" "unat x < 32 \<Longrightarrow> unat (0xC0 OR x) = 192 + unat x"
    "unat x < 16 \<Longrightarrow> unat (0xE0 OR x) = 224 + unat x" "unat x < 8 \<Longrightarrow> unat (0xF0 OR x) = 240 + unat x"
proof -
  have "push_bit 6 2 = (0x80 :: u8)" "push_bit 5 6 = (0xC0 :: u8)" "push_bit 4 14 = (0xE0 :: u8)" "push_bit 3 30 = (0xF0 :: u8)" by code_simp+
  then show "unat x < 64 \<Longrightarrow> unat (0x80 OR x) = 128 + unat x" "unat x < 32 \<Longrightarrow> unat (0xC0 OR x) = 192 + unat x"
    "unat x < 16 \<Longrightarrow> unat (0xE0 OR x) = 224 + unat x" "unat x < 8 \<Longrightarrow> unat (0xF0 OR x) = 240 + unat x"
    using unat_shift_or8 [of 2 6 x] unat_shift_or8 [of 6 5 x] unat_shift_or8 [of 14 4 x] unat_shift_or8 [of 30 3 x] by simp_all
qed

lemma joined_bits:
  fixes x y :: u8
  shows "unat x * 4 < 64 \<Longrightarrow> unat y < 4 \<Longrightarrow> unat (push_bit 2 x OR y) = unat x * 4 + unat y"
    "unat x * 16 < 64 \<Longrightarrow> unat y < 16 \<Longrightarrow> unat (push_bit 4 x OR y) = unat x * 16 + unat y"
  using unat_shift_or8 [of x 2 y] unat_shift_or8 [of x 4 y] by simp_all

text \<open>The trailing bytes.\<close>

lemma trailing_bytes:
  fixes h l :: u8
  shows "0x80 OR (l AND 0x3F) = of_nat (0x80 + unat l mod 64)"
    "0x80 OR push_bit 2 (h AND 0x0F) OR drop_bit 6 (l AND 0xC0) = of_nat (0x80 + (unat h mod 16 * 4 + unat l div 64))"
    "0x80 OR push_bit 4 (h AND 0x03) OR drop_bit 4 (l AND 0xF0) = of_nat (0x80 + (unat h mod 4 * 16 + unat l div 16))"
proof -
  have l: "unat l div 64 < 4" "unat l div 16 < 16" using unat_u8_less [of l] by (simp_all add: less_mult_imp_div_less)
  have m: "unat h mod 16 < 16" "unat h mod 4 < 4" "unat l mod 64 < 64" by simp_all
  show "0x80 OR (l AND 0x3F) = of_nat (0x80 + unat l mod 64)"
    unfolding word_unat_eq_iff using marked(1) [of "l AND 0x3F"] m by (simp add: unat_masked_u8 unat_of_nat_u8 del: of_nat_add)
  have a: "unat (push_bit 2 (h AND 0x0F) OR drop_bit 6 (l AND 0xC0)) = unat h mod 16 * 4 + unat l div 64"
    using joined_bits(1) [of "h AND 0x0F" "drop_bit 6 (l AND 0xC0)"] m l unfolding unat_masked_u8 byte_parts by simp
  show "0x80 OR push_bit 2 (h AND 0x0F) OR drop_bit 6 (l AND 0xC0) = of_nat (0x80 + (unat h mod 16 * 4 + unat l div 64))"
    unfolding word_unat_eq_iff or.assoc using marked(1) [OF _, of "push_bit 2 (h AND 0x0F) OR drop_bit 6 (l AND 0xC0)"] m l
    unfolding a by (simp add: unat_of_nat_u8 del: of_nat_add)
  have b: "unat (push_bit 4 (h AND 0x03) OR drop_bit 4 (l AND 0xF0)) = unat h mod 4 * 16 + unat l div 16"
    using joined_bits(2) [of "h AND 0x03" "drop_bit 4 (l AND 0xF0)"] m l unfolding unat_masked_u8 byte_parts by simp
  show "0x80 OR push_bit 4 (h AND 0x03) OR drop_bit 4 (l AND 0xF0) = of_nat (0x80 + (unat h mod 4 * 16 + unat l div 16))"
    unfolding word_unat_eq_iff or.assoc using marked(1) [OF _, of "push_bit 4 (h AND 0x03) OR drop_bit 4 (l AND 0xF0)"] m l
    unfolding b by (simp add: unat_of_nat_u8 del: of_nat_add)
qed

lemma code_digits:
  fixes x y z :: nat
  assumes "y < 256" "z < 256" "c = x * 65536 + y * 256 + z"
  shows "c mod 64 = z mod 64" "c div 64 mod 64 = y mod 16 * 4 + z div 64" "c div 4096 mod 64 = x mod 4 * 16 + y div 16"
    "c div 262144 = x div 4" "c div 4096 = x * 16 + y div 16" "c div 64 = x * 1024 + y * 4 + z div 64"
proof -
  have z: "z div 64 < 4" "y div 16 < 16" using assms by (simp_all add: less_mult_imp_div_less)
  have "c = z + (x * 1024 + y * 4) * 64" using assms by simp
  then show "c mod 64 = z mod 64" by (metis mod_mult_self1)
  show 1: "c div 64 = x * 1024 + y * 4 + z div 64" using assms by linarith
  have "y * 4 = y div 16 * 64 + y mod 16 * 4" using div_mult_mod_eq [of y 16] by linarith
  then have "c div 64 = y mod 16 * 4 + z div 64 + (x * 16 + y div 16) * 64" unfolding 1 by simp
  then have "c div 64 mod 64 = (y mod 16 * 4 + z div 64) mod 64" by (metis mod_mult_self1)
  moreover have "y mod 16 * 4 + z div 64 < 64" using z(1) mod_less_divisor [of 16 y] by linarith
  ultimately show "c div 64 mod 64 = y mod 16 * 4 + z div 64" by simp
  show 2: "c div 4096 = x * 16 + y div 16" using assms by linarith
  have "x * 16 = x div 4 * 64 + x mod 4 * 16" using div_mult_mod_eq [of x 4] by linarith
  then have "c div 4096 = x mod 4 * 16 + y div 16 + x div 4 * 64" unfolding 2 by simp
  then have "c div 4096 mod 64 = (x mod 4 * 16 + y div 16) mod 64" by (metis mod_mult_self1)
  moreover have "x mod 4 * 16 + y div 16 < 64" using z(2) mod_less_divisor [of 4 x] by linarith
  ultimately show "c div 4096 mod 64 = x mod 4 * 16 + y div 16" by simp
  show "c div 262144 = x div 4" using assms by linarith
qed

lemma word_le_u8: "(numeral k :: u8) \<le> b \<longleftrightarrow> unat (numeral k :: u8) \<le> unat b" "(1 :: u8) \<le> b \<longleftrightarrow> 1 \<le> unat b" "0 < b \<longleftrightarrow> 0 < unat b"
  "b < (numeral k :: u8) \<longleftrightarrow> unat b < unat (numeral k :: u8)"
  by (simp_all add: word_le_nat_alt word_less_nat_alt)

text \<open>The leading bytes.\<close>

lemma leading_bytes:
  fixes h l :: u8
  shows "0xF0 OR drop_bit 2 (h AND 0x1C) = of_nat (0xF0 + unat h div 4 mod 8)"
    "0xE0 OR drop_bit 4 (h AND 0xF0) = of_nat (0xE0 + unat h div 16)"
    "0xC0 OR push_bit 2 (h AND 0x07) OR drop_bit 6 (l AND 0xC0) = of_nat (0xC0 + (unat h mod 8 * 4 + unat l div 64))"
    "0xC0 OR drop_bit 6 (l AND 0xC0) = of_nat (0xC0 + unat l div 64)"
proof -
  have l: "unat l div 64 < 4" "unat h div 16 < 16" using unat_u8_less by (simp_all add: less_mult_imp_div_less)
  have m: "unat h div 4 mod 8 < 8" "unat h mod 8 < 8" by simp_all
  show "0xF0 OR drop_bit 2 (h AND 0x1C) = of_nat (0xF0 + unat h div 4 mod 8)"
    unfolding word_unat_eq_iff using marked(4) [of "drop_bit 2 (h AND 0x1C)"] m l unfolding byte_parts by (simp add: unat_of_nat_u8 del: of_nat_add)
  show "0xE0 OR drop_bit 4 (h AND 0xF0) = of_nat (0xE0 + unat h div 16)"
    unfolding word_unat_eq_iff using marked(3) [of "drop_bit 4 (h AND 0xF0)"] m l unfolding byte_parts by (simp add: unat_of_nat_u8 del: of_nat_add)
  have a: "unat (push_bit 2 (h AND 0x07) OR drop_bit 6 (l AND 0xC0)) = unat h mod 8 * 4 + unat l div 64"
    using joined_bits(1) [of "h AND 0x07" "drop_bit 6 (l AND 0xC0)"] m l unfolding unat_masked_u8 byte_parts by simp
  show "0xC0 OR push_bit 2 (h AND 0x07) OR drop_bit 6 (l AND 0xC0) = of_nat (0xC0 + (unat h mod 8 * 4 + unat l div 64))"
    unfolding word_unat_eq_iff or.assoc using marked(2) [OF _, of "push_bit 2 (h AND 0x07) OR drop_bit 6 (l AND 0xC0)"] m l
    unfolding a by (simp add: unat_of_nat_u8 del: of_nat_add)
  show "0xC0 OR drop_bit 6 (l AND 0xC0) = of_nat (0xC0 + unat l div 64)"
    unfolding word_unat_eq_iff using marked(2) [of "drop_bit 6 (l AND 0xC0)"] m l unfolding byte_parts by (simp add: unat_of_nat_u8 del: of_nat_add)
qed

lemma utf8_bytes_code:
  assumes c: "c = unat b1 * 65536 + unat b2 * 256 + unat b3" and r: "c \<le> 0x10FFFF"
  shows "utf8_bytes b1 b2 b3 = utf8 c"
proof -
  note d = code_digits [OF unat_u8_less unat_u8_less c]
  have b: "unat b2 < 256" "unat b3 < 256" by (rule unat_u8_less)+
  show ?thesis
  proof (cases "1 \<le> unat b1")
    case True
    have "unat b1 div 4 mod 8 = unat b1 div 4" using r c by simp
    then show ?thesis using True c unfolding utf8_bytes_def utf8_def word_le_u8 leading_bytes trailing_bytes d(1-4)
      by (simp del: of_nat_add)
  next
    case False
    then have c': "c = unat b2 * 256 + unat b3" "unat b1 = 0" using c by simp_all
    show ?thesis
    proof (cases "8 \<le> unat b2")
      case True
      then show ?thesis using False c' b d(5) unfolding utf8_bytes_def utf8_def word_le_u8 leading_bytes trailing_bytes d(1-2)
        by (simp del: of_nat_add)
    next
      case small: False
      show ?thesis
      proof (cases "0 < unat b2 \<or> 128 \<le> unat b3")
        case True
        have "unat b2 mod 8 = unat b2" using small by simp
        then show ?thesis using False small True c' b d(6) unfolding utf8_bytes_def utf8_def word_le_u8 leading_bytes trailing_bytes d(1)
          by (auto simp del: of_nat_add)
      next
        case F: False
        then have "b3 AND 0x7F = b3" by (simp add: word_unat_eq_iff unat_masked_u8)
        then show ?thesis using False small F c' by (simp add: utf8_bytes_def utf8_def word_le_u8)
      qed
    qed
  qed
qed

lemma ahead_bytes:
  assumes "ahead s n i (a # b # r)"
  shows "i < n" "rd s (unat i) = Some a" "rd s (unat (i + 1)) = Some b" "ahead s n (i + 2) r"
  using ahead_Cons [OF assms] ahead_Cons [OF ahead_Cons(3) [OF assms]] by (simp_all add: add.assoc)

lemma ahead_quad:
  assumes "ahead s n i (a # b # c # d # r)"
  shows "i < n" "rd s (unat i) = Some a" "rd s (unat (i + 1)) = Some b" "rd s (unat (i + 2)) = Some c" "rd s (unat (i + 2 + 1)) = Some d"
    "rd s (unat (i + 3)) = Some d" "ahead s n (i + 4) r"
  using ahead_bytes [OF assms] ahead_bytes [OF ahead_bytes(4) [OF assms]] by (simp_all add: add.assoc)

lemma unat_byte: "unat (of_nat k :: u8) = k mod 256"
  by (simp add: unat_of_nat)

lemma be32_parts:
  assumes "c \<le> 0x10FFFF"
  shows "c = unat (of_nat (c div 65536) :: u8) * 65536 + unat (of_nat (c div 256) :: u8) * 256 + unat (of_nat c :: u8)"
    "unat (of_nat (c div 65536) :: u8) = c div 65536"
proof -
  have "c div 65536 < 256" using assms by (simp add: less_mult_imp_div_less)
  then show 1: "unat (of_nat (c div 65536) :: u8) = c div 65536" by (simp add: unat_byte)
  have "c div 65536 * 256 + c div 256 mod 256 = c div 256" using div_mult_mod_eq [of "c div 256" 256] by (simp add: div_mult2_eq [symmetric])
  then have "c div 65536 * 65536 + c div 256 mod 256 * 256 = c div 256 * 256" by linarith
  then show "c = unat (of_nat (c div 65536) :: u8) * 65536 + unat (of_nat (c div 256) :: u8) * 256 + unat (of_nat c :: u8)"
    unfolding 1 unfolding unat_byte using div_mult_mod_eq [of c 256] by linarith
qed

lemma utf8_bytes_be32: "c \<le> 0x10FFFF \<Longrightarrow> utf8_bytes (of_nat (c div 65536)) (of_nat (c div 256)) (of_nat c) = utf8 c"
  by (rule utf8_bytes_code [OF be32_parts(1)])

lemma utf8_bytes_length:
  "length (utf8_bytes b1 b2 b3) = (if b1 \<ge> 0x01 then 4 else if b2 \<ge> 0x08 then 3 else if b2 > 0x00 \<or> b3 \<ge> 0x80 then 2 else 1)"
  by (simp add: utf8_bytes_def)

interpretation from_ucs4: to_utf8 be32 "\<lambda>c. c \<le> 0x10FFFF" "\<lambda>c. length (utf8 c)" utf8_measure utf8_from_ucs4
proof
  show "be32 c \<noteq> []" for c by (simp add: be32_def)
  show "utf8_measure s n i len = Some (Some len)" if "\<not> i < n" for s n i len using that by (simp add: utf8_measure.simps)
  show "utf8_from_ucs4 s n out i len = Some (out, len)" if "\<not> i < n" for s n i len out using that by (simp add: utf8_from_ucs4.simps)
  show "utf8_measure s n i len = utf8_measure s n (i + of_nat (length (be32 c))) (len + of_nat (length (utf8 c)))"
    if c: "c \<le> 0x10FFFF" and a: "ahead s n i (be32 c @ r)" for s n i len c r
  proof -
    have l: "length (be32 c) = 4" by (simp add: be32_def)
    have "unat (of_nat (c div 65536) :: u8) \<le> 16" unfolding be32_parts(2) [OF c] using c div_le_mono [of c "0x10FFFF" 65536] by simp
    then have "\<not> (0 :: u8) > 0 \<and> \<not> (of_nat (c div 65536) :: u8) > 0x10" by (simp add: word_less_nat_alt)
    then show ?thesis
      unfolding l utf8_bytes_be32 [OF c, symmetric] utf8_bytes_length
      using ahead_quad [OF a [unfolded be32_def, simplified append.simps]] by (subst utf8_measure.simps) (simp add: add.commute)
  qed
  show "utf8_from_ucs4 s n out i len = do { out1 \<leftarrow> put_at out len (utf8 c);
      utf8_from_ucs4 s n out1 (i + of_nat (length (be32 c))) (len + of_nat (length (utf8 c))) }"
    if c: "c \<le> 0x10FFFF" and a: "ahead s n i (be32 c @ r)" for s n i len out c r
  proof -
    have l: "length (be32 c) = 4" by (simp add: be32_def)
    show ?thesis unfolding l utf8_bytes_be32 [OF c, symmetric]
      using ahead_quad [OF a [unfolded be32_def, simplified append.simps]] by (subst utf8_from_ucs4.simps) simp
  qed
qed simp

subsection \<open>ISO 8859-1\<close>

lemma latin1_char:
  assumes "c < 256"
  shows "utf8 c = (if (of_nat c :: u8) AND 0x80 = 0 then [of_nat c]
    else [0xC0 OR drop_bit 6 ((of_nat c :: u8) AND 0xC0), 0x80 OR ((of_nat c :: u8) AND 0x3F)])"
  using assms unfolding lead_tests leading_bytes trailing_bytes by (simp add: unat_of_nat_u8 utf8_def del: of_nat_add)

interpretation from_latin1: to_utf8 "\<lambda>c. [of_nat c]" "\<lambda>c. c < 256" "\<lambda>c. length (utf8 c)"
  "\<lambda>s n i len. map_option Some (latin1_measure s n i len)" utf8_from_latin1
proof
  show "map_option Some (latin1_measure s n i len) = Some (Some len)" if "\<not> i < n" for s n i len using that by (simp add: latin1_measure.simps)
  show "utf8_from_latin1 s n out i len = Some (out, len)" if "\<not> i < n" for s n i len out using that by (simp add: utf8_from_latin1.simps)
  fix s :: "u8 list" and n i len c r
  assume c: "c < 256" and a: "ahead s n i ([of_nat c] @ r)"
  have i: "i < n" "rd s (unat i) = Some (of_nat c)" using ahead_Cons [of s n i "of_nat c" r] a by simp_all
  show "map_option Some (latin1_measure s n i len) =
    map_option Some (latin1_measure s n (i + of_nat (length [of_nat c :: u8])) (len + of_nat (length (utf8 c))))"
    using i latin1_char [OF c] by (simp add: latin1_measure.simps [of s n i])
  show "utf8_from_latin1 s n out i len = do { out1 \<leftarrow> put_at out len (utf8 c);
      utf8_from_latin1 s n out1 (i + of_nat (length [of_nat c :: u8])) (len + of_nat (length (utf8 c))) }" for out
    using i latin1_char [OF c] by (simp add: utf8_from_latin1.simps [of s n out i])
qed simp_all

subsection \<open>UTF-16\<close>

text \<open>The characters for which the tests of the code are right: not U+F800 to U+FBFF, which its mask takes for high
  surrogates. The first pass takes one byte for a character below U+0100.\<close>

definition convertible :: "nat \<Rightarrow> bool" where
  "convertible c \<longleftrightarrow> scalar c \<and> \<not> (0xF800 \<le> c \<and> c < 0xFC00)"

definition width16 :: "nat \<Rightarrow> nat" where
  "width16 c = (if c < 0x100 then 1 else length (utf8 c))"

lemma surrogate_mask: "(h :: u8) AND 0xDC = 0xD8 \<longleftrightarrow> unat h div 4 = 54 \<or> unat h div 4 = 62"
  "h AND 0xDC = 0xDC \<longleftrightarrow> unat h div 4 = 55 \<or> unat h div 4 = 63"
proof -
  have c: "push_bit 2 (- 1) = (0xFC :: u8)" "push_bit 2 54 = (0xD8 :: u8)" "push_bit 2 62 = (0xF8 :: u8)" "push_bit 2 55 = (0xDC :: u8)"
    "push_bit 2 63 = (0xFC :: u8)" by code_simp+
  have d: "h AND 0xFC = 0xD8 \<longleftrightarrow> unat h div 4 = 54" "h AND 0xFC = 0xF8 \<longleftrightarrow> unat h div 4 = 62" "h AND 0xFC = 0xDC \<longleftrightarrow> unat h div 4 = 55"
    "h AND 0xFC = 0xFC \<longleftrightarrow> unat h div 4 = 63"
    using high_bits [where k = 2 and m = 54 and b = h] high_bits [where k = 2 and m = 62 and b = h]
      high_bits [where k = 2 and m = 55 and b = h] high_bits [where k = 2 and m = 63 and b = h]
    unfolding c by simp_all
  show "h AND 0xDC = 0xD8 \<longleftrightarrow> unat h div 4 = 54 \<or> unat h div 4 = 62" "h AND 0xDC = 0xDC \<longleftrightarrow> unat h div 4 = 55 \<or> unat h div 4 = 63"
    unfolding d [symmetric] u8_bits_eq by (auto simp: bit_and_iff)
qed

text \<open>The parts of a code beyond the basic plane and the bytes of its surrogates.\<close>

lemma surrogate_parts:
  assumes "0x10000 \<le> c" "c \<le> 0x10FFFF"
  obtains k y z where "k < 16" "y < 256" "z < 256" "c = (k + 1) * 65536 + y * 256 + z"
    "utf16 c = [of_nat (0xD8 + k div 4), of_nat (k mod 4 * 64 + y div 4), of_nat (0xDC + y mod 4), of_nat z]"
proof -
  define u where "u = c - 0x10000"
  define k y z where "k = u div 65536" and "y = u div 256 mod 256" and "z = u mod 256"
  have u: "c = u + 0x10000" "u < 0x100000" using assms by (simp_all add: u_def)
  have b: "k < 16" "y < 256" "z < 256" using u by (simp_all add: k_def y_def z_def less_mult_imp_div_less)
  have "k * 256 + y = u div 256"
    using div_mult_mod_eq [of "u div 256" 256] unfolding k_def y_def by (simp add: div_mult2_eq [symmetric])
  then have uk: "u = k * 65536 + y * 256 + z" using div_mult_mod_eq [of u 256] unfolding z_def by linarith
  have d: "u div 262144 = k div 4" "u div 1024 = k * 64 + y div 4" "u div 256 = k * 256 + y" using uk b by linarith+
  have "k * 64 + y div 4 = k mod 4 * 64 + y div 4 + k div 4 * 256" using div_mult_mod_eq [of k 4] by linarith
  then have "(of_nat (u div 1024) :: u8) = of_nat (k mod 4 * 64 + y div 4)"
    unfolding d word_unat_eq_iff unat_byte by (metis mod_mult_self1)
  moreover have "(k * 256 + y) mod 4 = y mod 4" 
  proof -
    have "k * 256 + y = y + (k * 64) * 4" by simp
    then show ?thesis by (metis mod_mult_self1)
  qed
  moreover have "(of_nat u :: u8) = of_nat z" unfolding z_def word_unat_eq_iff unat_byte by simp
  ultimately have "utf16 c = [of_nat (0xD8 + k div 4), of_nat (k mod 4 * 64 + y div 4), of_nat (0xDC + y mod 4), of_nat z]"
    using assms unfolding utf16_def Let_def u_def [symmetric] d by simp
  then show ?thesis using that b u uk by simp
qed

lemma pair_bytes_utf8:
  assumes b: "k < 16" "y < 256" "z < 256" and c: "c = (k + 1) * 65536 + y * 256 + z"
  shows "pair_bytes (of_nat (0xD8 + k div 4)) (of_nat (k mod 4 * 64 + y div 4)) (of_nat (0xDC + y mod 4)) (of_nat z) = utf8 c"
proof -
  define h l h2 l2 :: u8 where "h = of_nat (0xD8 + k div 4)" and "l = of_nat (k mod 4 * 64 + y div 4)"
    and "h2 = of_nat (0xDC + y mod 4)" and "l2 = of_nat z"
  have kb: "k div 4 < 4" "y div 4 < 64" "k mod 4 < 4" "y mod 4 < 4" using b by (simp_all add: less_mult_imp_div_less)
  have u: "unat h = 0xD8 + k div 4" "unat l = k mod 4 * 64 + y div 4" "unat h2 = 0xDC + y mod 4" "unat l2 = z"
    unfolding h_def l_def h2_def l2_def by (rule unat_of_nat_u8; use kb b in linarith)+
  have m: "unat h mod 4 = k div 4" "unat l div 64 = k mod 4" "unat l div 4 mod 16 = y div 16" "unat l mod 4 = y div 4 mod 4" "unat h2 mod 4 = y mod 4"
  proof -
    show "unat l div 64 = k mod 4" unfolding u using kb by simp
    have "unat l = y div 4 + (k mod 4 * 16) * 4" unfolding u by simp
    then show "unat l mod 4 = y div 4 mod 4" by (metis mod_mult_self1)
    have "unat l div 4 = y div 16 + k mod 4 * 16" unfolding u using kb by linarith
    then have "unat l div 4 mod 16 = y div 16 mod 16" by (metis mod_mult_self1)
    then show "unat l div 4 mod 16 = y div 16" using b by (simp add: less_mult_imp_div_less)
    have "unat h = k div 4 + 54 * 4" "unat h2 = y mod 4 + 55 * 4" unfolding u by simp_all
    then have "unat h mod 4 = k div 4 mod 4" "unat h2 mod 4 = y mod 4 mod 4" by (metis mod_mult_self1)+
    then show "unat h mod 4 = k div 4" "unat h2 mod 4 = y mod 4" using kb by simp_all
  qed
  have z: "z div 64 < 4" "y div 16 < 16" using b by (simp_all add: less_mult_imp_div_less)
  have bc: "unat (push_bit 2 (h AND 0x03) OR drop_bit 6 (l AND 0xC0)) = k"
    using joined_bits(1) [of "h AND 0x03" "drop_bit 6 (l AND 0xC0)"] kb unfolding unat_masked_u8 byte_parts m by simp
  define p where "p = (push_bit 2 (h AND 0x03) OR drop_bit 6 (l AND 0xC0)) + 1"
  have p: "unat p = k + 1" unfolding p_def using bc b by (simp add: unat_word_ariths)
  have y: "y div 4 mod 4 * 16 + y mod 4 * 4 = y mod 16 * 4"
    using div_mult_mod_eq [of "y mod 16" 4] mod_mult2_eq [of y 4 4] by simp
  have "unat (push_bit 2 (h2 AND 0x03) OR drop_bit 6 (l2 AND 0xC0)) = y mod 4 * 4 + z div 64"
    using joined_bits(1) [of "h2 AND 0x03" "drop_bit 6 (l2 AND 0xC0)"] kb z unfolding unat_masked_u8 byte_parts m unfolding u by simp
  moreover have "y mod 4 * 4 + z div 64 < 16" using kb z by linarith
  ultimately have "unat (push_bit 4 (l AND 0x03) OR (push_bit 2 (h2 AND 0x03) OR drop_bit 6 (l2 AND 0xC0))) = y mod 16 * 4 + z div 64"
    using joined_bits(2) [of "l AND 0x03" "push_bit 2 (h2 AND 0x03) OR drop_bit 6 (l2 AND 0xC0)"] y unfolding unat_masked_u8 m by simp
  moreover have "y mod 16 * 4 + z div 64 < 64" using z mod_less_divisor [of 16 y] by linarith
  ultimately have B2: "0x80 OR push_bit 4 (l AND 0x03) OR push_bit 2 (h2 AND 0x03) OR drop_bit 6 (l2 AND 0xC0) = of_nat (0x80 + (y mod 16 * 4 + z div 64))"
    unfolding word_unat_eq_iff or.assoc
    using marked(1) [of "push_bit 4 (l AND 0x03) OR (push_bit 2 (h2 AND 0x03) OR drop_bit 6 (l2 AND 0xC0))"] by (simp add: unat_of_nat_u8 del: of_nat_add)
  have "unat (push_bit 4 (p AND 0x03) OR drop_bit 2 (l AND 0x3C)) = (k + 1) mod 4 * 16 + y div 16"
    using joined_bits(2) [of "p AND 0x03" "drop_bit 2 (l AND 0x3C)"] z unfolding unat_masked_u8 byte_parts m p by simp
  moreover have "(k + 1) mod 4 * 16 + y div 16 < 64" using z mod_less_divisor [of 4 "k + 1"] by linarith
  ultimately have B1: "0x80 OR push_bit 4 (p AND 0x03) OR drop_bit 2 (l AND 0x3C) = of_nat (0x80 + ((k + 1) mod 4 * 16 + y div 16))"
    unfolding word_unat_eq_iff or.assoc
    using marked(1) [of "push_bit 4 (p AND 0x03) OR drop_bit 2 (l AND 0x3C)"] by (simp add: unat_of_nat_u8 del: of_nat_add)
  have e: "pair_bytes h l h2 l2 = [of_nat (0xF0 + (k + 1) div 4 mod 8), of_nat (0x80 + ((k + 1) mod 4 * 16 + y div 16)),
    of_nat (0x80 + (y mod 16 * 4 + z div 64)), of_nat (0x80 + z mod 64)]"
    unfolding pair_bytes_def Let_def p_def [symmetric] B1 B2 leading_bytes(1) trailing_bytes(1) p u ..
  have "(k + 1) div 4 mod 8 = (k + 1) div 4" using b by simp
  then show ?thesis using c e code_digits [OF b(2,3) c] b
    unfolding h_def [symmetric] l_def [symmetric] h2_def [symmetric] l2_def [symmetric] utf8_def by (simp del: of_nat_add)
qed

text \<open>The two bytes of a character of the basic plane.\<close>

lemma plane_parts:
  assumes "c < 0x10000"
  shows "utf16 c = [of_nat (c div 256), of_nat c]" "unat (of_nat (c div 256) :: u8) = c div 256" "unat (of_nat c :: u8) = c mod 256"
    "c = 0 * 65536 + unat (of_nat (c div 256) :: u8) * 256 + unat (of_nat c :: u8)"
  using assms by (simp_all add: utf16_def unat_byte less_mult_imp_div_less)

interpretation from_utf16: to_utf8 utf16 convertible width16 utf16_measure utf8_from_utf16
proof
  show "utf16 c \<noteq> []" for c by (simp add: utf16_def Let_def)
  show "width16 c \<le> length (utf8 c)" for c using utf8_length(1) by (simp add: width16_def)
  show "utf16_measure s n i len = Some (Some len)" if "\<not> i < n" for s n i len using that by (simp add: utf16_measure.simps)
  show "utf8_from_utf16 s n out i len = Some (out, len)" if "\<not> i < n" for s n i len out using that by (simp add: utf8_from_utf16.simps)
  fix s :: "u8 list" and n i len c r
  assume c: "convertible c" and a: "ahead s n i (utf16 c @ r)"
  have max: "c \<le> 0x10FFFF" using c by (auto simp: convertible_def scalar_def)
  have both: "utf16_measure s n i len = utf16_measure s n (i + of_nat (length (utf16 c))) (len + of_nat (width16 c)) \<and>
    (\<forall>out. utf8_from_utf16 s n out i len = do { out1 \<leftarrow> put_at out len (utf8 c);
      utf8_from_utf16 s n out1 (i + of_nat (length (utf16 c))) (len + of_nat (length (utf8 c))) })"
  proof (cases "c < 0x10000")
    case True
    define h l :: u8 where "h = of_nat (c div 256)" and "l = of_nat c"
    note p = plane_parts [OF True, folded h_def l_def]
    note d = code_digits [OF unat_u8_less unat_u8_less p(4)]
    note a2 = ahead_bytes [OF a [unfolded p(1), simplified append.simps]]
    have nosurr: "h AND 0xDC \<noteq> 0xD8"
    proof -
      have "unat h div 4 = c div 1024" unfolding p(2) by (simp add: div_mult2_eq [symmetric])
      moreover have "c div 1024 \<noteq> 54" "c div 1024 \<noteq> 62" using c by (auto simp: div_interval convertible_def scalar_def)
      ultimately show ?thesis unfolding surrogate_mask by simp
    qed
    have t: "h = 0 \<longleftrightarrow> c < 256" "h < 8 \<longleftrightarrow> c < 2048" "l AND 0x80 = 0 \<longleftrightarrow> c mod 256 < 128"
    proof -
      show "h = 0 \<longleftrightarrow> c < 256" using p(2) by (auto simp: word_unat_eq_iff div_interval)
      show "h < 8 \<longleftrightarrow> c < 2048" using p(2) by (auto simp: word_less_nat_alt div_less_iff_less_mult)
      show "l AND 0x80 = 0 \<longleftrightarrow> c mod 256 < 128" using p(3) by (simp add: lead_tests)
    qed
    have u2: "utf8 c = [0xC0 OR push_bit 2 (h AND 0x07) OR drop_bit 6 (l AND 0xC0), 0x80 OR (l AND 0x3F)]" if "128 \<le> c" "c < 2048"
    proof -
      have "unat h mod 8 = unat h" using that p(2) by (simp add: less_mult_imp_div_less)
      then show ?thesis using that d(6) unfolding leading_bytes trailing_bytes utf8_def d(1) by (simp del: of_nat_add)
    qed
    have u3: "utf8 c = [0xE0 OR drop_bit 4 (h AND 0xF0), 0x80 OR push_bit 2 (h AND 0x0F) OR drop_bit 6 (l AND 0xC0), 0x80 OR (l AND 0x3F)]"
      if "2048 \<le> c" using that True d(5) unfolding leading_bytes trailing_bytes utf8_def d(1,2) by (simp del: of_nat_add)
    consider "c < 128" | "128 \<le> c" "c < 256" | "256 \<le> c" "c < 2048" | "2048 \<le> c" by linarith
    then show ?thesis
    proof cases
      case 1
      then have "utf8 c = [l AND 0x7F]" unfolding word_unat_eq_iff by (simp add: utf8_def word_unat_eq_iff unat_masked_u8 p(3) unat_byte)
      then show ?thesis using 1 a2 t p(1) 
        by (simp add: utf16_measure.simps [of s n i] utf8_from_utf16.simps [of s n _ i] width16_def)
    next
      case 2
      then have "c mod 256 = c" "length (utf8 c) = 2" by (simp_all add: utf8_def)
      then show ?thesis using 2 a2 t p(1) u2
        by (simp add: utf16_measure.simps [of s n i] utf8_from_utf16.simps [of s n _ i] width16_def)
    next
      case 3
      then show ?thesis using a2 t p(1) u2
        by (simp add: utf16_measure.simps [of s n i] utf8_from_utf16.simps [of s n _ i] width16_def)
    next
      case 4
      then show ?thesis using a2 t p(1) u3 nosurr
        by (simp add: utf16_measure.simps [of s n i] utf8_from_utf16.simps [of s n _ i] width16_def)
    qed
  next
    case False
    then have "0x10000 \<le> c" by simp
    obtain k y z where kyz: "k < 16" "y < 256" "z < 256" "c = (k + 1) * 65536 + y * 256 + z"
      "utf16 c = [of_nat (0xD8 + k div 4), of_nat (k mod 4 * 64 + y div 4), of_nat (0xDC + y mod 4), of_nat z]"
      by (rule surrogate_parts [OF \<open>0x10000 \<le> c\<close> max])
    define h l h2 l2 :: u8 where "h = of_nat (0xD8 + k div 4)" and "l = of_nat (k mod 4 * 64 + y div 4)"
      and "h2 = of_nat (0xDC + y mod 4)" and "l2 = of_nat z"
    have u: "utf16 c = [h, l, h2, l2]" "pair_bytes h l h2 l2 = utf8 c"
      using kyz(5) pair_bytes_utf8 [OF kyz(1-4)] by (simp_all only: h_def l_def h2_def l2_def)
    note q = ahead_quad [OF a [unfolded u(1), simplified append.simps]]
    have kb: "k div 4 < 4" "y mod 4 < 4" using kyz by (simp_all add: less_mult_imp_div_less)
    have hh: "unat h = 0xD8 + k div 4" "unat h2 = 0xDC + y mod 4"
      unfolding h_def h2_def by (rule unat_of_nat_u8; use kb in linarith)+
    have "unat h div 4 = 54" "unat h2 div 4 = 55" unfolding hh using kb by (simp_all add: div_interval)
    then have m: "h AND 0xDC = 0xD8" "h2 AND 0xDC = 0xDC" unfolding surrogate_mask by simp_all
    have "h \<noteq> 0" "\<not> h < 8" using hh by (auto simp: word_unat_eq_iff word_less_nat_alt)
    moreover have "unat (n - i) = unat n - unat i" using q(1) by (simp add: unat_sub word_le_nat_alt word_less_nat_alt)
    then have "n - i > 2" using ahead_length [OF a] by (simp add: u(1) word_less_nat_alt)
    moreover have "length (utf8 c) = 4" using False by (simp add: utf8_def)
    ultimately show ?thesis using q m False u
      by (simp add: utf16_measure.simps [of s n i] utf8_from_utf16.simps [of s n _ i] width16_def add.assoc)
  qed
  show "utf16_measure s n i len = utf16_measure s n (i + of_nat (length (utf16 c))) (len + of_nat (width16 c))"
    using both by blast
  show "utf8_from_utf16 s n out i len = do { out1 \<leftarrow> put_at out len (utf8 c);
      utf8_from_utf16 s n out1 (i + of_nat (length (utf16 c))) (len + of_nat (length (utf8 c))) }" for out
    using both by blast
qed

end
