(* ===== verification/Nss_Utf8_Spec.thy ===== *)
theory Nss_Utf8_Spec
  imports Nss_Utf8_Encode
begin

text \<open>The properties of the conversions of \<open>utf8.c\<close>, over the interpretations of \<open>from_utf8\<close> and \<open>to_utf8\<close>.\<close>

lemma concat_length_const: "(\<And>c. length (f c) = k) \<Longrightarrow> length (concat (map f cs)) = k * length cs"
  by (induction cs) simp_all

lemma be32_length: "length (be32 c) = 4"
  by (simp add: be32_def)

lemma utf16_even: "even (length (utf16 c))"
  by (simp add: utf16_def Let_def)

lemma utf16_text_even: "even (length (concat (map utf16 cs)))"
  by (induction cs) (simp_all add: utf16_even)

text \<open>C14: \<open>sec_port_read_utf8\<close> reads exactly the encoding of a Unicode scalar value: if the bytes from the
  index on, up to the end of the input, begin with one, it returns its code and moves the index past it; otherwise (a wrong byte, a
  character cut off by the end, an overlong form, a surrogate, a code above U+10FFFF) it returns \<open>BAD_UTF8\<close> and leaves the
  index alone. It never reads past the end.\<close>

theorem utf8_reader:
  assumes "unat n \<le> length s" and "i < n"
  shows "(\<exists>c r. scalar c \<and> drop (unat i) (take (unat n) s) = utf8 c @ r \<and>
      sec_port_read_utf8 i s n = Some (of_nat c, i + of_nat (length (utf8 c)))) \<or>
    (\<nexists>c r. scalar c \<and> drop (unat i) (take (unat n) s) = utf8 c @ r) \<and> sec_port_read_utf8 i s n = Some (BAD_UTF8, i)"
proof -
  define bs where "bs = drop (unat i) (take (unat n) s)"
  have a: "ahead s n i bs" using assms by (simp add: ahead_def bs_def word_less_nat_alt)
  have ne: "bs \<noteq> []" using ahead_length [OF a] assms(2) by (auto simp: word_less_nat_alt)
  show ?thesis
  proof (cases "char_of bs")
    case None
    then have "\<nexists>c r. scalar c \<and> bs = utf8 c @ r" using char_of_utf8 by auto
    then show ?thesis using read_char [OF a ne] None by (simp add: bs_def)
  next
    case (Some ck)
    obtain c k where ck: "ck = (c, k)" by (cases ck)
    obtain r where r: "bs = utf8 c @ r" "scalar c" "k = length (utf8 c)" using utf8_of_char Some ck by blast
    have "sec_port_read_utf8 i s n = Some (of_nat c, i + of_nat (length (utf8 c)))" using read_char [OF a ne] Some ck r by simp
    then show ?thesis using r unfolding bs_def by blast
  qed
qed

text \<open>The second character of "a" and the euro sign, and a surrogate.\<close>

theorem utf8_reader_witness:
  "sec_port_read_utf8 1 [0x61, 0xE2, 0x82, 0xAC] 4 = Some (0x20AC, 4)"
proof -
  have e: "utf8 0x20AC = [0xE2, 0x82, 0xAC]" "scalar 0x20AC" by (simp_all add: utf8_def scalar_def)
  have "c = 0x20AC" if "scalar c" "utf8 0x20AC = utf8 c @ r" for c r
    using char_of_utf8 [OF that(1), of r] char_of_utf8 [OF e(2), of "[]"] unfolding that(2) [symmetric] by simp
  moreover have d: "drop (unat (1 :: u32)) (take (unat (4 :: u32)) [0x61, 0xE2, 0x82, 0xAC]) = utf8 0x20AC" unfolding e(1) by simp
  moreover have "unat (4 :: u32) \<le> length [0x61, 0xE2, 0x82, 0xAC :: u8]" "(1 :: u32) < 4" by simp_all
  note utf8_reader [OF this, unfolded d]
  ultimately have "sec_port_read_utf8 1 [0x61, 0xE2, 0x82, 0xAC] 4 = Some (of_nat 0x20AC, 1 + of_nat (length (utf8 0x20AC)))"
    using e(2) append_Nil2 by metis
  then show ?thesis by (simp add: e(1))
qed

text \<open>C4: From UTF-8, both conversions do the same with any input of less than a gigabyte: if it is a
  text in UTF-8, they write its characters in UCS-4 or UTF-16 when the buffer has room for them, and otherwise say how much room
  they take and write nothing; if it is no such text they return false. No access is outside the buffers.\<close>

theorem utf8_decode:
  assumes "unat n \<le> length s" and "4 * unat n < 2 ^ 32 - 16" and "unat maxlen \<le> length out"
    and "(conv, enc) \<in> {(sec_port_ucs4_utf8_conversion_function True, be32), (sec_port_ucs2_utf8_conversion_function True, utf16)}"
  shows "(\<exists>cs. (\<forall>c\<in>set cs. scalar c) \<and> take (unat n) s = concat (map utf8 cs) \<and>
      conv s n out maxlen obl = Some (let E = concat (map enc cs) in
        if length E \<le> unat maxlen then (True, E @ drop (length E) out, of_nat (length E)) else (False, out, of_nat (length E)))) \<or>
    \<not> well_formed (take (unat n) s) \<and> (\<exists>out' l. conv s n out maxlen obl = Some (False, out', l) \<and> length out' = length out)"
proof -
  obtain cs bad where t: "\<forall>c\<in>set cs. scalar c" "take (unat n) s = concat (map utf8 cs) @ bad" "bad = [] \<or> char_of bad = None"
    by (rule split_text)
  consider "conv = sec_port_ucs4_utf8_conversion_function True" "enc = be32" | "conv = sec_port_ucs2_utf8_conversion_function True" "enc = utf16"
    using assms(4) by blast
  then have spec: "(bad = [] \<longrightarrow> conv s n out maxlen obl = Some (let E = concat (map enc cs) in
        if length E \<le> unat maxlen then (True, E @ drop (length E) out, of_nat (length E)) else (False, out, of_nat (length E)))) \<and>
    (bad \<noteq> [] \<longrightarrow> (\<exists>out' l. conv s n out maxlen obl = Some (False, out', l) \<and> length out' = length out))"
  proof cases
    case 1
    show ?thesis unfolding 1 Let_def using ucs4.conv_spec [OF assms(1-3) t] by blast
  next
    case 2
    show ?thesis unfolding 2 Let_def using utf16.conv_spec [OF assms(1-3) t] by blast
  qed
  show ?thesis
  proof (cases "bad = []")
    case True
    then show ?thesis using spec t by auto
  next
    case False
    have "\<not> well_formed (take (unat n) s)"
      unfolding well_formed_def using text_prefix [OF t(1) _ _ t(3)] t(2) False by metis
    then show ?thesis using spec False by blast
  qed
qed

theorem utf8_decode_witness:
  "sec_port_ucs2_utf8_conversion_function True [0x61, 0xE2, 0x82, 0xAC] 4 [0, 0, 0, 0] 4 0 = Some (True, [0, 0x61, 0x20, 0xAC], 4)"
proof -
  have e: "concat (map utf8 [0x61, 0x20AC]) = [0x61, 0xE2, 0x82, 0xAC]" "\<forall>c\<in>set [0x61, 0x20AC]. scalar c"
    "concat (map utf16 [0x61, 0x20AC]) = [0, 0x61, 0x20, 0xAC]" by (simp_all add: utf8_def utf16_def scalar_def)
  have t: "take (unat (4 :: u32)) [0x61, 0xE2, 0x82, 0xAC] = concat (map utf8 [0x61, 0x20AC])" unfolding e(1) by simp
  have wf: "well_formed (concat (map utf8 [0x61, 0x20AC]))" unfolding well_formed_def using e(2) by blast
  have prems: "unat (4 :: u32) \<le> length [0x61, 0xE2, 0x82, 0xAC :: u8]" "4 * unat (4 :: u32) < 2 ^ 32 - 16" "unat (4 :: u32) \<le> length [0, 0, 0, 0 :: u8]"
    "(sec_port_ucs2_utf8_conversion_function True, utf16) \<in> {(sec_port_ucs4_utf8_conversion_function True, be32),
      (sec_port_ucs2_utf8_conversion_function True, utf16)}" by simp_all
  from utf8_decode [OF prems, of 0, unfolded t] show ?thesis
  proof (elim disjE exE conjE)
    fix cs
    assume cs: "\<forall>c\<in>set cs. scalar c" "concat (map utf8 [0x61, 0x20AC]) = concat (map utf8 cs)"
      and r: "sec_port_ucs2_utf8_conversion_function True [0x61, 0xE2, 0x82, 0xAC] 4 [0, 0, 0, 0] 4 0 = Some (let E = concat (map utf16 cs) in
        if length E \<le> unat (4 :: u32) then (True, E @ drop (length E) [0, 0, 0, 0], of_nat (length E)) else (False, [0, 0, 0, 0], of_nat (length E)))"
    have c: "cs = [0x61, 0x20AC]" by (rule utf8_unique [OF cs(1) e(2) cs(2) [symmetric]])
    show ?thesis using r unfolding c e(3) by simp
  qed (use wf in blast)
qed

text \<open>An input of whole units is UCS-4 text, or has a unit above U+10FFFF.\<close>

lemma be32_text:
  assumes "length bs mod 4 = 0"
  shows "(\<exists>cs. (\<forall>c\<in>set cs. c \<le> 0x10FFFF) \<and> bs = concat (map be32 cs)) \<or>
    (\<exists>j. 4 * j + 1 < length bs \<and> (bs ! (4 * j) > 0 \<or> bs ! (4 * j + 1) > 0x10))"
  using assms
proof (induction "length bs" arbitrary: bs rule: less_induct)
  case less
  show ?case
  proof (cases "length bs < 4")
    case True
    then have "bs = []" using less.prems by simp
    then have "(\<forall>c\<in>set []. c \<le> 0x10FFFF) \<and> bs = concat (map be32 [])" by simp
    then show ?thesis by blast
  next
    case False
    then have "4 \<le> length bs" by simp
    then obtain a b c d r where bs: "bs = a # b # c # d # r" by (auto simp: Suc_le_length_iff numeral_eq_Suc)
    have r: "length r < length bs" "length r mod 4 = 0" using less.prems bs by (simp_all add: mod_Suc split: if_splits)
    show ?thesis
    proof (cases "a > 0 \<or> b > 0x10")
      case True
      then have "4 * 0 + 1 < length bs \<and> (bs ! (4 * 0) > 0 \<or> bs ! (4 * 0 + 1) > 0x10)" using bs by simp
      then show ?thesis by blast
    next
      case ok: False
      from less.hyps [OF r] show ?thesis
      proof (elim disjE exE)
        fix cs assume cs: "(\<forall>c\<in>set cs. c \<le> 0x10FFFF) \<and> r = concat (map be32 cs)"
        define x where "x = unat b * 65536 + unat c * 256 + unat d"
        have b: "unat b \<le> 16" "unat c < 256" "unat d < 256" "a = 0"
          using ok unat_u8_less by (simp_all add: word_less_nat_alt word_unat_eq_iff not_less)
        have max: "x \<le> 0x10FFFF" unfolding x_def using b by linarith
        have "x div 65536 = unat b" "x div 256 = unat b * 256 + unat c" unfolding x_def using b by linarith+
        moreover have "(of_nat (unat b * 256 + unat c) :: u8) = c" "(of_nat x :: u8) = d"
        proof -
          have "x = unat d + (unat b * 256 + unat c) * 256" "unat b * 256 + unat c = unat c + unat b * 256" by (simp_all add: x_def)
          then show "(of_nat (unat b * 256 + unat c) :: u8) = c" "(of_nat x :: u8) = d"
            unfolding word_unat_eq_iff unat_byte using b by (metis mod_less mod_mult_self1)+
        qed
        ultimately have "be32 x = [a, b, c, d]" using b(4) by (simp add: be32_def del: of_nat_add of_nat_mult)
        then have "(\<forall>c\<in>set (x # cs). c \<le> 0x10FFFF) \<and> bs = concat (map be32 (x # cs))" using cs bs max by simp
        then show ?thesis by blast
      next
        fix j assume "4 * j + 1 < length r \<and> (r ! (4 * j) > 0 \<or> r ! (4 * j + 1) > 0x10)"
        then have "4 * Suc j + 1 < length bs \<and> (bs ! (4 * Suc j) > 0 \<or> bs ! (4 * Suc j + 1) > 0x10)" using bs by simp
        then show ?thesis by blast
      qed
    qed
  qed
qed

lemma utf8_measure_refuses:
  assumes "ahead s n i bs" "length bs mod 4 = 0" "4 * j + 1 < length bs" "bs ! (4 * j) > 0 \<or> bs ! (4 * j + 1) > 0x10"
  shows "utf8_measure s n i len = Some None"
  using assms
proof (induction "length bs" arbitrary: bs i j len rule: less_induct)
  case less
  obtain a b c d r where bs: "bs = a # b # c # d # r"
  proof -
    have "4 \<le> length bs" using less.prems(2,3) by (cases "length bs < 4") auto
    then show ?thesis using that by (auto simp: Suc_le_length_iff numeral_eq_Suc)
  qed
  note q = ahead_quad [OF less.prems(1) [unfolded bs]]
  show ?case
  proof (cases "a > 0 \<or> b > 0x10")
    case True
    then show ?thesis using q by (simp add: utf8_measure.simps [of s n i])
  next
    case False
    then obtain j' where j: "j = Suc j'" using less.prems(4) bs by (cases j) auto
    have m: "utf8_measure s n i len = utf8_measure s n (i + 4) (len + (if b \<ge> 0x01 then 4 else if c \<ge> 0x08 then 3 else if c > 0x00 \<or> d \<ge> 0x80 then 2 else 1))"
      using q False by (subst utf8_measure.simps) simp
    show ?thesis unfolding m
      by (rule less.hyps [of r _ j']) (use less.prems bs j q in \<open>simp_all add: mod_Suc split: if_splits\<close>)
  qed
qed

text \<open>C33: To UTF-8, UCS-4 text is written as the encodings of its codes when the buffer has room, and otherwise
  the room they take is given and nothing is written; an input whose length is no multiple of four, or with a code above U+10FFFF,
  is refused with length 0. A surrogate is written, although \<open>sec_port_read_utf8\<close> does not read it back.\<close>

theorem ucs4_encode:
  assumes "unat n \<le> length s" and "4 * unat n < 2 ^ 32" and "unat maxlen \<le> length out"
  shows "(\<exists>cs. (\<forall>c\<in>set cs. c \<le> 0x10FFFF) \<and> take (unat n) s = concat (map be32 cs) \<and>
      sec_port_ucs4_utf8_conversion_function False s n out maxlen obl = Some (let E = concat (map utf8 cs) in
        if length E \<le> unat maxlen then (True, E @ drop (length E) out, of_nat (length E)) else (False, out, of_nat (length E)))) \<or>
    (\<nexists>cs. (\<forall>c\<in>set cs. c \<le> 0x10FFFF) \<and> take (unat n) s = concat (map be32 cs)) \<and>
      sec_port_ucs4_utf8_conversion_function False s n out maxlen obl = Some (False, out, 0)"
proof (cases "\<exists>cs. (\<forall>c\<in>set cs. c \<le> 0x10FFFF) \<and> take (unat n) s = concat (map be32 cs)")
  case True
  then obtain cs where cs: "\<forall>c\<in>set cs. c \<le> 0x10FFFF" "take (unat n) s = concat (map be32 cs)" by blast
  note p = from_ucs4.passes [OF cs assms(1,2)]
  have W: "sum_list (map (\<lambda>c. length (utf8 c)) cs) = length (concat (map utf8 cs))" by (simp add: length_concat comp_def)
  have "length (concat (map be32 cs)) = unat n" using assms(1) arg_cong [OF cs(2), of length] by simp
  then have "unat n mod 4 = 0" using concat_length_const [of be32 4 cs] be32_length
    by (metis mod_mult_self1_is_0)
  then have "n mod 4 = 0" by (simp add: word_unat_eq_iff unat_mod)
  then have "sec_port_ucs4_utf8_conversion_function False s n out maxlen obl = Some (let E = concat (map utf8 cs) in
        if length E \<le> unat maxlen then (True, E @ drop (length E) out, of_nat (length E)) else (False, out, of_nat (length E)))"
    using p [unfolded W] assms(3) by (simp add: sec_port_ucs4_utf8_conversion_function_def word_less_nat_alt Let_def not_less)
  then show ?thesis using cs by blast
next
  case False
  have "sec_port_ucs4_utf8_conversion_function False s n out maxlen obl = Some (False, out, 0)"
  proof (cases "n mod 4 = 0")
    case n: True
    then have l: "length (take (unat n) s) mod 4 = 0" using assms(1) by (simp add: word_unat_eq_iff unat_mod)
    obtain j where "4 * j + 1 < length (take (unat n) s)" "take (unat n) s ! (4 * j) > 0 \<or> take (unat n) s ! (4 * j + 1) > 0x10"
      using be32_text [OF l] False by blast
    then have "utf8_measure s n 0 0 = Some None" by (rule utf8_measure_refuses [OF ahead_start [OF assms(1)] l])
    then show ?thesis using n by (simp add: sec_port_ucs4_utf8_conversion_function_def)
  qed (simp add: sec_port_ucs4_utf8_conversion_function_def)
  then show ?thesis using False by blast
qed

theorem ucs4_encode_witness:
  "sec_port_ucs4_utf8_conversion_function False [0, 0x11, 0, 0] 4 [7, 7] 2 9 = Some (False, [7, 7], 0)"
proof -
  have "False" if "\<forall>c\<in>set cs. c \<le> 0x10FFFF" "[0, 0x11, 0, 0] = concat (map be32 cs)" for cs
  proof (cases cs)
    case (Cons c cs')
    then have "unat (of_nat (c div 65536) :: u8) = 17" using that(2) by (simp add: be32_def flip: that(2))
    then show ?thesis using that(1) Cons be32_parts(2) [of c] div_le_mono [of c "0x10FFFF" 65536] by simp
  qed (use that in simp)
  then show ?thesis using ucs4_encode [of 4 "[0, 0x11, 0, 0]" 2 "[7, 7]" 9] by auto
qed

text \<open>C17: UCS-4 comes back: any list of scalar values, written to UTF-8 and from there to UCS-4 again, with
  room for both, is the list.\<close>

theorem ucs4_roundtrip:
  assumes "\<forall>c\<in>set cs. scalar c" and "16 * length cs < 2 ^ 28"
    and "4 * length cs \<le> length b1" "4 * length cs \<le> length b2" "length b1 < 2 ^ 32" "length b2 < 2 ^ 32"
  shows "\<exists>u v n. sec_port_ucs4_utf8_conversion_function False (concat (map be32 cs)) (of_nat (4 * length cs)) b1 (of_nat (length b1)) l1 = Some (True, u, n) \<and>
    sec_port_ucs4_utf8_conversion_function True u n b2 (of_nat (length b2)) l2 = Some (True, v, of_nat (4 * length cs)) \<and>
    take (4 * length cs) v = concat (map be32 cs)"
proof -
  define E where "E = concat (map utf8 cs)"
  have l: "length (concat (map be32 cs)) = 4 * length cs" using concat_length_const [of be32 4] be32_length by simp
  have n: "unat (of_nat (4 * length cs) :: u32) = 4 * length cs" using assms(2) by (intro unat_of_nat_u32) simp
  have ul: "unat (of_nat (length b1) :: u32) = length b1" "unat (of_nat (length b2) :: u32) = length b2"
    using assms by (simp_all add: unat_of_nat_u32)
  have c: "\<forall>c\<in>set cs. c \<le> 0x10FFFF" using assms(1) by (auto simp: scalar_def)
  have t: "take (unat (of_nat (4 * length cs) :: u32)) (concat (map be32 cs)) = concat (map be32 cs)" unfolding n using l by simp
  have E: "length E \<le> 4 * length cs"
    unfolding E_def length_concat by (induction cs) (use utf8_length(2) in \<open>auto intro: add_mono\<close>)
  have uE: "unat (of_nat (length E) :: u32) = length E" using E assms by (intro unat_of_nat_u32) simp
  note p = from_ucs4.passes [OF c t]
  have W: "sum_list (map (\<lambda>c. length (utf8 c)) cs) = length E" by (simp add: E_def length_concat comp_def)
  have "sec_port_ucs4_utf8_conversion_function False (concat (map be32 cs)) (of_nat (4 * length cs)) b1 (of_nat (length b1)) l1 =
    Some (True, E @ drop (length E) b1, of_nat (length E))"
  proof -
    have m: "(of_nat (4 * length cs) :: u32) mod 4 = 0" using n by (simp add: word_unat_eq_iff unat_mod del: of_nat_mult)
    show ?thesis
      using p [folded E_def] E assms unfolding W n l
      by (simp add: sec_port_ucs4_utf8_conversion_function_def m word_less_nat_alt ul uE not_less del: of_nat_mult)
  qed
  moreover have "sec_port_ucs4_utf8_conversion_function True (E @ drop (length E) b1) (of_nat (length E)) b2 (of_nat (length b2)) l2 =
    Some (True, concat (map be32 cs) @ drop (4 * length cs) b2, of_nat (4 * length cs))"
    using ucs4.conv_spec(1) [of "of_nat (length E)" "E @ drop (length E) b1" "of_nat (length b2)" b2 cs "[]" l2] assms E
    unfolding uE ul by (simp add: E_def l del: of_nat_mult)
  ultimately show ?thesis using l by (intro exI conjI) auto
qed

theorem ucs4_roundtrip_witness:
  "\<exists>u v n. sec_port_ucs4_utf8_conversion_function False [0, 0, 0, 0xE9, 0, 1, 3, 0x48] 8 (replicate 8 0) 8 0 = Some (True, u, n) \<and>
    sec_port_ucs4_utf8_conversion_function True u n (replicate 8 0) 8 0 = Some (True, v, 8) \<and> take 8 v = [0, 0, 0, 0xE9, 0, 1, 3, 0x48]"
proof -
  have "concat (map be32 [0xE9, 0x10348]) = [0, 0, 0, 0xE9, 0, 1, 3, 0x48]" "\<forall>c\<in>set [0xE9, 0x10348]. scalar c"
    by (simp_all add: be32_def scalar_def)
  then show ?thesis using ucs4_roundtrip [of "[0xE9, 0x10348]" "replicate 8 0" "replicate 8 0" 0 0] by simp
qed

text \<open>C18: From UTF-16 to UTF-8. The first pass takes one byte for every character below U+0100, the second
  writes two for those from U+0080 on: with a buffer that has the length that was asked for, but less than the text takes, the conversion
  writes past its end. With room for the whole text it is written as it should be. (Characters U+F800 to U+FBFF are left out: the
  code takes them for high surrogates.)\<close>

theorem utf16_encode:
  assumes "\<forall>c\<in>set cs. convertible c" and "take (unat n) s = concat (map utf16 cs)" and "unat n \<le> length s" and "4 * unat n < 2 ^ 32"
  defines "E \<equiv> concat (map utf8 cs)" and "W \<equiv> sum_list (map width16 cs)"
  shows "sec_port_ucs2_utf8_conversion_function False s n out maxlen obl =
    (if unat maxlen < W then Some (False, out, of_nat W)
     else if length E \<le> length out then Some (True, E @ drop (length E) out, of_nat (length E))
     else None)"
proof -
  note p = from_utf16.passes [OF assms(1-4)]
  have "length (concat (map utf16 cs)) = unat n" using assms(3) arg_cong [OF assms(2), of length] by simp
  then have "even (unat n)" using utf16_text_even by metis
  then have "n mod 2 = 0" by (simp add: word_unat_eq_iff unat_mod even_iff_mod_2_eq_zero)
  then show ?thesis using p by (simp add: sec_port_ucs2_utf8_conversion_function_def word_less_nat_alt E_def W_def)
qed

text \<open>One character, U+00E9, with the one byte of room that the code asks for.\<close>

theorem utf16_encode_witness:
  "sec_port_ucs2_utf8_conversion_function False [0, 0xE9] 2 [] 0 0 = Some (False, [], 1) \<and>
   sec_port_ucs2_utf8_conversion_function False [0, 0xE9] 2 [0] 1 0 = None"
proof -
  have "take (unat (2 :: u32)) [0, 0xE9] = concat (map utf16 [0xE9])" "\<forall>c\<in>set [0xE9]. convertible c"
    "sum_list (map width16 [0xE9]) = 1" "length (concat (map utf8 [0xE9])) = 2"
    by (simp_all add: utf8_def utf16_def width16_def convertible_def scalar_def)
  note t = this
  have "unat (2 :: u32) \<le> length [0, 0xE9 :: u8]" "4 * unat (2 :: u32) < 2 ^ 32" by simp_all
  from utf16_encode [OF t(2,1) this, of "[]" 0 0] utf16_encode [OF t(2,1) this, of "[0]" 1 0]
  show ?thesis unfolding t(3,4) by simp
qed

text \<open>An ISO 8859-1 text is written as the encodings of its characters when the buffer has room, and otherwise the room
  they take is given and nothing is written.\<close>

lemma latin1_encode:
  assumes "unat n \<le> length s" and "4 * unat n < 2 ^ 32" and "unat maxlen \<le> length out"
  defines "E \<equiv> concat (map (utf8 \<circ> unat) (take (unat n) s))"
  shows "sec_port_iso88591_utf8_conversion_function s n out maxlen obl =
    Some (if length E \<le> unat maxlen then (True, E @ drop (length E) out, of_nat (length E)) else (False, out, of_nat (length E)))"
proof -
  define cs where "cs = map unat (take (unat n) s)"
  have c: "\<forall>c\<in>set cs. c < 256" using unat_u8_less by (auto simp: cs_def)
  have t: "take (unat n) s = concat (map (\<lambda>c. [of_nat c]) cs)" 
  proof -
    have "xs = concat (map (\<lambda>c. [of_nat c]) (map unat xs))" for xs :: "u8 list" by (induction xs) simp_all
    then show ?thesis unfolding cs_def .
  qed
  note p = from_latin1.passes [OF c t assms(1,2)]
  have "sum_list (map (\<lambda>c. length (utf8 c)) cs) = length E" "concat (map utf8 cs) = E"
    by (simp_all add: E_def cs_def length_concat comp_def)
  then show ?thesis using p assms(3)
    by (auto simp: sec_port_iso88591_utf8_conversion_function_def word_less_nat_alt not_less)
qed

lemma latin1_encode_witness:
  "sec_port_iso88591_utf8_conversion_function [0x41, 0xE9] 2 [0, 0, 0] 3 0 = Some (True, [0x41, 0xC3, 0xA9], 3)"
proof -
  have "concat (map (utf8 \<circ> unat) [0x41 :: u8, 0xE9]) = [0x41, 0xC3, 0xA9]" by (simp add: utf8_def)
  then show ?thesis using latin1_encode [of 2 "[0x41, 0xE9]" 3 "[0, 0, 0]" 0] by simp
qed

text \<open>A high surrogate at the end makes the first pass read after the input, and a character of U+F800 to U+FBFF counts as one:
  here U+F8FF, alone, and followed by a letter, when it is refused.\<close>

lemma utf16_last_unit: "sec_port_ucs2_utf8_conversion_function False [0xF8, 0xFF] 2 out maxlen obl = None"
  by (simp add: sec_port_ucs2_utf8_conversion_function_def utf16_measure.simps)

lemma utf16_private_use: "sec_port_ucs2_utf8_conversion_function False [0xF8, 0xFF, 0, 0x41] 4 out maxlen obl = Some (False, out, obl)"
  by (simp add: sec_port_ucs2_utf8_conversion_function_def utf16_measure.simps)

end
