(* ===== verification/Nss_Base_Utf8.thy ===== *)
theory Nss_Base_Utf8
  imports Pl_String Nss_Utf8
begin

text \<open>
  The operations on UTF-8 strings of \<open>security/nss/lib/base/utf8.c\<close> and the memory functions of \<open>libc.c\<close> they call, as
  a release build has them (\<open>NSSDEBUG\<close> and \<open>PEDANTIC\<close> not defined, so the pointers are not null and the status is a
  success wherever no failure is modelled). \<open>nss_ZAlloc\<close> is a parameter, a function of the size, as is whether the allocation of
  an \<open>NSSItem\<close> succeeds; \<open>nss_SetError\<close> is recorded in the result.
\<close>

datatype NSSError = NSS_ERROR_INTERNAL_ERROR | NSS_ERROR_UNSUPPORTED_TYPE | NSS_ERROR_INVALID_STRING

datatype nssStringType =
    nssStringType_DirectoryString | nssStringType_TeletexString | nssStringType_PrintableString
  | nssStringType_UniversalString | nssStringType_BMPString | nssStringType_UTF8String
  | nssStringType_PHGString | nssStringType_GeneralString | nssStringType_Unknown

abbreviation SPACE :: u8 where
  "SPACE \<equiv> 0x20"

subsection \<open>Memory\<close>

definition nsslibc_memcpy :: "cells \<Rightarrow> cells \<Rightarrow> u32 \<Rightarrow> cells option" where
  "nsslibc_memcpy dest src n = (if unat n \<le> length src then store dest (take (unat n) src) else None)"

definition nsslibc_memset :: "cells \<Rightarrow> u8 \<Rightarrow> u32 \<Rightarrow> cells option" where
  "nsslibc_memset dest b n = store dest (replicate (unat n) b)"

text \<open>\<open>memcmp\<close> may read all of both.\<close>

definition nsslibc_memequal :: "cells \<Rightarrow> cells \<Rightarrow> u32 \<Rightarrow> bool option" where
  "nsslibc_memequal a b n =
     (if unat n \<le> length a \<and> unat n \<le> length b then Some (take (unat n) a = take (unat n) b) else None)"

subsection \<open>Comparing\<close>

definition nssUTF8_CaseIgnoreMatch :: "cells \<Rightarrow> cells \<Rightarrow> bool option" where
  "nssUTF8_CaseIgnoreMatch a b = do { r \<leftarrow> PL_strcasecmp 0 (Some a) (Some b); Some (r = 0) }"

fun skip_spaces :: "cells \<Rightarrow> cells option" where
  "skip_spaces [] = None"
| "skip_spaces (x # c) = (if x = SPACE then skip_spaces c else Some (x # c))"

text \<open>\<open>if (' ' == *c) { while (' ' == *c) c++; c--; }\<close>: on to the last of a run of spaces.\<close>

definition to_last_space :: "cells \<Rightarrow> cells option" where
  "to_last_space c = do {
     x \<leftarrow> rd c 0;
     if x = SPACE then do { r \<leftarrow> skip_spaces c; Some (SPACE # r) } else Some c }"

definition upper :: "u8 \<Rightarrow> u8" where
  "upper e = (if 0x61 \<le> e \<and> e \<le> 0x7A then e - 0x20 else e)"

text \<open>The loop: \<open>Some None\<close> is the return of \<open>PR_FALSE\<close>, otherwise where it ended.\<close>

partial_function (option) printable_loop :: "cells \<Rightarrow> cells \<Rightarrow> (cells \<times> cells) option option" where
  "printable_loop c d = do {
     x \<leftarrow> rd c 0;
     if x = 0 then Some (Some (c, d))
     else do {
       y \<leftarrow> rd d 0;
       if y = 0 then Some (Some (c, d))
       else if upper x \<noteq> upper y then Some None
       else do {
         c1 \<leftarrow> to_last_space (drop 1 c);
         d1 \<leftarrow> to_last_space (drop 1 d);
         printable_loop c1 d1 } } }"

definition nssUTF8_PrintableMatch :: "cells \<Rightarrow> cells \<Rightarrow> bool option" where
  "nssUTF8_PrintableMatch a b = do {
     c \<leftarrow> skip_spaces a;
     d \<leftarrow> skip_spaces b;
     r \<leftarrow> printable_loop c d;
     case r of
       None \<Rightarrow> Some False
     | Some (c, d) \<Rightarrow> do {
         c \<leftarrow> skip_spaces c;
         d \<leftarrow> skip_spaces d;
         x \<leftarrow> rd c 0;
         y \<leftarrow> rd d 0;
         Some (x = y) } }"

subsection \<open>Sizes\<close>

definition nssUTF8_Size :: "cells \<Rightarrow> u32 option" where
  "nssUTF8_Size s = do { l \<leftarrow> PL_strlen (Some s); Some (l + 1) }"

text \<open>The step of the next character by its first byte.\<close>

definition utf8_incr :: "u8 \<Rightarrow> nat option" where
  "utf8_incr c =
     (if c AND 0x80 = 0 then Some 1
      else if c AND 0xE0 = 0xC0 then Some 2
      else if c AND 0xF0 = 0xE0 then Some 3
      else if c AND 0xF8 = 0xF0 then Some 4
      else if c AND 0xFC = 0xF8 then Some 5
      else if c AND 0xFE = 0xFC then Some 6
      else None)"

text \<open>The result is the length, or the error and length 0.\<close>

partial_function (option) Length_loop :: "cells \<Rightarrow> u32 \<Rightarrow> (NSSError + u32) option" where
  "Length_loop c l = do {
     x \<leftarrow> rd c 0;
     if x = 0 then Some (Inr l)
     else case utf8_incr x of
       None \<Rightarrow> Some (Inl NSS_ERROR_INVALID_STRING)
     | Some incr \<Rightarrow> if incr \<le> length c then Length_loop (drop incr c) (l + of_nat incr) else None }"

definition nssUTF8_Length :: "cells \<Rightarrow> (NSSError + u32) option" where
  "nssUTF8_Length s = Length_loop s 0"

subsection \<open>Copies\<close>

definition nssUTF8_Duplicate :: "(u32 \<Rightarrow> cptr) \<Rightarrow> cells \<Rightarrow> cptr option" where
  "nssUTF8_Duplicate nss_ZAlloc s = do {
     len \<leftarrow> PL_strlen (Some s);
     case nss_ZAlloc (len + 1) of
       None \<Rightarrow> Some None
     | Some rv \<Rightarrow> do { rv1 \<leftarrow> nsslibc_memcpy rv s (len + 1); Some (Some rv1) } }"

text \<open>The two string types that are implemented are copied the same way: \<open>size\<close> bytes and a zero, or up to the
  terminator when \<open>size\<close> is zero.\<close>

definition nssUTF8_Create :: "(u32 \<Rightarrow> cptr) \<Rightarrow> nssStringType \<Rightarrow> cells \<Rightarrow> u32 \<Rightarrow> (cptr \<times> NSSError option) option" where
  "nssUTF8_Create nss_ZAlloc type inputString sz =
     (if type = nssStringType_PrintableString \<or> type = nssStringType_UTF8String then
        if sz = 0 then do { rv \<leftarrow> nssUTF8_Duplicate nss_ZAlloc inputString; Some (rv, None) }
        else case nss_ZAlloc (sz + 1) of
          None \<Rightarrow> Some (None, None)
        | Some rv \<Rightarrow> do { rv1 \<leftarrow> nsslibc_memcpy rv inputString sz; Some (Some rv1, None) }
      else Some (None, Some
        (if type = nssStringType_DirectoryString \<or> type = nssStringType_Unknown then NSS_ERROR_UNSUPPORTED_TYPE
         else NSS_ERROR_INTERNAL_ERROR)))"

text \<open>An \<open>NSSItem\<close> is its size and its data. \<open>item_ok\<close>: an item was given, or allocated.\<close>

definition nssUTF8_GetEncoding ::
  "(u32 \<Rightarrow> cptr) \<Rightarrow> bool \<Rightarrow> nssStringType \<Rightarrow> cells \<Rightarrow> ((u32 \<times> cells) option \<times> NSSError option) option" where
  "nssUTF8_GetEncoding nss_ZAlloc item_ok type string =
     (if type = nssStringType_UTF8String then do {
        d \<leftarrow> nssUTF8_Duplicate nss_ZAlloc string;
        case d of
          None \<Rightarrow> Some (None, None)
        | Some dup \<Rightarrow> if \<not> item_ok then Some (None, None)
            else do { sz \<leftarrow> nssUTF8_Size dup; Some (Some (sz, dup), None) } }
      else Some (None, Some
        (if type = nssStringType_GeneralString \<or> type = nssStringType_Unknown then NSS_ERROR_UNSUPPORTED_TYPE
         else NSS_ERROR_INTERNAL_ERROR)))"

text \<open>The test whether the bytes end with a whole character: the byte \<open>j\<close> before the end begins a character of \<open>j\<close>
  bytes. The tests read in turn until one holds; \<open>buffer[bs-1]\<close> is read without a test of \<open>bs\<close>.\<close>

definition begins :: "nat \<Rightarrow> u8 \<Rightarrow> bool" where
  "begins j b \<longleftrightarrow>
     (if j = 1 then b AND 0x80 = 0x00
      else if j = 2 then b AND 0xE0 = 0xC0
      else if j = 3 then b AND 0xF0 = 0xE0
      else if j = 4 then b AND 0xF8 = 0xF0
      else if j = 5 then b AND 0xFC = 0xF8
      else b AND 0xFE = 0xFC)"

fun fits_from :: "cells \<Rightarrow> u32 \<Rightarrow> nat list \<Rightarrow> bool option" where
  "fits_from buffer bs [] = Some False"
| "fits_from buffer bs (j # js) =
     (if j = 1 \<or> of_nat (j - 1) < bs then do {
        b \<leftarrow> rd buffer (unat (bs - of_nat j));
        if begins j b then Some True else fits_from buffer bs js }
      else fits_from buffer bs js)"

primrec trim_last :: "u8 \<Rightarrow> nat \<Rightarrow> cells \<Rightarrow> cells option" where
  "trim_last pad 0 buffer = Some buffer"
| "trim_last pad (Suc k) buffer = do {
     b \<leftarrow> rd buffer k;
     buffer1 \<leftarrow> wr buffer k pad;
     if b AND 0xC0 \<noteq> 0x80 then Some buffer1 else trim_last pad k buffer1 }"

definition nssUTF8_CopyIntoFixedBuffer :: "cptr \<Rightarrow> cells \<Rightarrow> u32 \<Rightarrow> u8 \<Rightarrow> cells option" where
  "nssUTF8_CopyIntoFixedBuffer string buffer bufferSize pad = do {
     let string = (case string of None \<Rightarrow> [0] | Some s \<Rightarrow> s);
     sz \<leftarrow> nssUTF8_Size string;
     let stringSize = sz - 1;
     if stringSize > bufferSize then do {
       buffer1 \<leftarrow> nsslibc_memcpy buffer string bufferSize;
       f \<leftarrow> fits_from buffer1 bufferSize [1, 2, 3, 4, 5, 6];
       if f then Some buffer1 else trim_last pad (unat bufferSize) buffer1 }
     else do {
       buffer1 \<leftarrow> nsslibc_memset buffer pad bufferSize;
       nsslibc_memcpy buffer1 string stringSize } }"

definition nssUTF8_Equal :: "cells \<Rightarrow> cells \<Rightarrow> bool option" where
  "nssUTF8_Equal a b = do {
     la \<leftarrow> nssUTF8_Size a;
     if la = 0 then Some False
     else do {
       lb \<leftarrow> nssUTF8_Size b;
       if lb = 0 then Some False
       else if la \<noteq> lb then Some False
       else nsslibc_memequal a b la } }"

end
