(* ===== verification/Nss_Base_Spec.thy ===== *)
theory Nss_Base_Spec
  imports Nss_Utf8_Char Pl_String_Spec Nss_Base_Utf8
begin

text \<open>
  The operations of \<open>security/nss/lib/base/utf8.c\<close> on the strings that the cells hold: the form in which printable
  strings are compared, and whole characters in buffers of fixed size.
\<close>

subsection \<open>Printable strings\<close>

text \<open>The form in which printable strings are compared: no spaces at the ends, runs of spaces as one, no lower case.\<close>

function squeeze :: "u8 list \<Rightarrow> u8 list" where
  "squeeze [] = []"
| "squeeze (x # t) =
     (if x = SPACE then (let r = dropWhile ((=) SPACE) t in if r = [] then [] else SPACE # squeeze r) else upper x # squeeze t)"
  by pat_completeness auto
termination
  by (relation "measure length") (auto simp: le_imp_less_Suc length_dropWhile_le)

definition printable_form :: "u8 list \<Rightarrow> u8 list" where
  "printable_form t = squeeze (dropWhile ((=) SPACE) t)"

lemma skip_spaces_cstr: "cstr c t \<Longrightarrow> \<exists>c'. skip_spaces c = Some c' \<and> cstr c' (dropWhile ((=) SPACE) t)"
proof (induction rule: cstr_induct)
  case (char c s t)
  then show ?case by (auto simp: cstr_Cons)
qed (auto simp: cstr_Cons)

lemma upper_space: "upper x = SPACE \<longleftrightarrow> x = SPACE"
proof -
  have "x - 0x20 \<noteq> SPACE" if "0x61 \<le> x" "x \<le> 0x7A"
  proof
    assume "x - 0x20 = SPACE"
    then have "x = 0x40" by (simp add: diff_eq_eq)
    then show False using that by (simp add: word_le_nat_alt)
  qed
  then show ?thesis by (auto simp: upper_def)
qed

text \<open>Not two spaces at the front.\<close>

fun single :: "u8 list \<Rightarrow> bool" where
  "single (x # y # t) = (x \<noteq> SPACE \<or> y \<noteq> SPACE)"
| "single _ = True"

lemma single_hd: "w = [] \<or> hd w \<noteq> SPACE \<Longrightarrow> single w"
  by (cases w rule: single.cases) auto

lemma single_drop: "single (SPACE # dropWhile ((=) SPACE) t)"
  by (induction t) auto

lemma squeeze_space: "squeeze (SPACE # dropWhile ((=) SPACE) t) = squeeze (SPACE # t)"
  by (simp add: Let_def)

lemma to_last_space_cstr:
  assumes "cstr c t"
  shows "\<exists>c' t'. to_last_space c = Some c' \<and> cstr c' t' \<and> single t' \<and> squeeze t' = squeeze t \<and> length t' \<le> length t \<and> (t = [] \<or> hd t \<noteq> SPACE \<longrightarrow> t' = t)"
proof (cases t)
  case Nil
  then show ?thesis using assms by (cases c) (auto simp: to_last_space_def cstr_Cons)
next
  case (Cons x r)
  then obtain c0 where c: "c = x # c0" "cstr c0 r" using assms by (cases c) (auto simp: cstr_Cons split: if_splits)
  show ?thesis
  proof (cases "x = SPACE")
    case True
    obtain c' where c': "skip_spaces c0 = Some c'" "cstr c' (dropWhile ((=) SPACE) r)" using skip_spaces_cstr [OF c(2)] by blast
    have "length (dropWhile ((=) SPACE) r) \<le> length r" by (rule length_dropWhile_le)
    then show ?thesis using c c' True Cons single_drop [of r] squeeze_space [of r]
      by (intro exI [of _ "SPACE # c'"] exI [of _ "SPACE # dropWhile ((=) SPACE) r"]) (simp add: to_last_space_def cstr_Cons)
  next
    case False
    then show ?thesis using c assms Cons by (intro exI [of _ c] exI [of _ t]) (cases r; simp add: to_last_space_def)
  qed
qed

lemma squeeze_Nil_iff: "squeeze t = [] \<longleftrightarrow> dropWhile ((=) SPACE) t = []"
  by (cases t) (auto simp: Let_def)

lemma squeeze_single: "single (SPACE # t) \<Longrightarrow> squeeze (SPACE # t) = (if t = [] then [] else SPACE # squeeze t)"
  by (cases t) (auto simp: Let_def)

lemma printable_end:
  "cstr c [] \<Longrightarrow> printable_loop c d = Some (Some (c, d))"
  "rd c 0 = Some x \<Longrightarrow> x \<noteq> 0 \<Longrightarrow> cstr d [] \<Longrightarrow> printable_loop c d = Some (Some (c, d))"
  using cstr_rd_end [of c "[]"] cstr_rd_end [of d "[]"] by (simp_all add: printable_loop.simps [of c])

lemma loop_ended:
  assumes "printable_loop c d = Some (Some (c, d))" "cstr c t" "cstr d u" "P = (dropWhile ((=) SPACE) t = [] \<and> dropWhile ((=) SPACE) u = [])"
    "t = [] \<or> u = []"
  shows "\<exists>r. printable_loop c d = Some r \<and> (case r of None \<Rightarrow> \<not> P
    | Some (c', d') \<Rightarrow> \<exists>t' u'. cstr c' t' \<and> cstr d' u' \<and> P = (dropWhile ((=) SPACE) t' = [] \<and> dropWhile ((=) SPACE) u' = []) \<and> (t' = [] \<or> u' = []))"
proof (intro exI conjI)
  show "printable_loop c d = Some (Some (c, d))" by fact
  show "case Some (c, d) of None \<Rightarrow> \<not> P
    | Some (c', d') \<Rightarrow> \<exists>t' u'. cstr c' t' \<and> cstr d' u' \<and> P = (dropWhile ((=) SPACE) t' = [] \<and> dropWhile ((=) SPACE) u' = []) \<and> (t' = [] \<or> u' = [])"
    unfolding option.case prod.case using assms(2-5) by (intro exI [of _ t] exI [of _ u] conjI)
qed

lemma printable_loop_spec:
  assumes "cstr c t" "cstr d u" "single t" "single u"
  shows "\<exists>r. printable_loop c d = Some r \<and> (case r of None \<Rightarrow> squeeze t \<noteq> squeeze u
    | Some (c', d') \<Rightarrow> \<exists>t' u'. cstr c' t' \<and> cstr d' u' \<and> (squeeze t = squeeze u) = (dropWhile ((=) SPACE) t' = [] \<and> dropWhile ((=) SPACE) u' = []) \<and> (t' = [] \<or> u' = []))"
  using assms
proof (induction "length t" arbitrary: c d t u rule: less_induct)
  case less
  show ?case
  proof (cases t)
    case Nil
    then have "printable_loop c d = Some (Some (c, d))" using less.prems(1) printable_end(1) by simp
    moreover have "(squeeze t = squeeze u) = (dropWhile ((=) SPACE) t = [] \<and> dropWhile ((=) SPACE) u = [])"
      using Nil squeeze_Nil_iff [of u] by (simp add: eq_commute [of "[]"])
    ultimately show ?thesis by (rule loop_ended [OF _ less.prems(1,2)]) (simp add: Nil)
  next
    case t: (Cons x t1)
    obtain c1 where c: "c = x # c1" "cstr c1 t1" "x \<noteq> 0" using less.prems(1) t by (cases c) (auto simp: cstr_Cons split: if_splits)
    show ?thesis
    proof (cases u)
      case Nil
      then have "printable_loop c d = Some (Some (c, d))" using less.prems(2) c by (intro printable_end(2)) simp_all
      moreover have "(squeeze t = squeeze u) = (dropWhile ((=) SPACE) t = [] \<and> dropWhile ((=) SPACE) u = [])"
        using Nil squeeze_Nil_iff [of t] by simp
      ultimately show ?thesis by (rule loop_ended [OF _ less.prems(1,2)]) (simp add: Nil)
    next
      case u: (Cons y u1)
      obtain d1 where d: "d = y # d1" "cstr d1 u1" "y \<noteq> 0" using less.prems(2) u by (cases d) (auto simp: cstr_Cons split: if_splits)
      show ?thesis
      proof (cases "upper x = upper y")
        case False
        then have "printable_loop c d = Some None" using c d by (subst printable_loop.simps) simp
        moreover have "squeeze t \<noteq> squeeze u" using False upper_space [of x] upper_space [of y] t u by (auto simp: Let_def)
        ultimately show ?thesis by simp
      next
        case True
        obtain c2 t2 where c2: "to_last_space c1 = Some c2" "cstr c2 t2" "single t2" "squeeze t2 = squeeze t1" "length t2 \<le> length t1"
          using to_last_space_cstr [OF c(2)] by blast
        obtain d2 u2 where d2: "to_last_space d1 = Some d2" "cstr d2 u2" "single u2" "squeeze u2 = squeeze u1" "length u2 \<le> length u1"
          using to_last_space_cstr [OF d(2)] by blast
        have e: "printable_loop c d = printable_loop c2 d2" using c d c2 d2 True by (subst printable_loop.simps) simp
        have q: "(squeeze t = squeeze u) = (squeeze t2 = squeeze u2)"
        proof (cases "x = SPACE")
          case sp: True
          then have "y = SPACE" using True upper_space [of y] upper_space [of x] by simp
          then have "squeeze t = (if t1 = [] then [] else SPACE # squeeze t1)" "squeeze u = (if u1 = [] then [] else SPACE # squeeze u1)"
            using squeeze_single [of t1] squeeze_single [of u1] less.prems(3,4) t u sp by simp_all
          moreover have "squeeze t1 = [] \<longleftrightarrow> t1 = []" "squeeze u1 = [] \<longleftrightarrow> u1 = []"
            using less.prems(3,4) t u sp \<open>y = SPACE\<close> by (cases t1; cases u1; auto simp: Let_def)+
          ultimately show ?thesis using c2(4) d2(4) by (cases "t1 = []"; cases "u1 = []") auto
        next
          case False
          then have "y \<noteq> SPACE" using True upper_space [of y] upper_space [of x] by metis
          then show ?thesis using False True t u c2(4) d2(4) by simp
        qed
        have "length t2 < length t" using c2(5) t by simp
        then show ?thesis unfolding e q by (rule less.hyps [OF _ c2(2) d2(2) c2(3) d2(3)])
      qed
    qed
  qed
qed

text \<open>C32: \<open>nssUTF8_PrintableMatch\<close> compares by the rules of printable strings: two strings match exactly if they are the
  same when the spaces at their ends are dropped, every run of spaces is made one, and lower case is made upper.\<close>

theorem printable_match:
  assumes "cstr a t" and "cstr b u"
  shows "nssUTF8_PrintableMatch a b = Some (printable_form t = printable_form u)"
proof -
  obtain c d where c: "skip_spaces a = Some c" "cstr c (dropWhile ((=) SPACE) t)" and d: "skip_spaces b = Some d" "cstr d (dropWhile ((=) SPACE) u)"
    using skip_spaces_cstr assms by blast
  have s: "single (dropWhile ((=) SPACE) t)" for t :: "u8 list"
    by (rule single_hd) (metis (full_types) hd_dropWhile)
  obtain r where r: "printable_loop c d = Some r" and p: "case r of None \<Rightarrow> printable_form t \<noteq> printable_form u
    | Some (c', d') \<Rightarrow> \<exists>t' u'. cstr c' t' \<and> cstr d' u' \<and> (printable_form t = printable_form u) = (dropWhile ((=) SPACE) t' = [] \<and> dropWhile ((=) SPACE) u' = [])
      \<and> (t' = [] \<or> u' = [])"
    using printable_loop_spec [OF c(2) d(2) s s] unfolding printable_form_def by blast
  show ?thesis
  proof (cases r)
    case None
    then show ?thesis using c d r p by (simp add: nssUTF8_PrintableMatch_def)
  next
    case (Some cd)
    obtain c' d' where cd: "cd = (c', d')" by (cases cd)
    obtain t' u' where e: "cstr c' t'" "cstr d' u'" "(printable_form t = printable_form u) = (dropWhile ((=) SPACE) t' = [] \<and> dropWhile ((=) SPACE) u' = [])"
      "t' = [] \<or> u' = []" using p Some cd by auto
    obtain c2 d2 where 2: "skip_spaces c' = Some c2" "cstr c2 (dropWhile ((=) SPACE) t')" "skip_spaces d' = Some d2" "cstr d2 (dropWhile ((=) SPACE) u')"
      using skip_spaces_cstr e by blast
    have h: "\<exists>x. rd s 0 = Some x \<and> (x = 0 \<longleftrightarrow> w = [])" if "cstr s w" for s w using that by (cases s) (auto simp: cstr_Cons split: if_splits)
    obtain x y where xy: "rd c2 0 = Some x" "rd d2 0 = Some y" "x = 0 \<longleftrightarrow> dropWhile ((=) SPACE) t' = []" "y = 0 \<longleftrightarrow> dropWhile ((=) SPACE) u' = []"
      using h [OF 2(2)] h [OF 2(4)] by blast
    have "(x = y) = (printable_form t = printable_form u)" using xy(3,4) e(3,4) by auto
    then show ?thesis using c d r Some cd 2 xy by (simp add: nssUTF8_PrintableMatch_def)
  qed
qed


theorem printable_match_witness:
  "nssUTF8_PrintableMatch [0x20, 0x61, 0x20, 0x20, 0x62, 0] [0x41, 0x20, 0x42, 0x20, 0] = Some True"
proof -
  have "cstr [0x20, 0x61, 0x20, 0x20, 0x62, 0] [0x20, 0x61, 0x20, 0x20, 0x62]" "cstr [0x41, 0x20, 0x42, 0x20, 0] [0x41, 0x20, 0x42, 0x20]"
    by (simp_all add: cstr_Cons)
  moreover have "printable_form [0x20, 0x61, 0x20, 0x20, 0x62] = printable_form [0x41, 0x20, 0x42, 0x20]"
    by (simp add: printable_form_def Let_def upper_def)
  ultimately show ?thesis using printable_match by simp
qed

subsection \<open>Sizes and equality\<close>

lemma nssUTF8_Size_cstr: "cstr s t \<Longrightarrow> nssUTF8_Size s = Some (of_nat (length t) + 1)"
  by (simp add: nssUTF8_Size_def PL_strlen_def strlen_cstr)

lemma unat_size: "length t < 2 ^ 32 - 1 \<Longrightarrow> unat (of_nat (length t) + 1 :: u32) = length t + 1"
  by (simp add: unat_word_ariths unat_of_nat)

lemma cstr_take_end: "cstr s t \<Longrightarrow> take (length t + 1) s = t @ [0]"
  by (auto simp: cstr_def)

text \<open>\<open>nssUTF8_Equal\<close> is the equality of the strings.\<close>

lemma utf8_equal:
  assumes "cstr a t" and "cstr b u" and "length t < 2 ^ 32 - 1" and "length u < 2 ^ 32 - 1"
  shows "nssUTF8_Equal a b = Some (t = u)"
proof -
  have l: "length t + 1 \<le> length a" "length u + 1 \<le> length b" using cstr_length assms(1,2) by (simp_all add: Suc_le_eq)
  have n: "(of_nat (length t) + 1 :: u32) = of_nat (length u) + 1 \<longleftrightarrow> length t = length u" "(of_nat (length t) + 1 :: u32) \<noteq> 0" "(of_nat (length u) + 1 :: u32) \<noteq> 0"
    using unat_size [OF assms(3)] unat_size [OF assms(4)] by (auto simp: word_unat_eq_iff)
  show ?thesis
  proof (cases "length t = length u")
    case True
    then show ?thesis using n l cstr_take_end [OF assms(1)] cstr_take_end [OF assms(2)] unat_size [OF assms(3)]
      by (simp add: nssUTF8_Equal_def nssUTF8_Size_cstr [OF assms(1)] nssUTF8_Size_cstr [OF assms(2)] nsslibc_memequal_def)
  next
    case False
    then show ?thesis using n by (auto simp: nssUTF8_Equal_def nssUTF8_Size_cstr [OF assms(1)] nssUTF8_Size_cstr [OF assms(2)])
  qed
qed

text \<open>\<open>nssUTF8_Length\<close> of a text is its number of bytes.\<close>

lemma utf8_incr_lead: "lead b = Some (v, k, m) \<Longrightarrow> utf8_incr b = Some (k + 1)"
  by (auto simp: lead_def utf8_incr_def split: if_splits)

lemma Length_loop_text:
  assumes "\<forall>c\<in>set cs. scalar c \<and> c \<noteq> 0" "cstr s (concat (map utf8 cs))"
  shows "Length_loop s l = Some (Inr (l + of_nat (length (concat (map utf8 cs)))))"
  using assms
proof (induction cs arbitrary: s l)
  case Nil
  then show ?case using cstr_rd_end [of s "[]"] by (simp add: Length_loop.simps [of s])
next
  case (Cons c cs)
  obtain b r v m where l: "utf8 c = b # r" "lead b = Some (v, length r, m)" using lead_utf8 [of c] Cons.prems by auto
  have t: "cstr s (b # r @ concat (map utf8 cs))" using Cons.prems(2) l(1) by simp
  have b: "rd s 0 = Some b" "b \<noteq> 0" using cstr_rd [OF t, of 0] cstr_nonzero [OF t, of 0] by simp_all
  have "Suc (length r) \<le> length s" using cstr_length [OF t] by simp
  moreover have "cstr (drop (Suc (length r)) s) (concat (map utf8 cs))" using cstr_drop [OF t, of "Suc (length r)"] by simp
  ultimately show ?case using Cons b utf8_incr_lead [OF l(2)] l(1) by (simp add: Length_loop.simps [of s] add.assoc)
qed

lemma utf8_length_bytes:
  "\<forall>c\<in>set cs. scalar c \<and> c \<noteq> 0 \<Longrightarrow> cstr s (concat (map utf8 cs)) \<Longrightarrow> nssUTF8_Length s = Some (Inr (of_nat (length (concat (map utf8 cs)))))"
  by (simp add: nssUTF8_Length_def Length_loop_text)

subsection \<open>Fixed buffers\<close>

lemma begins_range:
  "begins 1 b \<longleftrightarrow> unat b < 128" "begins 2 b \<longleftrightarrow> 192 \<le> unat b \<and> unat b < 224" "begins 3 b \<longleftrightarrow> 224 \<le> unat b \<and> unat b < 240"
  "begins 4 b \<longleftrightarrow> 240 \<le> unat b \<and> unat b < 248" "begins 5 b \<longleftrightarrow> 248 \<le> unat b \<and> unat b < 252" "begins 6 b \<longleftrightarrow> 252 \<le> unat b \<and> unat b < 254"
proof -
  have c: "push_bit 2 (- 1) = (0xFC :: u8)" "push_bit 2 62 = (0xF8 :: u8)" "push_bit 1 (- 1) = (0xFE :: u8)" "push_bit 1 126 = (0xFC :: u8)" by code_simp+
  have "b AND 0xFC = 0xF8 \<longleftrightarrow> unat b div 4 = 62" "b AND 0xFE = 0xFC \<longleftrightarrow> unat b div 2 = 126"
    using high_bits [where k = 2 and m = 62 and b = b] high_bits [where k = 1 and m = 126 and b = b] unfolding c by simp_all
  then show "begins 1 b \<longleftrightarrow> unat b < 128" "begins 2 b \<longleftrightarrow> 192 \<le> unat b \<and> unat b < 224" "begins 3 b \<longleftrightarrow> 224 \<le> unat b \<and> unat b < 240"
    "begins 4 b \<longleftrightarrow> 240 \<le> unat b \<and> unat b < 248" "begins 5 b \<longleftrightarrow> 248 \<le> unat b \<and> unat b < 252" "begins 6 b \<longleftrightarrow> 252 \<le> unat b \<and> unat b < 254"
    by (simp_all add: begins_def lead_tests div_interval)
qed

lemma utf8_bytes_range:
  assumes "scalar c"
  obtains b r where "utf8 c = b # r" "\<forall>x\<in>set r. cont x" "begins (Suc (length r)) b" "\<not> cont b"
proof -
  consider "c < 0x80" | "0x80 \<le> c" "c < 0x800" | "0x800 \<le> c" "c < 0x10000" | "0x10000 \<le> c" "c \<le> 0x10FFFF"
    using assms unfolding scalar_def by linarith
  then show ?thesis
  proof cases
    case 1
    then show ?thesis by (intro that [of "of_nat c" "[]"]) (simp_all add: utf8_def begins_range [simplified] cont_def unat_of_nat_u8)
  next
    case 2
    then have "c div 64 < 32" by (simp add: less_mult_imp_div_less)
    then show ?thesis using 2
      by (intro that [of "of_nat (0xC0 + c div 64)" "[of_nat (0x80 + c mod 64)]"])
        (simp_all add: utf8_def begins_range [simplified] cont_def unat_of_nat_u8 numeral_2_eq_2 [symmetric] del: of_nat_add)
  next
    case 3
    then have "c div 4096 < 16" by (simp add: less_mult_imp_div_less)
    then show ?thesis using 3
      by (intro that [of "of_nat (0xE0 + c div 4096)" "[of_nat (0x80 + c div 64 mod 64), of_nat (0x80 + c mod 64)]"])
        (simp_all add: utf8_def begins_range [simplified] cont_def unat_of_nat_u8 numeral_3_eq_3 [symmetric] del: of_nat_add)
  next
    case 4
    then have "c div 262144 < 8" by (simp add: less_mult_imp_div_less)
    moreover have "Suc (Suc (Suc (Suc 0))) = 4" by simp
    then have "begins (Suc (Suc (Suc (Suc 0)))) b \<longleftrightarrow> 240 \<le> unat b \<and> unat b < 248" for b using begins_range(4) by metis
    ultimately show ?thesis using 4
      by (intro that [of "of_nat (0xF0 + c div 262144)" "[of_nat (0x80 + c div 4096 mod 64), of_nat (0x80 + c div 64 mod 64), of_nat (0x80 + c mod 64)]"])
        (simp_all add: utf8_def begins_range cont_def unat_of_nat_u8 del: of_nat_add)
  qed
qed

lemma begins_len:
  assumes "begins j b" "j \<in> {1..6}"
  shows "j = (if unat b < 128 then 1 else if unat b < 224 then 2 else if unat b < 240 then 3 else if unat b < 248 then 4 else if unat b < 252 then 5 else 6)"
    "\<not> cont b"
proof -
  consider "j = 1" | "j = 2" | "j = 3" | "j = 4" | "j = 5" | "j = 6" using assms(2) by fastforce
  then have "j = (if unat b < 128 then 1 else if unat b < 224 then 2 else if unat b < 240 then 3 else if unat b < 248 then 4 else if unat b < 252 then 5 else 6)
    \<and> \<not> cont b"
    using assms(1) by cases (simp_all add: begins_range [simplified] cont_def)
  then show "j = (if unat b < 128 then 1 else if unat b < 224 then 2 else if unat b < 240 then 3 else if unat b < 248 then 4 else if unat b < 252 then 5 else 6)"
    "\<not> cont b" by blast+
qed

lemma begins_unique: "begins j b \<Longrightarrow> begins k b \<Longrightarrow> j \<in> {1..6} \<Longrightarrow> k \<in> {1..6} \<Longrightarrow> j = k"
  using begins_len(1) [of j b] begins_len(1) [of k b] by simp

lemma begins_char:
  assumes "scalar c" "i < length (utf8 c)" "j \<in> {1..6}"
  shows "begins j (utf8 c ! i) \<longleftrightarrow> i = 0 \<and> j = length (utf8 c)"
proof -
  obtain b r where u: "utf8 c = b # r" "\<forall>x\<in>set r. cont x" "begins (Suc (length r)) b" by (rule utf8_bytes_range [OF assms(1)])
  have k: "Suc (length r) \<in> {1..6}" using utf8_length(2) [of c] u(1) by simp
  show ?thesis
  proof (cases i)
    case 0
    then show ?thesis using u begins_unique [OF u(3) _ k assms(3)] by auto
  next
    case (Suc n)
    then have "cont (r ! n)" using u assms(2) by simp
    then show ?thesis using begins_len(2) [OF _ assms(3)] Suc u(1) by auto
  qed
qed

lemma begins_text:
  assumes "\<forall>c\<in>set cs. scalar c" "scalar c" "m < length (utf8 c)" "j \<in> {1..6}"
  defines "w \<equiv> concat (map utf8 cs) @ take m (utf8 c)"
  assumes "j \<le> length w"
  shows "begins j (w ! (length w - j)) \<longleftrightarrow> m = 0 \<and> cs \<noteq> [] \<and> j = length (utf8 (last cs))"
  using assms(1,6) unfolding w_def
proof (induction cs)
  case Nil
  then show ?case using begins_char [OF assms(2), of "m - j" j] assms(3,4) by auto
next
  case (Cons d cs)
  define v where "v = concat (map utf8 cs) @ take m (utf8 c)"
  have w: "concat (map utf8 (d # cs)) @ take m (utf8 c) = utf8 d @ v" by (simp add: v_def)
  show ?case
  proof (cases "j \<le> length v")
    case True
    then have "(utf8 d @ v) ! (length (utf8 d @ v) - j) = v ! (length v - j)"
      using nth_append_length_plus [of "utf8 d" v "length v - j"] by simp
    moreover have "v \<noteq> []" using True assms(4) by auto
    then have "m = 0 \<Longrightarrow> cs \<noteq> []" by (auto simp: v_def)
    ultimately show ?thesis using Cons True unfolding w by (auto simp: v_def)
  next
    case False
    moreover have "0 < length (utf8 d)" using utf8_nonempty by simp
    ultimately have i: "length (utf8 d @ v) - j < length (utf8 d)" unfolding length_append by linarith
    then have "begins j ((utf8 d @ v) ! (length (utf8 d @ v) - j)) \<longleftrightarrow> length (utf8 d @ v) - j = 0 \<and> j = length (utf8 d)"
      using begins_char [of d "length (utf8 d @ v) - j" j] Cons.prems assms(4) by (simp add: nth_append)
    moreover have "v = [] \<longleftrightarrow> m = 0 \<and> cs = []" using assms(3) utf8_nonempty by (cases cs) (auto simp: v_def)
    moreover have "length (utf8 (last cs)) \<le> length v" if "m = 0" "cs \<noteq> []"
      using that by (cases cs rule: rev_cases) (simp_all add: v_def)
    ultimately show ?thesis using False Cons.prems unfolding w by auto
  qed
qed

lemma fits_from_spec:
  assumes "length w = unat bs" "0 < unat bs" "set js \<subseteq> {1..6}"
  shows "fits_from (w @ rest) bs js = Some (\<exists>j\<in>set js. j \<le> length w \<and> begins j (w ! (length w - j)))"
  using assms(3)
proof (induction js)
  case (Cons j js)
  have j: "1 \<le> j" "j \<le> 6" using Cons.prems by auto
  have u: "unat (of_nat (j - 1) :: u32) = j - 1" by (rule unat_of_nat_u32) (use j in simp)
  have u': "unat (of_nat j :: u32) = j" by (rule unat_of_nat_u32) (use j in simp)
  have c: "(j = 1 \<or> of_nat (j - 1) < bs) \<longleftrightarrow> j \<le> length w" unfolding word_less_nat_alt u using assms j by auto
  show ?case
  proof (cases "j \<le> length w")
    case True
    then have "unat (bs - of_nat j) = length w - j" using u' assms(1) by (simp add: unat_sub word_le_nat_alt)
    moreover have "length w - j < length w" using True j by simp
    ultimately have "rd (w @ rest) (unat (bs - of_nat j)) = Some (w ! (length w - j))" using True j by (simp add: rd_def nth_append)
    then show ?thesis using Cons True c by auto
  next
    case False
    then show ?thesis using Cons c by auto
  qed
qed simp

lemma trim_spec:
  assumes "\<not> cont b" "\<forall>x\<in>set r. cont x"
  shows "trim_last pad (length pre + Suc (length r)) (pre @ b # r @ rest) = Some (pre @ replicate (Suc (length r)) pad @ rest)"
  using assms(2)
proof (induction r arbitrary: rest rule: rev_induct)
  case Nil
  then show ?case using assms(1) by (simp add: rd_def wr_def nth_append cont_def lead_tests)
next
  case (snoc x r)
  have "trim_last pad (length pre + Suc (length r)) (pre @ b # r @ pad # rest) = Some (pre @ replicate (Suc (length r)) pad @ pad # rest)"
    by (rule snoc.IH) (use snoc.prems in simp)
  then show ?case using snoc.prems
    by (simp add: rd_def wr_def nth_append list_update_append cont_def lead_tests replicate_app_Cons_same)
qed

lemma split_at:
  assumes "n < length (concat (map utf8 cs))"
  obtains k m where "k < length cs" "m < length (utf8 (cs ! k))" "take n (concat (map utf8 cs)) = concat (map utf8 (take k cs)) @ take m (utf8 (cs ! k))"
    "n = length (concat (map utf8 (take k cs))) + m"
  using assms
proof (induction cs arbitrary: n thesis)
  case (Cons c cs)
  show ?case
  proof (cases "n < length (utf8 c)")
    case True
    then show ?thesis by (intro Cons.prems(1) [of 0 n]) simp_all
  next
    case False
    then have "n - length (utf8 c) < length (concat (map utf8 cs))" using Cons.prems(2) by simp
    then obtain k m where "k < length cs" "m < length (utf8 (cs ! k))" "take (n - length (utf8 c)) (concat (map utf8 cs)) = concat (map utf8 (take k cs)) @ take m (utf8 (cs ! k))"
      "n - length (utf8 c) = length (concat (map utf8 (take k cs))) + m" using Cons.IH by blast
    then show ?thesis using False by (intro Cons.prems(1) [of "Suc k" m]) simp_all
  qed
qed simp


text \<open>C31: \<open>nssUTF8_CopyIntoFixedBuffer\<close> puts the longest beginning of the string that is made of whole characters
  and fits into the buffer, and fills the rest of it with the pad character (a buffer of at least one byte, a string of less
  than four gigabytes).\<close>

theorem fixed_buffer:
  assumes t: "\<forall>c\<in>set cs. scalar c \<and> c \<noteq> 0" "cstr s (concat (map utf8 cs))" "length (concat (map utf8 cs)) < 2 ^ 32 - 1"
    and n: "0 < n" "unat n \<le> length buffer"
  shows "\<exists>k\<le>length cs. let w = concat (map utf8 (take k cs)) in
    nssUTF8_CopyIntoFixedBuffer (Some s) buffer n pad = Some (w @ replicate (unat n - length w) pad @ drop (unat n) buffer) \<and>
    length w \<le> unat n \<and> (k < length cs \<longrightarrow> unat n < length (concat (map utf8 (take (Suc k) cs))))"
proof -
  define T where "T = concat (map utf8 cs)"
  have sz: "nssUTF8_Size s = Some (of_nat (length T) + 1)" using nssUTF8_Size_cstr [OF t(2)] by (simp add: T_def)
  have uT: "unat (of_nat (length T) :: u32) = length T" by (rule unat_of_nat_u32) (use t(3) in \<open>simp add: T_def\<close>)
  have l: "length T < length s" using cstr_length [OF t(2)] by (simp add: T_def)
  have sT: "take j s = take j T" if "j \<le> length T" for j using cstr_take [OF t(2)] that by (simp add: T_def)
  show ?thesis
  proof (cases "length T \<le> unat n")
    case True
    have "nssUTF8_CopyIntoFixedBuffer (Some s) buffer n pad = Some (T @ replicate (unat n - length T) pad @ drop (unat n) buffer)"
      using True l n sT [of "length T"] uT
      by (simp add: nssUTF8_CopyIntoFixedBuffer_def sz Let_def word_less_nat_alt nsslibc_memset_def nsslibc_memcpy_def store_def)
    then show ?thesis using True by (intro exI [of _ "length cs"]) (simp add: T_def Let_def)
  next
    case False
    then have "unat n < length (concat (map utf8 cs))" by (simp add: T_def)
    then obtain k m where k: "k < length cs" "m < length (utf8 (cs ! k))" "take (unat n) T = concat (map utf8 (take k cs)) @ take m (utf8 (cs ! k))"
      "unat n = length (concat (map utf8 (take k cs))) + m" unfolding T_def by (rule split_at)
    define w where "w = concat (map utf8 (take k cs)) @ take m (utf8 (cs ! k))"
    define rest where "rest = drop (unat n) buffer"
    have lw: "length w = unat n" using k by (simp add: w_def)
    have c: "\<forall>c\<in>set (take k cs). scalar c" "scalar (cs ! k)" using t(1) k(1) by (auto dest: in_set_takeD)
    have cp: "nsslibc_memcpy buffer s n = Some (w @ rest)"
      using False l sT [of "unat n"] k(3) n lw by (simp add: nsslibc_memcpy_def store_def w_def rest_def)
    have n0: "0 < unat n" using n(1) by (simp add: word_less_nat_alt)
    have e: "nssUTF8_CopyIntoFixedBuffer (Some s) buffer n pad =
      do { f \<leftarrow> fits_from (w @ rest) n [1, 2, 3, 4, 5, 6]; if f then Some (w @ rest) else trim_last pad (unat n) (w @ rest) }"
      using False uT cp by (simp add: nssUTF8_CopyIntoFixedBuffer_def sz Let_def word_less_nat_alt)
    have next_char: "unat n < length (concat (map utf8 (take (Suc k) cs)))" using k by (simp add: take_Suc_conv_app_nth)
    have b: "j \<in> {1..6} \<Longrightarrow> j \<le> length w \<Longrightarrow> begins j (w ! (length w - j)) \<longleftrightarrow> m = 0 \<and> take k cs \<noteq> [] \<and> j = length (utf8 (last (take k cs)))" for j
      unfolding w_def by (rule begins_text [OF c k(2)])
    have S: "set [1, 2, 3, 4, 5, 6 :: nat] = {1..6}" by auto
    have f: "fits_from (w @ rest) n [1, 2, 3, 4, 5, 6] = Some (m = 0)"
    proof -
      have "(\<exists>j\<in>{1..6}. j \<le> length w \<and> begins j (w ! (length w - j))) \<longleftrightarrow> m = 0"
      proof
        assume m: "m = 0"
        have "take k cs \<noteq> []"
        proof
          assume tk: "take k cs = []"
          have "unat n = 0" unfolding k(4) m tk by simp
          then show False using n0 by simp
        qed
        then obtain ds d where d: "take k cs = ds @ [d]" by (metis rev_exhaust)
        have "length (utf8 d) \<in> {1..6}" "length (utf8 d) \<le> length w" using utf8_length [of d] d by (auto simp: w_def)
        then show "\<exists>j\<in>{1..6}. j \<le> length w \<and> begins j (w ! (length w - j))" using b d m by (intro bexI [of _ "length (utf8 d)"]) auto
      qed (use b in blast)
      moreover have "set [1, 2, 3, 4, 5, 6 :: nat] \<subseteq> {1..6}" unfolding S ..
      note fits_from_spec [OF lw n0 this, of rest, unfolded S]
      ultimately show ?thesis by simp
    qed
    have e1: "nssUTF8_CopyIntoFixedBuffer (Some s) buffer n pad = (if m = 0 then Some (w @ rest) else trim_last pad (unat n) (w @ rest))"
      unfolding e f by simp
    show ?thesis
    proof (cases "m = 0")
      case True
      then show ?thesis using k e1 next_char by (intro exI [of _ k]) (simp add: Let_def w_def rest_def)
    next
      case m: False
      obtain b0 r where u: "utf8 (cs ! k) = b0 # r" "\<forall>x\<in>set r. cont x" "\<not> cont b0" by (rule utf8_bytes_range [OF c(2)])
      obtain m' where m': "m = Suc m'" using m by (cases m) auto
      have "trim_last pad (length (concat (map utf8 (take k cs))) + Suc (length (take m' r))) (concat (map utf8 (take k cs)) @ b0 # take m' r @ rest) =
        Some (concat (map utf8 (take k cs)) @ replicate (Suc (length (take m' r))) pad @ rest)"
        by (rule trim_spec) (use u in \<open>auto dest: in_set_takeD\<close>)
      moreover have "length (take m' r) = m'" using k(2) u(1) m' by simp
      ultimately have "trim_last pad (unat n) (w @ rest) = Some (concat (map utf8 (take k cs)) @ replicate m pad @ rest)"
        using k(4) m' u(1) by (simp add: w_def del: trim_last.simps)
      then show ?thesis using k e1 m next_char by (intro exI [of _ k]) (simp add: Let_def rest_def)
    qed
  qed
qed

text \<open>Six bytes for "a", the euro sign and the euro sign again: the third character is cut off, and its place is padded.\<close>

theorem fixed_buffer_witness:
  "\<exists>k\<le>3. let w = concat (map utf8 (take k [0x61, 0x20AC, 0x20AC])) in
    nssUTF8_CopyIntoFixedBuffer (Some [0x61, 0xE2, 0x82, 0xAC, 0xE2, 0x82, 0xAC, 0]) (replicate 6 0) 6 0x20 =
      Some (w @ replicate (6 - length w) 0x20) \<and> length w \<le> 6 \<and> (k < 3 \<longrightarrow> 6 < length (concat (map utf8 (take (Suc k) [0x61, 0x20AC, 0x20AC]))))"
proof -
  have e: "concat (map utf8 [0x61, 0x20AC, 0x20AC]) = [0x61, 0xE2, 0x82, 0xAC, 0xE2, 0x82, 0xAC]" by (simp add: utf8_def)
  have t: "\<forall>c\<in>set [0x61, 0x20AC, 0x20AC]. scalar c \<and> c \<noteq> 0" "length (concat (map utf8 [0x61, 0x20AC, 0x20AC])) < 2 ^ 32 - 1"
    "cstr [0x61, 0xE2, 0x82, 0xAC, 0xE2, 0x82, 0xAC, 0] (concat (map utf8 [0x61, 0x20AC, 0x20AC]))"
    unfolding e by (simp_all add: scalar_def cstr_Cons)
  have n: "(0 :: u32) < 6" "unat (6 :: u32) \<le> length (replicate 6 (0 :: u8))" by simp_all
  show ?thesis using fixed_buffer [OF t(1,3,2) n, where pad = "0x20"] by (simp add: Let_def numeral_3_eq_3)
qed

end
