(* ===== verification/Pr_Printf.thy ===== *)
theory Pr_Printf
  imports Pl_String
begin

text \<open>
  The formatted output of \<open>nsprpub/pr/src/io/prprf.c\<close>, in a release build (\<open>PR_ASSERT\<close> does nothing) on a 64-bit
  platform (\<open>long\<close> and pointers of 64 bits, \<open>int\<close> of 32).

  An \<open>int\<close> is a HOL integer and a sum that does not fit is no defined result (\<open>i32\<close>); the value being printed is a
  64-bit word. The format is the cells from \<open>fmt\<close> to the end of its object, and \<open>c = *fmt++\<close> takes the first one
  (\<open>getc\<close>). The variable arguments are a list: to read one of another type than was passed, or one too many, has no
  defined result. The \<open>sprintf\<close> of the C library, that prints the floating point numbers, is the parameter
  \<open>c_sprintf\<close>: the format and the bits of the \<open>double\<close> to the text without its terminator, \<open>None\<close> when the call has no
  defined result. \<open>malloc\<close> is a function of the size to the fresh cells, or to the null pointer.
\<close>

subsection \<open>State, types and arguments\<close>

text \<open>
  \<open>ss_base\<close> is the buffer, \<open>ss_off\<close> the difference \<open>cur - base\<close> (\<open>None\<close> when neither was set) and \<open>ss_arg\<close> the object
  of the callback. \<open>ss_ints\<close> records what was stored through the \<open>int *\<close> arguments, the last store first.
\<close>

record 'a SprintfState =
  ss_base :: cptr
  ss_off :: "nat option"
  ss_maxlen :: u32
  ss_arg :: 'a
  ss_ints :: "(nat \<times> u32) list"

type_synonym 'a stuff = "'a SprintfState \<Rightarrow> cells \<Rightarrow> ('a SprintfState \<times> int) option"

datatype printf_type =
    TYPE_INT16 | TYPE_UINT16 | TYPE_INTN | TYPE_UINTN | TYPE_INT32 | TYPE_UINT32 | TYPE_INT64 | TYPE_UINT64
  | TYPE_STRING | TYPE_DOUBLE | TYPE_INTSTR | TYPE_UNKNOWN

text \<open>\<open>(type & 1) == 0\<close> and \<open>type |= 1\<close>, of the integer types.\<close>

definition signed_type :: "printf_type \<Rightarrow> bool" where
  "signed_type type = (type \<in> {TYPE_INT16, TYPE_INTN, TYPE_INT32, TYPE_INT64})"

fun unsigned_of :: "printf_type \<Rightarrow> printf_type" where
  "unsigned_of TYPE_INT16 = TYPE_UINT16"
| "unsigned_of TYPE_INTN = TYPE_UINTN"
| "unsigned_of TYPE_INT32 = TYPE_UINT32"
| "unsigned_of TYPE_INT64 = TYPE_UINT64"
| "unsigned_of t = t"

record Flags =
  LEFT :: bool
  SIGNED :: bool
  SPACED :: bool
  ZEROS :: bool
  NEG :: bool

definition no_flags :: Flags where
  "no_flags = \<lparr>LEFT = False, SIGNED = False, SPACED = False, ZEROS = False, NEG = False\<rparr>"

text \<open>An argument: an integer of 32 or 64 bits, the bits of a \<open>double\<close>, a \<open>char *\<close>, an \<open>int *\<close> (by a name).\<close>

datatype arg = Arg32 u32 | Arg64 u64 | ArgDouble u64 | ArgString cptr | ArgIntPtr "nat option"

fun as_int :: "arg \<Rightarrow> u32 option" where
  "as_int (Arg32 x) = Some x"
| "as_int _ = None"

fun as_int64 :: "arg \<Rightarrow> u64 option" where
  "as_int64 (Arg64 x) = Some x"
| "as_int64 _ = None"

fun as_double :: "arg \<Rightarrow> u64 option" where
  "as_double (ArgDouble x) = Some x"
| "as_double _ = None"

fun as_string :: "arg \<Rightarrow> cptr option" where
  "as_string (ArgString x) = Some x"
| "as_string _ = None"

fun as_int_ptr :: "arg \<Rightarrow> nat option option" where
  "as_int_ptr (ArgIntPtr x) = Some x"
| "as_int_ptr _ = None"

fun va_arg :: "arg list \<Rightarrow> (arg \<times> arg list) option" where
  "va_arg [] = None"
| "va_arg (a # ap) = Some (a, ap)"

subsection \<open>Filling\<close>

text \<open>\<open>rv = m; if (rv < 0) return rv; k\<close>\<close>

definition seq :: "('s \<times> int) option \<Rightarrow> ('s \<Rightarrow> ('s \<times> int) option) \<Rightarrow> ('s \<times> int) option" where
  "seq m k = do { (s, rv) \<leftarrow> m; if rv < 0 then Some (s, rv) else k s }"

lemma seq_mono [partial_function_mono]:
  assumes "mono_option B" and "\<And>s. mono_option (\<lambda>f. C f s)"
  shows "mono_option (\<lambda>f. seq (B f) (C f))"
  unfolding seq_def split_def by (intro bind_mono if_mono option.const_mono assms)

lemma seq_Some [simp]: "\<not> rv < 0 \<Longrightarrow> seq (Some (s, rv)) k = k s"
  by (simp add: seq_def)

primrec stuff_times :: "'a stuff \<Rightarrow> nat \<Rightarrow> u8 \<Rightarrow> 'a SprintfState \<Rightarrow> ('a SprintfState \<times> int) option" where
  "stuff_times stuff 0 c s = Some (s, 0)"
| "stuff_times stuff (Suc n) c s = seq (stuff s [c]) (stuff_times stuff n c)"

text \<open>\<open>(*ss->stuff)(ss, src, len)\<close> with \<open>len\<close> an \<open>int\<close>, a \<open>PRUint32\<close> for the callback.\<close>

definition stuff_src :: "'a stuff \<Rightarrow> cells \<Rightarrow> int \<Rightarrow> 'a SprintfState \<Rightarrow> ('a SprintfState \<times> int) option" where
  "stuff_src stuff src len s =
     (let n = unat (of_int len :: u32) in if n \<le> length src then stuff s (take n src) else None)"

definition fill2 ::
  "'a stuff \<Rightarrow> cells \<Rightarrow> int \<Rightarrow> int \<Rightarrow> Flags \<Rightarrow> 'a SprintfState \<Rightarrow> ('a SprintfState \<times> int) option" where
  "fill2 stuff src srclen width flags s = do {
     w \<leftarrow> i32 (width - srclen);
     seq (stuff_times stuff (if LEFT flags then 0 else nat w) (if ZEROS flags then 0x30 else 0x20) s) (\<lambda>s.
     seq (stuff_src stuff src srclen s) (\<lambda>s.
     stuff_times stuff (if LEFT flags then nat w else 0) 0x20 s)) }"

text \<open>The order is: spaces, optional sign, zeros, digits, spaces.\<close>

definition sign_of :: "printf_type \<Rightarrow> Flags \<Rightarrow> cells" where
  "sign_of type flags =
     (if \<not> signed_type type then []
      else if NEG flags then [0x2D]
      else if SIGNED flags then [0x2B]
      else if SPACED flags then [0x20]
      else [])"

definition fill_n ::
  "'a stuff \<Rightarrow> cells \<Rightarrow> int \<Rightarrow> int \<Rightarrow> int \<Rightarrow> printf_type \<Rightarrow> Flags \<Rightarrow> 'a SprintfState \<Rightarrow> ('a SprintfState \<times> int) option" where
  "fill_n stuff src srclen width prec type flags s = do {
     let sign = sign_of type flags;
     cvtwidth \<leftarrow> i32 (int (length sign) + srclen);
     let precwidth = (if prec > 0 \<and> prec > srclen then prec - srclen else 0);
     cvtwidth \<leftarrow> i32 (cvtwidth + precwidth);
     let zerowidth = (if ZEROS flags \<and> prec < 0 \<and> width > cvtwidth then width - cvtwidth else 0);
     let cvtwidth = cvtwidth + zerowidth;
     let spaces = (if width > cvtwidth then width - cvtwidth else 0);
     seq (stuff_times stuff (nat (if LEFT flags then 0 else spaces)) 0x20 s) (\<lambda>s.
     seq (if sign = [] then Some (s, 0) else stuff s sign) (\<lambda>s.
     seq (stuff_times stuff (nat precwidth) 0x30 s) (\<lambda>s.
     seq (stuff_times stuff (nat zerowidth) 0x30 s) (\<lambda>s.
     seq (stuff_src stuff src srclen s) (\<lambda>s.
     stuff_times stuff (nat (if LEFT flags then spaces else 0)) 0x20 s))))) }"

subsection \<open>Converting\<close>

definition hex :: cells where
  "hex = [0x30, 0x31, 0x32, 0x33, 0x34, 0x35, 0x36, 0x37, 0x38, 0x39, 0x61, 0x62, 0x63, 0x64, 0x65, 0x66]"

definition HEX :: cells where
  "HEX = [0x30, 0x31, 0x32, 0x33, 0x34, 0x35, 0x36, 0x37, 0x38, 0x39, 0x41, 0x42, 0x43, 0x44, 0x45, 0x46]"

text \<open>The digits go down from the end of \<open>cvtbuf[100]\<close>: \<open>room\<close> is how many cells are left below \<open>cvt\<close>.\<close>

primrec cvt_digits :: "nat \<Rightarrow> u64 \<Rightarrow> u64 \<Rightarrow> cells \<Rightarrow> cells \<Rightarrow> cells option" where
  "cvt_digits 0 num radix hexp cvt = (if num = 0 then Some cvt else None)"
| "cvt_digits (Suc room) num radix hexp cvt =
     (if num = 0 then Some cvt
      else do {
        d \<leftarrow> rd hexp (unat (num mod radix AND 0xF));
        cvt_digits room (num div radix) radix hexp (d # cvt) })"

definition cvt_l ::
  "'a stuff \<Rightarrow> u64 \<Rightarrow> int \<Rightarrow> int \<Rightarrow> u64 \<Rightarrow> printf_type \<Rightarrow> Flags \<Rightarrow> cells \<Rightarrow> 'a SprintfState \<Rightarrow> ('a SprintfState \<times> int) option" where
  "cvt_l stuff num width prec radix type flags hexp s =
     (if prec = 0 \<and> num = 0 then Some (s, 0)
      else do {
        cvt \<leftarrow> cvt_digits 100 num radix hexp [];
        let cvt = (if cvt = [] then [0x30] else cvt);
        fill_n stuff cvt (int (length cvt)) width prec type flags s })"

text \<open>\<open>LL_UDIVMOD\<close> is the division of the unsigned 64-bit integers, so \<open>cvt_ll\<close> makes the same digits.\<close>

definition cvt_ll ::
  "'a stuff \<Rightarrow> u64 \<Rightarrow> int \<Rightarrow> int \<Rightarrow> u64 \<Rightarrow> printf_type \<Rightarrow> Flags \<Rightarrow> cells \<Rightarrow> 'a SprintfState \<Rightarrow> ('a SprintfState \<times> int) option" where
  "cvt_ll stuff num width prec rad type flags hexp s =
     (if prec = 0 \<and> num = 0 then Some (s, 0)
      else do {
        cvt \<leftarrow> cvt_digits 100 num rad hexp [];
        let cvt = (if cvt = [] then [0x30] else cvt);
        fill_n stuff cvt (int (length cvt)) width prec type flags s })"

text \<open>\<open>amount\<close> is the length of the directive: one of 20 characters or more is ignored, and a text that does not fit in
  \<open>fout[300]\<close> has no defined result.\<close>

definition cvt_f ::
  "'a stuff \<Rightarrow> (cells \<Rightarrow> u64 \<Rightarrow> cells option) \<Rightarrow> u64 \<Rightarrow> cells \<Rightarrow> nat \<Rightarrow> 'a SprintfState \<Rightarrow> ('a SprintfState \<times> int) option" where
  "cvt_f stuff c_sprintf d fmt0 n s =
     (let amount = unat (of_nat n :: u32) in
      if amount \<ge> 20 then Some (s, 0)
      else do {
        fout \<leftarrow> c_sprintf (take amount fmt0) d;
        if length fout < 300 then stuff s fout else None })"

definition cvt_s :: "'a stuff \<Rightarrow> cptr \<Rightarrow> int \<Rightarrow> int \<Rightarrow> Flags \<Rightarrow> 'a SprintfState \<Rightarrow> ('a SprintfState \<times> int) option" where
  "cvt_s stuff str width prec flags s =
     (if prec = 0 then Some (s, 0)
      else do {
        let str = (case str of None \<Rightarrow> [0x28, 0x6E, 0x75, 0x6C, 0x6C, 0x29, 0] | Some x \<Rightarrow> x);
        l \<leftarrow> (if prec > 0 then strnlen_loop str (nat prec) else c_strlen str);
        fill2 stuff str (sint (of_nat l :: u32)) width flags s })"

subsection \<open>Scanning a directive\<close>

fun getc :: "cells \<Rightarrow> (u8 \<times> cells) option" where
  "getc [] = None"
| "getc (c # p) = Some (c, p)"

definition is_digit :: "u8 \<Rightarrow> bool" where
  "is_digit c = (0x30 \<le> c \<and> c \<le> 0x39)"

text \<open>The value of a \<open>char\<close>, which is signed.\<close>

definition char_val :: "u8 \<Rightarrow> int" where
  "char_val c = sint c"

fun skip_digits :: "u8 \<Rightarrow> cells \<Rightarrow> (u8 \<times> cells) option" where
  "skip_digits c p = (if is_digit c then (case p of [] \<Rightarrow> None | c1 # p1 \<Rightarrow> skip_digits c1 p1) else Some (c, p))"

fun gobble_flags :: "Flags \<Rightarrow> u8 \<Rightarrow> cells \<Rightarrow> (Flags \<times> u8 \<times> cells) option" where
  "gobble_flags fl c p =
     (if c \<in> {0x2D, 0x2B, 0x20, 0x30} then
        let fl1 = (if c = 0x2D then fl\<lparr>LEFT := True\<rparr> else if c = 0x2B then fl\<lparr>SIGNED := True\<rparr>
                   else if c = 0x20 then fl\<lparr>SPACED := True\<rparr> else fl\<lparr>ZEROS := True\<rparr>) in
        (case p of [] \<Rightarrow> None | c1 # p1 \<Rightarrow> gobble_flags fl1 c1 p1)
      else
        let fl1 = (if SIGNED fl then fl\<lparr>SPACED := False\<rparr> else fl) in
        Some (if LEFT fl1 then fl1\<lparr>ZEROS := False\<rparr> else fl1, c, p))"

fun gobble_number :: "int \<Rightarrow> u8 \<Rightarrow> cells \<Rightarrow> (int \<times> u8 \<times> cells) option" where
  "gobble_number n c p =
     (if is_digit c then do {
        n10 \<leftarrow> i32 (n * 10);
        n1 \<leftarrow> i32 (n10 + (char_val c - 0x30));
        (case p of [] \<Rightarrow> None | c1 # p1 \<Rightarrow> gobble_number n1 c1 p1) }
      else Some (n, c, p))"

definition va_int :: "arg list \<Rightarrow> (int \<times> arg list) option" where
  "va_int ap = do { (a, ap) \<leftarrow> va_arg ap; x \<leftarrow> as_int a; Some (sint x, ap) }"

definition gobble_width :: "u8 \<Rightarrow> cells \<Rightarrow> arg list \<Rightarrow> (int \<times> u8 \<times> cells \<times> arg list) option" where
  "gobble_width c p ap =
     (if c = 0x2A then do {
        (c, p) \<leftarrow> getc p;
        (width, ap) \<leftarrow> va_int ap;
        Some (width, c, p, ap) }
      else do {
        (width, c, p) \<leftarrow> gobble_number 0 c p;
        Some (width, c, p, ap) })"

definition gobble_prec :: "u8 \<Rightarrow> cells \<Rightarrow> arg list \<Rightarrow> (int \<times> u8 \<times> cells \<times> arg list) option" where
  "gobble_prec c p ap =
     (if c = 0x2E then do {
        (c, p) \<leftarrow> getc p;
        gobble_width c p ap }
      else Some (- 1, c, p, ap))"

text \<open>\<open>h\<close>, \<open>L\<close>, \<open>l\<close> and \<open>ll\<close>, the same in both routines.\<close>

definition gobble_size :: "u8 \<Rightarrow> cells \<Rightarrow> (printf_type \<times> u8 \<times> cells) option" where
  "gobble_size c p =
     (if c = 0x68 then do { (c, p) \<leftarrow> getc p; Some (TYPE_INT16, c, p) }
      else if c = 0x4C then do { (c, p) \<leftarrow> getc p; Some (TYPE_INT64, c, p) }
      else if c = 0x6C then do {
        (c, p) \<leftarrow> getc p;
        if c = 0x6C then do { (c, p) \<leftarrow> getc p; Some (TYPE_INT64, c, p) } else Some (TYPE_INT32, c, p) }
      else Some (TYPE_INTN, c, p))"

subsection \<open>Numbered arguments\<close>

text \<open>A numbered argument that was not fetched has no value.\<close>

record NumArg =
  na_type :: printf_type
  na_u :: "arg option"

text \<open>The first pass counts the numbered directives; the result is \<open>*rv\<close> and \<open>number\<close>. \<open>i\<close>: a directive that is not
  numbered was seen.\<close>

partial_function (option) count_args :: "cells \<Rightarrow> bool \<Rightarrow> nat \<Rightarrow> (int \<times> nat) option" where
  "count_args p i number = do {
     (c, p) \<leftarrow> getc p;
     if c = 0 then Some (0, number)
     else if c \<noteq> 0x25 then count_args p i number
     else do {
       (c, p) \<leftarrow> getc p;
       if c = 0x25 then count_args p i number
       else do {
         (c, p) \<leftarrow> skip_digits c p;
         if c = 0 then count_args p i number
         else if c = 0x24 then if i then Some (- 1, number) else count_args p i (number + 1)
         else if number > 0 then Some (- 1, number) else count_args p True number } } }"

text \<open>\<open>cn = cn*10 + c - '0'\<close> up to \<open>$\<close>, whatever the characters are.\<close>

fun numbered_index :: "int \<Rightarrow> u8 \<Rightarrow> cells \<Rightarrow> (int \<times> u8 \<times> cells) option" where
  "numbered_index cn c p =
     (if c = 0 \<or> c = 0x24 then Some (cn, c, p)
      else do {
        cn10 \<leftarrow> i32 (cn * 10);
        cn1 \<leftarrow> i32 (cn10 + char_val c);
        cn2 \<leftarrow> i32 (cn1 - 0x30);
        (case p of [] \<Rightarrow> None | c1 # p1 \<Rightarrow> numbered_index cn2 c1 p1) })"

definition arg_type :: "printf_type \<Rightarrow> u8 \<Rightarrow> printf_type" where
  "arg_type type c =
     (if c \<in> {0x64, 0x63, 0x69, 0x6F, 0x75, 0x78, 0x58} then type
      else if c \<in> {0x65, 0x66, 0x67} then TYPE_DOUBLE
      else if c = 0x70 then TYPE_UINT64
      else if c = 0x73 then TYPE_STRING
      else if c = 0x6E then TYPE_INTSTR
      else TYPE_UNKNOWN)"

text \<open>Width, precision, size and format of a numbered directive; its type stays unknown after a \<open>*\<close>.\<close>

definition size_and_format :: "u8 \<Rightarrow> cells \<Rightarrow> (printf_type \<times> cells) option" where
  "size_and_format c p = do { (type, c, p) \<leftarrow> gobble_size c p; Some (arg_type type c, p) }"

definition numbered_type :: "cells \<Rightarrow> (printf_type \<times> cells) option" where
  "numbered_type p = do {
     (c, p) \<leftarrow> getc p;
     if c = 0x2A then Some (TYPE_UNKNOWN, p)
     else do {
       (c, p) \<leftarrow> skip_digits c p;
       if c = 0x2E then do {
         (c, p) \<leftarrow> getc p;
         if c = 0x2A then Some (TYPE_UNKNOWN, p)
         else do { (c, p) \<leftarrow> skip_digits c p; size_and_format c p } }
       else size_and_format c p } }"

text \<open>The second pass: the types, and \<open>*rv\<close>.\<close>

partial_function (option) arg_types :: "cells \<Rightarrow> printf_type list \<Rightarrow> (int \<times> printf_type list) option" where
  "arg_types p nas = do {
     (c, p) \<leftarrow> getc p;
     if c = 0 then Some (0, nas)
     else if c \<noteq> 0x25 then arg_types p nas
     else do {
       (c, p) \<leftarrow> getc p;
       if c = 0x25 then arg_types p nas
       else do {
         (cn, c, p) \<leftarrow> numbered_index 0 c p;
         if c = 0 \<or> cn < 1 \<or> cn > int (length nas) then Some (- 1, nas)
         else if nas ! nat (cn - 1) \<noteq> TYPE_UNKNOWN then arg_types p nas
         else do {
           (type, p) \<leftarrow> numbered_type p;
           if type = TYPE_UNKNOWN then Some (- 1, nas)
           else arg_types p (nas[nat (cn - 1) := type]) } } } }"

text \<open>The third pass: the arguments in the order of their numbers; an unused number takes none.\<close>

definition fetch_arg :: "printf_type \<Rightarrow> arg \<Rightarrow> bool" where
  "fetch_arg type a = (case a of
     Arg32 _ \<Rightarrow> type \<in> {TYPE_INT16, TYPE_UINT16, TYPE_INTN, TYPE_UINTN, TYPE_INT32, TYPE_UINT32}
   | Arg64 _ \<Rightarrow> type \<in> {TYPE_INT64, TYPE_UINT64}
   | ArgDouble _ \<Rightarrow> type = TYPE_DOUBLE
   | ArgString _ \<Rightarrow> type = TYPE_STRING
   | ArgIntPtr _ \<Rightarrow> type = TYPE_INTSTR)"

fun fill_args :: "printf_type list \<Rightarrow> arg list \<Rightarrow> NumArg list option" where
  "fill_args [] ap = Some []"
| "fill_args (t # ts) ap =
     (if t = TYPE_UNKNOWN then
        map_option (\<lambda>nas. \<lparr>na_type = t, na_u = None\<rparr> # nas) (fill_args ts ap)
      else do {
        (a, ap) \<leftarrow> va_arg ap;
        if fetch_arg t a
        then map_option (\<lambda>nas. \<lparr>na_type = t, na_u = Some a\<rparr> # nas) (fill_args ts ap)
        else None })"

text \<open>\<open>nas_ok\<close>: the array for more than 20 arguments could be allocated.\<close>

definition BuildArgArray :: "bool \<Rightarrow> cells \<Rightarrow> arg list \<Rightarrow> (int \<times> NumArg list option) option" where
  "BuildArgArray nas_ok fmt ap = do {
     (rv, number) \<leftarrow> count_args fmt False 0;
     if rv < 0 then Some (- 1, None)
     else if number = 0 then Some (0, None)
     else if number > 20 \<and> \<not> nas_ok then Some (- 1, None)
     else do {
       (rv, types) \<leftarrow> arg_types fmt (replicate number TYPE_UNKNOWN);
       if rv < 0 then Some (rv, None)
       else do { nas \<leftarrow> fill_args types ap; Some (0, Some nas) } } }"

subsection \<open>\<open>dosprintf\<close>\<close>

text \<open>\<open>nas ? nap->u : va_arg(ap, ...)\<close>; \<open>nap\<close> is \<open>None\<close> when \<open>nas\<close> is the null pointer.\<close>

definition fetch :: "NumArg option \<Rightarrow> arg list \<Rightarrow> (arg \<times> arg list) option" where
  "fetch nap ap = (case nap of None \<Rightarrow> va_arg ap | Some n \<Rightarrow> map_option (\<lambda>a. (a, ap)) (na_u n))"

text \<open>\<open>-u\<close> of the smallest 64-bit integer overflows.\<close>

definition magnitude :: "u64 \<Rightarrow> Flags \<Rightarrow> (u64 \<times> Flags) option" where
  "magnitude u flags =
     (if u <s 0 then if u = 0x8000000000000000 then None else Some (- u, flags\<lparr>NEG := True\<rparr>) else Some (u, flags))"

definition load_int :: "printf_type \<Rightarrow> arg \<Rightarrow> Flags \<Rightarrow> (u64 \<times> Flags) option" where
  "load_int type a flags =
     (if type \<in> {TYPE_INT16, TYPE_INTN, TYPE_INT32} then do { x \<leftarrow> as_int a; magnitude (scast x) flags }
      else if type = TYPE_UINT16 then do { x \<leftarrow> as_int a; Some (ucast (x AND 0xFFFF), flags) }
      else if type \<in> {TYPE_UINTN, TYPE_UINT32} then do { x \<leftarrow> as_int a; Some (ucast x, flags) }
      else if type = TYPE_INT64 then do { x \<leftarrow> as_int64 a; magnitude x flags }
      else if type = TYPE_UINT64 then do { x \<leftarrow> as_int64 a; Some (x, flags) }
      else None)"

definition fetch_and_convert ::
  "'a stuff \<Rightarrow> NumArg option \<Rightarrow> arg list \<Rightarrow> int \<Rightarrow> int \<Rightarrow> u64 \<Rightarrow> printf_type \<Rightarrow> Flags \<Rightarrow> cells \<Rightarrow> 'a SprintfState
     \<Rightarrow> ('a SprintfState \<times> int \<times> arg list) option" where
  "fetch_and_convert stuff nap ap width prec radix type flags hexp s = do {
     (a, ap) \<leftarrow> fetch nap ap;
     (u, flags) \<leftarrow> load_int type a flags;
     (s, rv) \<leftarrow> (if type \<in> {TYPE_INT64, TYPE_UINT64} then cvt_ll stuff u width prec radix type flags hexp s
                else cvt_l stuff u width prec radix type flags hexp s);
     Some (s, rv, ap) }"

definition stuff_char :: "'a stuff \<Rightarrow> u8 \<Rightarrow> int \<Rightarrow> Flags \<Rightarrow> 'a SprintfState \<Rightarrow> ('a SprintfState \<times> int) option" where
  "stuff_char stuff ch width flags s = do {
     _ \<leftarrow> i32 (width - 1);
     let n = nat (width - 1);
     seq (stuff_times stuff (if LEFT flags then 0 else n) 0x20 s) (\<lambda>s.
     seq (stuff s [ch]) (\<lambda>s.
     stuff_times stuff (if LEFT flags then n else 0) 0x20 s)) }"

text \<open>
  The \<open>switch\<close> on the format character \<open>c\<close>; \<open>fmt0\<close> is the directive from its \<open>%\<close> and \<open>dolPt\<close> from behind its \<open>$\<close>,
  \<open>fmt\<close> what follows it. The result is the state, \<open>rv\<close> and the arguments left.
\<close>

definition convert ::
  "'a stuff \<Rightarrow> (cells \<Rightarrow> u64 \<Rightarrow> cells option) \<Rightarrow> NumArg option \<Rightarrow> arg list \<Rightarrow> cells \<Rightarrow> cells \<Rightarrow> cells \<Rightarrow> Flags \<Rightarrow> int \<Rightarrow> int
     \<Rightarrow> printf_type \<Rightarrow> u8 \<Rightarrow> 'a SprintfState \<Rightarrow> ('a SprintfState \<times> int \<times> arg list) option" where
  "convert stuff c_sprintf nap ap fmt0 dolPt fmt flags width prec type c s =
     (if c = 0x64 \<or> c = 0x69 then fetch_and_convert stuff nap ap width prec 10 type flags hex s
      else if c = 0x6F then fetch_and_convert stuff nap ap width prec 8 (unsigned_of type) flags hex s
      else if c = 0x75 then fetch_and_convert stuff nap ap width prec 10 (unsigned_of type) flags hex s
      else if c = 0x78 then fetch_and_convert stuff nap ap width prec 16 (unsigned_of type) flags hex s
      else if c = 0x58 then fetch_and_convert stuff nap ap width prec 16 (unsigned_of type) flags HEX s
      else if c \<in> {0x65, 0x45, 0x66, 0x67} then do {
        (a, ap) \<leftarrow> fetch nap ap;
        d \<leftarrow> as_double a;
        (s, rv) \<leftarrow> (case nap of
           None \<Rightarrow> cvt_f stuff c_sprintf d fmt0 (length fmt0 - length fmt) s
         | Some _ \<Rightarrow>
             (let i = unat (of_nat (length dolPt - length fmt) :: u32) in
              if i < 20 then cvt_f stuff c_sprintf d (0x25 # take i dolPt) (i + 1) s else Some (s, 0)));
        Some (s, rv, ap) }
      else if c = 0x63 then do {
        (a, ap) \<leftarrow> fetch nap ap;
        x \<leftarrow> as_int a;
        (s, rv) \<leftarrow> stuff_char stuff (ucast x) width flags s;
        Some (s, rv, ap) }
      else if c = 0x70 then fetch_and_convert stuff nap ap width prec 16 TYPE_UINT64 flags hex s
      else if c = 0x73 then do {
        (a, ap) \<leftarrow> fetch nap ap;
        x \<leftarrow> as_string a;
        (s, rv) \<leftarrow> cvt_s stuff x width prec flags s;
        Some (s, rv, ap) }
      else if c = 0x6E then do {
        (a, ap) \<leftarrow> fetch nap ap;
        ip \<leftarrow> as_int_ptr a;
        (case ip of
           None \<Rightarrow> Some (s, 0, ap)
         | Some q \<Rightarrow> do { off \<leftarrow> ss_off s; Some (s\<lparr>ss_ints := (q, of_nat off) # ss_ints s\<rparr>, 0, ap) }) }
      else do {
        (s, rv) \<leftarrow> seq (stuff s [0x25]) (\<lambda>s. stuff s [c]);
        Some (s, rv, ap) })"

text \<open>The number of a numbered directive, as \<open>( i * 10 ) + ( c - '0' )\<close>.\<close>

fun dollar_index :: "int \<Rightarrow> u8 \<Rightarrow> cells \<Rightarrow> (int \<times> u8 \<times> cells) option" where
  "dollar_index i c p =
     (if c = 0 \<or> c = 0x24 then Some (i, c, p)
      else do {
        i10 \<leftarrow> i32 (i * 10);
        i1 \<leftarrow> i32 (i10 + (char_val c - 0x30));
        (case p of [] \<Rightarrow> None | c1 # p1 \<Rightarrow> dollar_index i1 c1 p1) })"

text \<open>One directive from behind its \<open>%\<close>, with \<open>c\<close> the character there (not a second \<open>%\<close>). The result is the state, \<open>rv\<close>,
  what follows in the format and the arguments left.\<close>

definition directive ::
  "'a stuff \<Rightarrow> (cells \<Rightarrow> u64 \<Rightarrow> cells option) \<Rightarrow> NumArg list option \<Rightarrow> cells \<Rightarrow> u8 \<Rightarrow> cells \<Rightarrow> arg list \<Rightarrow> 'a SprintfState
     \<Rightarrow> ('a SprintfState \<times> int \<times> cells \<times> arg list) option" where
  "directive stuff c_sprintf nas fmt0 c fmt ap s = do {
     (nap, dolPt, c, fmt) \<leftarrow> (case nas of
        None \<Rightarrow> Some (None, fmt, c, fmt)
      | Some nas \<Rightarrow> do {
          (i, c, fmt) \<leftarrow> dollar_index 0 c fmt;
          nap \<leftarrow> (if 1 \<le> i then rd nas (nat (i - 1)) else None);
          if na_type nap = TYPE_UNKNOWN then Some (Some nap, fmt, c, fmt)
          else do { (c, fmt1) \<leftarrow> getc fmt; Some (Some nap, fmt, c, fmt1) } });
     if (case nap of None \<Rightarrow> False | Some n \<Rightarrow> na_type n = TYPE_UNKNOWN) then Some (s, - 1, fmt, ap)
     else do {
       (flags, c, fmt) \<leftarrow> gobble_flags no_flags c fmt;
       (width, c, fmt, ap) \<leftarrow> gobble_width c fmt ap;
       (prec, c, fmt, ap) \<leftarrow> gobble_prec c fmt ap;
       (type, c, fmt) \<leftarrow> gobble_size c fmt;
       (s, rv, ap) \<leftarrow> convert stuff c_sprintf nap ap fmt0 dolPt fmt flags width prec type c s;
       Some (s, rv, fmt, ap) } }"

partial_function (option) dosprintf_loop ::
  "'a stuff \<Rightarrow> (cells \<Rightarrow> u64 \<Rightarrow> cells option) \<Rightarrow> NumArg list option \<Rightarrow> cells \<Rightarrow> arg list \<Rightarrow> 'a SprintfState
     \<Rightarrow> ('a SprintfState \<times> int) option" where
  "dosprintf_loop stuff c_sprintf nas fmt ap s = do {
     (c, fmt1) \<leftarrow> getc fmt;
     if c = 0 then stuff s [0]
     else if c \<noteq> 0x25 then seq (stuff s [c]) (\<lambda>s. dosprintf_loop stuff c_sprintf nas fmt1 ap s)
     else do {
       (c, fmt2) \<leftarrow> getc fmt1;
       if c = 0x25 then seq (stuff s [c]) (\<lambda>s. dosprintf_loop stuff c_sprintf nas fmt2 ap s)
       else do {
         (s, rv, fmt3, ap) \<leftarrow> directive stuff c_sprintf nas fmt c fmt2 ap s;
         if rv < 0 then Some (s, rv) else dosprintf_loop stuff c_sprintf nas fmt3 ap s } } }"

text \<open>After \<open>BuildArgArray\<close> took arguments, the value of \<open>ap\<close> is indeterminate: no more can be read from it.\<close>

definition dosprintf ::
  "'a stuff \<Rightarrow> (cells \<Rightarrow> u64 \<Rightarrow> cells option) \<Rightarrow> bool \<Rightarrow> cells \<Rightarrow> arg list \<Rightarrow> 'a SprintfState \<Rightarrow> ('a SprintfState \<times> int) option" where
  "dosprintf stuff c_sprintf nas_ok fmt ap s = do {
     (rv, nas) \<leftarrow> BuildArgArray nas_ok fmt ap;
     if rv < 0 then Some (s, rv)
     else dosprintf_loop stuff c_sprintf nas fmt (if nas = None then ap else []) s }"

subsection \<open>The stuffing routines and the printers\<close>

text \<open>\<open>PRStuffFunc\<close>: the object, the characters and their number, to the object and the result.\<close>

type_synonym 'a stuff_func = "'a \<Rightarrow> cells \<Rightarrow> u32 \<Rightarrow> ('a \<times> int) option"

definition FuncStuff :: "'a stuff_func \<Rightarrow> 'a stuff" where
  "FuncStuff func s sp = do {
     let len = (of_nat (length sp) :: u32);
     (arg, rv) \<leftarrow> func (ss_arg s) sp len;
     let s1 = s\<lparr>ss_arg := arg\<rparr>;
     if rv < 0 then Some (s1, rv) else Some (s1\<lparr>ss_maxlen := ss_maxlen s1 + len\<rparr>, 0) }"

text \<open>The result is the object and the count.\<close>

definition PR_vsxprintf ::
  "(cells \<Rightarrow> u64 \<Rightarrow> cells option) \<Rightarrow> bool \<Rightarrow> 'a stuff_func \<Rightarrow> 'a \<Rightarrow> cells \<Rightarrow> arg list \<Rightarrow> ('a SprintfState \<times> u32) option" where
  "PR_vsxprintf c_sprintf nas_ok func arg fmt ap = do {
     let ss = \<lparr>ss_base = None, ss_off = None, ss_maxlen = 0, ss_arg = arg, ss_ints = []\<rparr>;
     (ss, rv) \<leftarrow> dosprintf (FuncStuff func) c_sprintf nas_ok fmt ap ss;
     Some (ss, if rv < 0 then - 1 else ss_maxlen ss) }"

definition PR_sxprintf ::
  "(cells \<Rightarrow> u64 \<Rightarrow> cells option) \<Rightarrow> bool \<Rightarrow> 'a stuff_func \<Rightarrow> 'a \<Rightarrow> cells \<Rightarrow> arg list \<Rightarrow> ('a SprintfState \<times> u32) option" where
  "PR_sxprintf c_sprintf nas_ok func arg fmt args = PR_vsxprintf c_sprintf nas_ok func arg fmt args"

text \<open>\<open>realloc\<close> of the C library, on the \<open>malloc\<close> it is given: the old cells are kept as far as they fit.\<close>

definition c_realloc :: "(u32 \<Rightarrow> cptr) \<Rightarrow> cells \<Rightarrow> u32 \<Rightarrow> cptr" where
  "c_realloc malloc base n =
     map_option (\<lambda>m. take (length m) base @ drop (length base) m) (malloc n)"

definition GrowStuff :: "(u32 \<Rightarrow> cptr) \<Rightarrow> 'a stuff" where
  "GrowStuff malloc s sp = do {
     let len = (of_nat (length sp) :: u32);
     off \<leftarrow> ss_off s;
     let grown = (if off + unat len \<ge> unat (ss_maxlen s) then
         (let newlen = ss_maxlen s + (if len > 32 then len else 32) in
          case (case ss_base s of Some base \<Rightarrow> c_realloc malloc base newlen | None \<Rightarrow> malloc newlen) of
            None \<Rightarrow> None
          | Some newbase \<Rightarrow> Some (s\<lparr>ss_base := Some newbase, ss_maxlen := newlen\<rparr>))
       else Some s);
     case grown of
       None \<Rightarrow> Some (s, - 1)
     | Some s1 \<Rightarrow> do {
         base \<leftarrow> ss_base s1;
         base1 \<leftarrow> store_at base off sp;
         Some (s1\<lparr>ss_base := Some base1, ss_off := Some (off + length sp)\<rparr>, 0) } }"

text \<open>The result is the buffer, with the integers stored.\<close>

definition PR_vsmprintf ::
  "(cells \<Rightarrow> u64 \<Rightarrow> cells option) \<Rightarrow> bool \<Rightarrow> (u32 \<Rightarrow> cptr) \<Rightarrow> cells \<Rightarrow> arg list \<Rightarrow> (cptr \<times> (nat \<times> u32) list) option" where
  "PR_vsmprintf c_sprintf nas_ok malloc fmt ap = do {
     let ss = \<lparr>ss_base = None, ss_off = Some 0, ss_maxlen = 0, ss_arg = (), ss_ints = []\<rparr>;
     (ss, rv) \<leftarrow> dosprintf (GrowStuff malloc) c_sprintf nas_ok fmt ap ss;
     Some (if rv < 0 then None else ss_base ss, ss_ints ss) }"

definition PR_smprintf ::
  "(cells \<Rightarrow> u64 \<Rightarrow> cells option) \<Rightarrow> bool \<Rightarrow> (u32 \<Rightarrow> cptr) \<Rightarrow> cells \<Rightarrow> arg list \<Rightarrow> (cptr \<times> (nat \<times> u32) list) option" where
  "PR_smprintf c_sprintf nas_ok malloc fmt args = PR_vsmprintf c_sprintf nas_ok malloc fmt args"

text \<open>\<open>LimitStuff\<close> drops what does not fit.\<close>

definition LimitStuff :: "'a stuff" where
  "LimitStuff s sp = do {
     base \<leftarrow> ss_base s;
     off \<leftarrow> ss_off s;
     let len = (of_nat (length sp) :: u32);
     let limit = ss_maxlen s - of_nat off;
     let len1 = (if len > limit then limit else len);
     base1 \<leftarrow> store_at base off (take (unat len1) sp);
     Some (s\<lparr>ss_base := Some base1, ss_off := Some (off + unat len1)\<rparr>, 0) }"

text \<open>The result is the buffer, the integers stored and the length.\<close>

definition PR_vsnprintf ::
  "(cells \<Rightarrow> u64 \<Rightarrow> cells option) \<Rightarrow> bool \<Rightarrow> cells \<Rightarrow> u32 \<Rightarrow> cells \<Rightarrow> arg list \<Rightarrow> (cells \<times> (nat \<times> u32) list \<times> u32) option" where
  "PR_vsnprintf c_sprintf nas_ok out outlen fmt ap =
     (if sint outlen \<le> 0 then Some (out, [], 0)
      else do {
        let ss = \<lparr>ss_base = Some out, ss_off = Some 0, ss_maxlen = outlen, ss_arg = (), ss_ints = []\<rparr>;
        (ss, _) \<leftarrow> dosprintf LimitStuff c_sprintf nas_ok fmt ap ss;
        base \<leftarrow> ss_base ss;
        off \<leftarrow> ss_off ss;
        base1 \<leftarrow> (if off \<noteq> 0 then do {
                    c \<leftarrow> rd base (off - 1);
                    if c \<noteq> 0 then wr base (off - 1) 0 else Some base }
                  else Some base);
        let n = (of_nat off :: u32);
        Some (base1, ss_ints ss, if n \<noteq> 0 then n - 1 else n) })"

definition PR_snprintf ::
  "(cells \<Rightarrow> u64 \<Rightarrow> cells option) \<Rightarrow> bool \<Rightarrow> cells \<Rightarrow> u32 \<Rightarrow> cells \<Rightarrow> arg list \<Rightarrow> (cells \<times> (nat \<times> u32) list \<times> u32) option" where
  "PR_snprintf c_sprintf nas_ok out outlen fmt args =
     (if sint outlen \<le> 0 then Some (out, [], 0) else PR_vsnprintf c_sprintf nas_ok out outlen fmt args)"

text \<open>\<open>lastlen\<close> is an \<open>int\<close>; a string of \<open>2 ^ 31\<close> characters or more makes it negative and \<open>cur\<close> points outside it.\<close>

definition PR_vsprintf_append ::
  "(cells \<Rightarrow> u64 \<Rightarrow> cells option) \<Rightarrow> bool \<Rightarrow> (u32 \<Rightarrow> cptr) \<Rightarrow> cptr \<Rightarrow> cells \<Rightarrow> arg list \<Rightarrow> (cptr \<times> (nat \<times> u32) list) option" where
  "PR_vsprintf_append c_sprintf nas_ok malloc str fmt ap = do {
     lastlen \<leftarrow> (case str of None \<Rightarrow> Some 0 | Some l \<Rightarrow> c_strlen l);
     if lastlen \<ge> 2 ^ 31 then None
     else do {
       let ss = \<lparr>ss_base = str, ss_off = Some lastlen, ss_maxlen = of_nat lastlen, ss_arg = (), ss_ints = []\<rparr>;
       (ss, rv) \<leftarrow> dosprintf (GrowStuff malloc) c_sprintf nas_ok fmt ap ss;
       Some (if rv < 0 then None else ss_base ss, ss_ints ss) } }"

definition PR_sprintf_append ::
  "(cells \<Rightarrow> u64 \<Rightarrow> cells option) \<Rightarrow> bool \<Rightarrow> (u32 \<Rightarrow> cptr) \<Rightarrow> cptr \<Rightarrow> cells \<Rightarrow> arg list \<Rightarrow> (cptr \<times> (nat \<times> u32) list) option" where
  "PR_sprintf_append c_sprintf nas_ok malloc str fmt args = PR_vsprintf_append c_sprintf nas_ok malloc str fmt args"

declare skip_digits.simps [simp del] gobble_flags.simps [simp del] gobble_number.simps [simp del]
  numbered_index.simps [simp del] dollar_index.simps [simp del]

declare count_args.simps [code] arg_types.simps [code] dosprintf_loop.simps [code]

end
