(* ===== verification/Pr_Printf_Text.thy ===== *)
theory Pr_Printf_Text
  imports Pr_Printf
begin

text \<open>
  What the stuffing routines of \<open>prprf.c\<close> have in common. \<open>text_stuff\<close> only collects the text, up to a bound;
  the locale \<open>stuffer\<close> is the contract of a routine that keeps the text its own way (\<open>holds s t\<close>: the state \<open>s\<close> keeps the
  text \<open>t\<close>) or fails, and in it every operation of \<open>dosprintf\<close> is proved to keep the text the collecting routine
  collects. A format with \<open>%n\<close> has no text here: what it stores depends on the routine.
\<close>

definition text_stuff :: "nat \<Rightarrow> cells stuff" where
  "text_stuff bound s sp =
     (if length (ss_arg s @ sp) < bound then Some (s\<lparr>ss_arg := ss_arg s @ sp\<rparr>, 0) else None)"

definition text_state :: "cells \<Rightarrow> cells SprintfState" where
  "text_state t = \<lparr>ss_base = None, ss_off = None, ss_maxlen = 0, ss_arg = t, ss_ints = []\<rparr>"

definition printf_text ::
  "nat \<Rightarrow> (cells \<Rightarrow> u64 \<Rightarrow> cells option) \<Rightarrow> bool \<Rightarrow> cells \<Rightarrow> arg list \<Rightarrow> (cells \<times> int) option" where
  "printf_text bound c_sprintf nas_ok fmt ap =
     map_option (\<lambda>(s, rv). (ss_arg s, rv)) (dosprintf (text_stuff bound) c_sprintf nas_ok fmt ap (text_state []))"

lemma text_stuff_state [simp]:
  "text_stuff bound (text_state t) sp = (if length t + length sp < bound then Some (text_state (t @ sp), 0) else None)"
  by (simp add: text_stuff_def text_state_def)

lemma text_state_arg [simp]: "ss_arg (text_state t) = t" "ss_off (text_state t) = None"
  by (simp_all add: text_state_def)

locale stuffer =
  fixes stuff :: "'a stuff"
    and holds :: "'a SprintfState \<Rightarrow> cells \<Rightarrow> bool"
    and failed :: "'a SprintfState \<Rightarrow> bool"
    and bound :: nat
  assumes stuff_holds: "holds s t \<Longrightarrow> length sp < 2 ^ 32 \<Longrightarrow> length (t @ sp) < bound \<Longrightarrow>
    \<exists>s1 rv. stuff s sp = Some (s1, rv) \<and> (rv < 0 \<and> failed s1 \<or> rv = 0 \<and> holds s1 (t @ sp))"
begin

definition rel :: "cells SprintfState \<Rightarrow> 'a SprintfState \<Rightarrow> bool" where
  "rel ts s \<longleftrightarrow> (\<exists>t. ts = text_state t \<and> holds s t)"

definition out :: "cells SprintfState \<Rightarrow> int \<Rightarrow> 'a SprintfState \<Rightarrow> int \<Rightarrow> bool" where
  "out ts rv s rv' \<longleftrightarrow> rv' < 0 \<and> failed s \<or> rv' = rv \<and> rel ts s"

text \<open>Where the collecting run has a result the other one has it too, or it fails.\<close>

definition sim :: "(cells SprintfState \<times> int) option \<Rightarrow> ('a SprintfState \<times> int) option \<Rightarrow> bool" where
  "sim m m' \<longleftrightarrow> (\<forall>ts rv. m = Some (ts, rv) \<longrightarrow> (\<exists>s rv'. m' = Some (s, rv') \<and> out ts rv s rv'))"

definition sim_with :: "(cells SprintfState \<times> int \<times> 'x) option \<Rightarrow> ('a SprintfState \<times> int \<times> 'x) option \<Rightarrow> bool" where
  "sim_with m m' \<longleftrightarrow> (\<forall>ts rv x. m = Some (ts, rv, x) \<longrightarrow> (\<exists>s rv'. m' = Some (s, rv', x) \<and> out ts rv s rv'))"

lemma sim_None [simp]: "sim None m'"
  by (simp add: sim_def)

lemma sim_with_None [simp]: "sim_with None m'"
  by (simp add: sim_with_def)

lemma sim_Some [intro]: "rel ts s \<Longrightarrow> sim (Some (ts, rv)) (Some (s, rv))"
  by (simp add: sim_def out_def)

lemma sim_with_Some [intro]: "rel ts s \<Longrightarrow> sim_with (Some (ts, rv, x)) (Some (s, rv, x))"
  by (simp add: sim_with_def out_def)

lemma sim_stuff:
  assumes "rel ts s" and "length sp < 2 ^ 32"
  shows "sim (text_stuff bound ts sp) (stuff s sp)"
proof -
  obtain t where t: "ts = text_state t" "holds s t" using assms(1) by (auto simp: rel_def)
  show ?thesis
  proof (cases "length t + length sp < bound")
    case True
    then show ?thesis
      using stuff_holds [OF t(2) assms(2)] by (auto simp: sim_def out_def rel_def t(1))
  qed (simp add: t(1))
qed

lemma sim_seq:
  assumes "sim m m'" and "\<And>ts s. rel ts s \<Longrightarrow> sim (k ts) (k' s)"
  shows "sim (seq m k) (seq m' k')"
  unfolding sim_def
proof (intro allI impI)
  fix ts rv
  assume *: "seq m k = Some (ts, rv)"
  then obtain ts1 rv1 where 1: "m = Some (ts1, rv1)" by (cases m) (auto simp: seq_def)
  then obtain s1 rv1' where 2: "m' = Some (s1, rv1')" and o: "out ts1 rv1 s1 rv1'"
    using assms(1) by (auto simp: sim_def)
  consider "rv1' < 0" "failed s1" | "rv1' = rv1" "rel ts1 s1" "rv1 < 0" | "rv1' = rv1" "rel ts1 s1" "\<not> rv1 < 0"
    using o by (auto simp: out_def)
  then show "\<exists>s rv'. seq m' k' = Some (s, rv') \<and> out ts rv s rv'"
  proof cases
    case 3
    then show ?thesis using * 1 2 assms(2) [of ts1 s1] by (auto simp: seq_def sim_def)
  qed (use * 1 2 in \<open>auto simp: seq_def out_def\<close>)
qed

lemma sim_bind: "(\<And>x. m = Some x \<Longrightarrow> sim (k x) (k' x)) \<Longrightarrow> sim (Option.bind m k) (Option.bind m k')"
  by (cases m) simp_all

lemma sim_with_bind:
  "(\<And>x. m = Some x \<Longrightarrow> sim_with (k x) (k' x)) \<Longrightarrow> sim_with (Option.bind m k) (Option.bind m k')"
  by (cases m) simp_all

lemma sim_with_tag:
  "sim m m' \<Longrightarrow> sim_with (Option.bind m (\<lambda>(s, rv). Some (s, rv, x))) (Option.bind m' (\<lambda>(s, rv). Some (s, rv, x)))"
  by (cases m) (auto simp: sim_def sim_with_def)

subsection \<open>Filling and converting\<close>

lemma sim_stuff_times: "rel ts s \<Longrightarrow> sim (stuff_times (text_stuff bound) n c ts) (stuff_times stuff n c s)"
  by (induction n arbitrary: ts s) (auto intro!: sim_seq sim_stuff)

lemma sim_stuff_src:
  assumes "rel ts s"
  shows "sim (stuff_src (text_stuff bound) src n ts) (stuff_src stuff src n s)"
proof -
  have "length (take (unat (of_int n :: u32)) src) < 2 ^ 32" using unat_u32_less [of "of_int n"] by simp
  then show ?thesis using assms by (auto simp: stuff_src_def Let_def intro: sim_stuff)
qed

lemmas sim_parts = sim_seq sim_bind sim_stuff sim_stuff_times sim_stuff_src sim_Some

lemma sim_fill2: "rel ts s \<Longrightarrow> sim (fill2 (text_stuff bound) src n width flags ts) (fill2 stuff src n width flags s)"
  unfolding fill2_def by (intro sim_parts)

lemma sim_fill_n:
  "rel ts s \<Longrightarrow>
   sim (fill_n (text_stuff bound) src n width prec type flags ts) (fill_n stuff src n width prec type flags s)"
  unfolding fill_n_def Let_def by (intro sim_parts) (auto simp: sign_of_def intro!: sim_stuff)

lemma sim_cvt_l:
  "rel ts s \<Longrightarrow>
   sim (cvt_l (text_stuff bound) num width prec radix type flags hexp ts) (cvt_l stuff num width prec radix type flags hexp s)"
  unfolding cvt_l_def Let_def by (auto intro!: sim_bind sim_fill_n)

lemma sim_cvt_ll:
  "rel ts s \<Longrightarrow>
   sim (cvt_ll (text_stuff bound) num width prec radix type flags hexp ts) (cvt_ll stuff num width prec radix type flags hexp s)"
  unfolding cvt_ll_def Let_def by (auto intro!: sim_bind sim_fill_n)

lemma sim_cvt_f: "rel ts s \<Longrightarrow> sim (cvt_f (text_stuff bound) c_sprintf d fmt0 n ts) (cvt_f stuff c_sprintf d fmt0 n s)"
  unfolding cvt_f_def Let_def by (auto intro!: sim_bind sim_stuff)

lemma sim_cvt_s: "rel ts s \<Longrightarrow> sim (cvt_s (text_stuff bound) str width prec flags ts) (cvt_s stuff str width prec flags s)"
  unfolding cvt_s_def Let_def by (auto intro!: sim_bind sim_fill2)

lemma sim_stuff_char:
  "rel ts s \<Longrightarrow> sim (stuff_char (text_stuff bound) ch width flags ts) (stuff_char stuff ch width flags s)"
  unfolding stuff_char_def Let_def by (intro sim_parts) auto

subsection \<open>Directives and formats\<close>

lemma sim_fetch_and_convert:
  assumes "rel ts s"
  shows "sim_with (fetch_and_convert (text_stuff bound) nap ap width prec radix type flags hexp ts)
    (fetch_and_convert stuff nap ap width prec radix type flags hexp s)"
  unfolding fetch_and_convert_def split_def
  by (intro sim_with_bind sim_with_tag [unfolded split_def]) (simp add: sim_cvt_l sim_cvt_ll assms)

lemma sim_convert:
  assumes "rel ts s"
  shows "sim_with (convert (text_stuff bound) c_sprintf nap ap fmt0 dolPt fmt flags width prec type c ts)
    (convert stuff c_sprintf nap ap fmt0 dolPt fmt flags width prec type c s)"
proof -
  have o: "ss_off ts = None" using assms by (auto simp: rel_def)
  show ?thesis
    unfolding convert_def
    by (auto simp: Let_def o
      intro!: sim_with_bind sim_with_tag sim_fetch_and_convert sim_cvt_f sim_cvt_s sim_stuff_char sim_seq sim_stuff assms
      split: option.split)
qed

lemma sim_directive:
  assumes "rel ts s"
  shows "sim_with (directive (text_stuff bound) c_sprintf nas fmt0 c fmt ap ts)
    (directive stuff c_sprintf nas fmt0 c fmt ap s)"
proof -
  have tag: "sim_with (Option.bind m (\<lambda>p. Some (fst p, fst (snd p), x, snd (snd p)))) (Option.bind m' (\<lambda>p. Some (fst p, fst (snd p), x, snd (snd p))))"
    if "sim_with m m'" for m m' and x :: cells
    using that by (cases m) (auto simp: sim_with_def)
  have cond: "sim_with (if b then m1 else m2) (if b then m1' else m2')"
    if "b \<Longrightarrow> sim_with m1 m1'" "\<not> b \<Longrightarrow> sim_with m2 m2'" for b and m1 m2 :: "(cells SprintfState \<times> int \<times> cells \<times> arg list) option" and m1' m2'
    using that by simp
  show ?thesis
    unfolding directive_def split_def by (intro sim_with_bind cond tag sim_convert assms sim_with_Some)
qed

lemma sim_loop:
  assumes "dosprintf_loop (text_stuff bound) c_sprintf nas fmt ap ts = Some (ts', rv)" and "rel ts s"
  shows "\<exists>s' rv'. dosprintf_loop stuff c_sprintf nas fmt ap s = Some (s', rv') \<and> out ts' rv s' rv'"
proof -
  define tx :: "cells stuff" where "tx = text_stuff bound"
  have "\<lbrakk>dosprintf_loop tx c_sprintf nas fmt ap ts = Some r; tx = text_stuff bound; rel ts s\<rbrakk> \<Longrightarrow>
    \<exists>s' rv'. dosprintf_loop stuff c_sprintf nas fmt ap s = Some (s', rv') \<and> out (fst r) (snd r) s' rv'" for tx r
  proof (induction arbitrary: s rule: dosprintf_loop.raw_induct [rotated, consumes 1])
    case (1 loop tx c_sprintf nas fmt ap ts r)
    note IH = 1(1) and run = 1(2) and tx = 1(3) and rel = 1(4)
    have step: "sim (seq (text_stuff bound ts [x]) (loop tx c_sprintf nas f ap))
      (seq (stuff s [x]) (dosprintf_loop stuff c_sprintf nas f ap))" for x f
    proof (rule sim_seq)
      show "sim (text_stuff bound ts [x]) (stuff s [x])" using rel by (rule sim_stuff) simp
      show "sim (loop tx c_sprintf nas f ap ts) (dosprintf_loop stuff c_sprintf nas f ap s)" if "rel ts s" for ts s
        using IH [OF _ tx that] by (auto simp: sim_def)
    qed
    obtain c fmt1 where c: "getc fmt = Some (c, fmt1)" using run by (cases "getc fmt") auto
    show ?case
    proof (cases "c = 0 \<or> c \<noteq> 0x25")
      case True
      then show ?thesis
        using run sim_stuff [OF rel, of "[0]"] step [of c fmt1] unfolding dosprintf_loop.simps [of stuff _ _ fmt]
        by (cases r) (auto simp: c tx sim_def split: if_splits)
    next
      case False
      then obtain d fmt2 where d: "getc fmt1 = Some (d, fmt2)" using run c by (cases "getc fmt1") auto
      show ?thesis
      proof (cases "d = 0x25")
        case True
        then show ?thesis
          using run False step [of d fmt2] unfolding dosprintf_loop.simps [of stuff _ _ fmt]
          by (cases r) (auto simp: c d tx sim_def)
      next
        case nd: False
        then obtain ts1 rv1 fmt3 ap1 where 1: "directive tx c_sprintf nas fmt d fmt2 ap ts = Some (ts1, rv1, fmt3, ap1)"
          using run False c d by (cases "directive tx c_sprintf nas fmt d fmt2 ap ts") auto
        then obtain s1 rv1' where 2: "directive stuff c_sprintf nas fmt d fmt2 ap s = Some (s1, rv1', fmt3, ap1)"
          and o: "out ts1 rv1 s1 rv1'"
          using sim_directive [OF rel, of c_sprintf nas fmt d fmt2 ap] by (auto simp: sim_with_def tx)
        show ?thesis
        proof (cases "rv1' < 0")
          case True
          then show ?thesis
            using run False nd o 1 2 unfolding dosprintf_loop.simps [of stuff _ _ fmt]
            by (cases r) (auto simp: c d out_def)
        next
          case nn: False
          then have *: "rv1' = rv1" "rel ts1 s1" using o by (auto simp: out_def)
          then show ?thesis
            using run False nd nn 1 2 IH [OF _ tx *(2)] unfolding dosprintf_loop.simps [of stuff _ _ fmt]
            by (cases r) (auto simp: c d)
        qed
      qed
    qed
  qed
  from this [OF assms(1) refl assms(2)] show ?thesis by simp
qed

theorem simulation:
  assumes "printf_text bound c_sprintf nas_ok fmt ap = Some (t, rv)" and "holds s []"
  obtains s' rv' where "dosprintf stuff c_sprintf nas_ok fmt ap s = Some (s', rv')"
    and "rv' < 0 \<and> failed s' \<or> rv' = rv \<and> holds s' t"
proof -
  have rel: "rel (text_state []) s" using assms(2) by (auto simp: rel_def)
  obtain ts where ts: "dosprintf (text_stuff bound) c_sprintf nas_ok fmt ap (text_state []) = Some (ts, rv)" "ss_arg ts = t"
    using assms(1) by (auto simp: printf_text_def)
  obtain rv0 nas where b: "BuildArgArray nas_ok fmt ap = Some (rv0, nas)"
    using ts(1) by (cases "BuildArgArray nas_ok fmt ap") (auto simp: dosprintf_def)
  have "\<exists>s' rv'. dosprintf stuff c_sprintf nas_ok fmt ap s = Some (s', rv') \<and> out ts rv s' rv'"
  proof (cases "rv0 < 0")
    case True
    then show ?thesis using ts b rel by (auto simp: dosprintf_def out_def)
  next
    case False
    then show ?thesis using ts b sim_loop [OF _ rel] by (simp add: dosprintf_def)
  qed
  then show ?thesis using that ts(2) by (auto simp: out_def rel_def)
qed

end

end
