(* ===== verification/Pr_Printf_Format.thy ===== *)
theory Pr_Printf_Format
  imports Pr_Printf_Text
begin

text \<open>
  A reference for the formats without numbered arguments: a format is put together from pieces (characters, \<open>%%\<close> and
  directives with flags, width, precision, size and a conversion), and the text of a piece is said without reference to the
  way \<open>dosprintf\<close> makes it. The text of a format is then that of its pieces.
\<close>

subsection \<open>Digits\<close>

fun digits :: "nat \<Rightarrow> nat \<Rightarrow> nat list" where
  "digits b n = (if n < b \<or> b < 2 then [n] else digits b (n div b) @ [n mod b])"

declare digits.simps [simp del]

definition show_nat :: "cells \<Rightarrow> nat \<Rightarrow> nat \<Rightarrow> cells" where
  "show_nat hexp b n = map (\<lambda>d. hexp ! d) (digits b n)"

lemma digits_less: "2 \<le> b \<Longrightarrow> d \<in> set (digits b n) \<Longrightarrow> d < b"
proof (induction b n rule: digits.induct)
  case (1 b n)
  then show ?case by (auto simp: digits.simps [of b n] split: if_splits)
qed

lemma digits_value: "2 \<le> b \<Longrightarrow> foldl (\<lambda>a d. a * b + d) 0 (digits b n) = n"
  by (induction b n rule: digits.induct) (subst digits.simps, auto)

lemma digits_Nil [simp]: "digits b n \<noteq> []"
  by (subst digits.simps) simp

lemma digits_hd: "2 \<le> b \<Longrightarrow> 0 < n \<Longrightarrow> 0 < hd (digits b n)"
  by (induction b n rule: digits.induct) (subst digits.simps, auto simp: div_greater_zero_iff)

lemma digits_length: "2 \<le> b \<Longrightarrow> n < 2 ^ Suc k \<Longrightarrow> length (digits b n) \<le> Suc k"
proof (induction k arbitrary: n)
  case (Suc k)
  have "n div b \<le> n div 2" using Suc.prems(1) by (intro div_le_mono2) simp_all
  then have "n div b < 2 ^ Suc k" using Suc.prems(2) by simp
  then show ?case using Suc.IH [of "n div b"] Suc.prems by (subst digits.simps) simp
qed (subst digits.simps, simp)

lemma cvt_digits_show:
  assumes "2 \<le> unat radix" and "unat radix \<le> 16" and "length hexp = 16"
  shows "unat num < 2 ^ room \<Longrightarrow>
    cvt_digits room num radix hexp cvt = Some ((if num = 0 then [] else show_nat hexp (unat radix) (unat num)) @ cvt)"
proof (induction room arbitrary: num cvt)
  case (Suc room)
  have "unat num div unat radix \<le> unat num div 2" using assms(1) by (intro div_le_mono2) simp_all
  then have less: "unat (num div radix) < 2 ^ room" using Suc.prems by (simp add: unat_div)
  have m: "unat (num mod radix) < unat radix" using assms(1) by (simp add: unat_mod)
  have "(0xF :: u64) = mask 4" by (simp add: mask_eq_exp_minus_1)
  then have "unat (num mod radix AND 0xF) = unat (num mod radix)"
    using m assms(2) unat_and_mask [of "num mod radix" 4] by simp
  then have rd: "rd hexp (unat (num mod radix AND 0xF)) = Some (hexp ! (unat num mod unat radix))"
    using m assms(2,3) by (simp add: rd_def unat_mod)
  show ?case
  proof (cases "num = 0")
    case False
    have z: "num div radix = 0 \<longleftrightarrow> unat num < unat radix"
      using assms(1) by (simp add: div_eq_0_iff unat_div flip: unat_eq_zero)
    show ?thesis
      using False rd Suc.IH [OF less, of "hexp ! (unat num mod unat radix) # cvt"] z assms(1)
      by (simp add: show_nat_def unat_div digits.simps [of "unat radix" "unat num"])
  qed simp
qed (simp add: unat_eq_zero)

subsection \<open>Pieces\<close>

datatype size_mod = No_Size | Size_h | Size_l | Size_ll | Size_L

fun size_fmt :: "size_mod \<Rightarrow> cells" where
  "size_fmt No_Size = []"
| "size_fmt Size_h = [0x68]"
| "size_fmt Size_l = [0x6C]"
| "size_fmt Size_ll = [0x6C, 0x6C]"
| "size_fmt Size_L = [0x4C]"

fun size_type :: "size_mod \<Rightarrow> printf_type" where
  "size_type No_Size = TYPE_INTN"
| "size_type Size_h = TYPE_INT16"
| "size_type Size_l = TYPE_INT32"
| "size_type _ = TYPE_INT64"

text \<open>The conversions, with the argument they print.\<close>

datatype conversion =
    Conv_d arg | Conv_i arg | Conv_o arg | Conv_u arg | Conv_x arg | Conv_X arg | Conv_p arg
  | Conv_c u32 | Conv_s cptr

fun conv_fmt :: "conversion \<Rightarrow> u8" where
  "conv_fmt (Conv_d _) = 0x64"
| "conv_fmt (Conv_i _) = 0x69"
| "conv_fmt (Conv_o _) = 0x6F"
| "conv_fmt (Conv_u _) = 0x75"
| "conv_fmt (Conv_x _) = 0x78"
| "conv_fmt (Conv_X _) = 0x58"
| "conv_fmt (Conv_p _) = 0x70"
| "conv_fmt (Conv_c _) = 0x63"
| "conv_fmt (Conv_s _) = 0x73"

fun conv_arg :: "conversion \<Rightarrow> arg" where
  "conv_arg (Conv_d a) = a"
| "conv_arg (Conv_i a) = a"
| "conv_arg (Conv_o a) = a"
| "conv_arg (Conv_u a) = a"
| "conv_arg (Conv_x a) = a"
| "conv_arg (Conv_X a) = a"
| "conv_arg (Conv_p a) = a"
| "conv_arg (Conv_c x) = Arg32 x"
| "conv_arg (Conv_s s) = ArgString s"

text \<open>A directive: its flag characters, width (0 for none), precision, size and conversion.\<close>

datatype piece = Plain u8 | Percent | Directive cells nat "nat option" size_mod conversion

definition flag_chars :: cells where
  "flag_chars = [0x2D, 0x2B, 0x20, 0x30]"

fun prec_fmt :: "nat option \<Rightarrow> cells" where
  "prec_fmt None = []"
| "prec_fmt (Some p) = 0x2E # show_nat hex 10 p"

definition width_fmt :: "nat \<Rightarrow> cells" where
  "width_fmt w = (if w = 0 then [] else show_nat hex 10 w)"

fun piece_fmt :: "piece \<Rightarrow> cells" where
  "piece_fmt (Plain c) = [c]"
| "piece_fmt Percent = [0x25, 0x25]"
| "piece_fmt (Directive fs w p sz cv) = 0x25 # fs @ width_fmt w @ prec_fmt p @ size_fmt sz @ [conv_fmt cv]"

fun piece_args :: "piece \<Rightarrow> arg list" where
  "piece_args (Directive _ _ _ _ cv) = [conv_arg cv]"
| "piece_args _ = []"

subsection \<open>The text of a piece\<close>

definition pad :: "bool \<Rightarrow> u8 \<Rightarrow> nat \<Rightarrow> cells \<Rightarrow> cells" where
  "pad left fill width body =
     (if left then body @ replicate (width - length body) 0x20 else replicate (width - length body) fill @ body)"

text \<open>\<open>+\<close> makes a space void, and \<open>-\<close> a \<open>0\<close>.\<close>

definition flags_of :: "cells \<Rightarrow> Flags" where
  "flags_of fs = \<lparr>LEFT = 0x2D \<in> set fs, SIGNED = 0x2B \<in> set fs, SPACED = 0x20 \<in> set fs \<and> 0x2B \<notin> set fs,
     ZEROS = 0x30 \<in> set fs \<and> 0x2D \<notin> set fs, NEG = False\<rparr>"

text \<open>The number printed for an argument at a type.\<close>

definition shown :: "printf_type \<Rightarrow> arg \<Rightarrow> int option" where
  "shown type a = (case a of
     Arg32 x \<Rightarrow> if type \<in> {TYPE_INT16, TYPE_INTN, TYPE_INT32} then Some (sint x)
       else if type = TYPE_UINT16 then Some (uint x mod 65536)
       else if type \<in> {TYPE_UINTN, TYPE_UINT32} then Some (uint x) else None
   | Arg64 x \<Rightarrow> if type = TYPE_INT64 then Some (sint x) else if type = TYPE_UINT64 then Some (uint x) else None
   | _ \<Rightarrow> None)"

definition sign_text :: "printf_type \<Rightarrow> Flags \<Rightarrow> int \<Rightarrow> cells" where
  "sign_text type fl v =
     (if \<not> signed_type type then [] else if v < 0 then [0x2D] else if SIGNED fl then [0x2B]
      else if SPACED fl then [0x20] else [])"

definition int_text :: "Flags \<Rightarrow> nat \<Rightarrow> nat option \<Rightarrow> cells \<Rightarrow> cells \<Rightarrow> cells" where
  "int_text fl width prec sign ds =
     (let zeros = (case prec of Some p \<Rightarrow> p - length ds
                   | None \<Rightarrow> if ZEROS fl then width - (length sign + length ds) else 0)
      in pad (LEFT fl) 0x20 width (sign @ replicate zeros 0x30 @ ds))"

definition number_text :: "cells \<Rightarrow> nat \<Rightarrow> nat option \<Rightarrow> nat \<Rightarrow> cells \<Rightarrow> printf_type \<Rightarrow> arg \<Rightarrow> cells" where
  "number_text fs width prec b hexp type a =
     (let v = the (shown type a) in
      if prec = Some 0 \<and> v = 0 then []
      else int_text (flags_of fs) width prec (sign_text type (flags_of fs) v) (show_nat hexp b (nat \<bar>v\<bar>)))"

text \<open>The characters of a string up to its terminator, or as many as the precision allows.\<close>

definition string_text :: "cptr \<Rightarrow> nat option \<Rightarrow> cells" where
  "string_text str prec =
     (let s = (case str of None \<Rightarrow> [0x28, 0x6E, 0x75, 0x6C, 0x6C, 0x29] | Some x \<Rightarrow> takeWhile (\<lambda>c. c \<noteq> 0) x)
      in case prec of None \<Rightarrow> s | Some p \<Rightarrow> take p s)"

fun piece_text :: "piece \<Rightarrow> cells" where
  "piece_text (Plain c) = [c]"
| "piece_text Percent = [0x25]"
| "piece_text (Directive fs w p sz cv) = (case cv of
     Conv_d a \<Rightarrow> number_text fs w p 10 hex (size_type sz) a
   | Conv_i a \<Rightarrow> number_text fs w p 10 hex (size_type sz) a
   | Conv_o a \<Rightarrow> number_text fs w p 8 hex (unsigned_of (size_type sz)) a
   | Conv_u a \<Rightarrow> number_text fs w p 10 hex (unsigned_of (size_type sz)) a
   | Conv_x a \<Rightarrow> number_text fs w p 16 hex (unsigned_of (size_type sz)) a
   | Conv_X a \<Rightarrow> number_text fs w p 16 HEX (unsigned_of (size_type sz)) a
   | Conv_p a \<Rightarrow> number_text fs w p 16 hex TYPE_UINT64 a
   | Conv_c x \<Rightarrow> pad (LEFT (flags_of fs)) 0x20 w [ucast x]
   | Conv_s s \<Rightarrow> if p = Some 0 then []
       else pad (LEFT (flags_of fs)) (if ZEROS (flags_of fs) then 0x30 else 0x20) w (string_text s p))"

text \<open>What a piece must be for its text: the argument is of the type of the directive, the smallest 64-bit integer is not
  printed, a string ends or is long enough, and width and precision are an \<open>int\<close> (with a sign before the zeros).\<close>

definition ok_number :: "printf_type \<Rightarrow> arg \<Rightarrow> bool" where
  "ok_number type a = (case shown type a of None \<Rightarrow> False | Some v \<Rightarrow> v \<noteq> - (2 ^ 63))"

fun ok_conv :: "printf_type \<Rightarrow> nat option \<Rightarrow> conversion \<Rightarrow> bool" where
  "ok_conv type p (Conv_d a) = ok_number type a"
| "ok_conv type p (Conv_i a) = ok_number type a"
| "ok_conv type p (Conv_o a) = ok_number (unsigned_of type) a"
| "ok_conv type p (Conv_u a) = ok_number (unsigned_of type) a"
| "ok_conv type p (Conv_x a) = ok_number (unsigned_of type) a"
| "ok_conv type p (Conv_X a) = ok_number (unsigned_of type) a"
| "ok_conv type p (Conv_p a) = ok_number TYPE_UINT64 a"
| "ok_conv type p (Conv_c _) = True"
| "ok_conv type p (Conv_s s) = (case s of None \<Rightarrow> True
     | Some x \<Rightarrow> (0 \<in> set x \<or> (case p of None \<Rightarrow> False | Some k \<Rightarrow> k \<le> length x)) \<and> length (string_text s p) < 2 ^ 31)"

fun ok_piece :: "piece \<Rightarrow> bool" where
  "ok_piece (Plain c) = (c \<noteq> 0 \<and> c \<noteq> 0x25)"
| "ok_piece Percent = True"
| "ok_piece (Directive fs w p sz cv) =
     (set fs \<subseteq> set flag_chars \<and> w < 2 ^ 31 \<and> (case p of None \<Rightarrow> True | Some k \<Rightarrow> k < 2 ^ 31 - 1) \<and>
      ok_conv (size_type sz) p cv)"

subsection \<open>The collecting run\<close>

lemma stuff_times_text:
  "length t + n < bound \<Longrightarrow>
   stuff_times (text_stuff bound) n c (text_state t) = Some (text_state (t @ replicate n c), 0)"
proof (induction n arbitrary: t)
  case (Suc n)
  then show ?case using Suc.IH [of "t @ [c]"] by simp
qed simp

lemma stuff_src_text:
  assumes "length src' < 2 ^ 31" and "n = int (length src')" and "length t + length src' < bound"
    and "length src' \<le> length src" and "take (length src') src = src'"
  shows "stuff_src (text_stuff bound) src n (text_state t) = Some (text_state (t @ src'), 0)"
proof -
  have "unat (of_int n :: u32) = length src'" using assms(1,2) by (simp add: unat_of_nat_u32)
  then show ?thesis using assms by (simp add: stuff_src_def)
qed

lemma pad_length: "length (pad left fill w body) = max w (length body)"
  by (auto simp: pad_def)

lemma fill2_text:
  assumes "length body < 2 ^ 31" and "w < 2 ^ 31" and "length t + max w (length body) < bound"
    and "length body \<le> length src" and "take (length body) src = body" and "LEFT fl \<Longrightarrow> \<not> ZEROS fl"
  shows "fill2 (text_stuff bound) src (int (length body)) (int w) fl (text_state t) =
    Some (text_state (t @ pad (LEFT fl) (if ZEROS fl then 0x30 else 0x20) w body), 0)"
proof -
  have i: "i32 (int w - int (length body)) = Some (int w - int (length body))" using assms(1,2) by (simp add: i32_in)
  have n: "nat (int w - int (length body)) = w - length body" by simp
  show ?thesis
    using assms by (simp add: fill2_def i n stuff_times_text stuff_src_text [OF assms(1) refl _ assms(4,5)] pad_def)
qed

lemma fill_n_text:
  assumes "length ds \<le> 64" and "w < 2 ^ 31" and "case p of None \<Rightarrow> True | Some k \<Rightarrow> k < 2 ^ 31 - 1"
    and "length t + length (int_text fl w p (sign_of type fl) ds) < bound" and "LEFT fl \<Longrightarrow> \<not> ZEROS fl"
  shows "fill_n (text_stuff bound) ds (int (length ds)) (int w) (case p of None \<Rightarrow> - 1 | Some k \<Rightarrow> int k) type fl (text_state t) =
    Some (text_state (t @ int_text fl w p (sign_of type fl) ds), 0)"
proof -
  define sign where "sign = sign_of type fl"
  define pw where "pw = (case p of None \<Rightarrow> 0 | Some k \<Rightarrow> k - length ds)"
  define zw where "zw = (if ZEROS fl \<and> p = None then w - (length sign + length ds) else 0)"
  define spaces where "spaces = w - (length sign + length ds + pw + zw)"
  have sign: "length sign \<le> 1" by (simp add: sign_def sign_of_def)
  have it: "int_text fl w p sign ds =
      (if LEFT fl then [] else replicate spaces 0x20) @ sign @ replicate pw 0x30 @ replicate zw 0x30 @ ds @
      (if LEFT fl then replicate spaces 0x20 else [])"
    by (cases p) (auto simp: int_text_def pad_def pw_def zw_def spaces_def add.assoc Let_def)
  have len: "length t + (spaces + length sign + pw + zw + length ds) < bound"
    using assms(4) unfolding sign_def [symmetric] it by (simp split: if_splits)
  have pw': "(if (case p of None \<Rightarrow> - 1 | Some k \<Rightarrow> int k) > 0 \<and> (case p of None \<Rightarrow> - 1 | Some k \<Rightarrow> int k) > int (length ds)
      then (case p of None \<Rightarrow> - 1 | Some k \<Rightarrow> int k) - int (length ds) else 0) = int pw"
    by (auto simp: pw_def split: option.splits)
  have c1: "i32 (int (length sign) + int (length ds)) = Some (int (length sign + length ds))"
    using sign assms(1) by (simp add: i32_in)
  have "pw < 2 ^ 31 - 1 \<and> (pw = 0 \<or> length ds + pw < 2 ^ 31 - 1)"
    using assms(3) by (auto simp: pw_def split: option.splits)
  then have c2: "i32 (int (length sign + length ds) + int pw) = Some (int (length sign + length ds + pw))"
    using sign assms(1) by (auto simp: i32_in)
  have zw': "(if ZEROS fl \<and> (case p of None \<Rightarrow> - 1 | Some k \<Rightarrow> int k) < 0 \<and> int w > int (length sign + length ds + pw)
      then int w - int (length sign + length ds + pw) else 0) = int zw"
    by (auto simp: zw_def pw_def split: option.splits)
  have sp: "(if int w > int (length sign + length ds + pw) + int zw
      then int w - (int (length sign + length ds + pw) + int zw) else 0) = int spaces"
    by (auto simp: spaces_def)
  have n: "nat (if LEFT fl then 0 else int spaces) = (if LEFT fl then 0 else spaces)"
    "nat (if LEFT fl then int spaces else 0) = (if LEFT fl then spaces else 0)" by simp_all
  have ss: "(if sign = [] then Some (s, 0) else text_stuff bound s sign) = Some (text_state (t' @ sign), 0)"
    if "s = text_state t'" "length t' + length sign < bound" for s t' using that by simp
  show ?thesis
    unfolding fill_n_def sign_def [symmetric] Let_def c1 bind.bind_lunit pw' c2 zw' sp n nat_int it
    using len assms(1) by (simp add: stuff_times_text ss stuff_src_text [OF _ refl])
qed

lemma show_nat_length: "2 \<le> b \<Longrightarrow> n < 2 ^ 64 \<Longrightarrow> length (show_nat hexp b n) \<le> 64"
  using digits_length [of b n 63] by (simp add: show_nat_def)

text \<open>Both integer conversions, on the number \<open>u\<close>.\<close>

lemma cvt_text:
  fixes u :: u64 and type :: printf_type
  assumes "unat radix \<in> {8, 10, 16}" and "length hexp = 16" and "hexp ! 0 = 0x30"
    and "w < 2 ^ 31" and "case p of None \<Rightarrow> True | Some k \<Rightarrow> k < 2 ^ 31 - 1" and "LEFT fl \<Longrightarrow> \<not> ZEROS fl"
  defines "body \<equiv> (if p = Some 0 \<and> u = 0 then []
      else int_text fl w p (sign_of type fl) (show_nat hexp (unat radix) (unat u)))"
  assumes "length t + length body < bound"
  shows "cvt_l (text_stuff bound) u (int w) (case p of None \<Rightarrow> - 1 | Some k \<Rightarrow> int k) radix type fl hexp (text_state t) =
      Some (text_state (t @ body), 0)" (is ?l)
    and "cvt_ll (text_stuff bound) u (int w) (case p of None \<Rightarrow> - 1 | Some k \<Rightarrow> int k) radix type fl hexp (text_state t) =
      Some (text_state (t @ body), 0)" (is ?ll)
proof -
  have u: "unat u < 2 ^ 64" using unsigned_less [of u] by simp
  then have "unat u < 2 ^ 100" by simp
  then have d: "cvt_digits 100 u radix hexp [] = Some (if u = 0 then [] else show_nat hexp (unat radix) (unat u))"
    using assms(1) by (subst cvt_digits_show [OF _ _ assms(2)]) auto
  define ds where "ds = show_nat hexp (unat radix) (unat u)"
  have ds: "(if (if u = 0 then [] else ds) = [] then [0x30] else (if u = 0 then [] else ds)) = ds"
    using assms(1,3) by (auto simp: ds_def show_nat_def digits.simps [of _ 0])
  have l: "length ds \<le> 64" unfolding ds_def using assms(1) u by (intro show_nat_length) auto
  have p0: "(case p of None \<Rightarrow> - 1 | Some k \<Rightarrow> int k) = 0 \<longleftrightarrow> p = Some 0" by (cases p) auto
  have f: "fill_n (text_stuff bound) ds (int (length ds)) (int w) (case p of None \<Rightarrow> - 1 | Some k \<Rightarrow> int k) type fl (text_state t)
    = Some (text_state (t @ body), 0)" if "\<not> (p = Some 0 \<and> u = 0)"
  proof -
    have b: "body = int_text fl w p (sign_of type fl) ds" using that by (auto simp: body_def ds_def)
    then have "length t + length (int_text fl w p (sign_of type fl) ds) < bound" using assms(8) by simp
    then show ?thesis unfolding b by (rule fill_n_text [OF l assms(4,5) _ assms(6)])
  qed
  have "?l \<and> ?ll"
  proof (cases "p = Some 0 \<and> u = 0")
    case True
    then show ?thesis by (simp add: cvt_l_def cvt_ll_def body_def)
  next
    case False
    then show ?thesis
      unfolding cvt_l_def cvt_ll_def Let_def d bind.bind_lunit ds_def [symmetric] ds p0 if_not_P [OF False]
      using f [OF False] by simp
  qed
  then show ?l ?ll by blast+
qed

lemma sint_u32_bounds: "- (2 ^ 31) \<le> sint (x :: u32)" "sint (x :: u32) < 2 ^ 31"
  using sint_ge [of x] sint_lt [of x] by simp_all

lemma sint_u64_bounds: "- (2 ^ 63) \<le> sint (x :: u64)" "sint (x :: u64) < 2 ^ 63"
  using sint_ge [of x] sint_lt [of x] by simp_all

lemma uint_mod_sint: "uint (x :: u64) = sint x mod 2 ^ 64"
  by (simp add: uint_sint take_bit_eq_mod)

lemma sint_scast_32_64: "sint (scast (x :: u32) :: u64) = sint x"
proof -
  have "sint (word_of_int (sint x) :: u64) = signed_take_bit 63 (sint x)" unfolding sint_sbintrunc' by simp
  also have "\<dots> = sint x" using sint_u32_bounds [of x] by (intro signed_take_bit_int_eq_self) simp_all
  finally show ?thesis unfolding scast_eq .
qed

lemma magnitude_sint:
  assumes "sint x \<noteq> - (2 ^ 63)" and "\<not> NEG fl"
  shows "\<exists>u. magnitude x fl = Some (u, fl\<lparr>NEG := sint x < 0\<rparr>) \<and> unat u = nat \<bar>sint x\<bar>"
proof (cases "sint x < 0")
  case True
  have m: "x \<noteq> 0x8000000000000000" using assms(1) by auto
  have "- x = word_of_int (- sint x)" by simp
  then have "uint (- x) = take_bit 64 (- sint x)" by (simp only: uint_word_of_int_eq) simp
  also have "\<dots> = - sint x" using True sint_u64_bounds [of x] assms(1) by (simp add: take_bit_eq_mod)
  finally have "unat (- x) = nat \<bar>sint x\<bar>" using True by (simp only: unat_eq_nat_uint abs_of_neg)
  moreover have "magnitude x fl = Some (- x, fl\<lparr>NEG := sint x < 0\<rparr>)" using True m by (simp add: magnitude_def word_sless_alt)
  ultimately show ?thesis by blast
next
  case False
  have "uint x = sint x" using False uint_mod_sint [of x] sint_u64_bounds [of x] by simp
  then have "unat x = nat \<bar>sint x\<bar>" using False by (simp only: unat_eq_nat_uint abs_of_nonneg linorder_not_less)
  moreover have "fl\<lparr>NEG := False\<rparr> = fl" using assms(2) by (cases fl) simp
  ultimately show ?thesis using False by (auto simp: magnitude_def word_sless_alt)
qed

lemma load_int_shown:
  assumes "ok_number type a" and "\<not> NEG fl"
  shows "\<exists>u. load_int type a fl = Some (u, fl\<lparr>NEG := the (shown type a) < 0\<rparr>) \<and> unat u = nat \<bar>the (shown type a)\<bar>"
proof -
  have n: "fl\<lparr>NEG := False\<rparr> = fl" using assms(2) by (cases fl) simp
  show ?thesis
  proof (cases a)
    case (Arg32 x)
    consider "type \<in> {TYPE_INT16, TYPE_INTN, TYPE_INT32}" | "type = TYPE_UINT16" | "type \<in> {TYPE_UINTN, TYPE_UINT32}"
      using assms(1) by (auto simp: Arg32 ok_number_def shown_def split: if_splits)
    then show ?thesis
    proof cases
      case 1
      have "sint (scast x :: u64) \<noteq> - (2 ^ 63)" using sint_u32_bounds [of x] by (simp add: sint_scast_32_64)
      from magnitude_sint [OF this assms(2)] 1 show ?thesis
        by (simp add: Arg32 shown_def load_int_def sint_scast_32_64)
    next
      case 2
      have "unat (ucast (x AND 0xFFFF) :: u64) = unat (x AND 0xFFFF)"
        using unat_u32_less [of "x AND 0xFFFF"] by (simp add: unsigned_ucast_eq take_bit_nat_eq_self)
      also have "\<dots> = unat x mod 65536" using unat_and_mask [of x 16] by (simp add: mask_eq_exp_minus_1)
      finally have "unat (ucast (x AND 0xFFFF) :: u64) = unat x mod 65536" .
      moreover have "\<not> uint x mod 65536 < 0" using pos_mod_sign [of 65536 "uint x"] by linarith
      ultimately show ?thesis using n 2 by (simp add: Arg32 shown_def load_int_def nat_mod_distrib)
    next
      case 3
      have "unat (ucast x :: u64) = unat x"
        using unat_u32_less [of x] by (simp add: unsigned_ucast_eq take_bit_nat_eq_self)
      with n 3 show ?thesis by (auto simp add: Arg32 shown_def load_int_def)
    qed
  next
    case (Arg64 x)
    then consider "type = TYPE_INT64" "sint x \<noteq> - (2 ^ 63)" | "type = TYPE_UINT64"
      using assms(1) by (auto simp: ok_number_def shown_def split: if_splits)
    then show ?thesis
    proof cases
      case 1
      from magnitude_sint [OF 1(2) assms(2)] 1(1) show ?thesis by (simp add: Arg64 shown_def load_int_def)
    next
      case 2
      with n show ?thesis by (simp add: Arg64 shown_def load_int_def)
    qed
  qed (use assms in \<open>auto simp: ok_number_def shown_def\<close>)
qed

end
