(* ===== verification/Pr_Printf_Pieces.thy ===== *)
theory Pr_Printf_Pieces
  imports Pr_Printf_Format
begin

text \<open>
  \<open>dosprintf\<close> prints a format made of pieces as the pieces say: first the conversions on the collecting routine, then the
  scanning of a directive, then the loop.
\<close>

subsection \<open>Conversions\<close>

lemma sign_of_neg: "sign_of type (fl\<lparr>NEG := v < 0\<rparr>) = sign_text type fl v"
  by (simp add: sign_of_def sign_text_def)

lemma int_text_neg [simp]: "int_text (fl\<lparr>NEG := b\<rparr>) w p sign ds = int_text fl w p sign ds"
  by (simp add: int_text_def)

lemma flags_of_simps [simp]: "\<not> NEG (flags_of fs)" "LEFT (flags_of fs) \<Longrightarrow> \<not> ZEROS (flags_of fs)"
  by (simp_all add: flags_of_def)

lemma convert_number:
  assumes "ok_number type a" and "unat radix \<in> {8, 10, 16}" and "hexp \<in> {hex, HEX}"
    and "w < 2 ^ 31" and "case p of None \<Rightarrow> True | Some k \<Rightarrow> k < 2 ^ 31 - 1"
    and "length t + length (number_text fs w p (unat radix) hexp type a) < bound"
  shows "fetch_and_convert (text_stuff bound) None (a # ap) (int w) (case p of None \<Rightarrow> - 1 | Some k \<Rightarrow> int k) radix type
      (flags_of fs) hexp (text_state t) =
    Some (text_state (t @ number_text fs w p (unat radix) hexp type a), 0, ap)"
proof -
  define v where "v = the (shown type a)"
  obtain u where u: "load_int type a (flags_of fs) = Some (u, (flags_of fs)\<lparr>NEG := v < 0\<rparr>)" "unat u = nat \<bar>v\<bar>"
    using load_int_shown [OF assms(1), of "flags_of fs"] by (auto simp: v_def)
  have z: "u = 0 \<longleftrightarrow> v = 0" using u(2) by (auto simp flip: unat_eq_zero)
  have h: "length hexp = 16" "hexp ! 0 = 0x30" using assms(3) by (auto simp: hex_def HEX_def)
  have body: "(if p = Some 0 \<and> u = 0 then []
      else int_text ((flags_of fs)\<lparr>NEG := v < 0\<rparr>) w p (sign_of type ((flags_of fs)\<lparr>NEG := v < 0\<rparr>)) (show_nat hexp (unat radix) (unat u)))
    = number_text fs w p (unat radix) hexp type a"
    by (simp add: number_text_def Let_def u(2) z sign_of_neg flip: v_def)
  have lz: "LEFT ((flags_of fs)\<lparr>NEG := v < 0\<rparr>) \<Longrightarrow> \<not> ZEROS ((flags_of fs)\<lparr>NEG := v < 0\<rparr>)" by simp
  note cvt = cvt_text [OF assms(2) h assms(4,5), where u = u and type = type and fl = "(flags_of fs)\<lparr>NEG := v < 0\<rparr>", unfolded body, OF lz assms(6)]
  show ?thesis unfolding fetch_and_convert_def by (simp add: fetch_def u(1) split del: if_split) (simp only: cvt if_cancel, simp)
qed

lemma strnlen_text:
  "0 \<in> set s \<or> k \<le> length s \<Longrightarrow> strnlen_loop s k = Some (length (take k (takeWhile (\<lambda>c. c \<noteq> 0) s)))"
proof (induction s arbitrary: k)
  case Nil
  then show ?case by simp
next
  case (Cons c s)
  then show ?case by (cases k) auto
qed

lemma strlen_text: "0 \<in> set s \<Longrightarrow> c_strlen s = Some (length (takeWhile (\<lambda>c. c \<noteq> 0) s))"
  by (induction s) auto

lemma take_prefix_length:
  assumes "take (length xs) ys = xs"
  shows "take (length (take k xs)) ys = take k xs"
proof -
  have "take k xs = take k (take (length xs) ys)" using assms by simp
  also have "\<dots> = take (min k (length xs)) ys" by (simp only: take_take)
  finally have e: "take k xs = take (min k (length xs)) ys" .
  show ?thesis unfolding length_take e [symmetric] by (simp only: e min.commute)
qed

lemma convert_string:
  fixes fs :: cells and str :: cptr
  assumes "ok_conv type p (Conv_s str)" and "w < 2 ^ 31" and "case p of None \<Rightarrow> True | Some k \<Rightarrow> k < 2 ^ 31 - 1"
  defines "body \<equiv> (if p = Some 0 then []
    else pad (LEFT (flags_of fs)) (if ZEROS (flags_of fs) then 0x30 else 0x20) w (string_text str p))"
  assumes "length t + length body < bound"
  shows "cvt_s (text_stuff bound) str (int w) (case p of None \<Rightarrow> - 1 | Some k \<Rightarrow> int k) (flags_of fs) (text_state t) =
    Some (text_state (t @ body), 0)"
proof (cases "p = Some 0")
  case True
  then show ?thesis by (simp add: cvt_s_def body_def)
next
  case False
  define src where "src = (case str of None \<Rightarrow> [0x28, 0x6E, 0x75, 0x6C, 0x6C, 0x29, 0] | Some x \<Rightarrow> x)"
  have st: "string_text str p = (case p of None \<Rightarrow> id | Some k \<Rightarrow> take k) (takeWhile (\<lambda>c. c \<noteq> 0) src)"
    by (auto simp: string_text_def src_def Let_def split: option.splits)
  have l: "length (string_text str p) < 2 ^ 31"
    using assms(1) by (cases str) (auto simp: string_text_def Let_def split: option.splits)
  have run: "(if (case p of None \<Rightarrow> - 1 | Some k \<Rightarrow> int k) > 0
      then strnlen_loop src (nat (case p of None \<Rightarrow> - 1 | Some k \<Rightarrow> int k)) else c_strlen src) = Some (length (string_text str p))"
  proof (cases p)
    case None
    then have "0 \<in> set src" using assms(1) by (auto simp: src_def split: option.splits)
    then show ?thesis unfolding st using None by (simp add: strlen_text)
  next
    case (Some k)
    then have "0 \<in> set src \<or> k \<le> length src" using assms(1) by (auto simp: src_def split: option.splits)
    then show ?thesis unfolding st using Some False by (auto simp: strnlen_text)
  qed
  have s: "sint (of_nat (length (string_text str p)) :: u32) = int (length (string_text str p))"
    using l by (simp add: signed_of_nat signed_take_bit_int_eq_self)
  have take: "take (length (string_text str p)) src = string_text str p"
  proof -
    have "take (length (takeWhile (\<lambda>c. c \<noteq> 0) src)) src = takeWhile (\<lambda>c. c \<noteq> 0) src"
      by (metis takeWhile_eq_take)
    then show ?thesis unfolding st by (cases p) (simp_all add: take_prefix_length del: length_take)
  qed
  then have le: "length (string_text str p) \<le> length src" by (metis length_take min.cobounded1)
  have p0: "(case p of None \<Rightarrow> - 1 | Some k \<Rightarrow> int k) \<noteq> 0" using False by (cases p) auto
  show ?thesis
    using fill2_text [OF l assms(2) _ le take, where fl = "flags_of fs" and t = t and bound = bound] assms(5) False
    unfolding cvt_s_def Let_def src_def [symmetric] run if_not_P [OF p0] bind.bind_lunit s
    by (simp add: body_def pad_length max.commute)
qed

lemma convert_char:
  assumes "w < 2 ^ 31" and "length t + length (pad (LEFT fl) 0x20 w [ch]) < bound"
  shows "stuff_char (text_stuff bound) ch (int w) fl (text_state t) = Some (text_state (t @ pad (LEFT fl) 0x20 w [ch]), 0)"
proof -
  have "i32 (int w - 1) = Some (int w - 1)" "nat (int w - 1) = w - 1" using assms(1) by (simp_all add: i32_in)
  moreover have "Suc (length t) < bound" "length t + (w - 1) < bound" "Suc (length t + (w - 1)) < bound"
    using assms(2) by (auto simp: pad_length)
  ultimately show ?thesis by (auto simp: stuff_char_def Let_def stuff_times_text pad_def)
qed

text \<open>The \<open>switch\<close> on a directive without a number.\<close>

lemma convert_directive:
  assumes "ok_piece (Directive fs w p sz cv)" and "length t + length (piece_text (Directive fs w p sz cv)) < bound"
  shows "convert (text_stuff bound) c_sprintf None (conv_arg cv # ap) fmt0 dolPt fmt (flags_of fs) (int w)
      (case p of None \<Rightarrow> - 1 | Some k \<Rightarrow> int k) (size_type sz) (conv_fmt cv) (text_state t) =
    Some (text_state (t @ piece_text (Directive fs w p sz cv)), 0, ap)"
proof -
  have wp: "w < 2 ^ 31" "case p of None \<Rightarrow> True | Some k \<Rightarrow> k < 2 ^ 31 - 1" and ok: "ok_conv (size_type sz) p cv"
    using assms(1) by simp_all
  note num = convert_number [OF _ _ _ wp, where fs = fs and t = t and bound = bound and ap = ap]
  have r: "unat (10 :: u64) = 10" "unat (8 :: u64) = 8" "unat (16 :: u64) = 16" by simp_all
  show ?thesis
  proof (cases cv)
    case (Conv_d a)
    then show ?thesis using ok assms(2) num [of "size_type sz" a 10 hex] by (simp add: convert_def r)
  next
    case (Conv_i a)
    then show ?thesis using ok assms(2) num [of "size_type sz" a 10 hex] by (simp add: convert_def r)
  next
    case (Conv_o a)
    then show ?thesis using ok assms(2) num [of "unsigned_of (size_type sz)" a 8 hex] by (simp add: convert_def r)
  next
    case (Conv_u a)
    then show ?thesis using ok assms(2) num [of "unsigned_of (size_type sz)" a 10 hex] by (simp add: convert_def r)
  next
    case (Conv_x a)
    then show ?thesis using ok assms(2) num [of "unsigned_of (size_type sz)" a 16 hex] by (simp add: convert_def r)
  next
    case (Conv_X a)
    then show ?thesis using ok assms(2) num [of "unsigned_of (size_type sz)" a 16 HEX] by (simp add: convert_def r)
  next
    case (Conv_p a)
    then show ?thesis using ok assms(2) num [of TYPE_UINT64 a 16 hex] by (simp add: convert_def r)
  next
    case (Conv_c x)
    then show ?thesis
      using assms(2) convert_char [OF wp(1), of t "flags_of fs" "ucast x" bound] by (simp add: convert_def fetch_def)
  next
    case (Conv_s s)
    then show ?thesis
      using ok assms(2) convert_string [OF _ wp, where str = s and fs = fs and t = t and bound = bound]
      by (simp add: convert_def fetch_def del: ok_conv.simps split del: if_split)
  qed
qed

subsection \<open>Scanning\<close>

text \<open>The scanner has taken the first character \<open>c\<close> of a text, \<open>p\<close> is what follows it.\<close>

definition set_flag :: "Flags \<Rightarrow> u8 \<Rightarrow> Flags" where
  "set_flag fl c = (if c = 0x2D then fl\<lparr>LEFT := True\<rparr> else if c = 0x2B then fl\<lparr>SIGNED := True\<rparr>
     else if c = 0x20 then fl\<lparr>SPACED := True\<rparr> else fl\<lparr>ZEROS := True\<rparr>)"

definition clear_flags :: "Flags \<Rightarrow> Flags" where
  "clear_flags fl = (let fl1 = (if SIGNED fl then fl\<lparr>SPACED := False\<rparr> else fl) in
     if LEFT fl1 then fl1\<lparr>ZEROS := False\<rparr> else fl1)"

lemma gobble_flags_text:
  assumes "set fs \<subseteq> set flag_chars" and "d \<notin> set flag_chars" and "c # p = fs @ d # q"
  shows "gobble_flags fl c p = Some (clear_flags (foldl set_flag fl fs), d, q)"
  using assms
proof (induction fs arbitrary: fl c p)
  case Nil
  then show ?case
    by (subst gobble_flags.simps) (auto simp: flag_chars_def clear_flags_def Let_def)
next
  case (Cons f fs)
  then have f: "f \<in> {0x2D, 0x2B, 0x20, 0x30}" "c = f" "p = fs @ d # q" by (auto simp: flag_chars_def)
  obtain c1 p1 where p: "p = c1 # p1" using f(3) by (cases "fs @ d # q") auto
  have "gobble_flags fl c p = gobble_flags (set_flag fl c) c1 p1"
    unfolding p using f(1,2) by (subst gobble_flags.simps) (simp only: if_True Let_def set_flag_def list.case)
  also have "\<dots> = Some (clear_flags (foldl set_flag (set_flag fl c) fs), d, q)"
    using Cons.prems f p by (intro Cons.IH) auto
  finally show ?case using f by simp
qed

lemma foldl_set_flag:
  "foldl set_flag fl fs = \<lparr>LEFT = LEFT fl \<or> 0x2D \<in> set fs, SIGNED = SIGNED fl \<or> 0x2B \<in> set fs,
     SPACED = SPACED fl \<or> 0x20 \<in> set fs, ZEROS = ZEROS fl \<or> 0x30 \<in> set fs, NEG = NEG fl\<rparr>"
  if "set fs \<subseteq> set flag_chars"
  using that
proof (induction fs arbitrary: fl)
  case (Cons f fs)
  then have "f = 0x2D \<or> f = 0x2B \<or> f = 0x20 \<or> f = 0x30" by (auto simp: flag_chars_def)
  then show ?case using Cons by (elim disjE) (simp_all add: set_flag_def)
qed simp

lemma flags_of_foldl: "set fs \<subseteq> set flag_chars \<Longrightarrow> clear_flags (foldl set_flag no_flags fs) = flags_of fs"
  by (auto simp: foldl_set_flag clear_flags_def no_flags_def flags_of_def Let_def)

lemma hex_digit:
  assumes "d < 10"
  shows "is_digit (hex ! d)" and "char_val (hex ! d) = int d + 0x30" and "hex ! d = of_nat d + 0x30"
proof -
  have "d = 0 \<or> d = 1 \<or> d = 2 \<or> d = 3 \<or> d = 4 \<or> d = 5 \<or> d = 6 \<or> d = 7 \<or> d = 8 \<or> d = 9" using assms by auto
  then show "is_digit (hex ! d)" "char_val (hex ! d) = int d + 0x30" "hex ! d = of_nat d + 0x30"
    by (auto simp: is_digit_def hex_def char_val_def)
qed

lemma foldl_digits_mono: "a \<le> foldl (\<lambda>a d. a * 10 + d) a (ds :: nat list)"
proof (induction ds arbitrary: a)
  case (Cons d ds)
  show ?case using Cons [of "a * 10 + d"] by simp
qed simp

lemma gobble_number_text:
  assumes "\<forall>d\<in>set ds. d < 10" and "\<not> is_digit e" and "c # p = map (\<lambda>d. hex ! d) ds @ e # q"
    and "foldl (\<lambda>a d. a * 10 + d) a ds < 2 ^ 31"
  shows "gobble_number (int a) c p = Some (int (foldl (\<lambda>a d. a * 10 + d) a ds), e, q)"
  using assms
proof (induction ds arbitrary: a c p)
  case Nil
  then show ?case by (subst gobble_number.simps) simp
next
  case (Cons d ds)
  then have c: "c = hex ! d" "p = map (\<lambda>d. hex ! d) ds @ e # q" "d < 10" by auto
  have dig: "is_digit c" "char_val c = int d + 0x30" unfolding c(1) by (rule hex_digit [OF c(3)])+
  obtain c1 p1 where p: "p = c1 # p1" using c(2) by (cases "map (\<lambda>d. hex ! d) ds @ e # q") auto
  have "a * 10 + d < 2 ^ 31"
    using Cons.prems(4) foldl_digits_mono [of "a * 10 + d" ds] by simp
  then have i: "i32 (int a * 10) = Some (int a * 10)" "i32 (int a * 10 + int d) = Some (int a * 10 + int d)"
    by (simp_all add: i32_in)
  have "gobble_number (int a) c p = gobble_number (int (a * 10 + d)) c1 p1"
    unfolding p using dig by (subst gobble_number.simps) (simp add: i)
  also have "\<dots> = Some (int (foldl (\<lambda>a d. a * 10 + d) (a * 10 + d) ds), e, q)"
    using Cons.prems c p by (intro Cons.IH) auto
  finally show ?case by simp
qed

lemma gobble_show:
  assumes "\<not> is_digit e" and "c # p = show_nat hex 10 n @ e # q" and "n < 2 ^ 31"
  shows "gobble_number 0 c p = Some (int n, e, q)"
  using gobble_number_text [of "digits 10 n" e c p q 0] assms digits_less [of 10 _ n] digits_value [of 10 n]
  by (simp add: show_nat_def)

lemma gobble_width_text:
  assumes "\<not> is_digit e" and "e \<noteq> 0x2A" and "c # p = width_fmt w @ e # q" and "w < 2 ^ 31"
  shows "gobble_width c p ap = Some (int w, e, q, ap)"
proof (cases "w = 0")
  case True
  then have "c = e" "p = q" using assms(3) by (simp_all add: width_fmt_def)
  then show ?thesis using assms True by (simp add: gobble_width_def gobble_number.simps [of 0 e])
next
  case False
  then have t: "c # p = show_nat hex 10 w @ e # q" using assms(3) by (simp add: width_fmt_def)
  then have c: "c = hex ! hd (digits 10 w)" by (cases "digits 10 w") (auto simp: show_nat_def)
  have "is_digit c"
    unfolding c by (rule hex_digit) (use digits_less [of 10 "hd (digits 10 w)" w] in simp)
  then have "c \<noteq> 0x2A" by (auto simp: is_digit_def)
  then show ?thesis using gobble_show [OF assms(1) t assms(4)] by (simp add: gobble_width_def)
qed

lemma gobble_prec_text:
  assumes "\<not> is_digit e" and "e \<noteq> 0x2A" and "e \<noteq> 0x2E" and "c # p = prec_fmt pr @ e # q"
    and "case pr of None \<Rightarrow> True | Some k \<Rightarrow> k < 2 ^ 31"
  shows "gobble_prec c p ap = Some (case pr of None \<Rightarrow> - 1 | Some k \<Rightarrow> int k, e, q, ap)"
proof (cases pr)
  case None
  then show ?thesis using assms by (simp add: gobble_prec_def)
next
  case (Some k)
  then have c: "c = 0x2E" "p = show_nat hex 10 k @ e # q" using assms(4) by simp_all
  obtain c1 p1 where p: "p = c1 # p1" using c(2) by (cases "show_nat hex 10 k @ e # q") auto
  have t: "c1 # p1 = show_nat hex 10 k @ e # q" using c p by simp
  have "c1 = hex ! hd (digits 10 k)" using t by (cases "digits 10 k") (auto simp: show_nat_def)
  moreover have "is_digit (hex ! hd (digits 10 k))"
    by (rule hex_digit) (use digits_less [of 10 "hd (digits 10 k)" k] in simp)
  ultimately have "c1 \<noteq> 0x2A" by (auto simp: is_digit_def)
  then show ?thesis
    using c(1) p gobble_show [OF assms(1) t] assms(5) Some by (simp add: gobble_prec_def gobble_width_def)
qed

lemma gobble_size_text:
  assumes "e \<notin> {0x68, 0x4C, 0x6C}" and "c # p = size_fmt sz @ e # q"
  shows "gobble_size c p = Some (size_type sz, e, q)"
  using assms by (cases sz) (auto simp: gobble_size_def)

subsection \<open>A directive\<close>

lemma conv_fmt_chars:
  "conv_fmt cv \<notin> {0x68, 0x4C, 0x6C}" "\<not> is_digit (conv_fmt cv)" "conv_fmt cv \<notin> {0x2A, 0x2E}"
  "conv_fmt cv \<notin> set flag_chars" "conv_fmt cv \<noteq> 0x25" "conv_fmt cv \<noteq> 0" "conv_fmt cv \<noteq> 0x24"
  by (cases cv; simp add: is_digit_def flag_chars_def)+

text \<open>The first characters of the parts: of the size and what follows (\<open>d\<close>), of the precision and what follows
  (\<open>e\<close>), of the width and what follows (\<open>f\<close>).\<close>

lemma size_head:
  assumes "size_fmt sz @ conv_fmt cv # rest = d # q"
  shows "\<not> is_digit d" "d \<noteq> 0x2A" "d \<noteq> 0x2E" "d \<notin> set flag_chars"
  using assms conv_fmt_chars [of cv] by (cases sz; auto simp: is_digit_def flag_chars_def)+

lemma prec_head:
  assumes "prec_fmt pr @ d # q = e # r" and "\<not> is_digit d" "d \<noteq> 0x2A" "d \<notin> set flag_chars"
  shows "\<not> is_digit e" "e \<noteq> 0x2A" "e \<notin> set flag_chars"
  using assms by (cases pr; auto simp: is_digit_def flag_chars_def)+

lemma width_head:
  assumes "width_fmt w @ e # r = f # u" and "e \<notin> set flag_chars"
  shows "f \<notin> set flag_chars"
proof (cases "w = 0")
  case True
  then show ?thesis using assms by (simp add: width_fmt_def)
next
  case False
  define h where "h = hd (digits 10 w)"
  have f: "f = hex ! h" using False assms(1) by (cases "digits 10 w") (auto simp: width_fmt_def show_nat_def h_def)
  have "0 < h" "h < 10"
    using digits_hd [of 10 w] digits_less [of 10 h w] False by (auto simp: h_def)
  then have "h = 1 \<or> h = 2 \<or> h = 3 \<or> h = 4 \<or> h = 5 \<or> h = 6 \<or> h = 7 \<or> h = 8 \<or> h = 9" by auto
  then show ?thesis unfolding f by (elim disjE) (simp_all add: hex_def flag_chars_def)
qed

lemma directive_piece:
  assumes ok: "ok_piece (Directive fs w pr sz cv)"
    and len: "length t + length (piece_text (Directive fs w pr sz cv)) < bound"
    and fmt: "0x25 # c # p = piece_fmt (Directive fs w pr sz cv) @ rest"
  shows "directive (text_stuff bound) c_sprintf None fmt0 c p (conv_arg cv # ap) (text_state t) =
    Some (text_state (t @ piece_text (Directive fs w pr sz cv)), 0, rest, ap)"
proof -
  obtain d q where d: "size_fmt sz @ conv_fmt cv # rest = d # q" by (cases "size_fmt sz @ conv_fmt cv # rest") auto
  obtain e r where e: "prec_fmt pr @ d # q = e # r" by (cases "prec_fmt pr @ d # q") auto
  obtain f u where f: "width_fmt w @ e # r = f # u" by (cases "width_fmt w @ e # r") auto
  note hd = size_head [OF d]
  note he = prec_head [OF e hd(1,2,4)]
  have c: "c # p = fs @ f # u" using fmt by (simp add: d e f)
  have g1: "gobble_flags no_flags c p = Some (flags_of fs, f, u)"
    using gobble_flags_text [OF _ width_head [OF f he(3)] c, of no_flags] ok by (simp add: flags_of_foldl)
  have g2: "gobble_width f u (conv_arg cv # ap) = Some (int w, e, r, conv_arg cv # ap)"
    using gobble_width_text [OF he(1,2) f [symmetric]] ok by simp
  have "case pr of None \<Rightarrow> True | Some k \<Rightarrow> k < 2 ^ 31" using ok by (auto split: option.splits)
  from gobble_prec_text [OF hd(1-3) e [symmetric] this]
  have g3: "gobble_prec e r (conv_arg cv # ap) = Some (case pr of None \<Rightarrow> - 1 | Some k \<Rightarrow> int k, d, q, conv_arg cv # ap)" .
  have g4: "gobble_size d q = Some (size_type sz, conv_fmt cv, rest)"
    by (rule gobble_size_text [OF conv_fmt_chars(1) d [symmetric]])
  show ?thesis
    unfolding directive_def by (simp add: g1 g2 g3 g4 convert_directive [OF ok len] del: piece_text.simps)
qed

subsection \<open>The format\<close>

definition format :: "piece list \<Rightarrow> cells" where
  "format ps = concat (map piece_fmt ps)"

definition format_args :: "piece list \<Rightarrow> arg list" where
  "format_args ps = concat (map piece_args ps)"

definition format_text :: "piece list \<Rightarrow> cells" where
  "format_text ps = concat (map piece_text ps)"

lemma show_nat_chars: "set (show_nat hex 10 n) \<inter> {0, 0x24, 0x25} = {}"
proof -
  have "hex ! d \<notin> {0, 0x24, 0x25}" if "d < 10" for d
    using hex_digit(1) [OF that] by (auto simp: is_digit_def)
  then show ?thesis using digits_less [of 10 _ n] by (auto simp: show_nat_def)
qed

lemma directive_chars:
  assumes "set fs \<subseteq> set flag_chars"
  shows "set (tl (piece_fmt (Directive fs w pr sz cv))) \<inter> {0, 0x24, 0x25} = {}"
proof -
  have "set (size_fmt sz) \<inter> {0, 0x24, 0x25} = {}" by (cases sz) auto
  moreover have "set (prec_fmt pr) \<inter> {0, 0x24, 0x25} = {}" using show_nat_chars by (cases pr) auto
  moreover have "set (width_fmt w) \<inter> {0, 0x24, 0x25} = {}" using show_nat_chars by (auto simp: width_fmt_def)
  moreover have "set fs \<inter> {0, 0x24, 0x25} = {}" using assms by (auto simp: flag_chars_def)
  ultimately show ?thesis using conv_fmt_chars(5-7) [of cv] by auto
qed

text \<open>The first pass over such a format finds no numbered directive.\<close>

lemma count_args_skip: "set xs \<inter> {0, 0x25} = {} \<Longrightarrow> count_args (xs @ p) i n = count_args p i n"
  by (induction xs) (simp_all add: count_args.simps [of "_ # _"])

lemma skip_digits_split:
  assumes "\<exists>x\<in>set xs. \<not> is_digit x" and "c # p = xs @ q"
  obtains d ys where "skip_digits c p = Some (d, ys @ q)" and "set ys \<subseteq> set xs" and "d \<in> set xs" and "\<not> is_digit d"
  using assms
proof (induction xs arbitrary: c p thesis)
  case (Cons y xs)
  show ?case
  proof (cases "is_digit y")
    case True
    then have nd: "\<exists>x\<in>set xs. \<not> is_digit x" using Cons.prems(2) by auto
    then obtain c1 p1 where p: "xs @ q = c1 # p1" by (cases xs) auto
    obtain d ys where *: "skip_digits c1 p1 = Some (d, ys @ q)" "set ys \<subseteq> set xs" "d \<in> set xs" "\<not> is_digit d"
      using Cons.IH [OF _ nd p [symmetric]] by blast
    then have "skip_digits c p = Some (d, ys @ q)" using Cons.prems(3) True p by (simp add: skip_digits.simps [of y])
    then show ?thesis using Cons.prems(1) [of d ys] * by auto
  next
    case False
    then have "skip_digits c p = Some (y, xs @ q)" using Cons.prems(3) by (simp add: skip_digits.simps [of y])
    then show ?thesis using Cons.prems(1) [of y xs] False by auto
  qed
qed simp

lemma count_args_format:
  assumes "\<forall>x\<in>set ps. ok_piece x"
  shows "count_args (format ps @ 0 # rest) i 0 = Some (0, 0)"
  using assms
proof (induction ps arbitrary: i)
  case Nil
  then show ?case by (simp add: format_def count_args.simps [of "_ # _"])
next
  case (Cons x ps)
  have IH: "count_args (format ps @ 0 # rest) i 0 = Some (0, 0)" for i using Cons by simp
  have f: "format (x # ps) @ 0 # rest = piece_fmt x @ format ps @ 0 # rest" by (simp add: format_def)
  show ?case
  proof (cases x)
    case (Directive fs w pr sz cv)
    define body where "body = tl (piece_fmt x)"
    have b: "piece_fmt x = 0x25 # body" by (simp add: body_def Directive)
    have chars: "set body \<inter> {0, 0x24, 0x25} = {}"
      using directive_chars [of fs w pr sz cv] Cons.prems by (simp add: body_def Directive)
    have cv: "conv_fmt cv \<in> set body" by (simp add: body_def Directive)
    then obtain c p where c: "body @ format ps @ 0 # rest = c # p" by (cases body) auto
    then have "c \<noteq> 0x25" using cv chars by (cases body) auto
    obtain d ys where s: "skip_digits c p = Some (d, ys @ format ps @ 0 # rest)" "set ys \<subseteq> set body" "d \<in> set body"
        "\<not> is_digit d"
      using skip_digits_split [OF _ c [symmetric]] cv conv_fmt_chars(2) by blast
    have d: "d \<noteq> 0" "d \<noteq> 0x24" using s(3) chars by auto
    show ?thesis
      unfolding f b using \<open>c \<noteq> 0x25\<close> s d IH [of True] chars
      by (simp add: c count_args.simps [of "0x25 # _"]) (subst count_args_skip, auto)
  qed (use Cons.prems IH f in \<open>simp_all add: count_args.simps [of "_ # _"]\<close>)
qed

lemma loop_format:
  assumes "\<forall>x\<in>set ps. ok_piece x" and "length t + length (format_text ps) + 1 < bound"
  shows "dosprintf_loop (text_stuff bound) c_sprintf None (format ps @ 0 # rest) (format_args ps) (text_state t) =
    Some (text_state (t @ format_text ps @ [0]), 0)"
  using assms
proof (induction ps arbitrary: t)
  case Nil
  then show ?case
    by (simp add: format_def format_args_def format_text_def dosprintf_loop.simps [of _ _ _ "_ # _"])
next
  case (Cons x ps)
  have len: "length t + length (piece_text x) + length (format_text ps) + 1 < bound"
    using Cons.prems(2) by (simp add: format_text_def del: piece_text.simps)
  have IH: "dosprintf_loop (text_stuff bound) c_sprintf None (format ps @ 0 # rest) (format_args ps)
      (text_state (t @ piece_text x)) = Some (text_state (t @ piece_text x @ format_text ps @ [0]), 0)"
    using Cons.IH [of "t @ piece_text x"] Cons.prems(1) len by simp
  have f: "format (x # ps) @ 0 # rest = piece_fmt x @ format ps @ 0 # rest"
    "format_args (x # ps) = piece_args x @ format_args ps" "format_text (x # ps) = piece_text x @ format_text ps"
    by (simp_all add: format_def format_args_def format_text_def del: piece_text.simps)
  show ?case
  proof (cases x)
    case (Directive fs w pr sz cv)
    obtain c p where c: "piece_fmt x @ format ps @ 0 # rest = 0x25 # c # p"
      unfolding Directive by (cases fs; cases "width_fmt w"; cases "prec_fmt pr"; cases "size_fmt sz") auto
    have "c \<in> set (tl (piece_fmt x)) \<or> tl (piece_fmt x) = []"
      using c by (cases "tl (piece_fmt x)"; cases "piece_fmt x") auto
    then have nc: "c \<noteq> 0x25"
      using directive_chars [of fs w pr sz cv] Cons.prems(1) by (auto simp: Directive)
    have "directive (text_stuff bound) c_sprintf None (0x25 # c # p) c p (conv_arg cv # format_args ps) (text_state t) =
        Some (text_state (t @ piece_text x), 0, format ps @ 0 # rest, format_args ps)"
      using Cons.prems(1) len c unfolding Directive by (intro directive_piece) (simp_all del: piece_text.simps)
    then show ?thesis
      unfolding f c using IH nc by (simp add: Directive dosprintf_loop.simps [of _ _ _ "_ # _"] del: piece_text.simps)
  qed (use Cons.prems IH f len in \<open>simp_all add: dosprintf_loop.simps [of _ _ _ "_ # _"]\<close>)
qed

text \<open>C7: \<open>dosprintf\<close> terminates on every format of pieces without an error, and its text is that of the pieces, one after
  the other, with a zero at the end: flags, width, precision and size act as the pieces say, and the arguments are taken in
  order.\<close>

theorem printf_format:
  assumes "\<forall>x\<in>set ps. ok_piece x" and "length (format_text ps) + 1 < bound"
  shows "printf_text bound c_sprintf nas_ok (format ps @ 0 # rest) (format_args ps) = Some (format_text ps @ [0], 0)"
  using count_args_format [OF assms(1), of rest False] loop_format [OF assms(1), of "[]"] assms(2)
  by (simp add: printf_text_def dosprintf_def BuildArgArray_def)

lemma printf_format_witness:
  "printf_text 100 (\<lambda>_ _. None) True (format [Plain 0x61, Directive [0x2D] 5 None No_Size (Conv_d (Arg32 (- 42))), Percent,
       Directive [] 0 (Some 2) No_Size (Conv_s (Some [0x78, 0x79, 0x7A, 0]))] @ 0 # [])
     (format_args [Plain 0x61, Directive [0x2D] 5 None No_Size (Conv_d (Arg32 (- 42))), Percent,
       Directive [] 0 (Some 2) No_Size (Conv_s (Some [0x78, 0x79, 0x7A, 0]))])
   = Some ([0x61, 0x2D, 0x34, 0x32, 0x20, 0x20, 0x25, 0x78, 0x79, 0], 0)"
proof -
  let ?ps = "[Plain 0x61, Directive [0x2D] 5 None No_Size (Conv_d (Arg32 (- 42))), Percent,
       Directive [] 0 (Some 2) No_Size (Conv_s (Some [0x78, 0x79, 0x7A, 0]))]"
  have d: "digits 10 42 = [4, 2]" by (simp add: digits.simps)
  have r: "replicate (2 :: nat) (c :: u8) = [c, c]" for c by (simp add: numeral_2_eq_2)
  have t: "format_text ?ps = [0x61, 0x2D, 0x34, 0x32, 0x20, 0x20, 0x25, 0x78, 0x79]"
    by (simp add: format_text_def number_text_def shown_def int_text_def pad_def sign_text_def signed_type_def flags_of_def
      show_nat_def hex_def d r string_text_def Let_def)
  have ok: "\<forall>x\<in>set ?ps. ok_piece x"
    by (simp add: ok_number_def shown_def flag_chars_def string_text_def)
  show ?thesis using printf_format [OF ok, of 100 "\<lambda>_ _. None" True "[]"] unfolding t by simp
qed

end
