(* ===== verification/Pr_Printf_Spec.thy ===== *)
theory Pr_Printf_Spec
  imports Pr_Printf_Text
begin

text \<open>
  The three stuffing routines of \<open>prprf.c\<close> as interpretations of \<open>stuffer\<close>, and what the printers built on them do
  with the text of a format.
\<close>

subsection \<open>The fixed buffer\<close>

text \<open>The buffer \<open>buf\<close> of \<open>n\<close> characters starts with the text, as far as it fits.\<close>

definition limit_holds :: "cells \<Rightarrow> u32 \<Rightarrow> unit SprintfState \<Rightarrow> cells \<Rightarrow> bool" where
  "limit_holds buf n s t \<longleftrightarrow> unat n \<le> length buf \<and> ss_maxlen s = n \<and> ss_ints s = [] \<and>
     ss_off s = Some (min (length t) (unat n)) \<and>
     ss_base s = Some (take (unat n) t @ drop (min (length t) (unat n)) buf)"

lemma limit_step:
  assumes h: "limit_holds buf n s t" and sp: "length sp < 2 ^ 32"
  shows "\<exists>s1. LimitStuff s sp = Some (s1, 0) \<and> limit_holds buf n s1 (t @ sp)"
proof -
  define k where "k = min (length t) (unat n)"
  define len where "len = min (length sp) (unat n - k)"
  have n: "unat n < 2 ^ 32" by (rule unat_u32_less)
  have k: "k \<le> unat n" "k < 2 ^ 32" using n by (simp_all add: k_def)
  have kn: "of_nat k \<le> n" using k by (simp add: word_le_nat_alt unat_of_nat_u32)
  have lim: "unat (n - of_nat k) = unat n - k" using k(2) unat_sub [OF kn] by (simp add: unat_of_nat_u32)
  define lw where "lw = (if of_nat (length sp) > n - of_nat k then n - of_nat k else of_nat (length sp) :: u32)"
  have lw: "unat lw = len" using sp by (auto simp: lw_def word_less_nat_alt lim unat_of_nat_u32 len_def)
  have put: "store_at (take (unat n) t @ drop k buf) k (take len sp)
    = Some (take (unat n) t @ take len sp @ drop (k + len) buf)"
    using h k by (auto simp: store_at_def store_def limit_holds_def k_def len_def min_def add.commute)
  have t': "take (unat n) (t @ sp) = take (unat n) t @ take len sp" "k + len = min (length (t @ sp)) (unat n)"
    by (auto simp: k_def len_def min_def)
  have "ss_maxlen s = n" "ss_off s = Some k" "ss_base s = Some (take (unat n) t @ drop k buf)"
    using h by (simp_all add: limit_holds_def k_def)
  then have "LimitStuff s sp = do {
      base1 \<leftarrow> store_at (take (unat n) t @ drop k buf) k (take (unat lw) sp);
      Some (s\<lparr>ss_base := Some base1, ss_off := Some (k + unat lw)\<rparr>, 0) }"
    by (simp only: LimitStuff_def Let_def lw_def bind.bind_lunit)
  then have "LimitStuff s sp = Some (s\<lparr>ss_base := Some (take (unat n) (t @ sp) @ drop (k + len) buf), ss_off := Some (k + len)\<rparr>, 0)"
    by (simp add: lw put t'(1) del: take_append)
  then show ?thesis using h unfolding limit_holds_def t'(2) by simp
qed

interpretation limit: stuffer LimitStuff "limit_holds buf n" "\<lambda>_. False" bound for buf n bound
  by unfold_locales (use limit_step in fastforce)

text \<open>C8: \<open>PR_snprintf\<close>: for every format with a text, and whatever the bound of the text, the call returns; it writes the
  first \<open>outlen\<close> cells of the buffer only, they get the text as far as it fits with a zero at its end, and the result is
  the number of characters before the zero. A text that is empty leaves the buffer as it was.\<close>

theorem snprintf_text:
  assumes "printf_text bound c_sprintf nas_ok fmt args = Some (t, rv)"
    and "0 < sint outlen" and "unat outlen \<le> length buf"
  defines "m \<equiv> min (length t) (unat outlen)"
  shows "PR_snprintf c_sprintf nas_ok buf outlen fmt args =
    Some (take (m - 1) t @ (if m = 0 then [] else [0]) @ drop m buf, [], of_nat (m - 1))"
proof -
  define ss where "ss = \<lparr>ss_base = Some buf, ss_off = Some 0, ss_maxlen = outlen, ss_arg = (), ss_ints = []\<rparr>"
  have "limit_holds buf outlen ss []" using assms(3) by (simp add: limit_holds_def ss_def)
  then obtain s' rv' where run: "dosprintf LimitStuff c_sprintf nas_ok fmt args ss = Some (s', rv')"
    and h: "limit_holds buf outlen s' t"
    using limit.simulation [OF assms(1)] by metis
  have m: "m < 2 ^ 32" "m \<le> length t" "m \<le> unat outlen" "m \<le> length buf"
    using unat_u32_less [of outlen] assms(3) by (auto simp: m_def)
  have b: "take (unat outlen) t = take m t" by (auto simp: m_def min_def)
  have len: "of_nat m = (0 :: u32) \<longleftrightarrow> m = 0" using m(1) unat_of_nat_u32 [of m] by (auto simp flip: unat_eq_zero)
  have s': "ss_base s' = Some (take m t @ drop m buf)" "ss_off s' = Some m" "ss_ints s' = []"
    using h unfolding limit_holds_def b m_def [symmetric] by simp_all
  show ?thesis
  proof (cases m)
    case 0
    then show ?thesis
      using assms(2) run s' by (simp add: PR_snprintf_def PR_vsnprintf_def Let_def flip: ss_def)
  next
    case (Suc k)
    define base where "base = take m t @ drop m buf"
    have k: "k < length base" "base[k := 0] = take k t @ 0 # drop m buf"
      using m Suc by (auto simp: base_def take_Suc_conv_app_nth list_update_append)
    have z: "(if base ! k \<noteq> 0 then wr base (Suc k - 1) 0 else Some base) = Some (take k t @ 0 # drop m buf)"
      using k by (auto simp: wr_def) (metis list_update_id)
    have r: "rd base k = Some (base ! k)" using k(1) by (simp add: rd_in)
    have b: "ss_base s' = Some base" using s'(1) by (simp add: base_def)
    show ?thesis
      using assms(2) run b s'(2,3) z r len unfolding PR_snprintf_def PR_vsnprintf_def Let_def
      by (simp add: Suc flip: ss_def split del: if_split)
  qed
qed

lemma snprintf_text_witness:
  "PR_snprintf (\<lambda>_ _. None) True [9, 9, 9, 9, 9] 3 [0x61, 0x62, 0x63, 0x64, 0] [] = Some ([0x61, 0x62, 0, 9, 9], [], 2)"
proof -
  have "printf_text 10 (\<lambda>_ _. None) True [0x61, 0x62, 0x63, 0x64, 0] [] = Some ([0x61, 0x62, 0x63, 0x64, 0], 0)"
    by (simp add: printf_text_def dosprintf_def BuildArgArray_def count_args.simps [of "_ # _"] dosprintf_loop.simps [of _ _ _ "_ # _"])
  from snprintf_text [OF this, of 3 "[9, 9, 9, 9, 9]"] show ?thesis by (simp add: min_def)
qed

subsection \<open>The buffer that grows\<close>

text \<open>The text stands behind \<open>pre\<close>, what the buffer held before.\<close>

definition grow_holds :: "(u32 \<Rightarrow> cptr) \<Rightarrow> cells \<Rightarrow> nat \<Rightarrow> unit SprintfState \<Rightarrow> cells \<Rightarrow> bool" where
  "grow_holds malloc pre bound s t \<longleftrightarrow>
     (\<forall>n m. malloc n = Some m \<longrightarrow> length m = unat n) \<and> length pre + bound \<le> 2 ^ 31 - 16 \<and>
     ss_ints s = [] \<and> ss_off s = Some (length pre + length t) \<and>
     length pre + length t \<le> unat (ss_maxlen s) \<and> unat (ss_maxlen s) \<le> 2 * (length pre + length t) + 32 \<and>
     (case ss_base s of
        None \<Rightarrow> pre = [] \<and> t = [] \<and> ss_maxlen s = 0
      | Some b \<Rightarrow> unat (ss_maxlen s) \<le> length b \<and> take (length pre + length t) b = pre @ t)"

text \<open>A buffer with room for \<open>sp\<close>.\<close>

lemma put_grow:
  assumes "off + length sp \<le> length b" and "take off b = t"
  obtains b1 where "store_at b off sp = Some b1" and "length b1 = length b" and "take (off + length sp) b1 = t @ sp"
proof (rule that)
  show "store_at b off sp = Some (take off b @ sp @ drop (off + length sp) b)"
    using assms(1) by (auto simp: store_at_def store_def add.commute)
qed (use assms in auto)

lemma grow_step:
  assumes h: "grow_holds malloc pre bound s t" and sp: "length (t @ sp) < bound"
  shows "\<exists>s1 rv. GrowStuff malloc s sp = Some (s1, rv) \<and>
    (rv < 0 \<and> ss_ints s1 = [] \<and> (\<exists>n. malloc n = None) \<or> rv = 0 \<and> grow_holds malloc pre bound s1 (t @ sp))"
proof -
  define off where "off = length pre + length t"
  define len where "len = (of_nat (length sp) :: u32)"
  define newlen where "newlen = ss_maxlen s + (if len > 32 then len else 32)"
  have bnd: "off + length sp < 2 ^ 31 - 16" using h sp by (simp add: grow_holds_def off_def)
  have len: "unat len = length sp" using bnd by (simp add: len_def unat_of_nat_u32)
  have off: "ss_off s = Some off" "off \<le> unat (ss_maxlen s)" using h by (simp_all add: grow_holds_def off_def)
  show ?thesis
  proof (cases "off + length sp \<ge> unat (ss_maxlen s)")
    case False
    then obtain b where b: "ss_base s = Some b" "unat (ss_maxlen s) \<le> length b" "take off b = pre @ t"
      using h by (cases "ss_base s") (auto simp: grow_holds_def off_def)
    obtain b1 where "store_at b off sp = Some b1" "length b1 = length b" "take (off + length sp) b1 = (pre @ t) @ sp"
      by (rule put_grow [of off sp b "pre @ t"]) (use b False in simp_all)
    then show ?thesis
      using h b False off len by (auto simp: GrowStuff_def Let_def grow_holds_def off_def add.assoc simp flip: len_def)
  next
    case True
    have add: "unat newlen = unat (ss_maxlen s) + max (length sp) 32"
      using True bnd len
      by (auto simp: newlen_def unat_word_ariths word_less_nat_alt max_def split: if_splits)
    define nb where "nb = (case ss_base s of Some base \<Rightarrow> c_realloc malloc base newlen | None \<Rightarrow> malloc newlen)"
    have nb: "length b = unat newlen \<and> take off b = pre @ t" if b: "nb = Some b" for b
    proof (cases "ss_base s")
      case None
      then show ?thesis using b h by (auto simp: nb_def grow_holds_def off_def)
    next
      case (Some base)
      then obtain m where m: "malloc newlen = Some m" "b = take (length m) base @ drop (length base) m"
        using b Some by (auto simp: nb_def c_realloc_def)
      have "length m = unat newlen" "take off base = pre @ t" "off \<le> length base"
        using m h Some off by (auto simp: grow_holds_def off_def)
      then show ?thesis using m add off by (auto simp: min_def)
    qed
    show ?thesis
    proof (cases nb)
      case None
      then have "\<exists>n. malloc n = None" by (auto simp: nb_def c_realloc_def split: option.splits)
      then show ?thesis
        using None True off len h
        by (simp add: grow_holds_def GrowStuff_def Let_def flip: len_def newlen_def nb_def)
    next
      case (Some b)
      obtain b1 where b1: "store_at b off sp = Some b1" "length b1 = length b" "take (off + length sp) b1 = (pre @ t) @ sp"
        by (rule put_grow [of off sp b "pre @ t"]) (use nb [OF Some] add True off in simp_all)
      have "length sp \<le> max (length sp) 32" "max (length sp) 32 \<le> length sp + 32" by simp_all
      then have "off + length sp \<le> unat newlen" "unat newlen \<le> off + length sp + (off + length sp) + 32"
        unfolding add using True off(2) by linarith+
      then have "grow_holds malloc pre bound (s\<lparr>ss_maxlen := newlen, ss_base := Some b1, ss_off := Some (off + length sp)\<rparr>) (t @ sp)"
        using h nb [OF Some] b1 by (simp add: grow_holds_def off_def add.assoc)
      then show ?thesis
        using Some True off len b1 by (simp add: GrowStuff_def Let_def flip: len_def newlen_def nb_def)
    qed
  qed
qed

interpretation grow: stuffer "GrowStuff malloc" "grow_holds malloc pre bound" "\<lambda>s. ss_ints s = [] \<and> (\<exists>n. malloc n = None)" bound
  for malloc pre bound
  by unfold_locales (rule grow_step)

text \<open>A format that is printed without an error ends with the terminator.\<close>

lemma loop_terminator:
  "dosprintf_loop tx c_sprintf nas fmt ap ts = Some r \<Longrightarrow> tx = text_stuff bound \<Longrightarrow> 0 \<le> snd r \<Longrightarrow>
   \<exists>x. ss_arg (fst r) = x @ [0]"
proof (induction rule: dosprintf_loop.raw_induct [rotated, consumes 1])
  case (1 loop tx c_sprintf nas fmt ap ts r)
  note IH = 1(1) and run = 1(2) and tx = 1(3) and rv = 1(4)
  have IH': "\<exists>x. ss_arg (fst r) = x @ [0]" if "seq m (loop tx c_sprintf nas f ap) = Some r" for m f ap
    using that IH [OF _ tx rv] rv by (cases m) (auto simp: seq_def split: if_splits)
  show ?case
    using run rv IH' IH [OF _ tx rv]
    by (auto simp: bind_eq_Some_conv tx text_stuff_def split: if_splits)
qed

lemma printf_text_terminator:
  assumes "printf_text bound c_sprintf nas_ok fmt ap = Some (t, rv)" and "0 \<le> rv"
  obtains x where "t = x @ [0]"
  using assms loop_terminator [OF _ refl]
  by (fastforce simp: printf_text_def dosprintf_def bind_eq_Some_conv split: if_splits)

lemma c_strlen_less: "c_strlen s = Some k \<Longrightarrow> k < length s"
  by (induction s arbitrary: k) (auto split: if_splits)

lemma sprintf_append_result:
  assumes "printf_text bound c_sprintf nas_ok fmt args = Some (t, rv)"
    and "\<And>n m. malloc n = Some m \<Longrightarrow> length m = unat n"
    and "(case str of None \<Rightarrow> Some 0 | Some l \<Rightarrow> c_strlen l) = Some k" and "k + bound \<le> 2 ^ 31 - 16"
  defines "pre \<equiv> (case str of None \<Rightarrow> [] | Some l \<Rightarrow> take k l)"
  shows "\<exists>r. PR_sprintf_append c_sprintf nas_ok malloc str fmt args = Some (r, []) \<and>
    (case r of
       None \<Rightarrow> rv < 0 \<or> (\<exists>n. malloc n = None)
     | Some b \<Rightarrow> 0 \<le> rv \<and> take (k + length t) b = pre @ t \<and> last t = 0)"
proof -
  define ss where "ss = \<lparr>ss_base = str, ss_off = Some k, ss_maxlen = of_nat k, ss_arg = (), ss_ints = []\<rparr>"
  have kl: "case str of None \<Rightarrow> k = 0 | Some l \<Rightarrow> k < length l"
    using assms(3) by (auto dest: c_strlen_less split: option.splits)
  have k: "k < 2 ^ 31" "unat (of_nat k :: u32) = k" using assms(4) by (simp_all add: unat_of_nat_u32)
  have pre: "length pre = k" using kl by (auto simp: pre_def split: option.splits)
  have "grow_holds malloc pre bound ss []"
    using assms(2,4) k kl pre by (auto simp: grow_holds_def ss_def pre_def split: option.splits)
  then obtain s' rv' where run: "dosprintf (GrowStuff malloc) c_sprintf nas_ok fmt args ss = Some (s', rv')"
    and o: "rv' < 0 \<and> ss_ints s' = [] \<and> (\<exists>n. malloc n = None) \<or> rv' = rv \<and> grow_holds malloc pre bound s' t"
    using grow.simulation [OF assms(1)] by metis
  have app: "PR_sprintf_append c_sprintf nas_ok malloc str fmt args = Some (if rv' < 0 then None else ss_base s', ss_ints s')"
    using run assms(3) k by (simp add: PR_sprintf_append_def PR_vsprintf_append_def Let_def flip: ss_def)
  show ?thesis
  proof (cases "rv' < 0")
    case True
    then show ?thesis using app o by (cases "rv < 0") (auto simp: grow_holds_def)
  next
    case False
    then have rv: "rv' = rv" "0 \<le> rv" and h: "grow_holds malloc pre bound s' t" using o by auto
    obtain x where x: "t = x @ [0]" using printf_text_terminator [OF assms(1) rv(2)] .
    then obtain b where "ss_base s' = Some b" "take (k + length t) b = pre @ t"
      using h pre by (cases "ss_base s'") (auto simp: grow_holds_def)
    then show ?thesis using app rv h x by (simp add: grow_holds_def)
  qed
qed

lemma smprintf_text:
  assumes "printf_text (2 ^ 31 - 16) c_sprintf nas_ok fmt args = Some (t, rv)"
    and "\<And>n m. malloc n = Some m \<Longrightarrow> length m = unat n"
  shows "\<exists>r. PR_smprintf c_sprintf nas_ok malloc fmt args = Some (r, []) \<and>
    (case r of None \<Rightarrow> rv < 0 \<or> (\<exists>n. malloc n = None) | Some b \<Rightarrow> 0 \<le> rv \<and> take (length t) b = t)"
proof -
  have eq: "PR_smprintf c_sprintf nas_ok malloc fmt args = PR_sprintf_append c_sprintf nas_ok malloc None fmt args"
    by (simp add: PR_smprintf_def PR_vsmprintf_def PR_sprintf_append_def PR_vsprintf_append_def)
  have "\<exists>r. PR_sprintf_append c_sprintf nas_ok malloc None fmt args = Some (r, []) \<and>
    (case r of
       None \<Rightarrow> rv < 0 \<or> (\<exists>n. malloc n = None)
     | Some b \<Rightarrow> 0 \<le> rv \<and> take (0 + length t) b = (case None of None \<Rightarrow> [] | Some l \<Rightarrow> take 0 l) @ t \<and> last t = 0)"
    by (rule sprintf_append_result [OF assms(1)]) (simp_all add: assms(2))
  then obtain r where "PR_sprintf_append c_sprintf nas_ok malloc None fmt args = Some (r, [])"
    "case r of None \<Rightarrow> rv < 0 \<or> (\<exists>n. malloc n = None)
     | Some b \<Rightarrow> 0 \<le> rv \<and> take (0 + length t) b = (case None of None \<Rightarrow> [] | Some l \<Rightarrow> take 0 l) @ t \<and> last t = 0"
    by (elim exE conjE) rule
  then show ?thesis unfolding eq by (cases r) auto
qed

text \<open>C34: \<open>PR_sprintf_append\<close>: the buffer that comes back starts with the string it was given, if any, and goes on with the
  text and its zero; the null pointer comes back only for a format in error or when an allocation fails. A text of less
  than 2 GB, with the string before it, cannot overflow the 32-bit length of the buffer.\<close>

theorem sprintf_append_text:
  assumes "printf_text bound c_sprintf nas_ok fmt args = Some (t, rv)"
    and "\<And>n m. malloc n = Some m \<Longrightarrow> length m = unat n"
    and "(case str of None \<Rightarrow> Some 0 | Some l \<Rightarrow> c_strlen l) = Some k" and "k + bound \<le> 2 ^ 31 - 16"
  defines "pre \<equiv> (case str of None \<Rightarrow> [] | Some l \<Rightarrow> take k l)"
  shows "\<exists>r. PR_sprintf_append c_sprintf nas_ok malloc str fmt args = Some (r, []) \<and>
    (case r of
       None \<Rightarrow> rv < 0 \<or> (\<exists>n. malloc n = None)
     | Some b \<Rightarrow> 0 \<le> rv \<and> take (k + length t) b = pre @ t \<and> last t = 0)"
  unfolding pre_def by (rule sprintf_append_result [OF assms(1-4)])

lemma sprintf_append_text_witness:
  "\<exists>r. PR_sprintf_append (\<lambda>_ _. None) True (\<lambda>n. Some (replicate (unat n) 0x58)) (Some [0x61, 0]) [0x62, 0] [] = Some (r, []) \<and>
    (case r of None \<Rightarrow> False | Some b \<Rightarrow> take 3 b = [0x61, 0x62, 0])"
proof -
  have t: "printf_text 10 (\<lambda>_ _. None) True [0x62, 0] [] = Some ([0x62, 0], 0)"
    by (simp add: printf_text_def dosprintf_def BuildArgArray_def count_args.simps [of "_ # _"] dosprintf_loop.simps [of _ _ _ "_ # _"])
  show ?thesis
    using sprintf_append_text [OF t, of "\<lambda>n. Some (replicate (unat n) 0x58)" "Some [0x61, 0]" 1]
    by (auto simp: numeral_3_eq_3 split: option.splits)
qed

subsection \<open>The callback\<close>

text \<open>\<open>fed arg t\<close>: the object of the callback was given the text \<open>t\<close> so far.\<close>

definition func_holds :: "'a stuff_func \<Rightarrow> ('a \<Rightarrow> cells \<Rightarrow> bool) \<Rightarrow> 'a SprintfState \<Rightarrow> cells \<Rightarrow> bool" where
  "func_holds func fed s t \<longleftrightarrow>
     (\<forall>arg t sp. fed arg t \<longrightarrow>
        (\<exists>arg1 rv. func arg sp (of_nat (length sp)) = Some (arg1, rv) \<and> (0 \<le> rv \<longrightarrow> fed arg1 (t @ sp)))) \<and>
     fed (ss_arg s) t \<and> ss_maxlen s = of_nat (length t)"

interpretation func: stuffer "FuncStuff func" "func_holds func fed"
  "\<lambda>_. \<exists>arg sp arg1 rv. func arg sp (of_nat (length sp)) = Some (arg1, rv) \<and> rv < 0" bound for func fed bound
proof
  fix s t sp
  assume h: "func_holds func fed s t"
  then obtain arg1 rv where "func (ss_arg s) sp (of_nat (length sp)) = Some (arg1, rv)" "0 \<le> rv \<longrightarrow> fed arg1 (t @ sp)"
    unfolding func_holds_def by blast
  then show "\<exists>s1 rv. FuncStuff func s sp = Some (s1, rv) \<and>
    (rv < 0 \<and> (\<exists>arg sp arg1 rv. func arg sp (of_nat (length sp)) = Some (arg1, rv) \<and> rv < 0) \<or>
     rv = 0 \<and> func_holds func fed s1 (t @ sp))"
    using h by (cases "rv < 0") (auto simp: FuncStuff_def Let_def func_holds_def)
qed

text \<open>C35: \<open>PR_sxprintf\<close>: the callback is given the text with its zero, piece by piece and in order, and the result counts
  its characters, the zero included, modulo \<open>2 ^ 32\<close>; or the result is \<open>-1\<close>, when the format is in error or the callback
  failed.\<close>

theorem sxprintf_text:
  assumes "printf_text bound c_sprintf nas_ok fmt args = Some (t, rv)"
    and "\<And>arg t sp. fed arg t \<Longrightarrow>
      \<exists>arg1 rv. func arg sp (of_nat (length sp)) = Some (arg1, rv) \<and> (0 \<le> rv \<longrightarrow> fed arg1 (t @ sp))"
    and "fed arg []"
  shows "\<exists>s n. PR_sxprintf c_sprintf nas_ok func arg fmt args = Some (s, n) \<and>
    (n = - 1 \<and> (rv < 0 \<or> (\<exists>arg sp arg1 rv. func arg sp (of_nat (length sp)) = Some (arg1, rv) \<and> rv < 0)) \<or>
     0 \<le> rv \<and> fed (ss_arg s) t \<and> last t = 0 \<and> n = of_nat (length t))"
proof -
  define ss where "ss = \<lparr>ss_base = None, ss_off = None, ss_maxlen = 0, ss_arg = arg, ss_ints = []\<rparr>"
  have "func_holds func fed ss []" using assms(2,3) by (simp add: func_holds_def ss_def)
  then obtain s' rv' where run: "dosprintf (FuncStuff func) c_sprintf nas_ok fmt args ss = Some (s', rv')"
    and o: "rv' < 0 \<and> (\<exists>arg sp arg1 rv. func arg sp (of_nat (length sp)) = Some (arg1, rv) \<and> rv < 0) \<or>
      rv' = rv \<and> func_holds func fed s' t"
    by (rule func.simulation [OF assms(1)])
  have r: "PR_sxprintf c_sprintf nas_ok func arg fmt args = Some (s', if rv' < 0 then - 1 else ss_maxlen s')"
    using run by (simp add: PR_sxprintf_def PR_vsxprintf_def Let_def flip: ss_def)
  show ?thesis
  proof (cases "rv' < 0")
    case True
    then show ?thesis using r o by auto
  next
    case False
    then have rv: "rv' = rv" "0 \<le> rv" and h: "func_holds func fed s' t" using o by auto
    obtain x where "t = x @ [0]" using printf_text_terminator [OF assms(1) rv(2)] .
    then show ?thesis using r rv h by (simp add: func_holds_def)
  qed
qed

lemma sxprintf_text_witness:
  "\<exists>s n. PR_sxprintf (\<lambda>_ _. None) True (\<lambda>arg sp len. Some (arg @ sp, 0)) [] [0x62, 0] [] = Some (s, n) \<and>
    ss_arg s = [0x62, 0] \<and> n = 2"
proof -
  have t: "printf_text 10 (\<lambda>_ _. None) True [0x62, 0] [] = Some ([0x62, 0], 0)"
    by (simp add: printf_text_def dosprintf_def BuildArgArray_def count_args.simps [of "_ # _"] dosprintf_loop.simps [of _ _ _ "_ # _"])
  show ?thesis
    using sxprintf_text [OF t, of "\<lambda>arg t. arg = t" "\<lambda>arg sp len. Some (arg @ sp, 0)" "[]"] by auto
qed

subsection \<open>Formats in error\<close>

text \<open>A format whose numbered arguments are in error leaves the buffer of \<open>PR_snprintf\<close> as it is, without a zero, and the
  length is 0.\<close>

lemma snprintf_format_error:
  assumes "BuildArgArray nas_ok fmt args = Some (rv, nas)" and "rv < 0"
  shows "PR_snprintf c_sprintf nas_ok buf outlen fmt args = Some (buf, [], 0)"
  using assms by (simp add: PR_snprintf_def PR_vsnprintf_def dosprintf_def Let_def)

text \<open>A format that ends within a directive is read past its terminator.\<close>

lemma lone_percent: "dosprintf stuff c_sprintf nas_ok [0x25, 0] ap s = None"
  by (simp add: dosprintf_def BuildArgArray_def count_args.simps [of "_ # _"] count_args.simps [of "[]"] skip_digits.simps is_digit_def)

text \<open>The example of the comment of \<open>BuildArgArray\<close>, "%4$i, %2$d, %3s, %1d".\<close>

lemma comment_example_refused:
  "BuildArgArray True [0x25, 0x34, 0x24, 0x69, 0x2C, 0x20, 0x25, 0x32, 0x24, 0x64, 0x2C, 0x20, 0x25, 0x33, 0x73, 0x2C, 0x20, 0x25, 0x31, 0x64, 0] ap
   = Some (- 1, None)"
  by (simp add: BuildArgArray_def count_args.simps [of "_ # _"] skip_digits.simps [of "_ :: u8"] is_digit_def)

end
