(* ===== verification/Nss_Base64.thy ===== *)
theory Nss_Base64
  imports Pl_String
begin

text \<open>
  The base64 encoder and decoder of NSS that work on a stream, \<open>security/nss/lib/util/nssb64e.c\<close> and \<open>nssb64d.c\<close>.

  The function that takes the output is an argument, \<open>None\<close> for the null pointer: the object \<open>output_arg\<close>, the characters
  and their number to the object and the result. \<open>malloc\<close> is a function of the size, \<open>new_ok\<close> says whether the allocation of the
  context succeeds; what is freed is not modelled. In the encoder the local pointer \<open>out\<close> is always
  \<open>output_buffer + output_length\<close>, in the decoder it is an offset of its own, as the code sets \<open>output_length\<close> at the end
  only. An error set with a failure is an argument of the failure. A context is always there: the functions refuse a null
  pointer in its place with an error and do nothing else.
\<close>

datatype PRErrorCode = PR_BUFFER_OVERFLOW_ERROR | PR_INVALID_ARGUMENT_ERROR | SEC_ERROR_INVALID_ARGS | SEC_ERROR_OUTPUT_LEN

datatype PRStatus = PR_SUCCESS | PR_FAILURE "PRErrorCode option"

type_synonym 'a output_fn = "('a \<Rightarrow> cells \<Rightarrow> int \<Rightarrow> ('a \<times> int) option) option"

abbreviation B64_PAD :: u8 where "B64_PAD \<equiv> 0x3D"
abbreviation B64_CR :: u8 where "B64_CR \<equiv> 0x0D"
abbreviation B64_LF :: u8 where "B64_LF \<equiv> 0x0A"

subsection \<open>The encoder\<close>

record 'a PLBase64Encoder =
  in_buffer :: cells
  in_buffer_count :: nat
  line_length :: u32
  current_column :: u32
  enc_arg :: 'a
  enc_buffer :: cptr
  enc_buflen :: u32
  enc_length :: u32

definition base64_valuetocode :: cells where
  "base64_valuetocode = map of_nat ([65..<91] @ [97..<123] @ [48..<58] @ [43, 47])"

text \<open>Characters written at \<open>out\<close>, and counted.\<close>

definition put_out :: "cells \<Rightarrow> 'a PLBase64Encoder \<Rightarrow> 'a PLBase64Encoder option" where
  "put_out cs data = do {
     buf \<leftarrow> enc_buffer data;
     buf1 \<leftarrow> store_at buf (unat (enc_length data)) cs;
     Some (data\<lparr>enc_buffer := Some buf1, enc_length := enc_length data + of_nat (length cs)\<rparr>) }"

text \<open>\<open>while (i < 3) { n = (n << 8) | *in++; i++; }\<close> with \<open>k = 3 - i\<close>; \<open>pos\<close> is the offset \<open>in\<close>.\<close>

fun take_bytes :: "nat \<Rightarrow> u32 \<Rightarrow> cells \<Rightarrow> nat \<Rightarrow> (u32 \<times> nat) option" where
  "take_bytes 0 n src pos = Some (n, pos)"
| "take_bytes (Suc k) n src pos = do { b \<leftarrow> rd src pos; take_bytes k (push_bit 8 n OR ucast b) src (pos + 1) }"

definition token_chars :: "u32 \<Rightarrow> cells" where
  "token_chars n = map (\<lambda>j. base64_valuetocode ! unat (drop_bit j n AND 0x3F)) [18, 12, 6, 0]"

definition line_break :: "'a PLBase64Encoder \<Rightarrow> 'a PLBase64Encoder option" where
  "line_break data =
     (if line_length data > 0 \<and> current_column data \<ge> line_length data
      then put_out [B64_CR, B64_LF] (data\<lparr>current_column := 0\<rparr>)
      else Some data)"

text \<open>The output so far, handed to the output function: the result is the object and the function's result.\<close>

definition write_out :: "('a \<Rightarrow> cells \<Rightarrow> int \<Rightarrow> ('a \<times> int) option) \<Rightarrow> 'a PLBase64Encoder \<Rightarrow> ('a \<times> int) option" where
  "write_out f data = do {
     buf \<leftarrow> enc_buffer data;
     let n = enc_length data;
     if unat n \<le> length buf then f (enc_arg data) (take (unat n) buf) (sint n) else None }"

text \<open>One token: a line break if it is due, the characters, and the output function when the buffer is full. \<open>again\<close>: the loop
  goes on (\<open>in < end\<close>).\<close>

definition emit_token ::
  "'a output_fn \<Rightarrow> u32 \<Rightarrow> bool \<Rightarrow> u32 \<Rightarrow> 'a PLBase64Encoder \<Rightarrow> ('a PLBase64Encoder \<times> PRStatus) option" where
  "emit_token output_fn threshold again n data = do {
     data1 \<leftarrow> line_break data;
     let data2 = (if line_length data1 > 0 then data1\<lparr>current_column := current_column data1 + 4\<rparr> else data1);
     data3 \<leftarrow> put_out (token_chars n) data2;
     if enc_length data3 \<ge> threshold then
       (case output_fn of
          Some f \<Rightarrow> do {
            (arg, r) \<leftarrow> write_out f data3;
            if r < 0 then Some (data3\<lparr>enc_arg := arg\<rparr>, PR_FAILURE None)
            else Some (data3\<lparr>enc_arg := arg, enc_length := 0\<rparr>, PR_SUCCESS) }
        | None \<Rightarrow> Some (data3, if again then PR_FAILURE (Some PR_BUFFER_OVERFLOW_ERROR) else PR_SUCCESS))
     else Some (data3, PR_SUCCESS) }"

partial_function (option) encode_loop ::
  "'a output_fn \<Rightarrow> u32 \<Rightarrow> cells \<Rightarrow> nat \<Rightarrow> nat \<Rightarrow> nat \<Rightarrow> u32 \<Rightarrow> 'a PLBase64Encoder \<Rightarrow> ('a PLBase64Encoder \<times> PRStatus) option" where
  "encode_loop output_fn threshold src pos fin i n data =
     (if pos < fin then do {
        (n1, pos1) \<leftarrow> take_bytes (3 - i) n src pos;
        (data1, status) \<leftarrow> emit_token output_fn threshold (pos1 < fin) n1 data;
        if status = PR_SUCCESS then encode_loop output_fn threshold src pos1 fin 0 0 data1
        else Some (data1, status) }
      else Some (data, PR_SUCCESS))"

definition pl_base64_encode_buffer ::
  "'a output_fn \<Rightarrow> 'a PLBase64Encoder \<Rightarrow> cells \<Rightarrow> u32 \<Rightarrow> ('a PLBase64Encoder \<times> PRStatus) option" where
  "pl_base64_encode_buffer output_fn data src size0 =
     (let i = in_buffer_count data in
      if size0 < of_nat (3 - i) then do {
        b0 \<leftarrow> rd src 0;
        buf \<leftarrow> wr (in_buffer data) i b0;
        buf1 \<leftarrow> (if size0 > 1 then do { b1 \<leftarrow> rd src 1; wr buf (i + 1) b1 } else Some buf);
        Some (data\<lparr>in_buffer := buf1, in_buffer_count := (if size0 > 1 then i + 2 else i + 1)\<rparr>, PR_SUCCESS) }
      else do {
        n \<leftarrow> (if i > 0 then do {
                b0 \<leftarrow> rd (in_buffer data) 0;
                if i > 1 then do { b1 \<leftarrow> rd (in_buffer data) 1; Some (push_bit 8 (ucast b0) OR ucast b1) }
                else Some (ucast b0) }
              else Some 0);
        let data1 = (if i > 0 then data\<lparr>in_buffer_count := 0\<rparr> else data);
        let off = (size0 + of_nat i) mod 3;
        (size1, data2) \<leftarrow> (if off > 0 then do {
            let size1 = size0 - off;
            b0 \<leftarrow> rd src (unat size1);
            buf \<leftarrow> wr (in_buffer data1) 0 b0;
            buf1 \<leftarrow> (if off > 1 then do { b1 \<leftarrow> rd src (unat (size1 + 1)); wr buf 1 b1 } else Some buf);
            Some (size1, data1\<lparr>in_buffer := buf1, in_buffer_count := unat off\<rparr>) }
          else Some (size0, data1));
        encode_loop output_fn (enc_buflen data2 - 3) src 0 (unat size1) i n data2 })"

definition pl_base64_encode_flush ::
  "'a output_fn \<Rightarrow> 'a PLBase64Encoder \<Rightarrow> ('a PLBase64Encoder \<times> PRStatus) option" where
  "pl_base64_encode_flush output_fn data =
     (let i = in_buffer_count data in
      if i = 0 \<and> enc_length data = 0 then Some (data, PR_SUCCESS)
      else do {
        data1 \<leftarrow> (if i > 0 then do {
            b0 \<leftarrow> rd (in_buffer data) 0;
            n \<leftarrow> (if i > 1 then do { b1 \<leftarrow> rd (in_buffer data) 1; Some (push_bit 16 (ucast b0) OR push_bit 8 (ucast b1)) }
                  else Some (push_bit 16 (ucast b0)));
            data1 \<leftarrow> line_break (data\<lparr>in_buffer_count := 0\<rparr>);
            let cs = token_chars n;
            let cs1 = (if i = 1 then cs[2 := B64_PAD] else cs);
            put_out (cs1[3 := B64_PAD]) data1 }
          else Some data);
        case output_fn of
          Some f \<Rightarrow> do {
            (arg, r) \<leftarrow> write_out f data1;
            Some (data1\<lparr>enc_arg := arg, enc_length := 0\<rparr>, if r < 0 then PR_FAILURE None else PR_SUCCESS) }
        | None \<Rightarrow> Some (data1, PR_SUCCESS) })"

definition PL_Base64MaxEncodedLength :: "u32 \<Rightarrow> u32 \<Rightarrow> u32" where
  "PL_Base64MaxEncodedLength sz line_length0 =
     (let tokens = (sz + 2) div 3 in
      if line_length0 = 0 then tokens * 4
      else
        let line_length1 = (if line_length0 < 4 then 4 else line_length0);
            tokens_per_line = line_length1 div 4;
            full_lines = tokens div tokens_per_line;
            remainder = (tokens - full_lines * tokens_per_line) * 4;
            line_break_chars = full_lines * 2;
            line_break_chars1 = (if remainder = 0 then line_break_chars - 2 else line_break_chars)
        in full_lines * tokens_per_line * 4 + line_break_chars1 + remainder)"

definition pl_base64_create_encoder ::
  "bool \<Rightarrow> (u32 \<Rightarrow> cptr) \<Rightarrow> 'a \<Rightarrow> u32 \<Rightarrow> cptr \<Rightarrow> u32 \<Rightarrow> 'a PLBase64Encoder option" where
  "pl_base64_create_encoder new_ok malloc arg line_length0 output_buffer output_buflen =
     (if \<not> new_ok then None
      else
        let line_length1 = (if line_length0 > 0 \<and> line_length0 < 4 then 4 else line_length0);
            line_tokens = line_length1 div 4;
            ll = line_tokens * 4;
            buflen = (if output_buffer = None \<and> output_buflen = 0 then if ll > 0 then ll + 2 else 64 else output_buflen)
        in case (case output_buffer of None \<Rightarrow> malloc buflen | Some b \<Rightarrow> Some b) of
             None \<Rightarrow> None
           | Some b \<Rightarrow> Some \<lparr>in_buffer = [0, 0], in_buffer_count = 0, line_length = ll, current_column = 0, enc_arg = arg,
               enc_buffer = Some b, enc_buflen = buflen, enc_length = 0\<rparr>)"

definition PL_CreateBase64Encoder ::
  "bool \<Rightarrow> (u32 \<Rightarrow> cptr) \<Rightarrow> 'a output_fn \<Rightarrow> 'a \<Rightarrow> u32 \<Rightarrow> 'a PLBase64Encoder option \<times> PRErrorCode option" where
  "PL_CreateBase64Encoder new_ok malloc output_fn output_arg line_length0 =
     (if output_fn = None then (None, Some PR_INVALID_ARGUMENT_ERROR)
      else (pl_base64_create_encoder new_ok malloc output_arg line_length0 None 0, None))"

definition PL_UpdateBase64Encoder ::
  "'a output_fn \<Rightarrow> 'a PLBase64Encoder \<Rightarrow> cptr \<Rightarrow> u32 \<Rightarrow> ('a PLBase64Encoder \<times> PRStatus) option" where
  "PL_UpdateBase64Encoder output_fn data buffer sz = (case buffer of
     None \<Rightarrow> Some (data, PR_FAILURE (Some PR_INVALID_ARGUMENT_ERROR))
   | Some src \<Rightarrow> if sz = 0 then Some (data, PR_FAILURE (Some PR_INVALID_ARGUMENT_ERROR))
       else pl_base64_encode_buffer output_fn data src sz)"

definition PL_DestroyBase64Encoder ::
  "'a output_fn \<Rightarrow> 'a PLBase64Encoder \<Rightarrow> bool \<Rightarrow> ('a PLBase64Encoder \<times> PRStatus) option" where
  "PL_DestroyBase64Encoder output_fn data abort_p =
     (if abort_p then Some (data, PR_SUCCESS) else pl_base64_encode_flush output_fn data)"

text \<open>The result is the buffer returned, and the length stored.\<close>

definition PL_Base64EncodeBuffer ::
  "bool \<Rightarrow> (u32 \<Rightarrow> cptr) \<Rightarrow> cells \<Rightarrow> u32 \<Rightarrow> u32 \<Rightarrow> cptr \<Rightarrow> u32 \<Rightarrow> (cptr \<times> u32 option \<times> PRErrorCode option) option" where
  "PL_Base64EncodeBuffer new_ok malloc src srclen line_length0 dest maxdestlen0 =
     (if srclen = 0 then Some (dest, None, None)
      else
        let need_length = PL_Base64MaxEncodedLength srclen line_length0 in
        if dest \<noteq> None \<and> maxdestlen0 < need_length then Some (None, None, Some PR_BUFFER_OVERFLOW_ERROR)
        else
          let maxdestlen = (if dest \<noteq> None then maxdestlen0 else need_length) in
          case pl_base64_create_encoder new_ok malloc () line_length0 dest maxdestlen of
            None \<Rightarrow> Some (None, None, None)
          | Some data \<Rightarrow> do {
              (data1, status) \<leftarrow> pl_base64_encode_buffer None data src srclen;
              (data2, status2) \<leftarrow> (if status = PR_SUCCESS then pl_base64_encode_flush None data1 else Some (data1, status));
              case status2 of
                PR_FAILURE e \<Rightarrow> Some (None, None, e)
              | PR_SUCCESS \<Rightarrow> do {
                  (_, status3) \<leftarrow> PL_DestroyBase64Encoder None (data2\<lparr>enc_buffer := None\<rparr>) False;
                  Some (if status3 = PR_SUCCESS then enc_buffer data2 else None, Some (enc_length data2), None) } })"

definition NSSBase64Encoder_Create ::
  "bool \<Rightarrow> bool \<Rightarrow> (u32 \<Rightarrow> cptr) \<Rightarrow> 'a output_fn \<Rightarrow> 'a \<Rightarrow> 'a PLBase64Encoder option" where
  "NSSBase64Encoder_Create cover_ok new_ok malloc output_fn output_arg =
     (if \<not> cover_ok then None else fst (PL_CreateBase64Encoder new_ok malloc output_fn output_arg 64))"

definition NSSBase64Encoder_Update ::
  "'a output_fn \<Rightarrow> 'a PLBase64Encoder \<Rightarrow> cptr \<Rightarrow> u32 \<Rightarrow> ('a PLBase64Encoder \<times> PRStatus) option" where
  "NSSBase64Encoder_Update output_fn data buffer sz = PL_UpdateBase64Encoder output_fn data buffer sz"

definition NSSBase64Encoder_Destroy ::
  "'a output_fn \<Rightarrow> 'a PLBase64Encoder \<Rightarrow> bool \<Rightarrow> ('a PLBase64Encoder \<times> PRStatus) option" where
  "NSSBase64Encoder_Destroy output_fn data abort_p = PL_DestroyBase64Encoder output_fn data abort_p"

text \<open>An item is its data and its length; \<open>alloc\<close> allocates from the arena or the heap.\<close>

definition NSSBase64_EncodeItem ::
  "bool \<Rightarrow> (u32 \<Rightarrow> cptr) \<Rightarrow> cptr \<Rightarrow> u32 \<Rightarrow> (cptr \<times> u32) option \<Rightarrow> (cptr \<times> PRErrorCode option) option" where
  "NSSBase64_EncodeItem new_ok alloc outStrOpt maxOutLen inItem =
     (case inItem of
        Some (Some d, len) \<Rightarrow>
          if len = 0 then Some (None, Some SEC_ERROR_INVALID_ARGS)
          else
            let max_out_len0 = PL_Base64MaxEncodedLength len 64 in
            if outStrOpt \<noteq> None \<and> max_out_len0 + 1 > maxOutLen then Some (None, Some SEC_ERROR_OUTPUT_LEN)
            else
              let max_out_len = (if outStrOpt = None then max_out_len0 else maxOutLen) in
              (case (case outStrOpt of None \<Rightarrow> alloc (max_out_len + 1) | Some s \<Rightarrow> Some s) of
                 None \<Rightarrow> Some (None, None)
               | Some out_string \<Rightarrow> do {
                   (dummy, out_len, e) \<leftarrow> PL_Base64EncodeBuffer new_ok (\<lambda>_. None) d len 64 (Some out_string) max_out_len;
                   case dummy of
                     None \<Rightarrow> Some (None, e)
                   | Some s \<Rightarrow> do { n \<leftarrow> out_len; s1 \<leftarrow> wr s (unat n) 0; Some (Some s1, None) } })
      | _ \<Rightarrow> Some (None, Some SEC_ERROR_INVALID_ARGS))"

definition BTOA_DataToAscii :: "bool \<Rightarrow> (u32 \<Rightarrow> cptr) \<Rightarrow> cptr \<Rightarrow> u32 \<Rightarrow> cptr option" where
  "BTOA_DataToAscii new_ok alloc d len =
     map_option fst (NSSBase64_EncodeItem new_ok alloc None 0 (Some (d, len)))"

definition BTOA_ConvertItemToAscii :: "bool \<Rightarrow> (u32 \<Rightarrow> cptr) \<Rightarrow> (cptr \<times> u32) option \<Rightarrow> cptr option" where
  "BTOA_ConvertItemToAscii new_ok alloc binary_item =
     map_option fst (NSSBase64_EncodeItem new_ok alloc None 0 binary_item)"

subsection \<open>The decoder\<close>

record 'a PLBase64Decoder =
  token :: cells
  token_size :: nat
  dec_arg :: 'a
  dec_buffer :: cptr
  dec_buflen :: u32
  dec_length :: u32

definition base64_codetovaluep1 :: cells where
  "base64_codetovaluep1 = map of_nat
     (replicate 43 0 @ [63] @ replicate 3 0 @ [64] @ [53..<63] @ replicate 7 0 @ [1..<27] @ replicate 6 0 @ [27..<53] @ replicate 133 0)"

abbreviation p1 :: "u8 \<Rightarrow> u8" where
  "p1 c \<equiv> base64_codetovaluep1 ! unat c"

text \<open>The three decoders give the number of bytes written, or \<open>-1\<close>, and the output from \<open>out\<close> on.\<close>

fun num_4 :: "nat \<Rightarrow> u32 \<Rightarrow> cells \<Rightarrow> nat \<Rightarrow> u32 option option" where
  "num_4 0 num src j = Some (Some num)"
| "num_4 (Suc k) num src j = do {
     c \<leftarrow> rd src j;
     if p1 c = 0 then Some None else num_4 k (push_bit 6 num OR ucast (p1 c - 1)) src (j + 1) }"

definition pl_base64_decode_4to3 :: "cells \<Rightarrow> cells \<Rightarrow> (int \<times> cells) option" where
  "pl_base64_decode_4to3 src out = do {
     r \<leftarrow> num_4 4 0 src 0;
     case r of
       None \<Rightarrow> Some (- 1, out)
     | Some num \<Rightarrow> do {
         out1 \<leftarrow> store out [ucast (drop_bit 16 num), ucast (drop_bit 8 num AND 0xFF), ucast (num AND 0xFF)];
         Some (3, out1) } }"

definition pl_base64_decode_3to2 :: "cells \<Rightarrow> cells \<Rightarrow> (int \<times> cells) option" where
  "pl_base64_decode_3to2 src out = do {
     c0 \<leftarrow> rd src 0;
     c1 \<leftarrow> rd src 1;
     c2 \<leftarrow> rd src 2;
     if p1 c0 = 0 \<or> p1 c1 = 0 \<or> p1 c2 = 0 then Some (- 1, out)
     else do {
       let num = (push_bit 10 (ucast (p1 c0 - 1)) OR push_bit 4 (ucast (p1 c1 - 1)) OR drop_bit 2 (ucast (p1 c2 - 1)) :: u32);
       out1 \<leftarrow> store out [ucast (drop_bit 8 num), ucast (num AND 0xFF)];
       Some (2, out1) } }"

definition pl_base64_decode_2to1 :: "cells \<Rightarrow> cells \<Rightarrow> (int \<times> cells) option" where
  "pl_base64_decode_2to1 src out = do {
     c0 \<leftarrow> rd src 0;
     c1 \<leftarrow> rd src 1;
     if p1 c0 = 0 \<or> p1 c1 = 0 then Some (- 1, out)
     else do {
       let num = (push_bit 2 (ucast (p1 c0 - 1)) OR drop_bit 4 (ucast (p1 c1 - 1)) :: u32);
       out1 \<leftarrow> store out [ucast num];
       Some (1, out1) } }"

definition pl_base64_decode_token :: "cells \<Rightarrow> cells \<Rightarrow> (int \<times> cells) option" where
  "pl_base64_decode_token src out = do {
     c3 \<leftarrow> rd src 3;
     if c3 \<noteq> B64_PAD then pl_base64_decode_4to3 src out
     else do {
       c2 \<leftarrow> rd src 2;
       if c2 = B64_PAD then pl_base64_decode_2to1 src out else pl_base64_decode_3to2 src out } }"

text \<open>The output from an offset on, of a buffer that may be the null pointer.\<close>

definition out_from :: "'a PLBase64Decoder \<Rightarrow> nat \<Rightarrow> cells" where
  "out_from data off = (case dec_buffer data of None \<Rightarrow> [] | Some b \<Rightarrow> drop off b)"

definition set_out :: "'a PLBase64Decoder \<Rightarrow> nat \<Rightarrow> cells \<Rightarrow> 'a PLBase64Decoder" where
  "set_out data off out = data\<lparr>dec_buffer := map_option (\<lambda>b. take off b @ out) (dec_buffer data)\<rparr>"

text \<open>\<open>while (i < 4 && length > 0)\<close>: the characters of the alphabet and the padding go into the token.\<close>

fun fill_token :: "cells \<Rightarrow> nat \<Rightarrow> cells \<Rightarrow> nat \<Rightarrow> nat \<Rightarrow> (cells \<times> nat \<times> nat \<times> nat) option" where
  "fill_token tok i src pos 0 = Some (tok, i, pos, 0)"
| "fill_token tok i src pos (Suc len) =
     (if i < 4 then do {
        c \<leftarrow> rd src pos;
        if p1 c > 0 \<or> c = B64_PAD then do {
          tok1 \<leftarrow> wr tok i c;
          fill_token tok1 (i + 1) src (pos + 1) len }
        else fill_token tok i src (pos + 1) len }
      else Some (tok, i, pos, Suc len))"

text \<open>The loop over tokens; the result is the state, \<open>n\<close>, the offset \<open>out\<close>, the offset \<open>in\<close> and the length left.\<close>

partial_function (option) decode_loop ::
  "cells \<Rightarrow> nat \<Rightarrow> nat \<Rightarrow> nat \<Rightarrow> nat \<Rightarrow> 'a PLBase64Decoder \<Rightarrow> ('a PLBase64Decoder \<times> int \<times> nat \<times> nat \<times> nat) option" where
  "decode_loop src i pos len off data =
     (if len > 0 then do {
        (tok, i1, pos1, len1) \<leftarrow> fill_token (token data) i src pos len;
        let data1 = data\<lparr>token := tok\<rparr>;
        if i1 < 4 then Some (data1\<lparr>token_size := i1\<rparr>, 0, off, pos1, len1)
        else do {
          (n, out) \<leftarrow> pl_base64_decode_4to3 tok (out_from data1 off);
          let data2 = set_out data1 off out;
          if n < 0 then Some (data2, n, off, pos1, len1)
          else decode_loop src 0 pos1 len1 (off + nat n) data2 } }
      else Some (data, 0, off, pos, len))"

text \<open>\<open>while (length > 0)\<close>: nothing to decode may be left.\<close>

fun swallow :: "cells \<Rightarrow> nat \<Rightarrow> nat \<Rightarrow> bool option" where
  "swallow src pos 0 = Some True"
| "swallow src pos (Suc len) = do { c \<leftarrow> rd src pos; if p1 c > 0 then Some False else swallow src (pos + 1) len }"

definition pl_base64_decode_buffer ::
  "'a PLBase64Decoder \<Rightarrow> cells \<Rightarrow> u32 \<Rightarrow> ('a PLBase64Decoder \<times> PRStatus) option" where
  "pl_base64_decode_buffer data src length0 = do {
     (data1, n, off, pos, len) \<leftarrow> decode_loop src (token_size data) 0 (unat length0) 0 (data\<lparr>token_size := 0\<rparr>);
     (data2, n2, off2) \<leftarrow> (if n < 0 then do {
         (n2, out) \<leftarrow> pl_base64_decode_token (token data1) (out_from data1 off);
         Some (set_out data1 off out, n2, off + nat n2) }
       else Some (data1, n, off));
     if n2 < 0 then Some (data2, PR_FAILURE None)
     else do {
       ok \<leftarrow> swallow src pos len;
       if ok then Some (data2\<lparr>dec_length := of_nat off2\<rparr>, PR_SUCCESS) else Some (data2, PR_FAILURE None) } }"

definition pl_base64_decode_flush ::
  "'a output_fn \<Rightarrow> 'a PLBase64Decoder \<Rightarrow> ('a PLBase64Decoder \<times> PRStatus) option" where
  "pl_base64_decode_flush output_fn data = do {
     t0 \<leftarrow> rd (token data) 0;
     if token_size data = 0 \<or> t0 = B64_PAD then Some (data, PR_SUCCESS)
     else do {
       let tok = take (token_size data) (token data) @ replicate (4 - token_size data) B64_PAD;
       let data1 = data\<lparr>token := tok, token_size := 0\<rparr>;
       (count, out) \<leftarrow> pl_base64_decode_token tok (out_from data1 (unat (dec_length data1)));
       let data2 = set_out data1 (unat (dec_length data1)) out;
       if count < 0 then Some (data2, PR_FAILURE None)
       else (case output_fn of
           Some f \<Rightarrow> do {
             buf \<leftarrow> dec_buffer data2;
             (arg, r) \<leftarrow> (if nat count \<le> length buf then f (dec_arg data2) (take (nat count) buf) count else None);
             Some (data2\<lparr>dec_arg := arg\<rparr>, if r < 0 then PR_FAILURE None else PR_SUCCESS) }
         | None \<Rightarrow> Some (data2\<lparr>dec_length := dec_length data2 + of_int count\<rparr>, PR_SUCCESS)) } }"

definition PL_Base64MaxDecodedLength :: "u32 \<Rightarrow> u32" where
  "PL_Base64MaxDecodedLength sz = sz * 3 div 4"

text \<open>\<open>PR_NEWZAP\<close>; \<open>arg\<close> is what \<open>output_arg\<close> will be.\<close>

definition pl_base64_create_decoder :: "bool \<Rightarrow> 'a \<Rightarrow> 'a PLBase64Decoder option" where
  "pl_base64_create_decoder new_ok arg =
     (if new_ok then Some \<lparr>token = [0, 0, 0, 0], token_size = 0, dec_arg = arg, dec_buffer = None, dec_buflen = 0, dec_length = 0\<rparr>
      else None)"

definition PL_CreateBase64Decoder ::
  "bool \<Rightarrow> 'a output_fn \<Rightarrow> 'a \<Rightarrow> 'a PLBase64Decoder option \<times> PRErrorCode option" where
  "PL_CreateBase64Decoder new_ok output_fn output_arg =
     (if output_fn = None then (None, Some PR_INVALID_ARGUMENT_ERROR)
      else (pl_base64_create_decoder new_ok output_arg, None))"

text \<open>The buffer of the decoder grows by \<open>realloc\<close>, which keeps the old cells as far as they fit.\<close>

definition PL_UpdateBase64Decoder ::
  "(u32 \<Rightarrow> cptr) \<Rightarrow> 'a output_fn \<Rightarrow> 'a PLBase64Decoder \<Rightarrow> cptr \<Rightarrow> u32 \<Rightarrow> ('a PLBase64Decoder \<times> PRStatus) option" where
  "PL_UpdateBase64Decoder malloc output_fn data buffer sz = (case buffer of
     None \<Rightarrow> Some (data, PR_FAILURE (Some PR_INVALID_ARGUMENT_ERROR))
   | Some src \<Rightarrow>
       if sz = 0 then Some (data, PR_FAILURE (Some PR_INVALID_ARGUMENT_ERROR))
       else
         let need_length = PL_Base64MaxDecodedLength (sz + of_nat (token_size data)) in
         (case (if need_length > dec_buflen data then
                  (case (case dec_buffer data of
                           Some b \<Rightarrow> map_option (\<lambda>m. take (length m) b @ drop (length b) m) (malloc need_length)
                         | None \<Rightarrow> malloc need_length) of
                     None \<Rightarrow> None
                   | Some b \<Rightarrow> Some (data\<lparr>dec_buffer := Some b, dec_buflen := need_length\<rparr>))
                else Some data) of
            None \<Rightarrow> Some (data, PR_FAILURE None)
          | Some data1 \<Rightarrow> do {
              (data2, status) \<leftarrow> pl_base64_decode_buffer (data1\<lparr>dec_length := 0\<rparr>) src sz;
              (data3, status3) \<leftarrow> (if status = PR_SUCCESS \<and> dec_length data2 > 0 then do {
                  f \<leftarrow> output_fn;
                  buf \<leftarrow> dec_buffer data2;
                  let n = dec_length data2;
                  (arg, r) \<leftarrow> (if unat n \<le> length buf then f (dec_arg data2) (take (unat n) buf) (sint n) else None);
                  Some (data2\<lparr>dec_arg := arg\<rparr>, if r < 0 then PR_FAILURE None else status) }
                else Some (data2, status));
              Some (data3\<lparr>dec_length := 0\<rparr>, status3) }))"

definition PL_DestroyBase64Decoder ::
  "'a output_fn \<Rightarrow> 'a PLBase64Decoder \<Rightarrow> bool \<Rightarrow> ('a PLBase64Decoder \<times> PRStatus) option" where
  "PL_DestroyBase64Decoder output_fn data abort_p =
     (if abort_p then Some (data, PR_SUCCESS) else pl_base64_decode_flush output_fn data)"

text \<open>The result is the buffer returned, and the length stored.\<close>

definition PL_Base64DecodeBuffer ::
  "bool \<Rightarrow> (u32 \<Rightarrow> cptr) \<Rightarrow> cells \<Rightarrow> u32 \<Rightarrow> cptr \<Rightarrow> u32 \<Rightarrow> (cptr \<times> u32 option \<times> PRErrorCode option) option" where
  "PL_Base64DecodeBuffer new_ok malloc src srclen dest maxdestlen0 =
     (if srclen = 0 then Some (dest, None, None)
      else
        let need_length = PL_Base64MaxDecodedLength srclen in
        if dest \<noteq> None \<and> maxdestlen0 < need_length then Some (None, None, Some PR_BUFFER_OVERFLOW_ERROR)
        else
          (case (case dest of None \<Rightarrow> malloc need_length | Some d \<Rightarrow> Some d) of
             None \<Rightarrow> Some (None, None, None)
           | Some output_buffer \<Rightarrow>
               let maxdestlen = (if dest \<noteq> None then maxdestlen0 else need_length) in
               (case pl_base64_create_decoder new_ok () of
                  None \<Rightarrow> Some (None, None, None)
                | Some data \<Rightarrow> do {
                    (data1, status) \<leftarrow> pl_base64_decode_buffer
                      (data\<lparr>dec_buflen := maxdestlen, dec_buffer := Some output_buffer\<rparr>) src srclen;
                    (data2, status2) \<leftarrow> (if status = PR_SUCCESS then pl_base64_decode_flush None data1 else Some (data1, status));
                    if status2 = PR_SUCCESS then do {
                      (_, status3) \<leftarrow> PL_DestroyBase64Decoder None (data2\<lparr>dec_buffer := None\<rparr>) False;
                      Some (if status3 = PR_SUCCESS then dec_buffer data2 else None, Some (dec_length data2), None) }
                    else Some (None, None, None) })))"

definition NSSBase64Decoder_Create :: "bool \<Rightarrow> bool \<Rightarrow> 'a output_fn \<Rightarrow> 'a \<Rightarrow> 'a PLBase64Decoder option" where
  "NSSBase64Decoder_Create cover_ok new_ok output_fn output_arg =
     (if \<not> cover_ok then None else fst (PL_CreateBase64Decoder new_ok output_fn output_arg))"

definition NSSBase64Decoder_Update ::
  "(u32 \<Rightarrow> cptr) \<Rightarrow> 'a output_fn \<Rightarrow> 'a PLBase64Decoder \<Rightarrow> cptr \<Rightarrow> u32 \<Rightarrow> ('a PLBase64Decoder \<times> PRStatus) option" where
  "NSSBase64Decoder_Update malloc output_fn data buffer sz = PL_UpdateBase64Decoder malloc output_fn data buffer sz"

definition NSSBase64Decoder_Destroy ::
  "'a output_fn \<Rightarrow> 'a PLBase64Decoder \<Rightarrow> bool \<Rightarrow> ('a PLBase64Decoder \<times> PRStatus) option" where
  "NSSBase64Decoder_Destroy output_fn data abort_p = PL_DestroyBase64Decoder output_fn data abort_p"

text \<open>An item is its data and its length. \<open>item_ok\<close>: the item was given, or could be allocated; \<open>alloc\<close> allocates the data, from
  the arena or the heap.\<close>

definition SECITEM_AllocItem :: "bool \<Rightarrow> (u32 \<Rightarrow> cptr) \<Rightarrow> u32 \<Rightarrow> (cptr \<times> u32) option" where
  "SECITEM_AllocItem item_ok alloc len =
     (if \<not> item_ok then None else Some (if len \<noteq> 0 then alloc len else None, len))"

text \<open>The data of the item is the buffer given to \<open>PL_Base64DecodeBuffer\<close>; when it is the null pointer it stays so.\<close>

definition NSSBase64_DecodeBuffer ::
  "bool \<Rightarrow> (u32 \<Rightarrow> cptr) \<Rightarrow> bool \<Rightarrow> (u32 \<Rightarrow> cptr) \<Rightarrow> cells \<Rightarrow> u32 \<Rightarrow> ((cptr \<times> u32) option) option" where
  "NSSBase64_DecodeBuffer new_ok malloc item_ok alloc inStr inLen =
     (let max_out_len = PL_Base64MaxDecodedLength inLen in
      case SECITEM_AllocItem item_ok alloc max_out_len of
        None \<Rightarrow> Some None
      | Some (d, _) \<Rightarrow> do {
          (dummy, out_len, _) \<leftarrow> PL_Base64DecodeBuffer new_ok malloc inStr inLen d max_out_len;
          case dummy of
            None \<Rightarrow> Some None
          | Some d1 \<Rightarrow> do { n \<leftarrow> out_len; Some (Some (if d = None then None else Some d1, n)) } })"

definition ATOB_AsciiToData ::
  "bool \<Rightarrow> (u32 \<Rightarrow> cptr) \<Rightarrow> (u32 \<Rightarrow> cptr) \<Rightarrow> cells \<Rightarrow> ((cptr \<times> u32) option) option" where
  "ATOB_AsciiToData new_ok malloc alloc string = do {
     n \<leftarrow> c_strlen string;
     NSSBase64_DecodeBuffer new_ok malloc True alloc string (of_nat n) }"

text \<open>\<open>given\<close>: the item to fill is not the null pointer.\<close>

definition ATOB_ConvertAsciiToItem ::
  "bool \<Rightarrow> (u32 \<Rightarrow> cptr) \<Rightarrow> (u32 \<Rightarrow> cptr) \<Rightarrow> bool \<Rightarrow> cells \<Rightarrow> ((cptr \<times> u32) option) option" where
  "ATOB_ConvertAsciiToItem new_ok malloc alloc given ascii =
     (if \<not> given then Some None
      else do {
        n \<leftarrow> c_strlen ascii;
        NSSBase64_DecodeBuffer new_ok malloc True alloc ascii (of_nat n) })"

declare encode_loop.simps [code] decode_loop.simps [code]

end
