(* ===== verification/Nss_Base64_Enc.thy ===== *)
theory Nss_Base64_Enc
  imports Nss_Base64 Pl_Base64
begin

text \<open>
  The encoder: it makes the tokens of \<open>Pl_Base64.b64\<close> and breaks the lines between them. The two ways it is used, with an output
  function and into a buffer, share the locale \<open>token_sink\<close>, the law of one token; in it the encoding of a piece of the
  input is proved, with the bytes that wait between the pieces.
\<close>

subsection \<open>Tokens and lines\<close>

fun b64_tokens :: "cells \<Rightarrow> cells list" where
  "b64_tokens (a # b # c # r) = b64 [a, b, c] # b64_tokens r"
| "b64_tokens [] = []"
| "b64_tokens r = [b64 r]"

text \<open>The tokens from a column on, each begun on a new line when the line is full, and the column they end at.\<close>

fun emit :: "nat \<Rightarrow> nat \<Rightarrow> cells list \<Rightarrow> cells" where
  "emit L col [] = []"
| "emit L col (q # qs) = (if L \<le> col then [B64_CR, B64_LF] @ q @ emit L 4 qs else q @ emit L (col + 4) qs)"

fun column :: "nat \<Rightarrow> nat \<Rightarrow> cells list \<Rightarrow> nat" where
  "column L col [] = col"
| "column L col (q # qs) = column L (if L \<le> col then 4 else col + 4) qs"

lemma emit_append: "emit L col (qs @ rs) = emit L col qs @ emit L (column L col qs) rs"
  by (induction qs arbitrary: col) simp_all

lemma column_append: "column L col (qs @ rs) = column L (column L col qs) rs"
  by (induction qs arbitrary: col) simp_all

text \<open>Lines of \<open>L\<close> characters with CR LF between them.\<close>

function lines :: "nat \<Rightarrow> cells \<Rightarrow> cells" where
  "lines L t = (if L = 0 \<or> length t \<le> L then t else take L t @ [B64_CR, B64_LF] @ lines L (drop L t))"
  by auto
termination by (relation "measure (\<lambda>(L, t). length t)") auto

declare lines.simps [simp del]

lemma token_length: "q \<in> set (b64_tokens xs) \<Longrightarrow> length q = 4"
  by (induction xs rule: b64_tokens.induct) (auto simp: Let_def length_b64)

lemma b64_tokens_concat: "concat (b64_tokens xs) = b64 xs"
  by (induction xs rule: b64_tokens.induct) (simp_all add: b64_3 [symmetric])

text \<open>The tokens up to the end of the current line.\<close>

lemma emit_lines:
  assumes "4 dvd L" and "0 < L"
  shows "\<lbrakk>\<forall>q\<in>set qs. length q = 4; 4 dvd col; col \<le> L\<rbrakk> \<Longrightarrow>
    emit L col qs = (if length (concat qs) \<le> L - col then concat qs
      else take (L - col) (concat qs) @ [B64_CR, B64_LF] @ lines L (drop (L - col) (concat qs)))"
proof (induction qs arbitrary: col)
  case (Cons q qs)
  have q: "length q = 4" and qs: "\<forall>q\<in>set qs. length q = 4" using Cons.prems(1) by simp_all
  have L: "4 \<le> L" using assms by (auto elim: dvdE)
  show ?case
  proof (cases "L \<le> col")
    case True
    then have c: "col = L" using Cons.prems(3) by simp
    have "lines L (q @ concat qs) = q @ emit L 4 qs"
      using q L assms(2) Cons.IH [OF qs, of 4] by (subst lines.simps) auto
    then show ?thesis using q c by simp
  next
    case False
    have "4 dvd L - col" using assms(1) Cons.prems(2) by simp
    then obtain k where "L - col = 4 * k" by (rule dvdE)
    then have c: "col + 4 \<le> L" using False by (cases k) simp_all
    then show ?thesis using q False Cons.IH [OF qs, of "col + 4"] Cons.prems(2) by auto
  qed
qed simp

lemma emit_lines_0:
  assumes "4 dvd L" and "0 < L"
  shows "emit L 0 (b64_tokens xs) = lines L (b64 xs)"
  using emit_lines [OF assms, of "b64_tokens xs" 0] assms(2) token_length [of _ xs]
  by (simp add: b64_tokens_concat lines.simps [of L "b64 xs"])

text \<open>The tokens that are complete, and the bytes behind them.\<close>

definition full_tokens :: "cells \<Rightarrow> cells list" where
  "full_tokens xs = b64_tokens (take (3 * (length xs div 3)) xs)"

definition waiting :: "cells \<Rightarrow> cells" where
  "waiting xs = drop (3 * (length xs div 3)) xs"

lemma waiting_length: "length (waiting xs) = length xs mod 3"
  by (simp add: waiting_def minus_mult_div_eq_mod [symmetric])

lemma b64_tokens_group: "length g = 3 \<Longrightarrow> b64_tokens (g @ r) = b64 g # b64_tokens r"
  by (auto simp: numeral_3_eq_3 length_Suc_conv)

lemma b64_tokens_append: "length xs mod 3 = 0 \<Longrightarrow> b64_tokens (xs @ ys) = b64_tokens xs @ b64_tokens ys"
proof (induction xs rule: b64_tokens.induct)
  case (1 a b c r)
  then have "length r mod 3 = 0" by (simp; presburger)
  with 1 show ?case by simp
qed simp_all

lemma b64_tokens_split: "b64_tokens xs = full_tokens xs @ b64_tokens (waiting xs)"
proof -
  have "length (take (3 * (length xs div 3)) xs) = 3 * (length xs div 3)" by (simp add: min_absorb2)
  then have "length (take (3 * (length xs div 3)) xs) mod 3 = 0" by simp
  from b64_tokens_append [OF this, of "waiting xs"] show ?thesis by (simp add: full_tokens_def waiting_def)
qed

lemma few_tokens: "length g < 3 \<Longrightarrow> full_tokens g = []" "length g < 3 \<Longrightarrow> waiting g = g"
  by (simp_all add: full_tokens_def waiting_def)

text \<open>More input: what waited goes first.\<close>

lemma full_tokens_append: "full_tokens (xs @ ys) = full_tokens xs @ full_tokens (waiting xs @ ys)"
  and waiting_append: "waiting (xs @ ys) = waiting (waiting xs @ ys)"
proof -
  define h where "h = take (3 * (length xs div 3)) xs"
  have xs: "xs = h @ waiting xs" "length h = 3 * (length xs div 3)" by (simp_all add: h_def waiting_def min_absorb2)
  have d: "length (xs @ ys) div 3 = length xs div 3 + length (waiting xs @ ys) div 3"
    using xs(2) arg_cong [OF xs(1), of length] by simp
  have t: "take (3 * (length (xs @ ys) div 3)) (xs @ ys) = h @ take (3 * (length (waiting xs @ ys) div 3)) (waiting xs @ ys)"
    unfolding d by (subst (2) xs(1)) (simp add: xs(2) distrib_left)
  show "full_tokens (xs @ ys) = full_tokens xs @ full_tokens (waiting xs @ ys)"
    unfolding full_tokens_def t by (simp add: b64_tokens_append xs(2) h_def)
  show "waiting (xs @ ys) = waiting (waiting xs @ ys)"
    unfolding waiting_def [of "xs @ ys"] d by (subst (2) xs(1)) (simp add: waiting_def xs(2) distrib_left)
qed

subsection \<open>The number of a token\<close>

definition be_num :: "cells \<Rightarrow> nat" where
  "be_num bs = foldl (\<lambda>n b. n * 256 + unat b) 0 bs"

lemma valuetocode: "base64_valuetocode = base64_tab"
  by (simp add: base64_valuetocode_def base64_tab_def)

lemma token_chars_digits: "token_chars n = [digit (unat n) 3, digit (unat n) 2, digit (unat n) 1, digit (unat n) 0]"
  by (simp add: token_chars_def valuetocode digit_def unat_digit)

lemma take_bytes_num:
  "\<lbrakk>pos + k \<le> length src; unat n < 256 ^ m; m + k \<le> 3\<rbrakk> \<Longrightarrow>
   \<exists>n1. take_bytes k n src pos = Some (n1, pos + k) \<and>
     unat n1 = foldl (\<lambda>n b. n * 256 + unat b) (unat n) (take k (drop pos src))"
proof (induction k arbitrary: n pos m)
  case (Suc k)
  have b: "rd src pos = Some (src ! pos)" using Suc.prems(1) by (simp add: rd_in)
  have m: "m \<le> 2" using Suc.prems(3) by simp
  have "256 ^ m \<le> (256 :: nat) ^ 2" using m by (rule power_increasing) simp
  then have "unat n * 2 ^ 8 < 2 ^ 32" using Suc.prems(2) by simp
  then have v: "unat (push_bit 8 n OR ucast (src ! pos)) = unat n * 256 + unat (src ! pos)"
    using unat_shift_or [of n 8 "ucast (src ! pos)"] unat_u8_less [of "src ! pos"] by simp
  have "unat n + 1 \<le> 256 ^ m" using Suc.prems(2) by simp
  then have "(unat n + 1) * 256 \<le> 256 ^ m * 256" by (rule mult_le_mono1)
  then have less: "unat (push_bit 8 n OR ucast (src ! pos)) < 256 ^ Suc m"
    unfolding v using unat_u8_less [of "src ! pos"] by simp
  from Suc.IH [OF _ less, of "pos + 1"] Suc.prems
  obtain n1 where n1: "take_bytes k (push_bit 8 n OR ucast (src ! pos)) src (pos + 1) = Some (n1, pos + 1 + k)"
    "unat n1 = foldl (\<lambda>n b. n * 256 + unat b) (unat n * 256 + unat (src ! pos)) (take k (drop (pos + 1) src))"
    by (auto simp: v)
  have "take (Suc k) (drop pos src) = src ! pos # take k (drop (pos + 1) src)"
    using Suc.prems(1) by (simp add: Cons_nth_drop_Suc [symmetric])
  then show ?case using n1 b by simp
qed simp

lemma be_num_b64:
  assumes "length bs = 3" and "unat n = be_num bs"
  shows "token_chars n = b64 bs"
proof -
  obtain a b c where bs: "bs = [a, b, c]" using assms(1) by (auto simp: numeral_3_eq_3 length_Suc_conv)
  then have "unat n = unat a * 65536 + unat b * 256 + unat c" using assms(2) by (simp add: be_num_def)
  then show ?thesis by (simp add: token_chars_digits bs b64.simps(4) Let_def)
qed

text \<open>A piece that completes the waiting token: what the loop over tokens starts with, and what will wait.\<close>

lemma encode_start:
  assumes buf: "in_buffer data = [p, q]" and i: "in_buffer_count data = i" "i \<le> 2"
    and n: "3 - i \<le> unat n" "unat n + 2 < 2 ^ 32" "unat n \<le> length src"
  defines "r \<equiv> (i + unat n) mod 3"
  shows "\<exists>b m. pl_base64_encode_buffer output_fn data src n =
      encode_loop output_fn (enc_buflen data - 3) src 0 (unat n - r) i m (data\<lparr>in_buffer := b, in_buffer_count := r\<rparr>) \<and>
    unat m = be_num (take i [p, q]) \<and> length b = 2 \<and> take r b = take r (drop (unat n - r) src)"
proof -
  have "i = 0 \<or> i = 1 \<or> i = 2" using i(2) by auto
  then have nlt: "\<not> n < of_nat (3 - i)" using n(1) by (auto simp: word_less_nat_alt)
  define off where "off = (n + of_nat i) mod 3"
  have "unat (n + of_nat i) = unat n + i"
    using n(2) i(2) by (simp add: unat_word_ariths unat_of_nat)
  moreover have "unat (3 :: u32) = 3" by simp
  ultimately have off: "unat off = r" by (simp only: off_def r_def unat_mod add.commute)
  have r: "r = 0 \<or> r = 1 \<or> r = 2" by (auto simp: r_def)
  have le: "r \<le> unat n" using n(1) i(2) by (simp add: r_def) presburger
  have sz: "unat (n - off) = unat n - r" using le off by (simp add: unat_sub word_le_nat_alt)
  define m :: u32 where "m = (if i = 0 then 0 else if i = 1 then ucast p else push_bit 8 (ucast p) OR ucast q)"
  have m: "unat m = be_num (take i [p, q])"
    using \<open>i = 0 \<or> i = 1 \<or> i = 2\<close> unat_shift_or [of "ucast p" 8 "ucast q"] unat_u8_less [of p] unat_u8_less [of q]
    by (auto simp: m_def be_num_def)
  have mm: "(if i > 0 then do {
                b0 \<leftarrow> rd (in_buffer data) 0;
                if i > 1 then do { b1 \<leftarrow> rd (in_buffer data) 1; Some (push_bit 8 (ucast b0) OR ucast b1) }
                else Some (ucast b0) }
              else Some 0) = Some m"
    using \<open>i = 0 \<or> i = 1 \<or> i = 2\<close> by (auto simp: m_def buf)
  define data1 where "data1 = data\<lparr>in_buffer_count := 0\<rparr>"
  have d1: "(if i > 0 then data\<lparr>in_buffer_count := 0\<rparr> else data) = data1"
    using i(1) by (cases data) (auto simp: data1_def)
  have rest: "\<exists>b. (if off > 0 then do {
            let size1 = n - off;
            b0 \<leftarrow> rd src (unat size1);
            buf \<leftarrow> wr (in_buffer data1) 0 b0;
            buf1 \<leftarrow> (if off > 1 then do { b1 \<leftarrow> rd src (unat (size1 + 1)); wr buf 1 b1 } else Some buf);
            Some (size1, data1\<lparr>in_buffer := buf1, in_buffer_count := unat off\<rparr>) }
          else Some (n, data1)) = Some (n - off, data\<lparr>in_buffer := b, in_buffer_count := r\<rparr>) \<and>
      length b = 2 \<and> take r b = take r (drop (unat n - r) src)" (is "\<exists>b. ?p b")
  proof (cases "r = 0")
    case True
    then have "off = 0" using off by (simp add: unat_eq_0)
    then have "?p [p, q]" using True buf by (cases data) (simp add: data1_def)
    then show ?thesis ..
  next
    case False
    then have "0 < off" "off > 1 \<longleftrightarrow> r = 2" "r = 1 \<or> r = 2" using off r by (auto simp: word_less_nat_alt)
    moreover have "r = 2 \<longrightarrow> unat (n - off + 1) = unat n - 1"
      using sz n(2) le by (auto simp: unat_word_ariths)
    moreover have "unat n - r < length src" "unat n - 1 < length src" "0 < unat n" using False le n(3) by auto
    moreover have "drop (unat n - r) src = src ! (unat n - r) # drop (Suc (unat n - r)) src"
      using False le n(3) by (intro Cons_nth_drop_Suc [symmetric]) auto
    moreover have "r = 2 \<Longrightarrow> drop (Suc (unat n - r)) src = src ! (unat n - 1) # drop (unat n) src"
      using le n(3) Cons_nth_drop_Suc [of "unat n - 1" src] by (simp add: Suc_diff_Suc numeral_2_eq_2)
    ultimately show ?thesis
      using sz off by (auto simp: data1_def buf rd_in wr_def)
  qed
  then obtain b where b: "?p b" by blast
  then show ?thesis
    unfolding pl_base64_encode_buffer_def Let_def i(1) off_def [symmetric] mm d1
    using nlt m sz by simp blast
qed

lemma padded_token:
  "(token_chars (push_bit 16 (ucast a)))[2 := B64_PAD, 3 := B64_PAD] = b64 [a]"
  "(token_chars (push_bit 16 (ucast a) OR push_bit 8 (ucast b)))[3 := B64_PAD] = b64 [a, b]"
proof -
  have 1: "unat (push_bit 16 (ucast a) :: u32) = unat a * 65536"
    using unat_shift [of "ucast a" 16] unat_u8_less [of a] by simp
  have 2: "unat (push_bit 8 (ucast b) :: u32) = unat b * 256"
    using unat_shift [of "ucast b" 8] unat_u8_less [of b] by simp
  have 3: "unat (push_bit 16 (ucast a) OR push_bit 8 (ucast b) :: u32) = unat a * 65536 + unat b * 256"
    using unat_shift_or [of "ucast a" 16 "push_bit 8 (ucast b)"] 2 unat_u8_less [of a] unat_u8_less [of b] by simp
  show "(token_chars (push_bit 16 (ucast a)))[2 := B64_PAD, 3 := B64_PAD] = b64 [a]"
    by (simp add: token_chars_digits 1 Let_def)
  show "(token_chars (push_bit 16 (ucast a) OR push_bit 8 (ucast b)))[3 := B64_PAD] = b64 [a, b]"
    by (simp add: token_chars_digits 3 Let_def)
qed

subsection \<open>A sink for tokens\<close>

text \<open>\<open>keeps data t k\<close>: the text so far is \<open>t\<close>, and there is room for \<open>k\<close> tokens more; \<open>wrote data t\<close>: the text is \<open>t\<close>;
  \<open>ended data t\<close>: all of the text \<open>t\<close> is where the caller finds it.\<close>

locale token_sink =
  fixes output_fn :: "'a output_fn"
    and L :: nat
    and keeps :: "'a PLBase64Encoder \<Rightarrow> cells \<Rightarrow> nat \<Rightarrow> bool"
    and wrote ended :: "'a PLBase64Encoder \<Rightarrow> cells \<Rightarrow> bool"
  assumes keeps_input: "keeps (data\<lparr>in_buffer := b, in_buffer_count := c\<rparr>) t k = keeps data t k"
    and token: "keeps data t (Suc k) \<Longrightarrow> again \<longrightarrow> 0 < k \<Longrightarrow>
      \<exists>data1. emit_token output_fn (enc_buflen data - 3) again n data = Some (data1, PR_SUCCESS) \<and>
        keeps data1 (t @ (if L \<le> unat (current_column data) then [B64_CR, B64_LF] else []) @ token_chars n) k \<and>
        unat (current_column data1) = (if L \<le> unat (current_column data) then 4 else unat (current_column data) + 4) \<and>
        in_buffer data1 = in_buffer data \<and> in_buffer_count data1 = in_buffer_count data \<and>
        enc_buflen data1 = enc_buflen data"
    and last_token: "keeps data t (Suc k) \<Longrightarrow> length cs = 4 \<Longrightarrow>
      \<exists>data1 data2. line_break data = Some data1 \<and> put_out cs data1 = Some data2 \<and>
        wrote data2 (t @ (if L \<le> unat (current_column data) then [B64_CR, B64_LF] else []) @ cs) \<and>
        in_buffer_count data2 = in_buffer_count data"
    and kept: "keeps data t k \<Longrightarrow> wrote data t"
    and finish: "wrote data t \<Longrightarrow>
      \<exists>data1. (case output_fn of
          Some f \<Rightarrow> do {
            (arg, r) \<leftarrow> write_out f data;
            Some (data\<lparr>enc_arg := arg, enc_length := 0\<rparr>, if r < 0 then PR_FAILURE None else PR_SUCCESS) }
        | None \<Rightarrow> Some (data, PR_SUCCESS)) = Some (data1, PR_SUCCESS) \<and> ended data1 t \<and>
        in_buffer_count data1 = in_buffer_count data"
    and nothing_left: "wrote data t \<Longrightarrow> enc_length data = 0 \<Longrightarrow> ended data t"
begin

lemma loop:
  assumes "fin \<le> length src" and "pos \<le> fin" and "length ws \<le> 2" and "pos = fin \<longrightarrow> ws = []"
    and "(length ws + (fin - pos)) mod 3 = 0"
  defines "bs \<equiv> ws @ take (fin - pos) (drop pos src)"
  assumes "keeps data t (length bs div 3 + k)" and "unat n = be_num ws" and "threshold = enc_buflen data - 3"
  shows "\<exists>data1. encode_loop output_fn threshold src pos fin (length ws) n data = Some (data1, PR_SUCCESS) \<and>
    keeps data1 (t @ emit L (unat (current_column data)) (b64_tokens bs)) k \<and>
    unat (current_column data1) = column L (unat (current_column data)) (b64_tokens bs) \<and>
    in_buffer data1 = in_buffer data \<and> in_buffer_count data1 = in_buffer_count data \<and>
    enc_buflen data1 = enc_buflen data"
  using assms(1-5,7-9) unfolding bs_def
proof (induction "fin - pos" arbitrary: pos ws data t n rule: less_induct)
  case less
  show ?case
  proof (cases "pos = fin")
    case True
    then show ?thesis using less.prems by (simp add: encode_loop.simps [of _ _ _ fin])
  next
    case False
    define w where "w = 3 - length ws"
    define x where "x = take w (drop pos src)"
    define pos1 where "pos1 = pos + w"
    define rest where "rest = take (fin - pos1) (drop pos1 src)"
    have w: "1 \<le> w" "w \<le> 3" "length ws + w = 3" using less.prems(3) by (simp_all add: w_def)
    have "0 < length ws + (fin - pos)" using False less.prems(2) by simp
    then have ge: "3 \<le> length ws + (fin - pos)" using less.prems(5) by presburger
    then have le: "pos1 \<le> fin" using w less.prems(2) by (simp add: pos1_def)
    have x: "length x = w" using le less.prems(1) by (simp add: x_def pos1_def)
    have bs: "ws @ take (fin - pos) (drop pos src) = (ws @ x) @ rest"
    proof -
      have "fin - pos = w + (fin - pos1)" using le by (simp add: pos1_def)
      then show ?thesis by (simp add: x_def rest_def pos1_def take_add add.commute)
    qed
    have r3: "(fin - pos1) mod 3 = 0"
    proof -
      have "length ws + (fin - pos) = 3 + (fin - pos1)" using le w by (simp add: pos1_def)
      then show ?thesis using less.prems(5) by simp
    qed
    have rl: "length rest = fin - pos1" using less.prems(1) by (simp add: rest_def)
    have len: "length (ws @ take (fin - pos) (drop pos src)) div 3 + k = Suc (length rest div 3 + k)"
      unfolding bs using x w by simp
    have "unat n < 256 ^ length ws"
    proof -
      have "foldl (\<lambda>n b. n * 256 + unat (b :: u8)) 0 vs < 256 ^ length vs" for vs
      proof (induction vs rule: rev_induct)
        case (snoc v vs)
        then have "(foldl (\<lambda>n b. n * 256 + unat b) 0 vs + 1) * 256 \<le> 256 ^ length vs * 256" by (intro mult_le_mono1) simp
        then show ?case using unat_u8_less [of v] by simp
      qed simp
      then show ?thesis using less.prems(7) by (simp add: be_num_def)
    qed
    from take_bytes_num [OF _ this, of pos w src] w le less.prems(1)
    obtain n1 where n1: "take_bytes w n src pos = Some (n1, pos1)" "unat n1 = be_num (ws @ x)"
      by (auto simp: less.prems(7) be_num_def x_def pos1_def)
    have tc: "token_chars n1 = b64 (ws @ x)" by (rule be_num_b64) (use x w n1 in simp_all)
    have k: "(pos1 < fin) \<longrightarrow> 0 < length rest div 3 + k" using r3 rl by (auto simp: mod_eq_0_iff_dvd elim!: dvdE)
    from token [OF less.prems(6) [unfolded len] this, of n1] obtain data1 where
      d1: "emit_token output_fn threshold (pos1 < fin) n1 data = Some (data1, PR_SUCCESS)"
        "keeps data1 (t @ (if L \<le> unat (current_column data) then [B64_CR, B64_LF] else []) @ b64 (ws @ x)) (length rest div 3 + k)"
        "unat (current_column data1) = (if L \<le> unat (current_column data) then 4 else unat (current_column data) + 4)"
        "in_buffer data1 = in_buffer data" "in_buffer_count data1 = in_buffer_count data" "enc_buflen data1 = enc_buflen data"
      by (auto simp: tc less.prems(8))
    have dec: "fin - pos1 < fin - pos" using le w by (simp add: pos1_def)
    obtain data2 where d2: "encode_loop output_fn threshold src pos1 fin 0 0 data1 = Some (data2, PR_SUCCESS)"
        "keeps data2 ((t @ (if L \<le> unat (current_column data) then [B64_CR, B64_LF] else []) @ b64 (ws @ x)) @
          emit L (unat (current_column data1)) (b64_tokens rest)) k"
        "unat (current_column data2) = column L (unat (current_column data1)) (b64_tokens rest)"
        "in_buffer data2 = in_buffer data1" "in_buffer_count data2 = in_buffer_count data1" "enc_buflen data2 = enc_buflen data1"
      using less.hyps [OF dec less.prems(1) le, of "[]" data1
          "t @ (if L \<le> unat (current_column data) then [B64_CR, B64_LF] else []) @ b64 (ws @ x)" 0] d1(2,6) r3 less.prems(8)
      unfolding rest_def by (simp add: be_num_def) blast
    have "length (ws @ x) = 3" using x w by simp
    then have tk: "b64_tokens (ws @ take (fin - pos) (drop pos src)) = b64 (ws @ x) # b64_tokens rest"
      unfolding bs by (rule b64_tokens_group)
    have run: "encode_loop output_fn threshold src pos fin (length ws) n data = Some (data2, PR_SUCCESS)"
      using n1 d1 d2 False less.prems(2) by (subst encode_loop.simps) (simp add: w_def)
    show ?thesis unfolding tk using run d1 d2 by (cases "L \<le> unat (current_column data)") auto
  qed
qed

text \<open>After the input \<open>xs\<close>: the text of the complete tokens, and the bytes that wait.\<close>

definition at :: "'a PLBase64Encoder \<Rightarrow> cells \<Rightarrow> nat \<Rightarrow> bool" where
  "at data xs k \<longleftrightarrow> keeps data (emit L 0 (full_tokens xs)) k \<and> unat (current_column data) = column L 0 (full_tokens xs) \<and>
     length (in_buffer data) = 2 \<and> in_buffer_count data = length xs mod 3 \<and>
     take (in_buffer_count data) (in_buffer data) = waiting xs"

lemma small_piece:
  assumes at: "at data xs k" and src: "0 < unat n" "unat n \<le> length src" and small: "unat n < 3 - length xs mod 3"
  shows "\<exists>data1. pl_base64_encode_buffer output_fn data src n = Some (data1, PR_SUCCESS) \<and>
    at data1 (xs @ take (unat n) src) k \<and> enc_buflen data1 = enc_buflen data"
proof -
  define i where "i = length xs mod 3"
  have i: "in_buffer_count data = i" "i \<le> 1" using at src small by (auto simp: at_def i_def)
  have "i = 0 \<or> i = 1" using i(2) by auto
  then have lt: "n < of_nat (3 - i)" using small by (auto simp: word_less_nat_alt i_def [symmetric])
  have gt: "1 < n \<longleftrightarrow> unat n = 2" using src small by (auto simp: word_less_nat_alt i_def)
  obtain p q where buf: "in_buffer data = [p, q]"
    using at by (auto simp: at_def numeral_2_eq_2 length_Suc_conv)
  have w: "waiting xs = take i [p, q]" using at unfolding at_def buf i(1) by (elim conjE) (rule sym)
  have l: "length (waiting xs @ take (unat n) src) < 3"
    using small src by (simp add: waiting_length)
  have ft: "full_tokens (xs @ take (unat n) src) = full_tokens xs"
    and wt: "waiting (xs @ take (unat n) src) = waiting xs @ take (unat n) src"
    using few_tokens [OF l] by (simp_all only: full_tokens_append [of xs] waiting_append [of xs "take (unat n) src"] append_Nil2)
  have len: "length (xs @ take (unat n) src) mod 3 = i + unat n"
  proof -
    have "length (xs @ take (unat n) src) mod 3 = length (waiting xs @ take (unat n) src)" by (simp only: waiting_length [symmetric] wt)
    also have "\<dots> = i + unat n" using src(2) by (simp add: waiting_length i_def)
    finally show ?thesis .
  qed
  show ?thesis
  proof (cases "unat n = 2")
    case True
    then have "i = 0" using small by (simp add: i_def)
    moreover obtain b0 b1 r where "src = b0 # b1 # r" using src True by (cases src; cases "tl src") auto
    ultimately show ?thesis
      using at True i lt gt len w unfolding pl_base64_encode_buffer_def at_def ft wt
      by (auto simp: buf keeps_input wr_def)
  next
    case False
    then have 1: "unat n = 1" using src small by (simp add: i_def)
    moreover obtain b0 r where "src = b0 # r" using src by (cases src) auto
    ultimately show ?thesis
      using at i(1) \<open>i = 0 \<or> i = 1\<close> lt gt len w unfolding pl_base64_encode_buffer_def at_def ft wt
      by (auto simp: buf keeps_input wr_def)
  qed
qed

lemma large_piece:
  assumes at: "at data xs ((length xs mod 3 + unat n) div 3 + k)"
    and n: "3 - length xs mod 3 \<le> unat n" "unat n + 2 < 2 ^ 32" "unat n \<le> length src"
  shows "\<exists>data1. pl_base64_encode_buffer output_fn data src n = Some (data1, PR_SUCCESS) \<and>
    at data1 (xs @ take (unat n) src) k \<and> enc_buflen data1 = enc_buflen data"
proof -
  define i where "i = length xs mod 3"
  define r where "r = (i + unat n) mod 3"
  define fin where "fin = unat n - r"
  have i: "in_buffer_count data = i" "i \<le> 2" "length (waiting xs) = i"
    using at by (auto simp: at_def i_def waiting_length)
  obtain p q where buf: "in_buffer data = [p, q]"
    using at by (auto simp: at_def numeral_2_eq_2 length_Suc_conv)
  have w: "waiting xs = take i [p, q]" using at unfolding at_def buf i(1) by (elim conjE) (rule sym)
  from encode_start [OF buf i(1,2) n(1) [folded i_def] n(2,3), of output_fn] obtain b m where
    run: "pl_base64_encode_buffer output_fn data src n =
      encode_loop output_fn (enc_buflen data - 3) src 0 fin i m (data\<lparr>in_buffer := b, in_buffer_count := r\<rparr>)"
    and m: "unat m = be_num (waiting xs)" and b: "length b = 2" "take r b = take r (drop fin src)"
    unfolding r_def fin_def w by auto
  have r: "r \<le> 2" "r \<le> unat n" using n(1) by (simp_all add: r_def i_def) presburger
  have tot: "i + unat n = (i + fin) + r" using r by (simp add: fin_def)
  have mod: "(i + fin) mod 3 = 0" "i + fin = 3 * ((i + unat n) div 3)"
    using r by (simp_all add: fin_def r_def) presburger+
  define ys where "ys = take (unat n) src"
  have ys: "ys = take fin src @ take r (drop fin src)" "length ys = unat n"
    using r n(3) by (simp_all add: ys_def fin_def take_add [symmetric])
  have lw: "length (waiting xs @ ys) div 3 = (i + unat n) div 3" by (simp add: i(3) ys(2))
  have "length (waiting xs @ take fin src) = 3 * ((i + unat n) div 3)"
    using mod(2) i(3) n(3) by (simp add: fin_def min_absorb2)
  moreover have "waiting xs @ ys = (waiting xs @ take fin src) @ take r (drop fin src)" by (simp only: ys(1) append_assoc)
  ultimately have cut: "take (3 * ((i + unat n) div 3)) (waiting xs @ ys) = waiting xs @ take fin src"
    "drop (3 * ((i + unat n) div 3)) (waiting xs @ ys) = take r (drop fin src)"
    by (metis append_eq_conv_conj)+
  then have tk: "full_tokens (waiting xs @ ys) = b64_tokens (waiting xs @ take fin src)"
    and wt: "waiting (waiting xs @ ys) = take r (drop fin src)"
    by (simp_all only: full_tokens_def waiting_def [of "waiting xs @ ys"] lw)
  define data0 where "data0 = data\<lparr>in_buffer := b, in_buffer_count := r\<rparr>"
  have k0: "keeps data0 (emit L 0 (full_tokens xs)) (length (waiting xs @ take (fin - 0) (drop 0 src)) div 3 + k)"
  proof -
    have "length (waiting xs @ take (fin - 0) (drop 0 src)) div 3 = (i + unat n) div 3"
      using arg_cong [OF cut(1), of length] mod(2) i(3) n(3) by (simp add: fin_def)
    then show ?thesis using at by (simp add: at_def data0_def keeps_input i_def)
  qed
  have col: "unat (current_column data0) = column L 0 (full_tokens xs)" using at by (simp add: at_def data0_def)
  have flds: "in_buffer data0 = b" "in_buffer_count data0 = r" "enc_buflen data0 = enc_buflen data" by (simp_all add: data0_def)
  have "\<exists>data1. encode_loop output_fn (enc_buflen data - 3) src 0 fin (length (waiting xs)) m data0 = Some (data1, PR_SUCCESS) \<and>
    keeps data1 (emit L 0 (full_tokens xs) @ emit L (unat (current_column data0)) (b64_tokens (waiting xs @ take (fin - 0) (drop 0 src)))) k \<and>
    unat (current_column data1) = column L (unat (current_column data0)) (b64_tokens (waiting xs @ take (fin - 0) (drop 0 src))) \<and>
    in_buffer data1 = in_buffer data0 \<and> in_buffer_count data1 = in_buffer_count data0 \<and> enc_buflen data1 = enc_buflen data0"
  proof (rule loop)
    show "0 = fin \<longrightarrow> waiting xs = []" using mod(2) i(2,3) by (cases "(i + unat n) div 3") auto
  qed (use k0 m n i mod in \<open>simp_all add: data0_def fin_def\<close>)
  then obtain data1 where "encode_loop output_fn (enc_buflen data - 3) src 0 fin i m data0 = Some (data1, PR_SUCCESS)"
    "keeps data1 (emit L 0 (full_tokens (xs @ ys))) k" "unat (current_column data1) = column L 0 (full_tokens (xs @ ys))"
    "in_buffer data1 = b" "in_buffer_count data1 = r" "enc_buflen data1 = enc_buflen data"
    by (auto simp: col flds full_tokens_append [of xs ys] tk emit_append column_append i(3))
  moreover have "length (xs @ ys) mod 3 = r" by (simp add: ys(2) r_def i_def mod_add_left_eq)
  moreover have "waiting (xs @ ys) = take r b" unfolding waiting_append [of xs ys] wt b(2) ..
  ultimately show ?thesis using run b(1) by (simp add: at_def data0_def ys_def)
qed

lemma keeps_count: "keeps (data\<lparr>in_buffer_count := c\<rparr>) t k = keeps data t k"
  using keeps_input [where data = data and b = "in_buffer data" and c = c] by (cases data) simp

lemma flush:
  assumes at: "at data xs k" and k: "length xs mod 3 \<noteq> 0 \<Longrightarrow> 0 < k"
  shows "\<exists>data1. pl_base64_encode_flush output_fn data = Some (data1, PR_SUCCESS) \<and> ended data1 (emit L 0 (b64_tokens xs)) \<and>
    in_buffer_count data1 = 0"
proof -
  define i where "i = in_buffer_count data"
  have i: "i = length xs mod 3" "length (waiting xs) = i" "i \<le> 2" using at by (auto simp: at_def i_def waiting_length)
  obtain p q where buf: "in_buffer data = [p, q]"
    using at by (auto simp: at_def numeral_2_eq_2 length_Suc_conv)
  have w: "waiting xs = take i [p, q]" using at unfolding at_def buf i_def by (elim conjE) (rule sym)
  define t where "t = emit L 0 (full_tokens xs)"
  define brk where "brk = (if L \<le> unat (current_column data) then [B64_CR, B64_LF] else [])"
  have keeps: "keeps data t k" and col: "unat (current_column data) = column L 0 (full_tokens xs)"
    using at by (simp_all add: at_def t_def)
  have tk: "emit L 0 (b64_tokens xs) = (if i = 0 then t else t @ brk @ b64 (waiting xs))"
  proof -
    have "b64_tokens (waiting xs) = (if i = 0 then [] else [b64 (waiting xs)])"
      using w i(2,3) by (auto simp: le_Suc_eq numeral_2_eq_2)
    then show ?thesis by (simp add: b64_tokens_split [of xs] emit_append t_def brk_def col)
  qed
  show ?thesis
  proof (cases "i = 0")
    case True
    then show ?thesis using nothing_left [OF kept [OF keeps]] finish [OF kept [OF keeps]] i_def
      by (cases "enc_length data = 0") (simp_all add: pl_base64_encode_flush_def tk)
  next
    case False
    then obtain k' where "k = Suc k'" using k i(1) by (cases k) auto
    then have "keeps (data\<lparr>in_buffer_count := 0\<rparr>) t (Suc k')" using keeps by (simp add: keeps_count)
    moreover have "length (b64 (waiting xs)) = 4" using False i(2,3) by (auto simp: length_b64 le_Suc_eq numeral_2_eq_2)
    ultimately obtain data1 data2 where
      "line_break (data\<lparr>in_buffer_count := 0\<rparr>) = Some data1" "put_out (b64 (waiting xs)) data1 = Some data2"
      "wrote data2 (t @ brk @ b64 (waiting xs))" "in_buffer_count data2 = 0"
      using last_token [of "data\<lparr>in_buffer_count := 0\<rparr>" t k' "b64 (waiting xs)"] by (auto simp: brk_def)
    moreover from False i(3) have "i = 1 \<or> i = 2" by auto
    ultimately show ?thesis using finish [of data2] False
      unfolding pl_base64_encode_flush_def i_def [symmetric] tk
      by (auto simp: buf w Let_def padded_token)
  qed
qed

lemma piece:
  assumes "at data xs ((length xs mod 3 + unat n) div 3 + k)" and "0 < unat n" "unat n + 2 < 2 ^ 32" "unat n \<le> length src"
  shows "\<exists>data1. pl_base64_encode_buffer output_fn data src n = Some (data1, PR_SUCCESS) \<and>
    at data1 (xs @ take (unat n) src) k \<and> enc_buflen data1 = enc_buflen data"
proof (cases "unat n < 3 - length xs mod 3")
  case True
  then have "(length xs mod 3 + unat n) div 3 = 0" by simp
  then show ?thesis using small_piece [OF _ assms(2,4) True] assms(1) by simp
next
  case False
  then show ?thesis using large_piece [OF assms(1) _ assms(3,4)] by simp
qed

end

subsection \<open>The two sinks\<close>

text \<open>A buffer with characters written at an offset.\<close>

definition patch :: "cells \<Rightarrow> nat \<Rightarrow> cells \<Rightarrow> cells" where
  "patch buf n cs = take n buf @ cs @ drop (n + length cs) buf"

lemma patch_Nil [simp]: "patch buf n [] = buf"
  by (simp add: patch_def)

lemma length_patch [simp]: "n + length cs \<le> length buf \<Longrightarrow> length (patch buf n cs) = length buf"
  by (simp add: patch_def)

lemma take_patch [simp]: "n + length cs \<le> length buf \<Longrightarrow> take (n + length cs) (patch buf n cs) = take n buf @ cs"
  by (simp add: patch_def)

lemma patch_patch: "n + length cs \<le> length buf \<Longrightarrow> patch (patch buf n cs) (n + length cs) ds = patch buf n (cs @ ds)"
  by (simp add: patch_def add.assoc add.commute add.left_commute)

lemma put_out_at:
  assumes "enc_buffer data = Some buf" "unat (enc_length data) + length cs \<le> length buf"
  shows "put_out cs data =
    Some (data\<lparr>enc_buffer := Some (patch buf (unat (enc_length data)) cs), enc_length := enc_length data + of_nat (length cs)\<rparr>)"
  using assms by (simp add: put_out_def store_at_Some patch_def)

definition break_of :: "'a PLBase64Encoder \<Rightarrow> cells" where
  "break_of data = (if unat (line_length data) \<le> unat (current_column data) then [B64_CR, B64_LF] else [])"

text \<open>The line break, if one is due, and characters behind it.\<close>

lemma break_and_put:
  assumes buf: "enc_buffer data = Some buf" "0 < unat (line_length data)" and n: "n = unat (enc_length data)"
    and room: "n + length (break_of data @ cs) \<le> length buf" "n + length (break_of data @ cs) < 2 ^ 32"
  shows "line_break data = Some (data\<lparr>current_column := (if break_of data = [] then current_column data else 0),
      enc_buffer := Some (patch buf n (break_of data)), enc_length := enc_length data + of_nat (length (break_of data))\<rparr>)"
    and "put_out cs (data\<lparr>enc_buffer := Some (patch buf n (break_of data)),
        enc_length := enc_length data + of_nat (length (break_of data)), current_column := c\<rparr>) =
      Some (data\<lparr>current_column := c, enc_buffer := Some (patch buf n (break_of data @ cs)),
        enc_length := enc_length data + of_nat (length (break_of data @ cs))\<rparr>)"
    and "unat (enc_length data + of_nat (length (break_of data @ cs))) = n + length (break_of data @ cs)"
proof -
  have add: "unat (enc_length data + of_nat m) = n + m" if "m \<le> length (break_of data @ cs)" for m
    using room(2) that n by (simp add: unat_word_ariths unat_of_nat)
  show "line_break data = Some (data\<lparr>current_column := (if break_of data = [] then current_column data else 0),
      enc_buffer := Some (patch buf n (break_of data)), enc_length := enc_length data + of_nat (length (break_of data))\<rparr>)"
    using buf room(1) n by (cases data) (auto simp: line_break_def break_of_def word_less_nat_alt word_le_nat_alt put_out_at)
  show "put_out cs (data\<lparr>enc_buffer := Some (patch buf n (break_of data)),
        enc_length := enc_length data + of_nat (length (break_of data)), current_column := c\<rparr>) =
      Some (data\<lparr>current_column := c, enc_buffer := Some (patch buf n (break_of data @ cs)),
        enc_length := enc_length data + of_nat (length (break_of data @ cs))\<rparr>)"
    using room(1) add [of "length (break_of data)"] by (simp add: put_out_at patch_patch add.assoc)
  show "unat (enc_length data + of_nat (length (break_of data @ cs))) = n + length (break_of data @ cs)"
    by (rule add) simp
qed

lemma break_then_put:
  assumes "enc_buffer data = Some buf" "0 < unat (line_length data)" "n = unat (enc_length data)"
    and "n + length (break_of data @ cs) \<le> length buf" "n + length (break_of data @ cs) < 2 ^ 32"
  obtains data1 data2 where "line_break data = Some data1" "put_out cs data1 = Some data2"
    "enc_buffer data2 = Some (patch buf n (break_of data @ cs))" "unat (enc_length data2) = n + length (break_of data @ cs)"
    "enc_arg data2 = enc_arg data" "in_buffer_count data2 = in_buffer_count data"
proof -
  note bp = break_and_put [OF assms]
  define c0 where "c0 = (if break_of data = [] then current_column data else 0)"
  have "data\<lparr>current_column := c0, enc_buffer := Some (patch buf n (break_of data)), enc_length := enc_length data + of_nat (length (break_of data))\<rparr> =
    data\<lparr>enc_buffer := Some (patch buf n (break_of data)), enc_length := enc_length data + of_nat (length (break_of data)), current_column := c0\<rparr>"
    by (cases data) simp
  note lb = bp(1) [folded c0_def, unfolded this]
  show ?thesis by (rule that [OF lb bp(2)]) (use bp(3) in simp_all)
qed

text \<open>One token, up to the test of the threshold.\<close>

lemma emit_token_at:
  assumes buf: "enc_buffer data = Some buf" "0 < unat (line_length data)" and n: "n = unat (enc_length data)"
    and cs: "cs = break_of data @ token_chars w"
    and room: "n + length cs \<le> length buf" "n + length cs < 2 ^ 32"
    and col: "unat (current_column data) + 4 < 2 ^ 32"
  obtains data3 where "emit_token output_fn threshold again w data =
     (if enc_length data3 \<ge> threshold then
       (case output_fn of
          Some f \<Rightarrow> do {
            (arg, r) \<leftarrow> write_out f data3;
            if r < 0 then Some (data3\<lparr>enc_arg := arg\<rparr>, PR_FAILURE None)
            else Some (data3\<lparr>enc_arg := arg, enc_length := 0\<rparr>, PR_SUCCESS) }
        | None \<Rightarrow> Some (data3, if again then PR_FAILURE (Some PR_BUFFER_OVERFLOW_ERROR) else PR_SUCCESS))
     else Some (data3, PR_SUCCESS))"
    and "data3 = data\<lparr>current_column := current_column data3, enc_buffer := Some (patch buf n cs), enc_length := enc_length data3\<rparr>"
    and "unat (enc_length data3) = n + length cs"
    and "unat (current_column data3) = (if unat (line_length data) \<le> unat (current_column data) then 4 else unat (current_column data) + 4)"
proof -
  note bp = break_and_put [OF buf n room [unfolded cs]]
  obtain c0 b1 n1 where c0: "c0 = (if break_of data = [] then current_column data else 0)"
    and lb: "line_break data = Some (data\<lparr>current_column := c0, enc_buffer := Some b1, enc_length := n1\<rparr>)"
    and po: "\<And>c. put_out (token_chars w) (data\<lparr>enc_buffer := Some b1, enc_length := n1, current_column := c\<rparr>) =
      Some (data\<lparr>current_column := c, enc_buffer := Some (patch buf n cs), enc_length := enc_length data + of_nat (length cs)\<rparr>)"
    using bp(1,2) unfolding cs by blast
  define data3 where "data3 = data\<lparr>current_column := c0 + 4,
    enc_buffer := Some (patch buf n cs), enc_length := enc_length data + of_nat (length cs)\<rparr>"
  have "0 < line_length data" using buf(2) by (simp add: word_less_nat_alt)
  then have "emit_token output_fn threshold again w data =
     (if enc_length data3 \<ge> threshold then
       (case output_fn of
          Some f \<Rightarrow> do {
            (arg, r) \<leftarrow> write_out f data3;
            if r < 0 then Some (data3\<lparr>enc_arg := arg\<rparr>, PR_FAILURE None)
            else Some (data3\<lparr>enc_arg := arg, enc_length := 0\<rparr>, PR_SUCCESS) }
        | None \<Rightarrow> Some (data3, if again then PR_FAILURE (Some PR_BUFFER_OVERFLOW_ERROR) else PR_SUCCESS))
     else Some (data3, PR_SUCCESS))"
    unfolding emit_token_def data3_def by (simp add: lb po)
  moreover have "unat (enc_length data3) = n + length cs" unfolding cs using bp(3) by (simp add: data3_def cs)
  moreover have "unat (current_column data3) = (if unat (line_length data) \<le> unat (current_column data) then 4 else unat (current_column data) + 4)"
    using col by (simp add: data3_def c0 break_of_def unat_word_ariths)
  ultimately show ?thesis using that [of data3] by (simp add: data3_def)
qed

subsubsection \<open>An output function\<close>

text \<open>\<open>seen a\<close> is the text the object \<open>a\<close> has been given; the function takes any text.\<close>

definition takes_text :: "('a \<Rightarrow> cells \<Rightarrow> int \<Rightarrow> ('a \<times> int) option) \<Rightarrow> ('a \<Rightarrow> cells) \<Rightarrow> bool" where
  "takes_text f seen \<longleftrightarrow> (\<forall>a cs. \<exists>a' r. f a cs (int (length cs)) = Some (a', r) \<and> 0 \<le> r \<and> seen a' = seen a @ cs)"

definition stream_wrote where
  "stream_wrote f seen data t \<longleftrightarrow> takes_text f seen \<and> (\<exists>buf. enc_buffer data = Some buf \<and>
     unat (enc_length data) \<le> length buf \<and> unat (enc_length data) < 2 ^ 31 \<and> seen (enc_arg data) @ take (unat (enc_length data)) buf = t)"

definition stream_keeps where
  "stream_keeps f seen L data t k \<longleftrightarrow> stream_wrote f seen data t \<and> 4 dvd L \<and> 0 < L \<and> L + 6 < 2 ^ 31 \<and>
     unat (line_length data) = L \<and> unat (enc_buflen data) = L + 2 \<and> (\<exists>buf. enc_buffer data = Some buf \<and> L + 2 \<le> length buf) \<and>
     4 dvd unat (current_column data) \<and> unat (current_column data) \<le> L \<and>
     (if unat (current_column data) = L then enc_length data = 0
      else unat (enc_length data) = unat (current_column data) \<or> unat (enc_length data) = unat (current_column data) + 2)"

definition stream_ended where
  "stream_ended seen data t \<longleftrightarrow> seen (enc_arg data) = t"

lemma sint_small: "unat (n :: u32) < 2 ^ 31 \<Longrightarrow> sint n = int (unat n)"
proof -
  assume "unat n < 2 ^ 31"
  then have "unat n < 2147483648" by simp
  then have "int (unat n) < 2147483648" by linarith
  then have "0 \<le> uint n" "uint n < 2147483648" by (simp_all only: uint_nat)
  then have "sint n = uint n" unfolding sint_uint signed_take_bit_eq_take_bit_shift take_bit_eq_mod by simp
  then show ?thesis by (simp only: uint_nat)
qed

lemma write_out_text:
  assumes "stream_wrote f seen data t"
  obtains a' r where "write_out f data = Some (a', r)" "0 \<le> r" "seen a' = t"
proof -
  obtain buf where buf: "enc_buffer data = Some buf" "unat (enc_length data) \<le> length buf" "unat (enc_length data) < 2 ^ 31"
    "seen (enc_arg data) @ take (unat (enc_length data)) buf = t" and f: "takes_text f seen"
    using assms by (auto simp: stream_wrote_def)
  have "sint (enc_length data) = int (length (take (unat (enc_length data)) buf))"
    using buf(2,3) by (simp add: sint_small)
  then show ?thesis
    using f [unfolded takes_text_def, rule_format, of "enc_arg data" "take (unat (enc_length data)) buf"] buf that
    by (auto simp: write_out_def Let_def)
qed

lemma next_column: "\<lbrakk>4 dvd L; 4 dvd c; c < L\<rbrakk> \<Longrightarrow> c + 4 \<le> (L :: nat)"
  by presburger

lemma stream_room:
  assumes "stream_keeps f seen L data t k"
  obtains buf where "enc_buffer data = Some buf" "0 < unat (line_length data)" "L + 2 \<le> length buf"
    "unat (enc_length data) + length (break_of data) + 4 \<le> L + 2" "L + 6 < 2 ^ 31"
    "break_of data = (if L \<le> unat (current_column data) then [B64_CR, B64_LF] else [])"
    "seen (enc_arg data) @ take (unat (enc_length data)) buf = t" "takes_text f seen"
proof -
  have "unat (enc_length data) + length (break_of data) + 4 \<le> L + 2"
    using assms next_column [of L "unat (current_column data)"]
    by (cases "unat (current_column data) = L") (auto simp: stream_keeps_def break_of_def dest: dvd_imp_le)
  then show ?thesis using assms that by (auto simp: stream_keeps_def stream_wrote_def break_of_def)
qed

text \<open>One token, with the output function told that it succeeds.\<close>

lemma stream_token_step:
  fixes f :: "'a \<Rightarrow> cells \<Rightarrow> int \<Rightarrow> ('a \<times> int) option"
  assumes k: "stream_keeps f seen L data t k"
  defines "col \<equiv> unat (current_column data)"
  obtains data3 where
    "emit_token (Some f) (enc_buflen data - 3) again n data =
        (if L - 1 \<le> unat (enc_length data3) then do {
               (arg, r) \<leftarrow> write_out f data3;
               if r < 0 then Some (data3\<lparr>enc_arg := arg\<rparr>, PR_FAILURE None)
               else Some (data3\<lparr>enc_arg := arg, enc_length := 0\<rparr>, PR_SUCCESS) }
        else Some (data3, PR_SUCCESS))"
    "stream_wrote f seen data3 (t @ (if L \<le> col then [B64_CR, B64_LF] else []) @ token_chars n)"
    "unat (enc_length data3) = (if L \<le> col then 6 else unat (enc_length data) + 4)"
    "unat (current_column data3) = (if L \<le> col then 4 else col + 4)"
    "in_buffer data3 = in_buffer data" "in_buffer_count data3 = in_buffer_count data"
    "enc_buflen data3 = enc_buflen data" "line_length data3 = line_length data"
    "\<exists>b. enc_buffer data3 = Some b \<and> L + 2 \<le> length b"
proof -
  from k obtain buf where r: "enc_buffer data = Some buf" "0 < unat (line_length data)" "L + 2 \<le> length buf"
    "unat (enc_length data) + length (break_of data) + 4 \<le> L + 2" "L + 6 < 2 ^ 31"
    "break_of data = (if L \<le> unat (current_column data) then [B64_CR, B64_LF] else [])"
    "seen (enc_arg data) @ take (unat (enc_length data)) buf = t" "takes_text f seen" by (rule stream_room)
  have l4: "length (token_chars n) = 4" by (simp add: token_chars_def)
  define len where "len = unat (enc_length data)"
  define cs where "cs = break_of data @ token_chars n"
  have inv: "4 dvd L" "0 < L" "unat (line_length data) = L" "unat (enc_buflen data) = L + 2" "4 dvd col" "col \<le> L"
    "col = L \<Longrightarrow> len = 0" "col \<noteq> L \<Longrightarrow> len = col \<or> len = col + 2"
    using k by (auto simp: stream_keeps_def col_def len_def split: if_splits)
  have room: "len + length cs \<le> length buf" "len + length cs < 2 ^ 32" "unat (current_column data) + 4 < 2 ^ 32"
    using r(3-5) l4 inv(6) by (simp_all add: len_def cs_def col_def)
  have "4 \<le> L" using inv(1,2) by (auto dest: dvd_imp_le)
  then have "unat (enc_buflen data - 3) = L - 1" using inv(4) by (simp add: unat_sub word_le_nat_alt)
  then have thr: "enc_buflen data - 3 \<le> v \<longleftrightarrow> L - 1 \<le> unat v" for v by (simp add: word_le_nat_alt)
  from emit_token_at [OF r(1,2) len_def cs_def room] obtain data3 where
    run: "emit_token (Some f) (enc_buflen data - 3) again n data =
      (if enc_length data3 \<ge> enc_buflen data - 3 then
        (case Some f of
           Some f \<Rightarrow> do {
             (arg, r) \<leftarrow> write_out f data3;
             if r < 0 then Some (data3\<lparr>enc_arg := arg\<rparr>, PR_FAILURE None)
             else Some (data3\<lparr>enc_arg := arg, enc_length := 0\<rparr>, PR_SUCCESS) }
         | None \<Rightarrow> Some (data3, if again then PR_FAILURE (Some PR_BUFFER_OVERFLOW_ERROR) else PR_SUCCESS))
      else Some (data3, PR_SUCCESS))"
    and d3: "data3 = data\<lparr>current_column := current_column data3, enc_buffer := Some (patch buf len cs), enc_length := enc_length data3\<rparr>"
    and len3: "unat (enc_length data3) = len + length cs"
    and col3: "unat (current_column data3) = (if L \<le> col then 4 else col + 4)"
    unfolding inv(3) col_def [symmetric] by blast
  have flds: "enc_buffer data3 = Some (patch buf len cs)" "in_buffer data3 = in_buffer data" "in_buffer_count data3 = in_buffer_count data"
    "enc_buflen data3 = enc_buflen data" "enc_arg data3 = enc_arg data" "line_length data3 = line_length data"
    by (subst d3, simp)+
  have "seen (enc_arg data) @ take len buf @ cs = t @ cs" using r(7) by (simp add: len_def flip: append_assoc)
  then have wrote: "stream_wrote f seen data3 (t @ cs)"
    using r(3-5,8) l4 room(1) by (simp add: stream_wrote_def flds len3) (simp add: cs_def len_def)
  have lc: "len + length cs = (if L \<le> col then 6 else len + 4)" using inv(6,7) l4 by (simp add: cs_def r(6) col_def)
  have "\<exists>b. enc_buffer data3 = Some b \<and> L + 2 \<le> length b" using flds(1) r(3) room(1) by simp
  with run [unfolded thr option.case] wrote [unfolded cs_def r(6), folded col_def] len3 [unfolded lc, unfolded len_def] col3 flds(2,3,4,6)
  show ?thesis by (rule that)
qed

lemma stream_token:
  assumes k: "stream_keeps f seen L data t (Suc k)"
  shows "\<exists>data1. emit_token (Some f) (enc_buflen data - 3) again n data = Some (data1, PR_SUCCESS) \<and>
        stream_keeps f seen L data1 (t @ (if L \<le> unat (current_column data) then [B64_CR, B64_LF] else []) @ token_chars n) k \<and>
        unat (current_column data1) = (if L \<le> unat (current_column data) then 4 else unat (current_column data) + 4) \<and>
        in_buffer data1 = in_buffer data \<and> in_buffer_count data1 = in_buffer_count data \<and>
        enc_buflen data1 = enc_buflen data"
proof -
  define col where "col = unat (current_column data)"
  have inv: "4 dvd L" "0 < L" "L + 6 < 2 ^ 31" "unat (line_length data) = L" "unat (enc_buflen data) = L + 2" "4 dvd col" "col \<le> L"
    "col = L \<or> unat (enc_length data) = col \<or> unat (enc_length data) = col + 2"
    using k by (auto simp: stream_keeps_def col_def split: if_splits)
  have L4: "4 \<le> L" using inv(1,2) by (auto dest: dvd_imp_le)
  from stream_token_step [OF k, of again n, folded col_def] obtain data3 where d3:
    "emit_token (Some f) (enc_buflen data - 3) again n data =
        (if L - 1 \<le> unat (enc_length data3) then do {
               (arg, r) \<leftarrow> write_out f data3;
               if r < 0 then Some (data3\<lparr>enc_arg := arg\<rparr>, PR_FAILURE None)
               else Some (data3\<lparr>enc_arg := arg, enc_length := 0\<rparr>, PR_SUCCESS) }
        else Some (data3, PR_SUCCESS))"
    "stream_wrote f seen data3 (t @ (if L \<le> col then [B64_CR, B64_LF] else []) @ token_chars n)"
    "unat (enc_length data3) = (if L \<le> col then 6 else unat (enc_length data) + 4)"
    "unat (current_column data3) = (if L \<le> col then 4 else col + 4)"
    "in_buffer data3 = in_buffer data" "in_buffer_count data3 = in_buffer_count data"
    "enc_buflen data3 = enc_buflen data" "line_length data3 = line_length data"
    "\<exists>b. enc_buffer data3 = Some b \<and> L + 2 \<le> length b" .
  have col3: "4 dvd unat (current_column data3)" "unat (current_column data3) \<le> L"
    using d3(4) inv(6,7) next_column [OF inv(1,6)] L4 by (auto split: if_splits)
  show ?thesis
  proof (cases "unat (current_column data3) = L")
    case True
    then have "L - 1 \<le> unat (enc_length data3)" using d3(3,4) inv(8) by (auto split: if_splits)
    moreover obtain a' r where w: "write_out f data3 = Some (a', r)" "0 \<le> r"
      "seen a' = t @ (if L \<le> col then [B64_CR, B64_LF] else []) @ token_chars n"
      using d3(2) by (rule write_out_text)
    ultimately have "emit_token (Some f) (enc_buflen data - 3) again n data = Some (data3\<lparr>enc_arg := a', enc_length := 0\<rparr>, PR_SUCCESS)"
      using d3(1) by simp
    moreover have "stream_keeps f seen L (data3\<lparr>enc_arg := a', enc_length := 0\<rparr>)
        (t @ (if L \<le> col then [B64_CR, B64_LF] else []) @ token_chars n) k"
      using d3(2,7-9) w(3) inv col3 True by (auto simp: stream_keeps_def stream_wrote_def)
    ultimately show ?thesis using d3(4-7) unfolding col_def by simp
  next
    case False
    then have lt: "unat (current_column data3) + 4 \<le> L" using next_column [OF inv(1) col3(1)] col3(2) by simp
    then have len: "unat (enc_length data3) = unat (current_column data3) \<or> unat (enc_length data3) = unat (current_column data3) + 2"
      using d3(3,4) inv(7,8) by (auto split: if_splits)
    then have "\<not> L - 1 \<le> unat (enc_length data3)" using lt by auto
    then have "emit_token (Some f) (enc_buflen data - 3) again n data = Some (data3, PR_SUCCESS)" using d3(1) by simp
    moreover have "stream_keeps f seen L data3 (t @ (if L \<le> col then [B64_CR, B64_LF] else []) @ token_chars n) k"
      using d3(2,7-9) inv col3 False len by (simp add: stream_keeps_def)
    ultimately show ?thesis using d3(4-7) unfolding col_def by simp
  qed
qed

interpretation stream: token_sink "Some f" L "stream_keeps f seen L" "stream_wrote f seen" "stream_ended seen"
  for f :: "'a \<Rightarrow> cells \<Rightarrow> int \<Rightarrow> ('a \<times> int) option" and seen L
proof
  fix data :: "'a PLBase64Encoder" and b c t k
  show "stream_keeps f seen L (data\<lparr>in_buffer := b, in_buffer_count := c\<rparr>) t k = stream_keeps f seen L data t k"
    by (simp add: stream_keeps_def stream_wrote_def)
next
  fix data :: "'a PLBase64Encoder" and t k
  assume "stream_keeps f seen L data t k"
  then show "stream_wrote f seen data t" by (simp add: stream_keeps_def)
next
  fix data :: "'a PLBase64Encoder" and t
  assume "stream_wrote f seen data t"
  then show "\<exists>data1. (case Some f of
          Some f \<Rightarrow> do {
            (arg, r) \<leftarrow> write_out f data;
            Some (data\<lparr>enc_arg := arg, enc_length := 0\<rparr>, if r < 0 then PR_FAILURE None else PR_SUCCESS) }
        | None \<Rightarrow> Some (data, PR_SUCCESS)) = Some (data1, PR_SUCCESS) \<and> stream_ended seen data1 t \<and>
        in_buffer_count data1 = in_buffer_count data"
    by (rule write_out_text) (auto simp: stream_ended_def)
next
  fix data :: "'a PLBase64Encoder" and t
  assume "stream_wrote f seen data t" and "enc_length data = 0"
  then show "stream_ended seen data t" by (auto simp: stream_wrote_def stream_ended_def)
next
  fix data :: "'a PLBase64Encoder" and t k and cs :: cells
  assume k: "stream_keeps f seen L data t (Suc k)" and "length cs = 4"
  show "\<exists>data1 data2. line_break data = Some data1 \<and> put_out cs data1 = Some data2 \<and>
        stream_wrote f seen data2 (t @ (if L \<le> unat (current_column data) then [B64_CR, B64_LF] else []) @ cs) \<and>
        in_buffer_count data2 = in_buffer_count data"
  proof -
    from k obtain buf where r: "enc_buffer data = Some buf" "0 < unat (line_length data)" "L + 2 \<le> length buf"
      "unat (enc_length data) + length (break_of data) + 4 \<le> L + 2" "L + 6 < 2 ^ 31"
      "break_of data = (if L \<le> unat (current_column data) then [B64_CR, B64_LF] else [])"
      "seen (enc_arg data) @ take (unat (enc_length data)) buf = t" "takes_text f seen" by (rule stream_room)
    have "unat (enc_length data) + length (break_of data @ cs) \<le> length buf" using r(3,4) \<open>length cs = 4\<close> by simp
    moreover have "unat (enc_length data) + length (break_of data @ cs) < 2 ^ 32" using r(4,5) \<open>length cs = 4\<close> by simp
    ultimately obtain data1 data2 where "line_break data = Some data1" "put_out cs data1 = Some data2"
      "enc_buffer data2 = Some (patch buf (unat (enc_length data)) (break_of data @ cs))"
      "unat (enc_length data2) = unat (enc_length data) + length (break_of data @ cs)" "enc_arg data2 = enc_arg data"
      "in_buffer_count data2 = in_buffer_count data"
      by (rule break_then_put [OF r(1,2) refl])
    moreover have "seen (enc_arg data) @ take (unat (enc_length data)) buf @ break_of data @ cs = t @ break_of data @ cs"
      using r(7) by (simp flip: append_assoc)
    ultimately have "stream_wrote f seen data2 (t @ break_of data @ cs)"
      using r(3,4,5,8) \<open>length cs = 4\<close> take_patch [of "unat (enc_length data)" "break_of data @ cs" buf]
      by (simp add: stream_wrote_def)
    then show ?thesis
      using \<open>line_break data = Some data1\<close> \<open>put_out cs data1 = Some data2\<close> \<open>in_buffer_count data2 = in_buffer_count data\<close>
      unfolding r(6) by blast
  qed
next
  fix data :: "'a PLBase64Encoder" and t k again n
  assume "stream_keeps f seen L data t (Suc k)"
  then show "\<exists>data1. emit_token (Some f) (enc_buflen data - 3) again n data = Some (data1, PR_SUCCESS) \<and>
        stream_keeps f seen L data1 (t @ (if L \<le> unat (current_column data) then [B64_CR, B64_LF] else []) @ token_chars n) k \<and>
        unat (current_column data1) = (if L \<le> unat (current_column data) then 4 else unat (current_column data) + 4) \<and>
        in_buffer data1 = in_buffer data \<and> in_buffer_count data1 = in_buffer_count data \<and>
        enc_buflen data1 = enc_buflen data"
    by (rule stream_token)
qed

subsubsection \<open>A buffer\<close>

text \<open>The characters \<open>k\<close> tokens take from a column on.\<close>

fun need :: "nat \<Rightarrow> nat \<Rightarrow> nat \<Rightarrow> nat" where
  "need L col 0 = 0"
| "need L col (Suc k) = (if L \<le> col then 6 + need L 4 k else 4 + need L (col + 4) k)"

lemma need_emit: "\<forall>q\<in>set qs. length q = 4 \<Longrightarrow> need L col (length qs) = length (emit L col qs)"
  by (induction qs arbitrary: col) simp_all

lemma need_pos: "0 < k \<Longrightarrow> 4 \<le> need L col k"
  by (cases k) simp_all

definition buffer_wrote :: "nat \<Rightarrow> unit PLBase64Encoder \<Rightarrow> cells \<Rightarrow> bool" where
  "buffer_wrote B data t \<longleftrightarrow> (\<exists>buf. enc_buffer data = Some buf \<and> length buf = B \<and> unat (enc_length data) = length t \<and>
     length t \<le> B \<and> take (length t) buf = t)"

definition buffer_keeps :: "nat \<Rightarrow> nat \<Rightarrow> unit PLBase64Encoder \<Rightarrow> cells \<Rightarrow> nat \<Rightarrow> bool" where
  "buffer_keeps L B data t k \<longleftrightarrow> buffer_wrote B data t \<and> 0 < L \<and> L + 7 < 2 ^ 32 \<and> unat (line_length data) = L \<and>
     unat (current_column data) \<le> L + 3 \<and> unat (enc_buflen data) \<le> B \<and>
     length t + need L (unat (current_column data)) k \<le> unat (enc_buflen data)"

lemma buffer_room:
  assumes "buffer_keeps L B data t (Suc k)" and "length cs = 4"
  obtains buf where "enc_buffer data = Some buf" "0 < unat (line_length data)" "length t = unat (enc_length data)"
    "length t + length (break_of data @ cs) \<le> length buf" "length t + length (break_of data @ cs) < 2 ^ 32"
    "take (length t) buf = t" "length buf = B"
    "break_of data = (if L \<le> unat (current_column data) then [B64_CR, B64_LF] else [])"
proof -
  have "length t + length (break_of data @ cs) \<le> unat (enc_buflen data)"
    using assms by (auto simp: buffer_keeps_def break_of_def split: if_splits)
  moreover have "unat (enc_buflen data) < 2 ^ 32" using unsigned_less [of "enc_buflen data", where ?'a = nat] by simp
  moreover obtain buf where "enc_buffer data = Some buf" "length buf = B" "unat (enc_length data) = length t" "take (length t) buf = t"
    and "0 < L" "unat (line_length data) = L" "unat (enc_buflen data) \<le> B"
    using assms(1) unfolding buffer_keeps_def buffer_wrote_def by blast
  ultimately show ?thesis by (intro that [of buf]) (simp_all add: break_of_def)
qed

lemma buffer_token:
  assumes k: "buffer_keeps L B data t (Suc k)" and again: "again \<longrightarrow> 0 < k"
  shows "\<exists>data1. emit_token None (enc_buflen data - 3) again n data = Some (data1, PR_SUCCESS) \<and>
        buffer_keeps L B data1 (t @ (if L \<le> unat (current_column data) then [B64_CR, B64_LF] else []) @ token_chars n) k \<and>
        unat (current_column data1) = (if L \<le> unat (current_column data) then 4 else unat (current_column data) + 4) \<and>
        in_buffer data1 = in_buffer data \<and> in_buffer_count data1 = in_buffer_count data \<and>
        enc_buflen data1 = enc_buflen data"
proof -
  have l4: "length (token_chars n) = 4" by (simp add: token_chars_def)
  from k l4 obtain buf where r: "enc_buffer data = Some buf" "0 < unat (line_length data)" "length t = unat (enc_length data)"
    "length t + length (break_of data @ token_chars n) \<le> length buf" "length t + length (break_of data @ token_chars n) < 2 ^ 32"
    "take (length t) buf = t" "length buf = B"
    "break_of data = (if L \<le> unat (current_column data) then [B64_CR, B64_LF] else [])" by (rule buffer_room)
  define cs where "cs = break_of data @ token_chars n"
  have ll: "unat (line_length data) = L" "unat (current_column data) + 4 < 2 ^ 32" using k by (auto simp: buffer_keeps_def)
  from emit_token_at [OF r(1,2,3) cs_def r(4,5) [folded cs_def] ll(2)] obtain data3 where
    run: "emit_token None (enc_buflen data - 3) again n data =
        (if enc_length data3 \<ge> enc_buflen data - 3 then
          (case None of
             Some f \<Rightarrow> do {
               (arg, r) \<leftarrow> write_out f data3;
               if r < 0 then Some (data3\<lparr>enc_arg := arg\<rparr>, PR_FAILURE None)
               else Some (data3\<lparr>enc_arg := arg, enc_length := 0\<rparr>, PR_SUCCESS) }
           | None \<Rightarrow> Some (data3, if again then PR_FAILURE (Some PR_BUFFER_OVERFLOW_ERROR) else PR_SUCCESS))
        else Some (data3, PR_SUCCESS))"
    and d3: "data3 = data\<lparr>current_column := current_column data3, enc_buffer := Some (patch buf (length t) cs), enc_length := enc_length data3\<rparr>"
    and len3: "unat (enc_length data3) = length t + length cs"
    and col3: "unat (current_column data3) = (if L \<le> unat (current_column data) then 4 else unat (current_column data) + 4)"
    unfolding ll(1) by blast
  have flds: "enc_buffer data3 = Some (patch buf (length t) cs)" "in_buffer data3 = in_buffer data" "in_buffer_count data3 = in_buffer_count data"
    "enc_buflen data3 = enc_buflen data" "line_length data3 = line_length data"
    by (subst d3, simp)+
  have keeps: "buffer_keeps L B data3 (t @ cs) k"
  proof -
    have "length t + length cs + need L (unat (current_column data3)) k \<le> unat (enc_buflen data)"
      using k l4 by (simp add: buffer_keeps_def cs_def r(8) col3 split: if_splits)
    moreover have "unat (current_column data3) \<le> L + 3" using k col3 by (simp add: buffer_keeps_def split: if_splits)
    moreover have "buffer_wrote B data3 (t @ cs)"
      using take_patch [OF r(4) [folded cs_def]] length_patch [OF r(4) [folded cs_def]] r(4) [folded cs_def] r(6,7) len3 unfolding buffer_wrote_def flds by simp
    ultimately show ?thesis using k by (simp add: buffer_keeps_def flds)
  qed
  have "\<not> (again \<and> enc_length data3 \<ge> enc_buflen data - 3)"
  proof
    assume a: "again \<and> enc_length data3 \<ge> enc_buflen data - 3"
    then have "length t + length cs + 4 \<le> unat (enc_buflen data)"
      using keeps again need_pos [of k L "unat (current_column data3)"] by (auto simp: buffer_keeps_def flds)
    moreover from this have "unat (enc_buflen data - 3) = unat (enc_buflen data) - 3" by (simp add: unat_sub word_le_nat_alt)
    moreover from calculation(2) have "unat (enc_buflen data) - 3 \<le> length t + length cs" using a len3 by (simp add: word_le_nat_alt)
    ultimately show False by linarith
  qed
  then have "emit_token None (enc_buflen data - 3) again n data = Some (data3, PR_SUCCESS)" using run by auto
  then show ?thesis using keeps col3 flds unfolding cs_def r(8) by blast
qed

interpretation sink: token_sink None L "buffer_keeps L B" "buffer_wrote B" "buffer_wrote B" for L B
proof
  fix data :: "unit PLBase64Encoder" and t k and cs :: cells
  assume k: "buffer_keeps L B data t (Suc k)" and l: "length cs = 4"
  then obtain buf where r: "enc_buffer data = Some buf" "0 < unat (line_length data)" "length t = unat (enc_length data)"
    "length t + length (break_of data @ cs) \<le> length buf" "length t + length (break_of data @ cs) < 2 ^ 32"
    "take (length t) buf = t" "length buf = B"
    "break_of data = (if L \<le> unat (current_column data) then [B64_CR, B64_LF] else [])" by (rule buffer_room)
  from break_then_put [OF r(1-5)] obtain data1 data2 where "line_break data = Some data1" "put_out cs data1 = Some data2"
    "enc_buffer data2 = Some (patch buf (length t) (break_of data @ cs))"
    "unat (enc_length data2) = length t + length (break_of data @ cs)" "in_buffer_count data2 = in_buffer_count data" .
  then show "\<exists>data1 data2. line_break data = Some data1 \<and> put_out cs data1 = Some data2 \<and>
        buffer_wrote B data2 (t @ (if L \<le> unat (current_column data) then [B64_CR, B64_LF] else []) @ cs) \<and>
        in_buffer_count data2 = in_buffer_count data"
    using r(4,6,7) take_patch [OF r(4)] unfolding r(8) by (simp add: buffer_wrote_def)
next
  fix data :: "unit PLBase64Encoder" and t k again n
  assume "buffer_keeps L B data t (Suc k)" and "again \<longrightarrow> 0 < k"
  then show "\<exists>data1. emit_token None (enc_buflen data - 3) again n data = Some (data1, PR_SUCCESS) \<and>
        buffer_keeps L B data1 (t @ (if L \<le> unat (current_column data) then [B64_CR, B64_LF] else []) @ token_chars n) k \<and>
        unat (current_column data1) = (if L \<le> unat (current_column data) then 4 else unat (current_column data) + 4) \<and>
        in_buffer data1 = in_buffer data \<and> in_buffer_count data1 = in_buffer_count data \<and>
        enc_buflen data1 = enc_buflen data"
    by (rule buffer_token)
qed (auto simp: buffer_keeps_def buffer_wrote_def)

end
