(* ===== verification/Nss_Base64_Dec.thy ===== *)
theory Nss_Base64_Dec
  imports Nss_Base64_Enc
begin

text \<open>
  The decoder: its three token decoders are those of \<open>Pl_Base64\<close>; the loops are run over the significant characters of the
  input, the ones of the alphabet and the padding.
\<close>

subsection \<open>The token decoders\<close>

lemma all_u8:
  assumes "\<forall>n \<in> set [0..<256]. P (of_nat n :: u8)"
  shows "P c"
proof -
  have "unat c \<in> set [0..<256]" using unat_u8_less [of c] by simp
  with assms have "P (of_nat (unat c))" by (rule bspec)
  then show ?thesis by simp
qed

lemma p1_value: "int (unat (p1 c)) = codetovalue c + 1"
proof -
  have "\<forall>n \<in> set [0..<256]. int (unat (p1 (of_nat n))) = codetovalue (of_nat n) + 1" by code_simp
  then show ?thesis by (rule all_u8)
qed

lemma p1_iff: "p1 c = 0 \<longleftrightarrow> codetovalue c < 0" "0 < p1 c \<longleftrightarrow> 0 \<le> codetovalue c"
proof -
  have "p1 c = 0 \<longleftrightarrow> int (unat (p1 c)) \<le> 0" unfolding of_nat_le_0_iff unat_eq_0 ..
  then show "p1 c = 0 \<longleftrightarrow> codetovalue c < 0" unfolding p1_value by auto
  then show "0 < p1 c \<longleftrightarrow> 0 \<le> codetovalue c" by (auto simp: word_neq_0_conv [symmetric])
qed

lemma pad_value [simp]: "codetovalue B64_PAD = - 1"
  by (simp add: codetovalue_def)

lemma p1_less: assumes "\<not> codetovalue c < 0" shows "(ucast (p1 c - 1) :: u32) = of_int (codetovalue c)"
proof -
  have "unat (p1 c - 1) = unat (p1 c) - 1" using assms by (simp add: unat_minus_one p1_iff)
  also have "\<dots> = nat (int (unat (p1 c)) - 1)" by linarith
  also have "\<dots> = val c" unfolding p1_value val_def by simp
  finally have "unat (ucast (p1 c - 1) :: u32) = unat (of_int (codetovalue c) :: u32)"
    using assms by (simp add: unat_val)
  then show ?thesis by (simp add: word_unat_eq_iff)
qed

lemma num_4_gather: "num_4 k num src j = gather src j k num"
proof (induction k arbitrary: num j)
  case (Suc k)
  then show ?case by (cases "rd src j") (auto simp: p1_iff Let_def p1_less)
qed simp

text \<open>The result as that of \<open>Pl_Base64\<close>: the number of bytes, or \<open>-1\<close>.\<close>

definition counted :: "int \<Rightarrow> (bool \<times> cells) option \<Rightarrow> (int \<times> cells) option" where
  "counted n r = map_option (\<lambda>(ok, out). (if ok then n else - 1, out)) r"

lemma ucast_low: "(ucast (take_bit 8 (w :: u32)) :: u8) = ucast w"
  by (rule bit_word_eqI) (auto simp: bit_simps)

lemma counted_Pair: "counted n (map_option (Pair True) r) = map_option (Pair n) r"
  by (cases r) (simp_all add: counted_def)

lemma decode_4to3: "pl_base64_decode_4to3 src out = counted 3 (decode4to3 src out)"
proof (cases "gather src 0 4 0")
  case (Some r)
  then show ?thesis
    by (cases r) (simp_all add: pl_base64_decode_4to3_def decode4to3_def num_4_gather bind_Some_map counted_Pair ucast_low,
      simp add: counted_def)
qed (simp add: pl_base64_decode_4to3_def decode4to3_def num_4_gather counted_def)

lemma decode_3to2: "pl_base64_decode_3to2 (a # b # c # r) out = counted 2 (decode3to2 (a # b # c # r) out)"
  by (simp add: pl_base64_decode_3to2_def decode3to2_def bind_Some_map p1_iff p1_less Let_def counted_Pair ucast_low or.assoc
      del: take_bit_or drop_bit_or)
    (auto simp: counted_def)

lemma decode_2to1: "pl_base64_decode_2to1 (a # b # r) out = counted 1 (decode2to1 (a # b # r) out)"
  by (simp add: pl_base64_decode_2to1_def decode2to1_def bind_Some_map p1_iff p1_less Let_def counted_Pair)
    (auto simp: counted_def)

text \<open>One token by its four characters.\<close>

fun token_value :: "cells \<Rightarrow> cells option" where
  "token_value [a, b, c, d] =
     (if d \<noteq> B64_PAD then if b64_valid [a, b, c, d] then Some (unb64 [a, b, c, d]) else None
      else if c = B64_PAD then if b64_valid [a, b] then Some (unb64 [a, b]) else None
      else if b64_valid [a, b, c] then Some (unb64 [a, b, c]) else None)"
| "token_value _ = None"

lemma four: "length g = 4 \<Longrightarrow> \<exists>a b c d. g = [a, b, c, d]"
  by (auto simp: eval_nat_numeral length_Suc_conv)

lemma decode_4:
  assumes "length g = 4"
  shows "pl_base64_decode_4to3 g out =
    (if b64_valid g then map_option (Pair 3) (store out (unb64 g)) else Some (- 1, out))"
proof -
  obtain a b c d where g: "g = [a, b, c, d]" using four [OF assms] by blast
  show ?thesis unfolding decode_4to3 g decode4to3_eq
    by (simp add: counted_Pair del: b64_valid_simps) (simp add: counted_def)
qed

lemma decode_token:
  assumes "length g = 4"
  shows "pl_base64_decode_token g out = (case token_value g of
      None \<Rightarrow> Some (- 1, out)
    | Some o1 \<Rightarrow> map_option (Pair (int (length o1))) (store out o1))"
proof -
  obtain a b c d where g: "g = [a, b, c, d]" using four [OF assms] by blast
  have "rd g 3 = Some d" "rd g 2 = Some c" by (simp_all add: g)
  then show ?thesis
    unfolding g pl_base64_decode_token_def
    by (simp add: decode_4to3 decode_3to2 decode_2to1 decode4to3_eq decode3to2_eq decode2to1_eq counted_Pair length_unb64
      del: b64_valid_simps unb64.simps) (simp add: counted_def length_unb64 del: unb64.simps)
qed

subsection \<open>The loops\<close>

text \<open>The significant characters.\<close>

definition sig :: "cells \<Rightarrow> cells" where
  "sig cs = filter (\<lambda>c. 0 \<le> codetovalue c \<or> c = B64_PAD) cs"

lemma sig_simps [simp]: "sig [] = []" "sig (cs @ ds) = sig cs @ sig ds"
  "sig (c # cs) = (if 0 \<le> codetovalue c \<or> c = B64_PAD then c # sig cs else sig cs)"
  by (simp_all add: sig_def)

lemma drop_take_Suc: "pos + Suc n \<le> length src \<Longrightarrow> take (Suc n) (drop pos src) = src ! pos # take n (drop (Suc pos) src)"
  by (simp add: Cons_nth_drop_Suc [symmetric])

lemma fill:
  "\<lbrakk>length tok = 4; i \<le> 4; pos + len \<le> length src\<rbrakk> \<Longrightarrow>
   \<exists>tok1 i1 pos1 len1. fill_token tok i src pos len = Some (tok1, i1, pos1, len1) \<and> length tok1 = 4 \<and>
     i1 = min 4 (i + length (sig (take len (drop pos src)))) \<and>
     take i1 tok1 = take i tok @ take (4 - i) (sig (take len (drop pos src))) \<and>
     pos1 + len1 = pos + len \<and> (i1 < 4 \<longrightarrow> len1 = 0) \<and> (i < 4 \<and> 0 < len \<longrightarrow> len1 < len) \<and> len1 \<le> len \<and>
     sig (take len1 (drop pos1 src)) = drop (4 - i) (sig (take len (drop pos src)))"
proof (induction len arbitrary: tok i pos)
  case (Suc len)
  define c where "c = src ! pos"
  have c: "rd src pos = Some c" "take (Suc len) (drop pos src) = c # take len (drop (Suc pos) src)"
    using Suc.prems(3) by (simp_all add: c_def rd_in drop_take_Suc)
  have sg: "0 < p1 c \<or> c = B64_PAD \<longleftrightarrow> 0 \<le> codetovalue c \<or> c = B64_PAD" by (simp add: p1_iff)
  show ?case
  proof (cases "i < 4")
    case False
    then show ?thesis using Suc.prems by simp
  next
    case True
    show ?thesis
    proof (cases "0 \<le> codetovalue c \<or> c = B64_PAD")
      case False
      then have "fill_token tok i src pos (Suc len) = fill_token tok i src (Suc pos) len" using True c(1) sg by simp
      then show ?thesis using Suc.IH [of tok i "Suc pos"] Suc.prems False unfolding c(2) by auto
    next
      case sig: True
      have "wr tok i c = Some (tok[i := c])" using Suc.prems(1) True by (simp add: wr_def)
      then have run: "fill_token tok i src pos (Suc len) = fill_token (tok[i := c]) (Suc i) src (Suc pos) len"
        using True c(1) sig sg by simp
      have tk: "take (Suc i) (tok[i := c]) = take i tok @ [c]" using Suc.prems(1) True by (simp add: take_Suc_conv_app_nth)
      have "4 - i = Suc (4 - Suc i)" using True by simp
      moreover have "sig (c # take len (drop (Suc pos) src)) = c # sig (take len (drop (Suc pos) src))" using sig by simp
      ultimately show ?thesis
        using Suc.IH [of "tok[i := c]" "Suc i" "Suc pos"] Suc.prems True unfolding c(2) run tk by auto
    qed
  qed
qed simp

text \<open>The groups up to the first that is short or not all of the alphabet.\<close>

fun run :: "cells \<Rightarrow> cells \<times> cells" where
  "run (a # b # c # d # r) =
     (if b64_valid [a, b, c, d] then (unb64 [a, b, c, d] @ fst (run r), snd (run r)) else ([], a # b # c # d # r))"
| "run q = ([], q)"

lemma run_short: "length q < 4 \<Longrightarrow> run q = ([], q)"
  by (cases q rule: run.cases) simp_all

lemma run_group: "length g = 4 \<Longrightarrow> run (g @ r) = (if b64_valid g then (unb64 g @ fst (run r), snd (run r)) else ([], g @ r))"
  using four [of g] by (auto simp del: unb64.simps)

definition room :: "cptr \<Rightarrow> nat \<Rightarrow> bool" where
  "room b n \<longleftrightarrow> (case b of None \<Rightarrow> n = 0 | Some b \<Rightarrow> n \<le> length b)"

definition put_at :: "cptr \<Rightarrow> nat \<Rightarrow> cells \<Rightarrow> cptr" where
  "put_at b off cs = map_option (\<lambda>b. patch b off cs) b"

lemma put_at_Nil [simp]: "put_at b off [] = b"
  by (simp add: put_at_def option.map_ident)

lemma set_out_store:
  assumes "room (dec_buffer data) (off + length x)" and "x \<noteq> []"
  obtains out where "store (out_from data off) x = Some out" "set_out data off out = data\<lparr>dec_buffer := put_at (dec_buffer data) off x\<rparr>"
proof (cases "dec_buffer data")
  case None
  then show ?thesis using assms by (simp add: room_def)
next
  case (Some b)
  then have "off + length x \<le> length b" using assms(1) by (simp add: room_def)
  then show ?thesis
    by (intro that [of "x @ drop (off + length x) b"])
      (simp_all add: out_from_def Some store_def set_out_def put_at_def patch_def add.commute)
qed

text \<open>The loop over tokens: it leaves the short group in the token, or stops at a group with a character of the padding.\<close>

lemma decode_groups:
  assumes "length (token data) = 4" "token_size data = 0" "i < 4" "pos + len \<le> length src" "len = 0 \<Longrightarrow> i = 0"
    and "p = take i (token data) @ sig (take len (drop pos src))" and "run p = (x, q)"
    and "room (dec_buffer data) (off + length x)"
  shows "\<exists>tok ts n pos1 len1. decode_loop src i pos len off data =
      Some (data\<lparr>token := tok, token_size := ts, dec_buffer := put_at (dec_buffer data) off x\<rparr>, n, off + length x, pos1, len1) \<and>
    length tok = 4 \<and> pos1 + len1 = pos + len \<and>
    (if length q < 4 then n = 0 \<and> ts = length q \<and> take ts tok = q \<and> len1 = 0
     else n = - 1 \<and> ts = 0 \<and> tok = take 4 q \<and> sig (take len1 (drop pos1 src)) = drop 4 q)"
  using assms
proof (induction len arbitrary: i pos off data p x q rule: less_induct)
  case (less len)
  note prems = less.prems
  show ?case
  proof (cases "len = 0")
    case True
    then have "p = []" using prems(5,6) by simp
    then show ?thesis using True prems by (cases data) (auto simp: decode_loop.simps [of src 0 pos 0])
  next
    case False
    define s where "s = sig (take len (drop pos src))"
    from fill [of "token data" i pos len src, folded s_def] prems(1,3,4) False obtain tok1 i1 pos1 len1 where
      f: "fill_token (token data) i src pos len = Some (tok1, i1, pos1, len1)" "length tok1 = 4" "i1 = min 4 (i + length s)"
      "take i1 tok1 = take i (token data) @ take (4 - i) s" "pos1 + len1 = pos + len" "i1 < 4 \<longrightarrow> len1 = 0" "len1 < len"
      "sig (take len1 (drop pos1 src)) = drop (4 - i) s" by auto
    have p: "p = take i (token data) @ s" using prems(6) by (simp add: s_def)
    show ?thesis
    proof (cases "i1 < 4")
      case True
      then have l: "length p < 4" "i1 = length p" "take i1 tok1 = p" "len1 = 0"
        using f(3,4,6) prems(1,3) by (auto simp: p)
      then have "x = []" "q = p" using prems(7) run_short [of p] by simp_all
      then show ?thesis using l True False f(1,2,5) prems(2)
        by (cases data) (auto simp: decode_loop.simps [of src i pos len])
    next
      case 4: False
      define g where "g = tok1"
      have g: "length g = 4" "g = take i (token data) @ take (4 - i) s" using f(2-4) 4 by (simp_all add: g_def)
      have pg: "p = g @ drop (4 - i) s" unfolding p g(2) by simp
      define data1 where "data1 = data\<lparr>token := g\<rparr>"
      have i1: "\<not> i1 < 4" using 4 .
      show ?thesis
      proof (cases "b64_valid g")
        case True
        define y where "y = fst (run (drop (4 - i) s))"
        have r: "run (drop (4 - i) s) = (y, q)" "x = unb64 g @ y"
          using prems(7) True unfolding pg run_group [OF g(1)] by (auto simp: y_def)
        have l3: "length (unb64 g) = 3" using g(1) by (simp add: length_unb64)
        have "room (dec_buffer data1) (off + length (unb64 g))" "unb64 g \<noteq> []"
          using prems(8) r(2) l3 by (auto simp: data1_def room_def split: option.splits)
        then obtain out where out: "store (out_from data1 off) (unb64 g) = Some out"
          "set_out data1 off out = data1\<lparr>dec_buffer := put_at (dec_buffer data1) off (unb64 g)\<rparr>" by (rule set_out_store)
        define data2 where "data2 = data\<lparr>token := g, dec_buffer := put_at (dec_buffer data) off (unb64 g)\<rparr>"
        have "decode_loop src i pos len off data = decode_loop src 0 pos1 len1 (off + 3) data2"
          using False f(1) i1 out(2)
          by (subst decode_loop.simps) (simp add: g_def [symmetric] decode_4 [OF g(1)] True out(1) data1_def [symmetric],
            simp add: data1_def data2_def)
        moreover have "room (dec_buffer data2) (off + 3 + length y)"
          using prems(8) r(2) l3 by (auto simp: data2_def room_def put_at_def split: option.splits)
        then obtain tok ts n pos2 len2 where "decode_loop src 0 pos1 len1 (off + 3) data2 =
            Some (data2\<lparr>token := tok, token_size := ts, dec_buffer := put_at (dec_buffer data2) (off + 3) y\<rparr>, n, off + 3 + length y, pos2, len2)"
          "length tok = 4" "pos2 + len2 = pos1 + len1"
          "if length q < 4 then n = 0 \<and> ts = length q \<and> take ts tok = q \<and> len2 = 0
           else n = - 1 \<and> ts = 0 \<and> tok = take 4 q \<and> sig (take len2 (drop pos2 src)) = drop 4 q"
          using less.IH [OF f(7), of data2 0 pos1 "drop (4 - i) s" y q "off + 3"] g(1) prems(2,4) f(5,8) r(1)
          by (auto simp: data2_def)
        moreover have "put_at (dec_buffer data2) (off + 3) y = put_at (dec_buffer data) off x"
          using prems(8) r(2) l3 patch_patch [of off "unb64 g" _ y]
          by (auto simp: data2_def room_def put_at_def split: option.splits)
        ultimately have "decode_loop src i pos len off data =
            Some (data\<lparr>token := tok, token_size := ts, dec_buffer := put_at (dec_buffer data) off x\<rparr>, n, off + length x, pos2, len2)"
          "length tok = 4" "pos2 + len2 = pos + len"
          "if length q < 4 then n = 0 \<and> ts = length q \<and> take ts tok = q \<and> len2 = 0
           else n = - 1 \<and> ts = 0 \<and> tok = take 4 q \<and> sig (take len2 (drop pos2 src)) = drop 4 q"
          using f(5) r(2) l3 by (simp_all add: data2_def add.assoc)
        then show ?thesis by blast
      next
        case False
        then have x: "x = []" "q = p" using prems(7) unfolding pg run_group [OF g(1)] by auto
        have "decode_loop src i pos len off data = Some (data1, - 1, off, pos1, len1)"
          using \<open>len \<noteq> 0\<close> f(1) i1 False
          by (subst decode_loop.simps) (simp add: g_def [symmetric] decode_4 [OF g(1)], cases "dec_buffer data"; cases data; simp add: data1_def set_out_def out_from_def)
        then show ?thesis using x g(1) pg f(5,8) prems(2) by (auto simp: data1_def)
      qed
    qed
  qed
qed

subsection \<open>One call\<close>

lemma swallow_pads:
  "pos + len \<le> length src \<Longrightarrow> swallow src pos len = Some (set (sig (take len (drop pos src))) \<subseteq> {B64_PAD})"
proof (induction len arbitrary: pos)
  case (Suc len)
  then show ?case using Suc.IH [of "Suc pos"] by (simp add: drop_take_Suc rd_in p1_iff)
qed simp

text \<open>What a call makes of the significant characters it has, with those that waited: the bytes, and the characters that wait
  now.\<close>

definition outcome :: "cells \<Rightarrow> (cells \<times> cells) option" where
  "outcome p = (let (x, q) = run p in
     if length q < 4 then Some (x, q)
     else (case token_value (take 4 q) of
         None \<Rightarrow> None
       | Some y \<Rightarrow> if set (drop 4 q) \<subseteq> {B64_PAD} then Some (x @ y, []) else None))"

lemma run_length: "length p = length (fst (run p)) div 3 * 4 + length (snd (run p))" "3 dvd length (fst (run p))"
  by (induction p rule: run.induct) (auto simp: length_unb64 simp del: unb64.simps)

lemma token_value_length: "token_value g = Some y \<Longrightarrow> length g = 4 \<and> length y \<le> 3"
  by (cases g rule: token_value.cases) (auto simp: length_unb64 simp del: unb64.simps split: if_splits)

lemma token_value_bad: "\<lbrakk>length g = 4; \<not> b64_valid g; token_value g = Some y\<rbrakk> \<Longrightarrow> y \<noteq> [] \<and> length y \<le> 2"
  by (cases g rule: token_value.cases) (auto simp: Let_def unb64.simps(1) split: if_splits)

lemma run_rest_bad: "4 \<le> length (snd (run p)) \<Longrightarrow> \<not> b64_valid (take 4 (snd (run p)))"
  by (induction p rule: run.induct) (auto simp: numeral_3_eq_3 simp del: unb64.simps)

lemma run_room:
  assumes "run p = (x, q)"
  shows "length x \<le> length p * 3 div 4" and "4 \<le> length q \<Longrightarrow> token_value (take 4 q) = Some y \<Longrightarrow> length (x @ y) \<le> length p * 3 div 4"
proof -
  obtain k where k: "length x = 3 * k" "length p = 4 * k + length q" using run_length [of p] assms by (auto elim!: dvdE)
  show "length x \<le> length p * 3 div 4" using k by simp
  assume "4 \<le> length q" "token_value (take 4 q) = Some y"
  then have "length y \<le> 2" using token_value_bad [of "take 4 q" y] run_rest_bad [of p] assms by simp
  then show "length (x @ y) \<le> length p * 3 div 4" using k \<open>4 \<le> length q\<close> by simp
qed

lemma room_mono: "room b n \<Longrightarrow> m \<le> n \<Longrightarrow> room b m"
  by (auto simp: room_def split: option.splits)

lemma put_at_put_at: "room b (off + length (x @ y)) \<Longrightarrow> put_at (put_at b off x) (off + length x) y = put_at b off (x @ y)"
  by (auto simp: put_at_def room_def patch_patch split: option.splits)

lemma room_put_at [simp]: "room b (off + length x) \<Longrightarrow> room (put_at b off x) n = room b n"
  by (auto simp: put_at_def room_def split: option.splits)

lemma decode_buffer:
  assumes tok: "length (token data) = 4" "token_size data < 4" and n: "unat n \<le> length src" "0 < unat n"
  defines "p \<equiv> take (token_size data) (token data) @ sig (take (unat n) src)"
  assumes rm: "room (dec_buffer data) (length p * 3 div 4)"
  shows "case outcome p of
      None \<Rightarrow> \<exists>data1. pl_base64_decode_buffer data src n = Some (data1, PR_FAILURE None)
    | Some (x, q) \<Rightarrow> \<exists>tok. pl_base64_decode_buffer data src n = Some (data\<lparr>token := tok, token_size := length q,
          dec_buffer := put_at (dec_buffer data) 0 x, dec_length := of_nat (length x)\<rparr>, PR_SUCCESS) \<and>
        length tok = 4 \<and> take (length q) tok = q"
proof -
  obtain x q where xq: "run p = (x, q)" by (cases "run p")
  define data0 where "data0 = data\<lparr>token_size := 0\<rparr>"
  have "room (dec_buffer data0) (0 + length x)" using room_mono [OF rm run_room(1) [OF xq]] by (simp add: data0_def)
  moreover have "p = take (token_size data) (token data0) @ sig (take (unat n) (drop 0 src))" by (simp add: p_def data0_def)
  ultimately obtain tk ts k pos1 len1 where
    l: "decode_loop src (token_size data) 0 (unat n) 0 data0 =
      Some (data0\<lparr>token := tk, token_size := ts, dec_buffer := put_at (dec_buffer data0) 0 x\<rparr>, k, length x, pos1, len1)"
    "length tk = 4" "pos1 + len1 = unat n"
    "if length q < 4 then k = 0 \<and> ts = length q \<and> take ts tk = q \<and> len1 = 0
     else k = - 1 \<and> ts = 0 \<and> tk = take 4 q \<and> sig (take len1 (drop pos1 src)) = drop 4 q"
    using decode_groups [of data0 "token_size data" 0 "unat n" src p x q 0] tok n xq by (auto simp: data0_def)
  have sw: "swallow src pos1 len1 = Some (set (sig (take len1 (drop pos1 src))) \<subseteq> {B64_PAD})"
    using l(3) n(1) by (intro swallow_pads) simp
  show ?thesis
  proof (cases "length q < 4")
    case True
    then show ?thesis using l sw
      by (simp add: outcome_def xq pl_base64_decode_buffer_def data0_def [symmetric]) (auto simp: data0_def)
  next
    case False
    define d1 where "d1 = data\<lparr>token := take 4 q, token_size := 0, dec_buffer := put_at (dec_buffer data) 0 x\<rparr>"
    have l1: "decode_loop src (token_size data) 0 (unat n) 0 data0 = Some (d1, - 1, length x, pos1, len1)"
      "sig (take len1 (drop pos1 src)) = drop 4 q"
      using l False by (simp_all add: d1_def data0_def)
    have tk: "length (take 4 q) = 4" "\<not> b64_valid (take 4 q)" using False run_rest_bad [of p] xq by simp_all
    show ?thesis
    proof (cases "token_value (take 4 q)")
      case None
      then show ?thesis using False l1(1)
        by (simp add: outcome_def xq pl_base64_decode_buffer_def data0_def [symmetric])
          (simp add: decode_token [OF tk(1)] d1_def)
    next
      case (Some y)
      have y: "y \<noteq> []" using token_value_bad [OF tk Some] by simp
      have "room (dec_buffer data) (0 + length (x @ y))" using room_mono [OF rm run_room(2) [OF xq _ Some]] False by simp
      then have r: "room (dec_buffer d1) (length x + length y)" "put_at (dec_buffer d1) (length x) y = put_at (dec_buffer data) 0 (x @ y)"
        using room_put_at [of "dec_buffer data" 0 x] put_at_put_at [of "dec_buffer data" 0 x y] room_mono [of "dec_buffer data" _ "length x"]
        by (simp_all add: d1_def)
      from set_out_store [OF r(1) y] obtain out where out: "store (out_from d1 (length x)) y = Some out"
        "set_out d1 (length x) out = d1\<lparr>dec_buffer := put_at (dec_buffer d1) (length x) y\<rparr>" .
      have "token d1 = take 4 q" by (simp add: d1_def)
      then have dt: "pl_base64_decode_token (token d1) (out_from d1 (length x)) = Some (int (length y), out)"
        by (simp add: decode_token [OF tk(1)] Some out(1))
      show ?thesis using False l1 sw Some
        by (simp add: outcome_def xq pl_base64_decode_buffer_def data0_def [symmetric] dt out(2) r(2))
          (auto simp: d1_def intro!: exI [of _ "take 4 q"])
    qed
  qed
qed

text \<open>What the flush makes of the characters that wait.\<close>

definition flushed :: "cells \<Rightarrow> cells option" where
  "flushed q = (if q = [] \<or> hd q = B64_PAD then Some [] else token_value (q @ replicate (4 - length q) B64_PAD))"

definition total :: "cells \<Rightarrow> cells option" where
  "total p = do { (x, q) \<leftarrow> outcome p; y \<leftarrow> flushed q; Some (x @ y) }"

lemma token_value_nonempty: "token_value g = Some y \<Longrightarrow> y \<noteq> []"
  by (cases g rule: token_value.cases) (auto simp: Let_def unb64.simps(1) split: if_splits)

lemma replicate_few: "replicate 3 x = [x, x, x]" "replicate 2 x = [x, x]"
  by (simp_all add: numeral_eq_Suc)

lemma flushed_simps:
  "flushed [] = Some []"
  "flushed [a] = (if a = B64_PAD then Some [] else None)"
  "flushed [a, b] = (if a = B64_PAD then Some [] else if b64_valid [a, b] then Some (unb64 [a, b]) else None)"
  "flushed [a, b, c] = (if a = B64_PAD then Some [] else if c = B64_PAD then if b64_valid [a, b] then Some (unb64 [a, b]) else None
     else if b64_valid [a, b, c] then Some (unb64 [a, b, c]) else None)"
  by (simp_all add: flushed_def replicate_few del: unb64.simps)

lemma flushed_length: "\<lbrakk>flushed q = Some y; length q < 4\<rbrakk> \<Longrightarrow> length y \<le> length q * 3 div 4"
  by (cases q rule: run.cases) (auto simp: flushed_simps length_unb64 simp del: unb64.simps split: if_splits)

lemma decode_flush:
  assumes tok: "length (token data) = 4" "token_size data < 4" and off: "off = unat (dec_length data)"
  defines "q \<equiv> take (token_size data) (token data)"
  assumes rm: "room (dec_buffer data) (off + length q * 3 div 4)"
  shows "flushed q = None \<Longrightarrow> \<exists>data1. pl_base64_decode_flush output_fn data = Some (data1, PR_FAILURE None)"
    and "flushed q = Some [] \<Longrightarrow> pl_base64_decode_flush output_fn data = Some (data, PR_SUCCESS)"
    and "flushed q = Some y \<Longrightarrow> y \<noteq> [] \<Longrightarrow>
      \<exists>data1. data1 = data\<lparr>token := token data1, token_size := 0, dec_buffer := put_at (dec_buffer data) off y\<rparr> \<and>
        length (token data1) = 4 \<and>
        pl_base64_decode_flush output_fn data = (case output_fn of
            Some f \<Rightarrow> do {
              buf \<leftarrow> dec_buffer data1;
              (arg, r) \<leftarrow> (if length y \<le> length buf then f (dec_arg data1) (take (length y) buf) (int (length y)) else None);
              Some (data1\<lparr>dec_arg := arg\<rparr>, if r < 0 then PR_FAILURE None else PR_SUCCESS) }
          | None \<Rightarrow> Some (data1\<lparr>dec_length := dec_length data1 + of_nat (length y)\<rparr>, PR_SUCCESS))"
proof -
  have lq: "length q = token_size data" using tok by (simp add: q_def)
  have rd: "rd (token data) 0 = Some (token data ! 0)" using tok by (simp add: rd_def)
  have hd: "q \<noteq> [] \<Longrightarrow> hd q = token data ! 0" using tok(1) by (cases "token data"; cases "token_size data") (auto simp: q_def)
  have skip: "flushed q = Some [] \<longleftrightarrow> token_size data = 0 \<or> token data ! 0 = B64_PAD"
  proof (cases "q = []")
    case True
    then show ?thesis using lq by (simp add: flushed_def)
  next
    case False
    then show ?thesis
      using hd lq token_value_nonempty [of "q @ replicate (4 - length q) B64_PAD" "[]"] by (auto simp: flushed_def)
  qed
  define tk where "tk = q @ replicate (4 - token_size data) B64_PAD"
  have tk: "length tk = 4" using tok lq by (simp add: tk_def)
  have tv: "\<not> (token_size data = 0 \<or> token data ! 0 = B64_PAD) \<Longrightarrow> flushed q = token_value tk"
  proof -
    assume ns: "\<not> (token_size data = 0 \<or> token data ! 0 = B64_PAD)"
    then have "q \<noteq> []" using lq by auto
    then show "flushed q = token_value tk" using ns hd lq by (simp add: flushed_def tk_def)
  qed
  define d1 where "d1 = data\<lparr>token := tk, token_size := 0\<rparr>"
  show "pl_base64_decode_flush output_fn data = Some (data, PR_SUCCESS)" if "flushed q = Some []"
    using that skip by (simp add: pl_base64_decode_flush_def rd)
  show "\<exists>data1. pl_base64_decode_flush output_fn data = Some (data1, PR_FAILURE None)" if "flushed q = None"
    using that skip tv
    by (auto simp: pl_base64_decode_flush_def rd Let_def q_def [symmetric] tk_def [symmetric] decode_token [OF tk])
  show "\<exists>data1. data1 = data\<lparr>token := token data1, token_size := 0, dec_buffer := put_at (dec_buffer data) off y\<rparr> \<and>
        length (token data1) = 4 \<and>
        pl_base64_decode_flush output_fn data = (case output_fn of
            Some f \<Rightarrow> do {
              buf \<leftarrow> dec_buffer data1;
              (arg, r) \<leftarrow> (if length y \<le> length buf then f (dec_arg data1) (take (length y) buf) (int (length y)) else None);
              Some (data1\<lparr>dec_arg := arg\<rparr>, if r < 0 then PR_FAILURE None else PR_SUCCESS) }
          | None \<Rightarrow> Some (data1\<lparr>dec_length := dec_length data1 + of_nat (length y)\<rparr>, PR_SUCCESS))"
    if y: "flushed q = Some y" "y \<noteq> []"
  proof -
    have ns: "\<not> (token_size data = 0 \<or> token data ! 0 = B64_PAD)" using y skip by auto
    then have v: "token_value tk = Some y" using y(1) tv by simp
    have "length y \<le> length q * 3 div 4" using flushed_length [OF y(1)] tok(2) lq by simp
    then have "room (dec_buffer d1) (off + length y)" using room_mono [OF rm] by (simp add: d1_def)
    then obtain out where out: "store (out_from d1 off) y = Some out"
      "set_out d1 off out = d1\<lparr>dec_buffer := put_at (dec_buffer d1) off y\<rparr>" using y(2) by (rule set_out_store)
    define d2 where "d2 = data\<lparr>token := tk, token_size := 0, dec_buffer := put_at (dec_buffer data) off y\<rparr>"
    have d2: "set_out d1 off out = d2" using out(2) by (simp add: d1_def d2_def)
    have len: "dec_length d1 = dec_length data" by (simp add: d1_def)
    have "pl_base64_decode_token tk (out_from d1 off) = Some (int (length y), out)" by (simp add: decode_token [OF tk] v out(1))
    then have "pl_base64_decode_flush output_fn data = (case output_fn of
            Some f \<Rightarrow> do {
              buf \<leftarrow> dec_buffer d2;
              (arg, r) \<leftarrow> (if length y \<le> length buf then f (dec_arg d2) (take (length y) buf) (int (length y)) else None);
              Some (d2\<lparr>dec_arg := arg\<rparr>, if r < 0 then PR_FAILURE None else PR_SUCCESS) }
          | None \<Rightarrow> Some (d2\<lparr>dec_length := dec_length d2 + of_nat (length y)\<rparr>, PR_SUCCESS))"
      unfolding pl_base64_decode_flush_def rd bind.bind_lunit Let_def q_def [symmetric] tk_def [symmetric] d1_def [symmetric] len off [symmetric]
      using ns by (cases output_fn) (simp_all add: d2 cong: if_cong)
    then show ?thesis using tk by (intro exI [of _ d2]) (simp add: d2_def)
  qed
qed

end
