(* ===== verification/Nss_Base64_Enc_Spec.thy ===== *)
theory Nss_Base64_Enc_Spec
  imports Nss_Base64_Enc
begin

text \<open>
  What the encoder promises: whatever the pieces the input comes in, the output function is given the lines of the standard's
  text; and a whole item is encoded into a buffer of exactly the computed size.
\<close>

subsection \<open>Pieces\<close>

fun NSSBase64Encoder_Updates ::
  "'a output_fn \<Rightarrow> 'a PLBase64Encoder \<Rightarrow> cells list \<Rightarrow> ('a PLBase64Encoder \<times> PRStatus) option" where
  "NSSBase64Encoder_Updates output_fn data [] = Some (data, PR_SUCCESS)"
| "NSSBase64Encoder_Updates output_fn data (c # cs) = do {
     (data1, status) \<leftarrow> NSSBase64Encoder_Update output_fn data (Some c) (of_nat (length c));
     if status = PR_SUCCESS then NSSBase64Encoder_Updates output_fn data1 cs else Some (data1, status) }"

text \<open>A whole session of the stream encoder: the object at the end, and the status.\<close>

definition encode_session ::
  "(u32 \<Rightarrow> cptr) \<Rightarrow> ('a \<Rightarrow> cells \<Rightarrow> int \<Rightarrow> ('a \<times> int) option) \<Rightarrow> 'a \<Rightarrow> cells list \<Rightarrow> ('a \<times> PRStatus) option" where
  "encode_session malloc f arg chunks = do {
     data \<leftarrow> NSSBase64Encoder_Create True True malloc (Some f) arg;
     (data1, status) \<leftarrow> NSSBase64Encoder_Updates (Some f) data chunks;
     (data2, status2) \<leftarrow> NSSBase64Encoder_Destroy (Some f) data1 (status \<noteq> PR_SUCCESS);
     Some (enc_arg data2, if status = PR_SUCCESS then status2 else status) }"

lemma stream_keeps_any: "stream_keeps f seen L data t k \<Longrightarrow> stream_keeps f seen L data t k'"
  unfolding stream_keeps_def by blast

lemma stream_at_any: "stream.at L f seen data xs k \<Longrightarrow> stream.at L f seen data xs k'"
  by (auto simp: stream.at_def intro: stream_keeps_any)

lemma stream_updates:
  "\<lbrakk>stream.at L f seen data xs 0; \<forall>c\<in>set chunks. c \<noteq> [] \<and> length c + 2 < 2 ^ 32\<rbrakk> \<Longrightarrow>
   \<exists>data1. NSSBase64Encoder_Updates (Some f) data chunks = Some (data1, PR_SUCCESS) \<and>
     stream.at L f seen data1 (xs @ concat chunks) 0"
proof (induction chunks arbitrary: data xs)
  case (Cons c chunks)
  define n where "n = (of_nat (length c) :: u32)"
  have n: "unat n = length c" "0 < unat n" using Cons.prems(2) by (simp_all add: n_def unat_of_nat)
  have "stream.at L f seen data xs ((length xs mod 3 + unat n) div 3 + 0)"
    using Cons.prems(1) by (rule stream_at_any)
  from stream.piece [OF this n(2), of c] n(1) Cons.prems(2) obtain data1 where
    "pl_base64_encode_buffer (Some f) data c n = Some (data1, PR_SUCCESS)" "stream.at L f seen data1 (xs @ c) 0" by auto
  moreover have "n \<noteq> 0" using n(2) by auto
  ultimately show ?case using Cons.IH [of data1 "xs @ c"] Cons.prems(2)
    by (simp add: NSSBase64Encoder_Update_def PL_UpdateBase64Encoder_def n_def)
qed simp

text \<open>C10: whatever the pieces the input comes in, a session of \<open>NSSBase64Encoder\<close> (create, update with each piece, destroy) succeeds,
  and the output function has been given, in order, the base64 text of the whole input in lines of 64 characters, CR LF between
  them and none at the end. The output function takes what it is given; the pieces are not empty and have less than four gigabytes, and
  there is memory for the line.\<close>

theorem nss_encoder_stream:
  assumes f: "takes_text f seen" and arg: "seen arg = []"
    and buf: "malloc 66 = Some buf" "length buf = 66"
    and chunks: "\<forall>c\<in>set chunks. c \<noteq> [] \<and> length c + 2 < 2 ^ 32"
  shows "\<exists>arg1. encode_session malloc f arg chunks = Some (arg1, PR_SUCCESS) \<and> seen arg1 = lines 64 (b64 (concat chunks))"
proof -
  define data where "data = \<lparr>in_buffer = [0, 0], in_buffer_count = 0, line_length = 64, current_column = 0, enc_arg = arg,
    enc_buffer = Some buf, enc_buflen = 66, enc_length = 0\<rparr>"
  have c: "NSSBase64Encoder_Create True True malloc (Some f) arg = Some data"
    using buf by (simp add: NSSBase64Encoder_Create_def PL_CreateBase64Encoder_def pl_base64_create_encoder_def data_def Let_def)
  have "stream_keeps f seen 64 data [] 0" using f arg buf by (simp add: stream_keeps_def stream_wrote_def data_def)
  then have "stream.at 64 f seen data [] 0" by (simp add: stream.at_def few_tokens data_def)
  from stream_updates [OF this chunks] obtain data1 where
    u: "NSSBase64Encoder_Updates (Some f) data chunks = Some (data1, PR_SUCCESS)" "stream.at 64 f seen data1 (concat chunks) 0" by auto
  from this(2) have "stream.at 64 f seen data1 (concat chunks) 1" by (rule stream_at_any)
  from stream.flush [OF this] obtain data2 where
    "pl_base64_encode_flush (Some f) data1 = Some (data2, PR_SUCCESS)" "seen (enc_arg data2) = lines 64 (b64 (concat chunks))"
    by (auto simp: stream_ended_def emit_lines_0)
  then show ?thesis
    by (simp add: encode_session_def c u(1) NSSBase64Encoder_Destroy_def PL_DestroyBase64Encoder_def)
qed

theorem nss_encoder_stream_witness:
  "\<exists>arg1. encode_session (\<lambda>n. Some (replicate (unat n) 0)) (\<lambda>a cs n. Some (a @ cs, 0)) [] [[77, 97], [110]] = Some (arg1, PR_SUCCESS) \<and>
    arg1 = [0x54, 0x57, 0x46, 0x75]"
proof -
  have "lines 64 (b64 [77, 97, 110]) = [0x54, 0x57, 0x46, 0x75]"
    by (simp add: lines.simps digit_def base64_tab_def b64.simps(4))
  then show ?thesis
    using nss_encoder_stream [of "\<lambda>a cs n. Some (a @ cs, 0)" id "[]" "\<lambda>n. Some (replicate (unat n) 0)" "replicate 66 0" "[[77, 97], [110]]"]
    by (simp add: takes_text_def)
qed

subsection \<open>Items\<close>

lemma lines_length: "0 < L \<Longrightarrow> length (lines L t) = length t + 2 * ((length t - 1) div L)"
proof (induction "length t" arbitrary: t rule: less_induct)
  case less
  show ?case
  proof (cases "length t \<le> L")
    case True
    then have "(length t - 1) div L = 0" using less.prems by simp
    then show ?thesis using True by (simp add: lines.simps)
  next
    case False
    then obtain k where k: "length t = Suc k + L" using less_imp_Suc_add [of L "length t"] by (auto simp: add.commute)
    then have "length (lines L (drop L t)) = Suc k + 2 * (k div L)" using less.prems less.hyps [of "drop L t"] by simp
    moreover have "(k + L) div L = Suc (k div L)" using less.prems div_add_self2 [of L k] by simp
    ultimately show ?thesis using k less.prems by (subst lines.simps) simp
  qed
qed

lemma max_encoded_length:
  assumes "unat n = length xs" "length xs < 2 ^ 31" "xs \<noteq> []"
  shows "unat (PL_Base64MaxEncodedLength n 64) = length (lines 64 (b64 xs))" "length (lines 64 (b64 xs)) < 3000000000"
proof -
  define tk where "tk = (length xs + 2) div 3"
  have tk: "0 < tk" "tk < 715827884" using assms by (cases xs; simp add: tk_def)+
  have len: "length (lines 64 (b64 xs)) = tk * 4 + 2 * ((tk * 4 - 1) div 64)"
    by (simp add: lines_length length_b64 tk_def)
  define q r where "q = tk div 16" and "r = tk mod 16"
  have qr: "tk = q * 16 + r" "r < 16" "q < 44739243" using tk(2) by (simp_all add: q_def r_def)
  have breaks: "(tk * 4 - 1) div 64 = (if r = 0 then q - 1 else q)"
  proof (cases "r = 0")
    case True
    then obtain p where "q = Suc p" using qr(1) tk(1) by (cases q) auto
    then have "tk * 4 - 1 = 63 + 64 * p" using True qr(1) by simp
    then show ?thesis using True \<open>q = Suc p\<close> by simp
  next
    case False
    then have "tk * 4 - 1 = (4 * r - 1) + 64 * q" using qr(1) by simp
    then show ?thesis using False qr(2) by simp
  qed
  note len = len [unfolded breaks]
  have "(if r = 0 then q - 1 else q) \<le> q" by simp
  then show less: "length (lines 64 (b64 xs)) < 3000000000" unfolding len using qr by linarith
  have n2: "unat ((n + 2) div 3) = tk" using assms(1,2) by (simp add: unat_div unat_word_ariths tk_def)
  have T: "(n + 2) div 3 = of_nat q * 16 + of_nat r" using n2 tk(2) qr(1) by (simp add: word_unat_eq_iff unat_word_ariths unat_of_nat)
  have "unat (of_nat q * 16 + of_nat r :: u32) = tk" using n2 T by simp
  then have Q: "(of_nat q * 16 + of_nat r) div 16 = (of_nat q :: u32)" using qr
    by (simp add: word_unat_eq_iff unat_div unat_of_nat)
  have R: "of_nat r * 4 = (0 :: u32) \<longleftrightarrow> r = 0" using qr(2) by (simp add: word_unat_eq_iff unat_word_ariths unat_of_nat)
  have "PL_Base64MaxEncodedLength n 64 = of_nat (length (lines 64 (b64 xs)))"
  proof (cases "r = 0")
    case True
    then obtain p where "q = Suc p" using qr(1) tk(1) by (cases q) auto
    then show ?thesis using Q True unfolding PL_Base64MaxEncodedLength_def T Let_def len qr(1) by simp
  next
    case False
    have "PL_Base64MaxEncodedLength n 64 = of_nat q * 16 * 4 + of_nat q * 2 + of_nat r * 4"
      using Q R False unfolding PL_Base64MaxEncodedLength_def T Let_def by simp
    also have "\<dots> = of_nat (length (lines 64 (b64 xs)))" using False unfolding len qr(1) by (simp add: algebra_simps)
    finally show ?thesis .
  qed
  then show "unat (PL_Base64MaxEncodedLength n 64) = length (lines 64 (b64 xs))"
    using less by (simp add: unat_of_nat)
qed

lemma tokens_number: "length (b64_tokens xs) = length xs div 3 + (if length xs mod 3 = 0 then 0 else 1)"
proof (induction xs rule: b64_tokens.induct)
  case (1 a b c r)
  have "(3 + length r) div 3 = Suc (length r div 3)" "(3 + length r) mod 3 = length r mod 3" by simp_all
  then show ?case using 1 by simp
qed simp_all

text \<open>One buffer filled by one piece and the flush.\<close>

lemma encode_whole:
  assumes n: "unat n = length xs" "length xs < 2 ^ 31" "xs \<noteq> []" and src: "take (length xs) src = xs"
    and room: "length (lines 64 (b64 xs)) \<le> unat m" "unat m \<le> length b"
  obtains data1 data2 where
    "pl_base64_encode_buffer None \<lparr>in_buffer = [0, 0], in_buffer_count = 0, line_length = 64, current_column = 0, enc_arg = (),
       enc_buffer = Some b, enc_buflen = m, enc_length = 0\<rparr> src n = Some (data1, PR_SUCCESS)"
    "pl_base64_encode_flush None data1 = Some (data2, PR_SUCCESS)" "in_buffer_count data2 = 0"
    "buffer_wrote (length b) data2 (lines 64 (b64 xs))"
proof -
  define data where "data = \<lparr>in_buffer = [0, 0], in_buffer_count = 0, line_length = 64, current_column = 0, enc_arg = (),
    enc_buffer = Some b, enc_buflen = m, enc_length = (0 :: u32)\<rparr>"
  define k where "k = (if length xs mod 3 = 0 then 0 else 1 :: nat)"
  have "need 64 0 (length (b64_tokens xs)) = length (lines 64 (b64 xs))"
    using need_emit [of "b64_tokens xs" 64 0] token_length [of _ xs] emit_lines_0 [of 64 xs] by simp
  then have "buffer_keeps 64 (length b) data [] (length (b64_tokens xs))"
    using room by (simp add: buffer_keeps_def buffer_wrote_def data_def)
  then have "sink.at 64 (length b) data [] ((length ([] :: cells) mod 3 + unat n) div 3 + k)"
    using n(1) by (simp add: sink.at_def few_tokens data_def tokens_number k_def)
  moreover have "0 < unat n" "unat n + 2 < 2 ^ 32" "unat n \<le> length src"
    using n arg_cong [OF src, of length] by simp_all
  ultimately obtain data1 where 1: "pl_base64_encode_buffer None data src n = Some (data1, PR_SUCCESS)"
    "sink.at 64 (length b) data1 xs k"
    using sink.piece [of 64 "length b" data "[]" n k src] src n(1) by auto
  moreover from sink.flush [OF 1(2)] obtain data2 where "pl_base64_encode_flush None data1 = Some (data2, PR_SUCCESS)"
    "in_buffer_count data2 = 0" "buffer_wrote (length b) data2 (lines 64 (b64 xs))"
    by (auto simp: emit_lines_0 k_def)
  ultimately show ?thesis using that unfolding data_def by blast
qed

lemma encode_buffer_text:
  assumes n: "unat n = length xs" "length xs < 2 ^ 31" "xs \<noteq> []" and src: "take (length xs) src = xs"
    and room: "length (lines 64 (b64 xs)) \<le> unat maxdestlen" "unat maxdestlen \<le> length b"
  obtains s len where "PL_Base64EncodeBuffer True malloc src n 64 (Some b) maxdestlen = Some (Some s, Some len, None)"
    "unat len = length (lines 64 (b64 xs))" "length s = length b" "take (length (lines 64 (b64 xs))) s = lines 64 (b64 xs)"
proof -
  from encode_whole [OF assms] obtain data1 data2 where
    e: "pl_base64_encode_buffer None \<lparr>in_buffer = [0, 0], in_buffer_count = 0, line_length = 64, current_column = 0, enc_arg = (),
       enc_buffer = Some b, enc_buflen = maxdestlen, enc_length = 0\<rparr> src n = Some (data1, PR_SUCCESS)"
    and f: "pl_base64_encode_flush None data1 = Some (data2, PR_SUCCESS)" "in_buffer_count data2 = 0"
    and w: "buffer_wrote (length b) data2 (lines 64 (b64 xs))" .
  have "n \<noteq> 0" using n by auto
  moreover have "\<not> maxdestlen < PL_Base64MaxEncodedLength n 64"
    using room(1) max_encoded_length(1) [OF n] by (simp add: word_less_nat_alt)
  moreover obtain s where "enc_buffer data2 = Some s" "length s = length b" "unat (enc_length data2) = length (lines 64 (b64 xs))"
    "take (length (lines 64 (b64 xs))) s = lines 64 (b64 xs)"
    using w by (auto simp: buffer_wrote_def)
  ultimately show ?thesis using f(2)
    by (intro that [of s "enc_length data2"])
      (simp_all add: PL_Base64EncodeBuffer_def pl_base64_create_encoder_def Let_def e f(1) PL_DestroyBase64Encoder_def
        pl_base64_encode_flush_def [of None "data2\<lparr>enc_buffer := None\<rparr>"])
qed

text \<open>Into a string that is allocated for it.\<close>

lemma encode_item_fresh:
  assumes n: "unat n = length xs" "length xs < 2 ^ 31" "xs \<noteq> []" and src: "take (length xs) src = xs"
    and alloc: "\<forall>k. \<exists>b. alloc k = Some b \<and> length b = unat k"
  defines "t \<equiv> lines 64 (b64 xs)"
  shows "NSSBase64_EncodeItem True alloc None maxOutLen (Some (Some src, n)) = Some (Some (t @ [0]), None)"
proof -
  define m where "m = PL_Base64MaxEncodedLength n 64"
  have m: "unat m = length t" "unat (m + 1) = length t + 1"
    using max_encoded_length [OF n] by (simp_all add: m_def t_def unat_word_ariths)
  have n0: "n \<noteq> 0" using n by auto
  note enc = encode_buffer_text [OF n src, folded t_def]
  from alloc obtain b where b: "alloc (m + 1) = Some b" "length b = length t + 1" using m(2) by metis
  have "length t \<le> unat m" "unat m \<le> length b" using b(2) m(1) by simp_all
  then obtain s len where "PL_Base64EncodeBuffer True (\<lambda>_. None) src n 64 (Some b) m = Some (Some s, Some len, None)"
    "unat len = length t" "length s = length b" "take (length t) s = t" by (rule enc)
  moreover obtain x where "drop (length t) s = [x]"
    using calculation(3) b(2) by (cases "drop (length t) s") (auto dest: arg_cong [where f = length])
  moreover have "s = t @ drop (length t) s" using calculation(4) append_take_drop_id [of "length t" s] by simp
  ultimately have "PL_Base64EncodeBuffer True (\<lambda>_. None) src n 64 (Some b) m = Some (Some (t @ [x]), Some len, None)"
    "unat len = length t" by simp_all
  then show ?thesis using n0 b(1)
    by (simp add: NSSBase64_EncodeItem_def Let_def m_def [symmetric] wr_def)
qed

text \<open>C20: \<open>NSSBase64_EncodeItem\<close> writes the base64 text of the item in lines of 64 characters, and a zero behind it. A string that is
  allocated has exactly the size of that; a string of the caller is filled if \<open>maxOutLen\<close> is enough for the text and its zero, and is
  refused with \<open>SEC_ERROR_OUTPUT_LEN\<close> if and only if it is not. No cell outside the string is written. The item has at least one byte and less than two gigabytes, and the
  allocations succeed.\<close>

theorem nss_encode_item:
  assumes n: "unat n = length xs" "length xs < 2 ^ 31" "xs \<noteq> []" and src: "take (length xs) src = xs"
    and alloc: "\<forall>k. \<exists>b. alloc k = Some b \<and> length b = unat k"
    and out: "case outStrOpt of None \<Rightarrow> True | Some b \<Rightarrow> unat maxOutLen \<le> length b"
  defines "t \<equiv> lines 64 (b64 xs)"
  shows "case outStrOpt of
      None \<Rightarrow> NSSBase64_EncodeItem True alloc outStrOpt maxOutLen (Some (Some src, n)) = Some (Some (t @ [0]), None)
    | Some b \<Rightarrow>
        if unat maxOutLen \<le> length t
        then NSSBase64_EncodeItem True alloc outStrOpt maxOutLen (Some (Some src, n)) = Some (None, Some SEC_ERROR_OUTPUT_LEN)
        else \<exists>s. NSSBase64_EncodeItem True alloc outStrOpt maxOutLen (Some (Some src, n)) = Some (Some s, None) \<and>
          length s = length b \<and> take (length t + 1) s = t @ [0]"
proof -
  define m where "m = PL_Base64MaxEncodedLength n 64"
  have m: "unat m = length t" "unat (m + 1) = length t + 1"
    using max_encoded_length [OF n] by (simp_all add: m_def t_def unat_word_ariths)
  have n0: "n \<noteq> 0" using n by auto
  have less: "m + 1 > maxOutLen \<longleftrightarrow> unat maxOutLen \<le> length t" using m(2) by (simp add: word_less_nat_alt less_Suc_eq_le)
  note enc = encode_buffer_text [OF n src, folded t_def]
  show ?thesis
  proof (cases outStrOpt)
    case None
    then show ?thesis using encode_item_fresh [OF n src alloc] by (simp add: t_def)
  next
    case (Some b)
    show ?thesis
    proof (cases "unat maxOutLen \<le> length t")
      case True
      then show ?thesis using Some n0 less by (simp add: NSSBase64_EncodeItem_def Let_def m_def [symmetric])
    next
      case False
      then have "length t \<le> unat maxOutLen" "unat maxOutLen \<le> length b" using out Some by simp_all
      then obtain s len where s: "PL_Base64EncodeBuffer True (\<lambda>_. None) src n 64 (Some b) maxOutLen = Some (Some s, Some len, None)"
        "unat len = length t" "length s = length b" "take (length t) s = t" by (rule enc)
      have "take (length t + 1) (s[length t := 0]) = t @ [0]"
        using s(3,4) False \<open>unat maxOutLen \<le> length b\<close> by (simp add: take_Suc_conv_app_nth)
      then show ?thesis using Some False n0 less s \<open>unat maxOutLen \<le> length b\<close>
        by (simp add: NSSBase64_EncodeItem_def Let_def m_def [symmetric] wr_def)
    qed
  qed
qed

theorem nss_encode_item_witness:
  "NSSBase64_EncodeItem True (\<lambda>k. Some (replicate (unat k) 1)) None 0 (Some (Some [77, 97, 110], 3)) =
    Some (Some [0x54, 0x57, 0x46, 0x75, 0], None)"
proof -
  have "lines 64 (b64 [77, 97, 110]) = [0x54, 0x57, 0x46, 0x75]"
    by (simp add: lines.simps digit_def base64_tab_def b64.simps(4))
  then show ?thesis
    using nss_encode_item [of 3 "[77, 97, 110]" "[77, 97, 110]" "\<lambda>k. Some (replicate (unat k) 1)" 0 None] by simp
qed

end
