(* ===== verification/Nss_Base64_Dec_Spec.thy ===== *)
theory Nss_Base64_Dec_Spec
  imports Nss_Base64_Dec Nss_Base64_Enc_Spec
begin

text \<open>
  What the decoder promises: which texts it accepts and what it makes of them, in one call and over a stream of pieces, and that
  it reads back what the encoder writes.
\<close>

subsection \<open>The texts accepted\<close>

definition body :: "cells \<Rightarrow> cells" where
  "body p = takeWhile (\<lambda>c. 0 \<le> codetovalue c) p"

definition behind :: "cells \<Rightarrow> cells" where
  "behind p = dropWhile (\<lambda>c. 0 \<le> codetovalue c) p"

text \<open>The significant characters are those of the alphabet, up to the first \<open>=\<close>, and then no others; at most two are missing to a
  whole group. Behind whole groups up to three characters are passed over.\<close>

definition accepted :: "cells \<Rightarrow> bool" where
  "accepted p \<longleftrightarrow>
     (if length (body p) mod 4 = 0 then length (behind p) < 4
      else length (body p) mod 4 \<noteq> 1 \<and> set (behind p) \<subseteq> {B64_PAD})"

lemma total_group: "length g = 4 \<Longrightarrow> b64_valid g \<Longrightarrow> total (g @ r) = map_option (\<lambda>y. unb64 g @ y) (total r)"
  by (cases "flushed (snd (run r))")
    (auto simp: total_def outcome_def run_group case_prod_unfold Let_def flushed_simps split: option.split)

lemma body_group: "b64_valid g \<Longrightarrow> body (g @ r) = g @ body r" "b64_valid g \<Longrightarrow> behind (g @ r) = behind r"
  by (simp_all add: body_def behind_def b64_valid_def takeWhile_append2 dropWhile_append2)

lemma unb64_group: "length g = 4 \<Longrightarrow> unb64 (g @ r) = unb64 g @ unb64 r"
proof -
  assume "length g = 4"
  then obtain a b c d where "g = [a, b, c, d]" using four by blast
  then show ?thesis using unb64_4 [of a b c d r] by (simp del: unb64.simps)
qed

lemma accepted_group: "length g = 4 \<Longrightarrow> b64_valid g \<Longrightarrow> accepted (g @ r) = accepted r"
  by (simp add: accepted_def body_group)

lemma total_accepted:
  "\<forall>c\<in>set p. 0 \<le> codetovalue c \<or> c = B64_PAD \<Longrightarrow> total p = (if accepted p then Some (unb64 (body p)) else None)"
proof (induction p rule: run.induct)
  case (1 a b c d r)
  show ?case
  proof (cases "b64_valid [a, b, c, d]")
    case True
    have "total ([a, b, c, d] @ r) = (if accepted ([a, b, c, d] @ r) then Some (unb64 (body ([a, b, c, d] @ r))) else None)"
      using 1 True by (simp add: total_group accepted_group body_group unb64_group del: append_Cons append.simps b64_valid_simps unb64.simps)
    then show ?thesis by simp
  next
    case False
    then show ?thesis using "1.prems"
      by (auto simp: total_def outcome_def accepted_def body_def behind_def flushed_simps simp del: unb64.simps)
  qed
qed (auto simp: total_def outcome_def accepted_def body_def behind_def flushed_simps simp del: unb64.simps(1-3))

lemma sig_chars: "c \<in> set (sig cs) \<Longrightarrow> 0 \<le> codetovalue c \<or> c = B64_PAD"
  by (simp add: sig_def)

lemma outcome_short: "outcome p = Some (x, q) \<Longrightarrow> length q < 4"
  by (auto simp: outcome_def split: prod.splits option.splits if_splits)

lemma outcome_length: "outcome p = Some (x, q) \<Longrightarrow> length x + length q * 3 div 4 \<le> length p * 3 div 4"
proof -
  assume o: "outcome p = Some (x, q)"
  obtain x0 q0 where r: "run p = (x0, q0)" by (cases "run p")
  show ?thesis
  proof (cases "length q0 < 4")
    case True
    obtain k where "length x0 = 3 * k" "length p = 4 * k + length q0" using run_length [of p] r by (auto elim!: dvdE)
    then show ?thesis using o r True by (simp add: outcome_def)
  next
    case False
    then obtain y where "token_value (take 4 q0) = Some y" "x = x0 @ y" "q = []"
      using o r by (auto simp: outcome_def split: option.splits if_splits)
    then show ?thesis using run_room(2) [OF r] False by simp
  qed
qed

subsection \<open>One call\<close>

lemma decode_whole:
  fixes m :: u32
  assumes n: "0 < unat n" "unat n \<le> length src" "unat n < 2 ^ 30" and d: "unat n * 3 div 4 \<le> length d"
  defines "data \<equiv> \<lparr>token = [0, 0, 0, 0], token_size = 0, dec_arg = (), dec_buffer = Some d, dec_buflen = m, dec_length = 0\<rparr>"
  shows "case total (sig (take (unat n) src)) of
      None \<Rightarrow> \<exists>data1 data2 e. pl_base64_decode_buffer data src n = Some (data1, PR_FAILURE e) \<or>
        pl_base64_decode_buffer data src n = Some (data1, PR_SUCCESS) \<and> pl_base64_decode_flush None data1 = Some (data2, PR_FAILURE e)
    | Some x \<Rightarrow> \<exists>data1 data2. pl_base64_decode_buffer data src n = Some (data1, PR_SUCCESS) \<and>
        pl_base64_decode_flush None data1 = Some (data2, PR_SUCCESS) \<and>
        dec_buffer data2 = Some (patch d 0 x) \<and> dec_length data2 = of_nat (length x) \<and>
        length (token data2) = 4 \<and> (token_size data2 = 0 \<or> token data2 ! 0 = B64_PAD) \<and> length x \<le> unat n * 3 div 4"
proof -
  define p where "p = sig (take (unat n) src)"
  have lp: "length p \<le> unat n" unfolding p_def sig_def by (rule order_trans [OF length_filter_le]) simp
  then have lp4: "length p * 3 div 4 \<le> unat n * 3 div 4" by (intro div_le_mono) simp
  have rm: "room (dec_buffer data) (length p * 3 div 4)" using lp4 d by (simp add: data_def room_def)
  have dd: "token_size data = 0" "dec_buffer data = Some d" "length (token data) = 4" by (simp_all add: data_def)
  have db: "case outcome p of
      None \<Rightarrow> \<exists>data1. pl_base64_decode_buffer data src n = Some (data1, PR_FAILURE None)
    | Some (x, q) \<Rightarrow> \<exists>tok. pl_base64_decode_buffer data src n = Some (data\<lparr>token := tok, token_size := length q,
          dec_buffer := put_at (dec_buffer data) 0 x, dec_length := of_nat (length x)\<rparr>, PR_SUCCESS) \<and>
        length tok = 4 \<and> take (length q) tok = q"
    using decode_buffer [of data n src] dd n rm by (simp add: p_def)
  show ?thesis
  proof (cases "outcome p")
    case None
    then show ?thesis using db unfolding p_def [symmetric] by (auto simp: total_def)
  next
    case (Some r)
    obtain x q where xq: "outcome p = Some (x, q)" using Some by (cases r) auto
    obtain tok where tok: "pl_base64_decode_buffer data src n = Some (data\<lparr>token := tok, token_size := length q,
          dec_buffer := put_at (dec_buffer data) 0 x, dec_length := of_nat (length x)\<rparr>, PR_SUCCESS)"
        "length tok = 4" "take (length q) tok = q"
      using db xq by auto
    define data1 where "data1 = data\<lparr>token := tok, token_size := length q,
      dec_buffer := put_at (dec_buffer data) 0 x, dec_length := of_nat (length x)\<rparr>"
    have q: "length q < 4" "length x + length q * 3 div 4 \<le> unat n * 3 div 4"
      using outcome_short [OF xq] outcome_length [OF xq] lp4 by simp_all
    have lx: "unat (dec_length data1) = length x" using q(2) n(3) by (simp add: data1_def unat_of_nat)
    have f1: "length (token data1) = 4" "token_size data1 < 4" "take (token_size data1) (token data1) = q"
      "dec_buffer data1 = Some (patch d 0 x)"
      using tok(2,3) q(1) dd by (simp_all add: data1_def put_at_def)
    have r1: "room (dec_buffer data1) (length x + length q * 3 div 4)" using q(2) d by (simp add: f1(4) room_def)
    note fl = decode_flush [where output_fn = None, OF f1(1,2) lx [symmetric], unfolded f1(3), OF r1]
    show ?thesis
    proof (cases "flushed q")
      case None
      then show ?thesis using fl(1) tok(1) xq unfolding p_def [symmetric] data1_def [symmetric]
        by (auto simp: total_def)
    next
      case (Some y)
      show ?thesis
      proof (cases "y = []")
        case True
        have "token_size data1 = 0 \<or> token data1 ! 0 = B64_PAD"
          using Some True f1(1,3) token_value_nonempty [of "q @ replicate (4 - length q) B64_PAD" "[]"]
          by (cases "token data1"; cases q) (auto simp: flushed_def data1_def split: if_splits)
        then show ?thesis using fl(2) Some True tok(1) xq f1 q(2) unfolding p_def [symmetric] data1_def [symmetric]
          by (auto simp: total_def data1_def)
      next
        case False
        have ly: "length (x @ y) \<le> unat n * 3 div 4" using flushed_length [OF Some q(1)] q(2) by simp
        from fl(3) [OF Some False] obtain data2 where
          data2: "data2 = data1\<lparr>token := token data2, token_size := 0, dec_buffer := put_at (dec_buffer data1) (length x) y\<rparr>"
          and t2: "length (token data2) = 4"
          and f2: "pl_base64_decode_flush None data1 = Some (data2\<lparr>dec_length := dec_length data2 + of_nat (length y)\<rparr>, PR_SUCCESS)" by auto
        have "put_at (dec_buffer data1) (length x) y = Some (patch d 0 (x @ y))"
          using ly d patch_patch [of 0 x d y] by (simp add: f1(4) put_at_def)
        then have "dec_buffer data2 = Some (patch d 0 (x @ y))" "token_size data2 = 0" "dec_length data2 = of_nat (length x)"
          by (subst data2; simp add: data1_def)+
        then show ?thesis using f2 t2 ly tok(1) xq Some unfolding p_def [symmetric] data1_def [symmetric]
          by (auto simp: total_def)
      qed
    qed
  qed
qed

lemma max_decoded_length: "unat n < 2 ^ 30 \<Longrightarrow> unat (PL_Base64MaxDecodedLength n) = unat n * 3 div 4"
  by (simp add: PL_Base64MaxDecodedLength_def unat_div unat_word_ariths)

lemma decode_buffer_text:
  assumes n: "0 < unat n" "unat n \<le> length src" "unat n < 2 ^ 30"
    and d: "unat n * 3 div 4 \<le> unat m" "unat m \<le> length d"
  shows "PL_Base64DecodeBuffer True malloc src n (Some d) m = (case total (sig (take (unat n) src)) of
      None \<Rightarrow> Some (None, None, None)
    | Some x \<Rightarrow> Some (Some (patch d 0 x), Some (of_nat (length x)), None))"
proof -
  define data where "data = \<lparr>token = [0, 0, 0, 0], token_size = 0, dec_arg = (), dec_buffer = Some d, dec_buflen = m, dec_length = (0 :: u32)\<rparr>"
  have c: "map_option (\<lambda>data. data\<lparr>dec_buflen := m, dec_buffer := Some d\<rparr>) (pl_base64_create_decoder True ()) = Some data"
    by (simp add: pl_base64_create_decoder_def data_def)
  have n0: "n \<noteq> 0" using n(1) by auto
  have le: "\<not> m < PL_Base64MaxDecodedLength n" using d(1) max_decoded_length [OF n(3)] by (simp add: word_less_nat_alt)
  have run: "PL_Base64DecodeBuffer True malloc src n (Some d) m = do {
      (data1, status) \<leftarrow> pl_base64_decode_buffer data src n;
      (data2, status2) \<leftarrow> (if status = PR_SUCCESS then pl_base64_decode_flush None data1 else Some (data1, status));
      if status2 = PR_SUCCESS then do {
        (_, status3) \<leftarrow> PL_DestroyBase64Decoder None (data2\<lparr>dec_buffer := None\<rparr>) False;
        Some (if status3 = PR_SUCCESS then dec_buffer data2 else None, Some (dec_length data2), None) }
      else Some (None, None, None) }"
    using n0 le by (simp add: PL_Base64DecodeBuffer_def Let_def pl_base64_create_decoder_def data_def)
  have "unat n * 3 div 4 \<le> length d" using d by simp
  note whole = decode_whole [OF n this, of m, folded data_def]
  show ?thesis
  proof (cases "total (sig (take (unat n) src))")
    case None
    then show ?thesis using whole unfolding run by auto
  next
    case (Some x)
    then obtain data1 data2 where d: "pl_base64_decode_buffer data src n = Some (data1, PR_SUCCESS)"
      "pl_base64_decode_flush None data1 = Some (data2, PR_SUCCESS)"
      "dec_buffer data2 = Some (patch d 0 x)" "dec_length data2 = of_nat (length x)"
      "length (token data2) = 4" "token_size data2 = 0 \<or> token data2 ! 0 = B64_PAD"
      using whole by auto
    have "PL_DestroyBase64Decoder None (data2\<lparr>dec_buffer := None\<rparr>) False = Some (data2\<lparr>dec_buffer := None\<rparr>, PR_SUCCESS)"
      using d(5,6) by (simp add: PL_DestroyBase64Decoder_def pl_base64_decode_flush_def rd_def)
    then show ?thesis using Some d(1-4) unfolding run by simp
  qed
qed

lemma total_sig: "total (sig cs) = (if accepted (sig cs) then Some (unb64 (body (sig cs))) else None)"
  by (rule total_accepted) (blast dest: sig_chars)

lemma total_length: "total p = Some x \<Longrightarrow> length x \<le> length p * 3 div 4"
  using outcome_length [of p] flushed_length outcome_short [of p] by (fastforce simp: total_def bind_eq_Some_conv)

text \<open>The item has the buffer that was allocated for the longest text, and the length of what is in it.\<close>

definition holds_bytes :: "cptr \<Rightarrow> u32 \<Rightarrow> cells \<Rightarrow> bool" where
  "holds_bytes d n x \<longleftrightarrow> (case d of
       None \<Rightarrow> n = 1 \<and> x = []
     | Some s \<Rightarrow> length s = unat n * 3 div 4 \<and> take (length x) s = x)"

lemma decode_item:
  assumes n: "0 < unat n" "unat n \<le> length src" "unat n < 2 ^ 30"
    and alloc: "\<forall>k. \<exists>b. alloc k = Some b \<and> length b = unat k" "\<forall>k. \<exists>b. malloc k = Some b \<and> length b = unat k"
  shows "case total (sig (take (unat n) src)) of
      None \<Rightarrow> NSSBase64_DecodeBuffer True malloc True alloc src n = Some None
    | Some x \<Rightarrow> \<exists>d. NSSBase64_DecodeBuffer True malloc True alloc src n = Some (Some (d, of_nat (length x))) \<and> holds_bytes d n x"
proof -
  define p where "p = sig (take (unat n) src)"
  define m where "m = PL_Base64MaxDecodedLength n"
  have m: "unat m = unat n * 3 div 4" using max_decoded_length [OF n(3)] by (simp add: m_def)
  have "length p \<le> unat n" unfolding p_def sig_def by (rule order_trans [OF length_filter_le]) simp
  then have lp: "length p * 3 div 4 \<le> unat n * 3 div 4" by (intro div_le_mono) simp
  have lx: "length x \<le> unat m" if "total p = Some x" for x using total_length [OF that] lp m by simp
  have "\<exists>b. (if m = 0 then malloc m else alloc m) = Some b \<and> length b = unat m" using alloc by metis
  then obtain b where b: "(if m = 0 then malloc m else alloc m) = Some b" "length b = unat m" by blast
  have t: "PL_Base64DecodeBuffer True malloc src n (Some b) m = (case total p of
      None \<Rightarrow> Some (None, None, None)
    | Some x \<Rightarrow> Some (Some (patch b 0 x), Some (of_nat (length x)), None))"
    using decode_buffer_text [OF n, of m b malloc] m b(2) by (simp add: p_def)
  show ?thesis unfolding p_def [symmetric]
  proof (cases "m = 0")
    case True
    then have "unat n = 1" using m n(1) by auto
    then have n0: "n \<noteq> 0" and n1: "n = 1" by (auto simp: word_unat_eq_iff)
    have "PL_Base64DecodeBuffer True malloc src n None m = PL_Base64DecodeBuffer True malloc src n (Some b) m"
      using b(1) True n0 by (simp add: PL_Base64DecodeBuffer_def Let_def m_def [symmetric])
    then have "NSSBase64_DecodeBuffer True malloc True alloc src n = (case total p of
        None \<Rightarrow> Some None | Some x \<Rightarrow> Some (Some (None, of_nat (length x))))"
      using t by (simp add: NSSBase64_DecodeBuffer_def Let_def m_def [symmetric] SECITEM_AllocItem_def True split: option.split)
    then show "case total p of
        None \<Rightarrow> NSSBase64_DecodeBuffer True malloc True alloc src n = Some None
      | Some x \<Rightarrow> \<exists>d. NSSBase64_DecodeBuffer True malloc True alloc src n = Some (Some (d, of_nat (length x))) \<and> holds_bytes d n x"
      using lx True n1 by (auto simp: holds_bytes_def split: option.split)
  next
    case False
    then have "NSSBase64_DecodeBuffer True malloc True alloc src n = (case total p of
        None \<Rightarrow> Some None | Some x \<Rightarrow> Some (Some (Some (patch b 0 x), of_nat (length x))))"
      using t b(1) by (simp add: NSSBase64_DecodeBuffer_def Let_def m_def [symmetric] SECITEM_AllocItem_def split: option.split)
    then show "case total p of
        None \<Rightarrow> NSSBase64_DecodeBuffer True malloc True alloc src n = Some None
      | Some x \<Rightarrow> \<exists>d. NSSBase64_DecodeBuffer True malloc True alloc src n = Some (Some (d, of_nat (length x))) \<and> holds_bytes d n x"
      using lx b(2) m by (auto simp: holds_bytes_def patch_def split: option.split)
  qed
qed

text \<open>C19: for a text that is not empty and has less than a gigabyte (\<open>2 ^ 30\<close> characters), when the allocations succeed:
  \<open>NSSBase64_DecodeBuffer\<close> passes over every character that is neither of the alphabet nor \<open>=\<close>, and then accepts exactly the
  texts of \<open>accepted\<close>: the characters before the first \<open>=\<close> are not one more than whole groups, and only \<open>=\<close> follow, where the right number
  of them is not asked for; behind whole groups up to three characters of any kind are passed over. The item then has the value of
  the characters before the first \<open>=\<close>. No cell outside the buffer is written, in either case. (For longer texts
  \<open>PL_Base64MaxDecodedLength\<close> computes three times the size in 32 bits, and the buffer gets too small; an item whose
  buffer cannot be allocated comes back with a null pointer for its data: both are left out here.)\<close>

theorem nss_decode_item:
  assumes "0 < unat n" "unat n \<le> length src" "unat n < 2 ^ 30"
    and "\<forall>k. \<exists>b. alloc k = Some b \<and> length b = unat k" "\<forall>k. \<exists>b. malloc k = Some b \<and> length b = unat k"
  defines "p \<equiv> sig (take (unat n) src)"
  shows "if accepted p
    then \<exists>d. NSSBase64_DecodeBuffer True malloc True alloc src n = Some (Some (d, of_nat (length (unb64 (body p))))) \<and>
      holds_bytes d n (unb64 (body p))
    else NSSBase64_DecodeBuffer True malloc True alloc src n = Some None"
  using decode_item [OF assms(1-5)] total_sig [of "take (unat n) src"] by (auto simp: p_def split: if_splits)

lemma nss_decode_item_witness:
  "NSSBase64_DecodeBuffer True (\<lambda>k. Some (replicate (unat k) 0)) True (\<lambda>k. Some (replicate (unat k) 0)) [0x54, 0x57, 0x20, 0x46, 0x75] 5
    = Some (Some (Some [77, 97, 110], 3))"
proof -
  have s: "sig [0x54, 0x57, 0x20, 0x46, 0x75] = [0x54, 0x57, 0x46, 0x75]" by (simp add: codetovalue_def)
  have b: "body [0x54, 0x57, 0x46, 0x75] = [0x54, 0x57, 0x46, 0x75]" "behind [0x54, 0x57, 0x46, 0x75] = []"
    by (simp_all add: body_def behind_def codetovalue_def)
  have u: "unb64 [0x54, 0x57, 0x46, 0x75] = [77, 97, 110]" by (simp add: unb64.simps(1) val_def codetovalue_def)
  have a: "accepted [0x54, 0x57, 0x46, 0x75]" by (simp add: accepted_def b)
  have t: "take (unat (5 :: u32)) [0x54, 0x57, 0x20, 0x46, 0x75] = ([0x54, 0x57, 0x20, 0x46, 0x75] :: cells)" by simp
  define m where "m = (\<lambda>k :: u32. Some (replicate (unat k) (0 :: u8)))"
  have m: "\<forall>k. \<exists>b. m k = Some b \<and> length b = unat k" by (simp add: m_def)
  from nss_decode_item [of 5 "[0x54, 0x57, 0x20, 0x46, 0x75]", unfolded t s b(1) u, OF _ _ _ m m] a
  obtain d where d: "NSSBase64_DecodeBuffer True m True m [0x54, 0x57, 0x20, 0x46, 0x75] 5 = Some (Some (d, of_nat (length [77, 97, 110 :: u8])))"
    and d3: "holds_bytes d 5 [77, 97, 110]"
    by auto
  from d3 have "d = Some [77, 97, 110]" by (cases d) (auto simp: holds_bytes_def)
  then show ?thesis using d by (simp add: m_def)
qed

subsection \<open>Pieces\<close>

fun NSSBase64Decoder_Updates ::
  "(u32 \<Rightarrow> cptr) \<Rightarrow> 'a output_fn \<Rightarrow> 'a PLBase64Decoder \<Rightarrow> cells list \<Rightarrow> ('a PLBase64Decoder \<times> PRStatus) option" where
  "NSSBase64Decoder_Updates malloc output_fn data [] = Some (data, PR_SUCCESS)"
| "NSSBase64Decoder_Updates malloc output_fn data (c # cs) = do {
     (data1, status) \<leftarrow> NSSBase64Decoder_Update malloc output_fn data (Some c) (of_nat (length c));
     if status = PR_SUCCESS then NSSBase64Decoder_Updates malloc output_fn data1 cs else Some (data1, status) }"

text \<open>A whole session of the stream decoder: the object at the end, and the status.\<close>

definition decode_session ::
  "(u32 \<Rightarrow> cptr) \<Rightarrow> ('a \<Rightarrow> cells \<Rightarrow> int \<Rightarrow> ('a \<times> int) option) \<Rightarrow> 'a \<Rightarrow> cells list \<Rightarrow> ('a \<times> PRStatus) option" where
  "decode_session malloc f arg chunks = do {
     data \<leftarrow> NSSBase64Decoder_Create True True (Some f) arg;
     (data1, status) \<leftarrow> NSSBase64Decoder_Updates malloc (Some f) data chunks;
     (data2, status2) \<leftarrow> NSSBase64Decoder_Destroy (Some f) data1 (status \<noteq> PR_SUCCESS);
     Some (dec_arg data2, if status = PR_SUCCESS then status2 else status) }"

text \<open>What the pieces make, by the outcomes of the calls.\<close>

fun feed :: "cells \<Rightarrow> cells list \<Rightarrow> (cells \<times> cells) option" where
  "feed q [] = Some ([], q)"
| "feed q (c # cs) = do { (x, q1) \<leftarrow> outcome (q @ sig c); (y, q2) \<leftarrow> feed q1 cs; Some (x @ y, q2) }"

lemma run_append:
  "length (snd (run w)) < 4 \<Longrightarrow> run (w @ v) = (fst (run w) @ fst (run (snd (run w) @ v)), snd (run (snd (run w) @ v)))"
  by (induction w rule: run.induct) (auto simp del: unb64.simps)

lemma run_append_stuck: "4 \<le> length (snd (run w)) \<Longrightarrow> run (w @ v) = (fst (run w), snd (run w) @ v)"
  by (induction w rule: run.induct) (auto simp del: unb64.simps)

lemma total_append:
  assumes "run w = (x, q)" "length q < 4"
  shows "total (w @ v) = map_option (\<lambda>y. x @ y) (total (q @ v))"
  using run_append [of w v] assms run_short [OF assms(2)]
  by (cases "run (q @ v)"; cases "flushed (snd (run (q @ v)))")
    (auto simp: total_def outcome_def flushed_simps split: option.splits)

text \<open>Nothing significant follows the group in which the first \<open>=\<close> stands.\<close>

definition closed_text :: "cells \<Rightarrow> bool" where
  "closed_text p \<longleftrightarrow> length p \<le> 4 * (length (body p) div 4) + 4"

lemma run_rest_length: "length (snd (run p)) = length p - 4 * (length (body p) div 4)"
proof (induction p rule: run.induct)
  case (1 a b c d r)
  show ?case
  proof (cases "b64_valid [a, b, c, d]")
    case True
    then show ?thesis using 1 div_add_self1 [of 4 "length (body r)"] by (simp add: body_def)
  next
    case False
    then show ?thesis by (auto simp: body_def)
  qed
qed (auto simp: body_def)

lemma sig_concat_Nil: "sig (concat cs) = [] \<Longrightarrow> feed [] cs = Some ([], [])"
  by (induction cs) (auto simp: outcome_def)

lemma feed_total:
  "\<lbrakk>length q < 4; length (snd (run (q @ sig (concat cs)))) \<le> 4\<rbrakk> \<Longrightarrow>
   total (q @ sig (concat cs)) = do { (x, q1) \<leftarrow> feed q cs; y \<leftarrow> flushed q1; Some (x @ y) }"
proof (induction cs arbitrary: q)
  case Nil
  then show ?case using run_short [of q] by (simp add: total_def outcome_def)
next
  case (Cons c cs)
  define w v where "w = q @ sig c" and "v = sig (concat cs)"
  have wv: "q @ sig (concat (c # cs)) = w @ v" by (simp add: w_def v_def)
  obtain x q0 where r: "run w = (x, q0)" by (cases "run w")
  show ?case
  proof (cases "length q0 < 4")
    case True
    then have "outcome w = Some (x, q0)" by (simp add: outcome_def r)
    moreover have "length (snd (run (q0 @ v))) \<le> 4" using Cons.prems(2) run_append [of w v] r True unfolding wv by simp
    ultimately show ?thesis unfolding wv total_append [OF r True] using Cons.IH [OF True] 
      by (cases "feed q0 cs"; cases "flushed (snd (the (feed q0 cs)))") (auto simp: v_def w_def)
  next
    case False
    have "length q0 + length v \<le> 4" using False Cons.prems(2) run_append_stuck [of w v] r unfolding wv by simp
    then have "length q0 = 4" "length v = 0" using False by linarith+
    then have "length q0 = 4" and v: "v = []" by simp_all
    then have ow: "outcome w = (case token_value q0 of None \<Rightarrow> None | Some y \<Rightarrow> Some (x @ y, []))"
      by (simp add: outcome_def r split: option.split)
    have "feed q (c # cs) = (case token_value q0 of None \<Rightarrow> None | Some y \<Rightarrow> Some (x @ y, []))"
      using sig_concat_Nil [of cs] v unfolding v_def
      by (simp add: ow [unfolded w_def] split: option.split)
    then show ?thesis unfolding wv by (simp add: total_def v ow flushed_simps split: option.split)
  qed
qed

text \<open>A decoder between two pieces: the characters that wait, and the bytes given to the output function.\<close>

definition dec_at :: "('a \<Rightarrow> cells) \<Rightarrow> 'a PLBase64Decoder \<Rightarrow> cells \<Rightarrow> cells \<Rightarrow> bool" where
  "dec_at seen data x q \<longleftrightarrow> length (token data) = 4 \<and> token_size data < 4 \<and> take (token_size data) (token data) = q \<and>
     seen (dec_arg data) = x \<and> dec_length data = 0 \<and> room (dec_buffer data) (token_size data * 3 div 4) \<and>
     room (dec_buffer data) (unat (dec_buflen data)) \<and> token_size data * 3 div 4 \<le> unat (dec_buflen data)"

lemma decoder_grows:
  assumes alloc: "\<forall>k. \<exists>b. malloc k = Some b \<and> length b = unat k" and rm: "room (dec_buffer data) (unat (dec_buflen data))"
  obtains data1 where "(if nd > dec_buflen data then
                  (case (case dec_buffer data of
                           Some b \<Rightarrow> map_option (\<lambda>m. take (length m) b @ drop (length b) m) (malloc nd)
                         | None \<Rightarrow> malloc nd) of
                     None \<Rightarrow> None
                   | Some b \<Rightarrow> Some (data\<lparr>dec_buffer := Some b, dec_buflen := nd\<rparr>))
                else Some data) = Some data1"
    "token data1 = token data" "token_size data1 = token_size data" "dec_arg data1 = dec_arg data"
    "room (dec_buffer data1) (unat (dec_buflen data1))" "unat nd \<le> unat (dec_buflen data1)"
proof (cases "nd > dec_buflen data")
  case True
  obtain b where b: "malloc nd = Some b" "length b = unat nd" using alloc by blast
  define b1 where "b1 = (case dec_buffer data of Some b0 \<Rightarrow> take (length b) b0 @ drop (length b0) b | None \<Rightarrow> b)"
  have "length b1 = unat nd" using b(2) by (auto simp: b1_def split: option.split)
  then show ?thesis using True b(1)
    by (intro that [of "data\<lparr>dec_buffer := Some b1, dec_buflen := nd\<rparr>"])
      (auto simp: b1_def room_def split: option.split)
next
  case False
  then have "unat nd \<le> unat (dec_buflen data)" by (simp add: word_less_nat_alt)
  then show ?thesis using rm False by (intro that [of data]) simp_all
qed

lemma decoder_update:
  assumes f: "takes_text f seen" and alloc: "\<forall>k. \<exists>b. malloc k = Some b \<and> length b = unat k"
    and at: "dec_at seen data x q" and c: "c \<noteq> []" "length c < 2 ^ 30 - 4"
  shows "case outcome (q @ sig c) of
      None \<Rightarrow> \<exists>data1 e. NSSBase64Decoder_Update malloc (Some f) data (Some c) (of_nat (length c)) = Some (data1, PR_FAILURE e)
    | Some (y, q1) \<Rightarrow> \<exists>data1. NSSBase64Decoder_Update malloc (Some f) data (Some c) (of_nat (length c)) = Some (data1, PR_SUCCESS) \<and>
        dec_at seen data1 (x @ y) q1"
proof -
  define n where "n = (of_nat (length c) :: u32)"
  have n: "unat n = length c" "n \<noteq> 0" using c by (simp_all add: n_def unat_of_nat word_unat_eq_iff)
  have ts: "length (token data) = 4" "token_size data < 4" "take (token_size data) (token data) = q" "seen (dec_arg data) = x"
    and lq: "length q = token_size data" using at by (auto simp: dec_at_def)
  define nd where "nd = PL_Base64MaxDecodedLength (n + of_nat (token_size data))"
  have nd: "unat nd = (length c + token_size data) * 3 div 4"
    using max_decoded_length [of "n + of_nat (token_size data)"] n(1) c(2) ts(2) by (simp add: nd_def unat_word_ariths unat_of_nat)
  have "room (dec_buffer data) (unat (dec_buflen data))" using at by (simp add: dec_at_def)
  from decoder_grows [OF alloc this, of nd] obtain data1 where g: "(if nd > dec_buflen data then
                  (case (case dec_buffer data of
                           Some b \<Rightarrow> map_option (\<lambda>m. take (length m) b @ drop (length b) m) (malloc nd)
                         | None \<Rightarrow> malloc nd) of
                     None \<Rightarrow> None
                   | Some b \<Rightarrow> Some (data\<lparr>dec_buffer := Some b, dec_buflen := nd\<rparr>))
                else Some data) = Some data1"
    "token data1 = token data" "token_size data1 = token_size data" "dec_arg data1 = dec_arg data"
    "room (dec_buffer data1) (unat (dec_buflen data1))" "unat nd \<le> unat (dec_buflen data1)" .
  define data0 where "data0 = data1\<lparr>dec_length := 0\<rparr>"
  have upd: "NSSBase64Decoder_Update malloc (Some f) data (Some c) n = do {
      (data2, status) \<leftarrow> pl_base64_decode_buffer data0 c n;
      (data3, status3) \<leftarrow> (if status = PR_SUCCESS \<and> dec_length data2 > 0 then do {
          buf \<leftarrow> dec_buffer data2;
          (arg, r) \<leftarrow> (if unat (dec_length data2) \<le> length buf
            then f (dec_arg data2) (take (unat (dec_length data2)) buf) (sint (dec_length data2)) else None);
          Some (data2\<lparr>dec_arg := arg\<rparr>, if r < 0 then PR_FAILURE None else status) }
        else Some (data2, status));
      Some (data3\<lparr>dec_length := 0\<rparr>, status3) }"
    using n(2) unfolding NSSBase64Decoder_Update_def PL_UpdateBase64Decoder_def Let_def nd_def [symmetric] g(1) data0_def bind.bind_lunit
    by simp
  have "length (sig c) \<le> length c" unfolding sig_def by (rule length_filter_le)
  then have "length (q @ sig c) * 3 div 4 \<le> unat nd" unfolding nd by (intro div_le_mono) (simp add: lq)
  then have lp: "length (q @ sig c) * 3 div 4 \<le> unat (dec_buflen data1)" using g(6) by simp
  have db: "case outcome (q @ sig c) of
      None \<Rightarrow> \<exists>data1. pl_base64_decode_buffer data0 c n = Some (data1, PR_FAILURE None)
    | Some (y, q1) \<Rightarrow> \<exists>tok. pl_base64_decode_buffer data0 c n = Some (data0\<lparr>token := tok, token_size := length q1,
          dec_buffer := put_at (dec_buffer data0) 0 y, dec_length := of_nat (length y)\<rparr>, PR_SUCCESS) \<and>
        length tok = 4 \<and> take (length q1) tok = q1"
    using decode_buffer [of data0 n c] room_mono [OF g(5) lp] g(2,3) ts(1-3) n c(1) by (simp add: data0_def)
  show ?thesis
  proof (cases "outcome (q @ sig c)")
    case None
    then show ?thesis using db upd unfolding n_def [symmetric] by auto
  next
    case (Some r)
    obtain y q1 where yq: "outcome (q @ sig c) = Some (y, q1)" using Some by (cases r) auto
    obtain tok where tok: "pl_base64_decode_buffer data0 c n = Some (data0\<lparr>token := tok, token_size := length q1,
          dec_buffer := put_at (dec_buffer data0) 0 y, dec_length := of_nat (length y)\<rparr>, PR_SUCCESS)"
        "length tok = 4" "take (length q1) tok = q1"
      using db yq by auto
    define data2 where "data2 = data0\<lparr>token := tok, token_size := length q1,
          dec_buffer := put_at (dec_buffer data0) 0 y, dec_length := of_nat (length y)\<rparr>"
    have len: "length y + length q1 * 3 div 4 \<le> unat (dec_buflen data1)" using outcome_length [OF yq] lp by simp
    have small: "length y < 2 ^ 31"
      using outcome_length [OF yq] \<open>length (q @ sig c) * 3 div 4 \<le> unat nd\<close> nd c(2) ts(2) by simp
    have ly: "unat (dec_length data2) = length y" using small by (simp add: data2_def unat_of_nat)
    have rm: "room (dec_buffer data1) (0 + length y)" using room_mono [OF g(5), of "length y"] len by simp
    have at2: "dec_at seen (data2\<lparr>dec_arg := a, dec_length := 0\<rparr>) (seen a) q1" for a
      using tok(2,3) outcome_short [OF yq] len room_mono [OF g(5), of "length q1 * 3 div 4"] g(5) room_put_at [OF rm]
      by (simp add: dec_at_def data2_def data0_def)
    show ?thesis
    proof (cases "y = []")
      case True
      then have "dec_length data2 = 0" by (simp add: data2_def)
      moreover have "data2\<lparr>dec_length := 0\<rparr> = data2\<lparr>dec_arg := dec_arg data, dec_length := 0\<rparr>"
        using g(4) by (simp add: data2_def data0_def)
      ultimately show ?thesis using upd tok(1) at2 [of "dec_arg data"] yq True ts(4) unfolding n_def [symmetric] data2_def [symmetric]
        by simp
    next
      case False
      then have pos: "0 < dec_length data2" using ly by (simp add: word_less_nat_alt)
      obtain b where b: "dec_buffer data1 = Some b" "length y \<le> length b" using rm False by (auto simp: room_def split: option.splits)
      have "sint (dec_length data2) = int (length y)" using ly small by (simp add: sint_small)
      moreover obtain a' r' where f': "f (dec_arg data) y (int (length y)) = Some (a', r')" "0 \<le> r'" "seen a' = x @ y"
        using f ts(4) unfolding takes_text_def by blast
      moreover have "dec_buffer data2 = Some (patch b 0 y)" "dec_arg data2 = dec_arg data" "take (length y) (patch b 0 y) = y"
        "length (patch b 0 y) = length b"
        using b g(4) take_patch [of 0 y b] by (simp_all add: data2_def data0_def put_at_def)
      ultimately have "NSSBase64Decoder_Update malloc (Some f) data (Some c) n = Some (data2\<lparr>dec_arg := a', dec_length := 0\<rparr>, PR_SUCCESS)"
        using upd tok(1) pos ly b(2) unfolding data2_def [symmetric] by simp
      then show ?thesis using at2 [of a'] f'(3) yq unfolding n_def [symmetric] by simp
    qed
  qed
qed

lemma decoder_updates:
  assumes f: "takes_text f seen" and alloc: "\<forall>k. \<exists>b. malloc k = Some b \<and> length b = unat k"
  shows "\<lbrakk>dec_at seen data x q; \<forall>c\<in>set cs. c \<noteq> [] \<and> length c < 2 ^ 30 - 4\<rbrakk> \<Longrightarrow> case feed q cs of
      None \<Rightarrow> \<exists>data1 e. NSSBase64Decoder_Updates malloc (Some f) data cs = Some (data1, PR_FAILURE e)
    | Some (y, q1) \<Rightarrow> \<exists>data1. NSSBase64Decoder_Updates malloc (Some f) data cs = Some (data1, PR_SUCCESS) \<and>
        dec_at seen data1 (x @ y) q1"
proof (induction cs arbitrary: data x q)
  case (Cons c cs)
  have u: "case outcome (q @ sig c) of
      None \<Rightarrow> \<exists>data1 e. NSSBase64Decoder_Update malloc (Some f) data (Some c) (of_nat (length c)) = Some (data1, PR_FAILURE e)
    | Some (y, q1) \<Rightarrow> \<exists>data1. NSSBase64Decoder_Update malloc (Some f) data (Some c) (of_nat (length c)) = Some (data1, PR_SUCCESS) \<and>
        dec_at seen data1 (x @ y) q1"
    using decoder_update [OF f alloc Cons.prems(1)] Cons.prems(2) by simp
  show ?case
  proof (cases "outcome (q @ sig c)")
    case None
    then show ?thesis using u by auto
  next
    case (Some r)
    then obtain y q1 data1 where yq: "outcome (q @ sig c) = Some (y, q1)"
      "NSSBase64Decoder_Update malloc (Some f) data (Some c) (of_nat (length c)) = Some (data1, PR_SUCCESS)"
      "dec_at seen data1 (x @ y) q1" using u by (cases r) auto
    show ?thesis using Cons.IH [OF yq(3)] Cons.prems(2) yq(1,2) by (cases "feed q1 cs") auto
  qed
qed simp

text \<open>The end of a session.\<close>

lemma decoder_flush:
  assumes f: "takes_text f seen" and at: "dec_at seen data1 x q"
  shows "\<exists>arg1 status. do { (data2, status) \<leftarrow> pl_base64_decode_flush (Some f) data1; Some (dec_arg data2, status) } = Some (arg1, status) \<and>
    (case flushed q of None \<Rightarrow> status \<noteq> PR_SUCCESS | Some y \<Rightarrow> status = PR_SUCCESS \<and> seen arg1 = x @ y)"
proof -
  have d1: "length (token data1) = 4" "token_size data1 < 4" "take (token_size data1) (token data1) = q" "0 = unat (dec_length data1)"
    "seen (dec_arg data1) = x" and rm: "room (dec_buffer data1) (0 + length q * 3 div 4)"
    using at by (auto simp: dec_at_def)
  note fl = decode_flush [where output_fn = "Some f", OF d1(1,2,4), unfolded d1(3), OF rm]
  show ?thesis
  proof (cases "flushed q")
    case None
    then show ?thesis using fl(1) by auto
  next
    case (Some y)
    show ?thesis
    proof (cases "y = []")
      case True
      then show ?thesis using fl(2) Some d1(5) by auto
    next
      case False
      have "length q < 4" using d1(2,3) by auto
      then have "length y \<le> length q * 3 div 4" by (rule flushed_length [OF Some])
      then obtain b where b: "dec_buffer data1 = Some b" "length y \<le> length b"
        using rm False by (auto simp: room_def split: option.splits)
      from fl(3) [OF Some False] obtain data2 where
        d2: "data2 = data1\<lparr>token := token data2, token_size := 0, dec_buffer := put_at (dec_buffer data1) 0 y\<rparr>"
        and run2: "pl_base64_decode_flush (Some f) data1 = do {
            buf \<leftarrow> dec_buffer data2;
            (arg, r) \<leftarrow> (if length y \<le> length buf then f (dec_arg data2) (take (length y) buf) (int (length y)) else None);
            Some (data2\<lparr>dec_arg := arg\<rparr>, if r < 0 then PR_FAILURE None else PR_SUCCESS) }" by auto
      have "dec_buffer data2 = Some (patch b 0 y)" "dec_arg data2 = dec_arg data1"
        by (subst d2; simp add: b(1) put_at_def)+
      moreover have "take (length y) (patch b 0 y) = y" "length (patch b 0 y) = length b"
        using b(2) take_patch [of 0 y b] by simp_all
      moreover obtain a' r' where "f (dec_arg data1) y (int (length y)) = Some (a', r')" "0 \<le> r'" "seen a' = x @ y"
        using f d1(5) unfolding takes_text_def by blast
      ultimately have "do { (data2, status) \<leftarrow> pl_base64_decode_flush (Some f) data1; Some (dec_arg data2, status) } = Some (a', PR_SUCCESS)"
        "seen a' = x @ y"
        using b(2) unfolding run2 by simp_all
      then show ?thesis using Some by auto
    qed
  qed
qed

text \<open>C11: the stream decoder agrees with the decoder of one buffer, whatever the pieces: a session of \<open>NSSBase64Decoder\<close> succeeds
  exactly if the whole text is one that is accepted, and then the output function has been given its bytes, in order. The text may have
  nothing significant behind the group of its first \<open>=\<close> (there the result does depend on the pieces); the output function takes what
  it is given, the pieces are not empty and have less than a gigabyte, and the allocations succeed.\<close>

theorem nss_decoder_stream:
  assumes f: "takes_text f seen" and arg: "seen arg = []" and alloc: "\<forall>k. \<exists>b. malloc k = Some b \<and> length b = unat k"
    and chunks: "\<forall>c\<in>set chunks. c \<noteq> [] \<and> length c < 2 ^ 30 - 4"
  defines "p \<equiv> sig (concat chunks)"
  assumes closed: "closed_text p"
  shows "\<exists>arg1 status. decode_session malloc f arg chunks = Some (arg1, status) \<and>
    (if accepted p then status = PR_SUCCESS \<and> seen arg1 = unb64 (body p) else status \<noteq> PR_SUCCESS)"
proof -
  define data where "data = \<lparr>token = [0, 0, 0, 0], token_size = 0, dec_arg = arg, dec_buffer = None, dec_buflen = 0, dec_length = (0 :: u32)\<rparr>"
  have c: "NSSBase64Decoder_Create True True (Some f) arg = Some data"
    by (simp add: NSSBase64Decoder_Create_def PL_CreateBase64Decoder_def pl_base64_create_decoder_def data_def)
  have at: "dec_at seen data [] []" using arg by (simp add: dec_at_def data_def room_def)
  have "length (snd (run ([] @ sig (concat chunks)))) \<le> 4" using closed by (simp add: run_rest_length closed_text_def p_def)
  then have "total p = do { (x, q1) \<leftarrow> feed [] chunks; y \<leftarrow> flushed q1; Some (x @ y) }"
    using feed_total [of "[]" chunks] by (simp add: p_def)
  moreover have "total p = (if accepted p then Some (unb64 (body p)) else None)" unfolding p_def by (rule total_sig)
  ultimately have t: "do { (x, q1) \<leftarrow> feed [] chunks; y \<leftarrow> flushed q1; Some (x @ y) } =
      (if accepted p then Some (unb64 (body p)) else None)" by (rule trans [OF sym])
  note u = decoder_updates [OF f alloc at chunks]
  show ?thesis
  proof (cases "feed [] chunks")
    case None
    then show ?thesis using t u by (auto simp: decode_session_def c NSSBase64Decoder_Destroy_def PL_DestroyBase64Decoder_def split: if_splits)
  next
    case (Some r)
    then obtain x q data1 where xq: "feed [] chunks = Some (x, q)"
      "NSSBase64Decoder_Updates malloc (Some f) data chunks = Some (data1, PR_SUCCESS)" "dec_at seen data1 x q" using u by (cases r) auto
    have run: "decode_session malloc f arg chunks =
        do { (data2, status2) \<leftarrow> pl_base64_decode_flush (Some f) data1; Some (dec_arg data2, status2) }"
      using c xq(2) by (simp add: decode_session_def NSSBase64Decoder_Destroy_def PL_DestroyBase64Decoder_def)
    show ?thesis using decoder_flush [OF f xq(3)] t xq(1) unfolding run by (cases "flushed q") (auto split: if_splits)
  qed
qed

lemma nss_decoder_stream_witness:
  "\<exists>arg1 status. decode_session (\<lambda>k. Some (replicate (unat k) 0)) (\<lambda>a cs n. Some (a @ cs, 0)) [] [[0x54, 0x57], [0x0A, 0x45, 0x3D]] =
      Some (arg1, status) \<and> status = PR_SUCCESS \<and> arg1 = [77, 97]"
proof -
  have s: "sig (concat [[0x54, 0x57], [0x0A, 0x45, 0x3D]]) = [0x54, 0x57, 0x45, 0x3D]" by (simp add: codetovalue_def)
  have b: "body [0x54, 0x57, 0x45, 0x3D] = [0x54, 0x57, 0x45]" "behind [0x54, 0x57, 0x45, 0x3D] = [0x3D]"
    by (simp_all add: body_def behind_def codetovalue_def)
  have u: "unb64 [0x54, 0x57, 0x45] = [77, 97]" by (simp add: val_def codetovalue_def)
  have a: "accepted [0x54, 0x57, 0x45, 0x3D]" by (simp add: accepted_def b)
  show ?thesis
    using nss_decoder_stream [of "\<lambda>a cs n. Some (a @ cs, 0)" id "[]" "\<lambda>k. Some (replicate (unat k) 0)"
        "[[0x54, 0x57], [0x0A, 0x45, 0x3D]]", unfolded s b(1) u] a
    by (simp add: takes_text_def closed_text_def b(1))
qed

subsection \<open>Round trip\<close>

lemma codetovalue_newline [simp]: "codetovalue 0x0D = - 1" "codetovalue 0x0A = - 1"
  by (simp_all add: codetovalue_def)

lemma sig_lines: "\<forall>c\<in>set t. 0 \<le> codetovalue c \<or> c = B64_PAD \<Longrightarrow> sig (lines L t) = t"
proof (induction L t rule: lines.induct)
  case (1 L t)
  have t: "sig t = t" using 1(2) by (simp add: sig_def)
  show ?case
  proof (cases "L = 0 \<or> length t \<le> L")
    case True
    then show ?thesis using t by (simp add: lines.simps [of L t])
  next
    case False
    have "\<forall>c\<in>set (drop L t). 0 \<le> codetovalue c \<or> c = B64_PAD" using 1(2) in_set_dropD by fast
    then have "sig (lines L (drop L t)) = drop L t" using 1(1) False by simp
    moreover have "sig (take L t) = take L t" using 1(2) by (auto simp: sig_def filter_id_conv dest: in_set_takeD)
    ultimately show ?thesis using False by (simp add: lines.simps [of L t])
  qed
qed

lemma lines_chars: "c \<in> set (lines L t) \<Longrightarrow> c \<in> set t \<or> c = B64_CR \<or> c = B64_LF"
proof (induction L t rule: lines.induct)
  case (1 L t)
  then show ?case
    using in_set_takeD [of c L t] in_set_dropD [of c L t] by (cases "L = 0 \<or> length t \<le> L") (auto simp: lines.simps [of L t])
qed

lemma b64_chars: "c \<in> set (b64 xs) \<Longrightarrow> (0 \<le> codetovalue c \<or> c = B64_PAD) \<and> c \<noteq> 0"
  using body_valid [of xs] body_no_equals [of xs] by (auto simp: b64_pad b64_valid_def)

lemma strlen_of_text: "0 \<notin> set t \<Longrightarrow> c_strlen (t @ [0]) = Some (length t)"
  by (induction t) auto

lemma accepted_b64: "accepted (b64 xs)" "body (b64 xs) = b64_body xs"
proof -
  have v: "\<forall>c\<in>set (b64_body xs). 0 \<le> codetovalue c" using body_valid [of xs] by (simp add: b64_valid_def)
  have r: "body (replicate k B64_PAD) = []" "behind (replicate k B64_PAD) = replicate k B64_PAD" for k
    by (cases k; simp add: body_def behind_def)+
  show b: "body (b64 xs) = b64_body xs"
    using body_group(1) [OF body_valid, of xs] r by (simp add: b64_pad)
  have "behind (b64 xs) = replicate (pad (length xs)) B64_PAD"
    using body_group(2) [OF body_valid, of xs] r by (simp add: b64_pad)
  moreover have "pad (length xs) < 4" unfolding pad_def by (rule order_le_less_trans [of _ 3]) auto
  ultimately show "accepted (b64 xs)" using body_mod [of xs] by (auto simp: accepted_def b)
qed

text \<open>C12: what \<open>BTOA_DataToAscii\<close> makes of any bytes, with its line breaks and padding, \<open>ATOB_AsciiToData\<close> reads back as the same bytes and their
  number: for at least one byte and up to a quarter of a gigabyte, when the allocations succeed.\<close>

theorem nss_base64_roundtrip:
  assumes xs: "xs \<noteq> []" "length xs < 2 ^ 28"
    and alloc: "\<forall>k. \<exists>b. alloc k = Some b \<and> length b = unat k" "\<forall>k. \<exists>b. malloc k = Some b \<and> length b = unat k"
  shows "\<exists>s d. BTOA_DataToAscii True alloc (Some xs) (of_nat (length xs)) = Some (Some s) \<and>
    ATOB_AsciiToData True malloc alloc s = Some (Some (Some d, of_nat (length xs))) \<and> take (length xs) d = xs"
proof -
  define t where "t = lines 64 (b64 xs)"
  have n: "unat (of_nat (length xs) :: u32) = length xs" using xs(2) by (simp add: unat_of_nat)
  have enc: "BTOA_DataToAscii True alloc (Some xs) (of_nat (length xs)) = Some (Some (t @ [0]))"
    using encode_item_fresh [OF n _ xs(1) _ alloc(1), of xs 0] xs(2) by (simp add: BTOA_DataToAscii_def t_def)
  have "0 \<notin> set t" using lines_chars [of 0 64 "b64 xs"] b64_chars [of 0 xs] by (auto simp: t_def)
  note len = strlen_of_text [OF this]
  define u where "u = (length xs + 2) div 3"
  have "0 < length xs" using xs(1) by simp
  then have "3 div 3 \<le> u" unfolding u_def by (intro div_le_mono) (simp add: Suc_leI)
  then have u: "1 \<le> u" "u < 2 ^ 27" using xs(2) by (simp_all add: u_def)
  have lt: "length t = u * 4 + 2 * ((u * 4 - 1) div 64)" by (simp add: t_def lines_length length_b64 u_def)
  have "(u * 4 - 1) div 64 \<le> (64 * u) div 64" by (rule div_le_mono) simp
  then have lt2: "4 \<le> length t" "length t < 2 ^ 30" using u lt by simp_all
  then have "t \<noteq> []" by auto
  have st: "sig (take (length t) (t @ [0])) = b64 xs" using sig_lines [of "b64 xs" 64] b64_chars by (auto simp: t_def)
  have m: "unat (of_nat (length t) :: u32) = length t" using lt2(2) by (simp add: unat_of_nat)
  have "\<forall>c\<in>set (b64 xs). 0 \<le> codetovalue c \<or> c = B64_PAD" using b64_chars by blast
  then have tot: "total (b64 xs) = Some xs" using total_accepted accepted_b64 [of xs] unb64_body [of xs] by simp
  from decode_item [of "of_nat (length t)" "t @ [0]" alloc malloc, unfolded m st tot] lt2 alloc \<open>t \<noteq> []\<close> obtain d where
    "NSSBase64_DecodeBuffer True malloc True alloc (t @ [0]) (of_nat (length t)) = Some (Some (d, of_nat (length xs)))"
    "holds_bytes d (of_nat (length t)) xs" by auto
  moreover from this(2) obtain s where "d = Some s" "take (length xs) s = xs" using xs(1)
    by (auto simp: holds_bytes_def split: option.splits)
  ultimately show ?thesis using enc len by (simp add: ATOB_AsciiToData_def)
qed

lemma nss_base64_roundtrip_witness:
  "\<exists>s d. BTOA_DataToAscii True (\<lambda>k. Some (replicate (unat k) 0)) (Some [0, 255]) 2 = Some (Some s) \<and>
    ATOB_AsciiToData True (\<lambda>k. Some (replicate (unat k) 0)) (\<lambda>k. Some (replicate (unat k) 0)) s = Some (Some (Some d, 2)) \<and>
    take 2 d = [0, 255]"
proof -
  have l: "length [0, 255 :: u8] = 2" by simp
  have o: "(of_nat 2 :: u32) = 2" by simp
  show ?thesis
    using nss_base64_roundtrip [of "[0, 255]" "\<lambda>k. Some (replicate (unat k) 0)" "\<lambda>k. Some (replicate (unat k) 0)", unfolded l o]
    by simp
qed

end
