(* ===== verification/Spec2Isabelle.thy ===== *)
theory Spec2Isabelle
  imports Uconv_Codec Uconv_Map Pl_Base64 Pl_DHash_Spec Pl_Hash_Spec Pr_Time_Spec Pr_Long_Spec Nss_Utf8_Spec Nss_Base_Spec
    Pr_Printf_Pieces Pr_Printf_Spec Nss_Base64_Dec_Spec
begin

text \<open>
  A verification library for the C core under KompoZer.

  KompoZer is an editor on the Mozilla 1.8.1 platform. Its front end is XUL and JavaScript, its editor and layout C++ over
  XPCOM interfaces; under all of it is a core of plain C, which keeps its own state, makes no system calls and is
  used by everything above: the character converters of \<open>intl/uconv\<close>, the string library, base64, hash table, bit,
  64-bit, calendar and formatting functions of NSPR (\<open>nsprpub\<close>), the double-hashed table of
  \<open>xpcom/glue\<close>, and the UTF-8 functions of NSS. This development
  models that core. All paths are below \<open>src/mozilla\<close>.

  Conventions. \<open>Kz_Prelude\<close> has the machine integers (words of the C width; \<open>int\<close> where C promotes and nothing
  wraps), memory as lists of cells (a pointer is the list of cells from it to the end of its object, \<open>rd\<close> and
  \<open>wr\<close> are one access, \<open>store\<close> a run of writes), and the result type: a C function is a function to \<open>'r option\<close>, \<open>None\<close> for a
  run with no defined result (an access outside an object, a call past a table, a loop that does not end, an undefined shift or a
  signed overflow), \<open>Some r\<close> for a return; what C reports itself as a failure is in \<open>r\<close>. Pointers have 64 bits.
  Functions the code is given (allocators, callbacks of tables, time zones) are parameters.

  Character converters (\<open>intl/uconv/src\<close>, used by the converters of legacy charsets).
  \<^item> \<open>Uconv_Types\<close>: the classes, shift cells and tables of \<open>uconvutil.h\<close>. \<open>Uconv_Gen\<close>, \<open>Uconv_Scan\<close>: each generator of \<open>ugen.c\<close>
    and scanner of \<open>uscan.c\<close> under its name, the dispatch tables \<open>m_generator\<close> and \<open>m_scanner\<close>, \<open>uGenerate\<close> and \<open>uScan\<close>.
  \<^item> \<open>Uconv_Codec\<close>: the locale \<open>codec\<close> (a generator and a scanner that agree on a class of codes), its round trips for one code and for a stream,
    interpreted on the model for every class of fixed length; what happens without room, and the classes whose checks are wrong.
  \<^item> \<open>Uconv_Map\<close>: the mapping tables of \<open>umap.c\<close>; a table is specified by the list of its cells, \<open>uMapCode\<close> refines the lookup in that list,
    \<open>uFillInfo\<close> sets the bits of exactly the mapped codes, and the cases in which its 16-bit counters do not end.

  NSPR strings (\<open>nsprpub/lib/libc/src\<close>).
  \<^item> \<open>Pl_String\<close>: the functions of \<open>strlen.c\<close> to \<open>strtok.c\<close>. The loops that search are instances of \<open>search_str\<close>, \<open>search_n\<close> and
    \<open>search_back\<close>. \<open>Pl_String_Spec\<close>: C strings as lists without a zero, first and last occurrence, order, bounded copies, tokens.
  \<^item> \<open>Pl_Base64\<close>: \<open>base64.c\<close> with RFC 1421's encoding as lists (\<open>b64\<close>, \<open>unb64\<close>) as its specification; round trip, refusal of ill-formed
    texts, the sizes of the buffers and where they are computed too small.

  Hash tables.
  \<^item> \<open>Hash_Map\<close>: the locale \<open>hash_map\<close>, the laws of a table that finds, puts and deletes, and in it the theorem on sessions:
    any sequence of operations gives the answers of a finite map.
  \<^item> \<open>Pl_DHash\<close>: \<open>xpcom/glue/pldhash.c\<close>, double hashing with removed sentinels, collision flags, growing and shrinking.
    \<open>Pl_DHash_Inv\<close>: the probe sequence visits every slot, the invariant \<open>table_ok\<close>. \<open>Pl_DHash_Ops\<close>: every operation keeps it
    and acts on the map (\<open>dh_map\<close>). \<open>Pl_DHash_Spec\<close>: the interpretation of \<open>hash_map\<close> and the properties.
  \<^item> \<open>Pl_Hash\<close>, \<open>Pl_Hash_Inv\<close>, \<open>Pl_Hash_Spec\<close>: the same for the chained table of \<open>nsprpub/lib/ds/plhash.c\<close>, with move to front,
    rehashing, enumeration with removal, and the same locale. The enumeration is compared with a reference (\<open>replies\<close>,
    \<open>visited\<close>, \<open>kept_of\<close>, \<open>removed_of\<close>) that is written on the list of the enumerator's replies.
  \<^item> \<open>Pr_Bits\<close>: the logarithms of \<open>prlog2.c\<close>, which the tables size themselves with.

  Time (\<open>nsprpub/pr/src/misc/prtime.c\<close>).
  \<^item> \<open>Pr_Time\<close>: the calendar functions. \<open>Pr_Calendar\<close>: the Gregorian calendar as day numbers (\<open>jan1\<close>, \<open>day_no\<close>),
    the instant that fields stand for, and lemmas on carries, tables, four-year spans, \<open>ComputeGMT\<close> and \<open>ApplySecOffset\<close>.
    \<open>Pr_Time_Spec\<close>: the locale \<open>time_zone\<close> (a zone function with offsets of less than a day), interpreted on the GMT
    and the US Pacific function, and in it exploding and normalising; then the properties.
  The range is the one in which every fourth year is a leap year, 1901 to 2099 (\<open>century\<close>); fields to normalise are bounded by \<open>10 ^ 9\<close>
  (\<open>bounded\<close>), far enough inside \<open>PRInt32\<close> that no carry overflows.

  64-bit integers in halves (\<open>nsprpub/pr/include/prlong.h\<close>, \<open>nsprpub/pr/src/misc/prlong.c\<close>).
  \<^item> \<open>Pr_Long\<close>: the macros and the division. \<open>Pr_Long_Arith\<close>: they compute what 64-bit words do. \<open>Pr_Long_Div\<close>: the digit estimates
    of the division and their corrections. \<open>Pr_Long_Spec\<close>: comparisons, signed division and the properties.

  UTF-8 in NSS (\<open>security/nss/lib/util/utf8.c\<close>, \<open>security/nss/lib/base/utf8.c\<close>).
  \<^item> \<open>Nss_Utf8\<close>: the reader of one character and the conversions, each a pass that measures and a pass that writes, with indices and
    lengths that wrap in 32 bits. \<open>Nss_Utf8_Char\<close>: UTF-8 as a function on codes (\<open>utf8\<close>), and the reader as its inverse.
    \<open>Nss_Utf8_Decode\<close> and \<open>Nss_Utf8_Encode\<close>: the locales \<open>from_utf8\<close> and \<open>to_utf8\<close>, the laws of the two passes with what they make of a
    whole input, interpreted on the conversions to and from UCS-4, UTF-16 and ISO 8859-1. \<open>Nss_Utf8_Spec\<close>: the properties. Inputs are
    bounded by a gigabyte, so that no length wraps.
  \<^item> \<open>Nss_Base_Utf8\<close>, \<open>Nss_Base_Spec\<close>: comparing, measuring and copying UTF-8 strings; the form in which printable strings are
    compared; buffers of fixed size.

  Formatted output (\<open>nsprpub/pr/src/io/prprf.c\<close>).
  \<^item> \<open>Pr_Printf\<close>: the formatting routine \<open>dosprintf\<close> with numbered arguments, on a stuffing routine that is an argument as in the code; the
    three stuffing routines and the printers. \<open>Pr_Printf_Text\<close>: the locale \<open>stuffer\<close>, the contract of a stuffing routine, and in it the
    simulation of every operation by a run that only collects the text.
  \<^item> \<open>Pr_Printf_Spec\<close>: the locale interpreted on the fixed buffer, the growing buffer and the callback, and the properties of the
    printers. \<open>Pr_Printf_Format\<close>, \<open>Pr_Printf_Pieces\<close>: formats as lists of pieces with a text that is said directly (digits,
    padding, sign, precision), and the theorem that \<open>dosprintf\<close> terminates on them with that text.

  Base64 in NSS (\<open>security/nss/lib/util/nssb64e.c\<close>, \<open>nssb64d.c\<close>, \<open>SECITEM_AllocItem\<close> of \<open>secitem.c\<close>).
  \<^item> \<open>Nss_Base64\<close>: the encoder and the decoder, which work on a stream of pieces and give their output to a function, and are used on
    one buffer too; the item and string functions above them.
  \<^item> \<open>Nss_Base64_Enc\<close>: tokens and lines; the locale \<open>token_sink\<close>, the contract of the place the tokens go to, and in it what one piece and the flush do
    (with the bytes that wait between pieces), interpreted on the output function and on the buffer. \<open>Nss_Base64_Enc_Spec\<close>: the properties
    of the encoder, with the exact size of its text.
  \<^item> \<open>Nss_Base64_Dec\<close>: the token decoders are those of \<open>Pl_Base64\<close>; the loops over the significant characters, and what a call and the
    flush make of them (\<open>outcome\<close>, \<open>flushed\<close>). \<open>Nss_Base64_Dec_Spec\<close>: which texts are accepted, in one call and in pieces, and the round trip.
    Lengths are bounded as the theorems say, so that no size wraps.

  Loops are recursion on the data where it is structural, and partial functions into \<open>option\<close> where it is not; the
  probing and the counting loops that need not end take fuel equal to the number of their steps at most (the size of the table, the number of codes of a cell), and the theorems say that it is enough or that
  the loop does not end.

  Not modelled, and why: the C++, JavaScript and XUL parts (the library covers C); NSPR's threads, I/O and
  sockets (system calls); vendored code (jpeg, png, zlib, expat, dtoa, Berkeley DB, cairo, SQLite); the cryptography of NSS and
  the JavaScript engine, each a development of its own; arenas, option parsing, the parsing and formatting of dates,
  NSS's DER utilities, type libraries and the portable registry, left for later extensions; floating-point functions.
\<close>

end
